(* ===== verification/Prelude.thy ===== *)
theory Prelude
  imports Main "HOL-Library.Word" "HOL-Library.Multiset"
begin

text \<open>
  What every component theory shares: the machine types of the C++ sources, the addresses of
  the pointer-level models, the collections the component proofs extend, and generic facts on
  lists and multisets.
\<close>

section \<open>Types\<close>

text \<open>\<open>size_t\<close> and \<open>ACE_UINT64\<close> on a 64-bit target.\<close>

type_synonym u8 = "8 word"
type_synonym u16 = "16 word"
type_synonym u32 = "32 word"
type_synonym u64 = "64 word"
type_synonym size_t = "64 word"

text \<open>A pointer to an object of a store: \<open>None\<close> is the null pointer.\<close>

type_synonym addr = nat
type_synonym ptr = "addr option"

text \<open>The value \<open>static_cast<int>\<close> gives for a \<open>size_t\<close>.\<close>

definition int_of_size :: "size_t \<Rightarrow> int" where
  "int_of_size n = sint (ucast n :: u32)"

lemma sint_small:
  assumes "uint w < 2 ^ 63"
  shows "sint (w :: u64) = uint w"
proof -
  have "- (2 ^ 63) \<le> (0 :: int)" by simp
  then have "- (2 ^ 63) \<le> uint w" using uint_ge_0 [of w] by (rule order_trans)
  with assms show ?thesis
    by (subst sint_uint) (rule signed_take_bit_int_eq_self; simp)
qed

lemma unat_u64_less: "unat (w :: u64) < 2 ^ 64"
proof -
  have "unat w < 2 ^ LENGTH(64)" by (rule unsigned_less)
  then show ?thesis by simp
qed

lemma unat_of_nat_u64: "n < 2 ^ 64 \<Longrightarrow> unat (of_nat n :: u64) = n"
  by (simp add: unat_of_nat take_bit_nat_eq_self)

lemma unat_add_u64: "unat a + unat b < 2 ^ 64 \<Longrightarrow> unat (a + b :: u64) = unat a + unat b"
  by (simp add: unat_word_ariths)

section \<open>Collections\<close>

named_theorems inv_simps \<open>unfolding rules of the components' invariants\<close>
named_theorems frame \<open>what an operation leaves unchanged\<close>

section \<open>Lists\<close>

lemma last_opt_snoc [simp]: "(if xs @ [x] = [] then p else Some (last (xs @ [x]))) = Some x"
  by simp

lemma nth_update_other [simp]: "i \<noteq> j \<Longrightarrow> xs[i := x] ! j = xs ! j"
  by simp

lemma sum_list_remove1:
  fixes f :: "'a \<Rightarrow> 'b::ab_group_add"
  shows "x \<in> set xs \<Longrightarrow> sum_list (map f (remove1 x xs)) = sum_list (map f xs) - f x"
  by (induction xs) auto

lemma window_write:
  assumes "r \<le> w" and "w + length b \<le> length base"
  shows "take (w + length b - r) (drop r (take w base @ b @ rest)) = take (w - r) (drop r base) @ b"
proof -
  have "length (take (w - r) (drop r base)) = w - r" using assms by simp
  moreover have "drop r (take w base @ b @ rest) = take (w - r) (drop r base) @ b @ rest"
    using assms by (simp add: drop_take)
  ultimately show ?thesis using assms by simp
qed

lemma find_rev_split:
  assumes "find P (rev xs) = Some x"
  shows "\<exists>ys zs. xs = ys @ x # zs \<and> P x \<and> (\<forall>z \<in> set zs. \<not> P z)"
proof -
  from assms obtain i where i: "i < length (rev xs)" "rev xs ! i = x" "P x"
    and below: "\<forall>j<i. \<not> P (rev xs ! j)"
    by (auto simp: find_Some_iff)
  have "rev xs = take i (rev xs) @ x # drop (Suc i) (rev xs)"
    using i by (metis id_take_nth_drop)
  then have "xs = rev (drop (Suc i) (rev xs)) @ x # rev (take i (rev xs))"
    by (metis append.assoc append_Cons append_Nil rev.simps(2) rev_append rev_rev_ident)
  moreover have "\<forall>z \<in> set (take i (rev xs)). \<not> P z"
    using below i(1) by (auto simp: in_set_conv_nth)
  ultimately show ?thesis using i(3) by (metis set_rev)
qed

end
