(* ===== verification/Linked_List.thy ===== *)
theory Linked_List
  imports Prelude
begin

text \<open>
  Doubly linked lists in a store whose \<open>next\<close> and \<open>prev\<close> fields are two maps from
  addresses to pointers, one per field, so that an assignment to one field leaves the other
  alone. \<open>dll nx pv p xs n\<close> says that the nodes \<open>xs\<close> are linked in this order, that
  the first points back to \<open>p\<close> and the last points on to \<open>n\<close>. The message queues and the
  hash buckets use it; the lemmas here are about splitting, joining and the assignments that
  touch no node of a segment.
\<close>

definition first_ptr :: "'a list \<Rightarrow> 'a option \<Rightarrow> 'a option" where
  "first_ptr xs n = (case xs of [] \<Rightarrow> n | x # _ \<Rightarrow> Some x)"

definition last_ptr :: "'a option \<Rightarrow> 'a list \<Rightarrow> 'a option" where
  "last_ptr p xs = (if xs = [] then p else Some (last xs))"

primrec dll :: "('a \<Rightarrow> 'a option) \<Rightarrow> ('a \<Rightarrow> 'a option) \<Rightarrow> 'a option \<Rightarrow> 'a list \<Rightarrow> 'a option \<Rightarrow> bool" where
  "dll nx pv p [] n = True"
| "dll nx pv p (x # xs) n = (pv x = p \<and> nx x = first_ptr xs n \<and> dll nx pv (Some x) xs n)"

text \<open>A singly linked path, for the chains a caller passes in.\<close>

primrec path :: "('a \<Rightarrow> 'a option) \<Rightarrow> 'a list \<Rightarrow> 'a option \<Rightarrow> bool" where
  "path nx [] n = True"
| "path nx (x # xs) n = (nx x = first_ptr xs n \<and> path nx xs n)"

lemma first_ptr_simps [simp]:
  "first_ptr [] n = n" "first_ptr (x # xs) n = Some x"
  by (simp_all add: first_ptr_def)

lemma last_ptr_simps [simp]:
  "last_ptr p [] = p" "last_ptr p (xs @ [x]) = Some x" "last_ptr p (x # xs) = last_ptr (Some x) xs"
  by (simp_all add: last_ptr_def)

lemma first_ptr_append [simp]: "first_ptr (xs @ ys) n = first_ptr xs (first_ptr ys n)"
  by (cases xs) auto

lemma last_ptr_append [simp]: "last_ptr p (xs @ ys) = last_ptr (last_ptr p xs) ys"
  by (simp add: last_ptr_def)

lemma first_ptr_None [simp]: "first_ptr xs None = None \<longleftrightarrow> xs = []"
  by (cases xs) auto

lemma last_ptr_None [simp]: "last_ptr None xs = None \<longleftrightarrow> xs = []"
  by (simp add: last_ptr_def)

lemma first_ptr_Some_iff: "first_ptr xs None = Some x \<longleftrightarrow> (\<exists>ys. xs = x # ys)"
  by (cases xs) auto

lemma last_ptr_Some_iff: "last_ptr None xs = Some x \<longleftrightarrow> (\<exists>ys. xs = ys @ [x])"
  by (cases xs rule: rev_cases) auto

lemma dll_append [simp]:
  "dll nx pv p (xs @ ys) n \<longleftrightarrow> dll nx pv p xs (first_ptr ys n) \<and> dll nx pv (last_ptr p xs) ys n"
  by (induction xs arbitrary: p) auto

lemma dll_next_upd [simp]: "a \<notin> set xs \<Longrightarrow> dll (nx(a := v)) pv p xs n = dll nx pv p xs n"
  by (induction xs arbitrary: p) auto

lemma dll_prev_upd [simp]: "a \<notin> set xs \<Longrightarrow> dll nx (pv(a := v)) p xs n = dll nx pv p xs n"
  by (induction xs arbitrary: p) auto

lemma dll_cong:
  "(\<And>a. a \<in> set xs \<Longrightarrow> nx a = nx' a) \<Longrightarrow> (\<And>a. a \<in> set xs \<Longrightarrow> pv a = pv' a)
    \<Longrightarrow> dll nx pv p xs n = dll nx' pv' p xs n"
  by (induction xs arbitrary: p) auto

lemma dll_snoc: "dll nx pv p (xs @ [x]) n \<longleftrightarrow> dll nx pv p xs (Some x) \<and> pv x = last_ptr p xs \<and> nx x = n"
  by simp

text \<open>Redirecting the last node's \<open>next\<close> and the first node's \<open>prev\<close>.\<close>

lemma dll_redirect_next:
  assumes "dll nx pv p (xs @ [t]) n" and "t \<notin> set xs"
  shows "dll (nx(t := m)) pv p (xs @ [t]) m"
  using assms by simp

lemma dll_redirect_prev:
  assumes "dll nx pv p (x # xs) n" and "x \<notin> set xs"
  shows "dll nx (pv(x := q)) q (x # xs) n"
  using assms by simp

lemma dll_path: "dll nx pv p xs n \<Longrightarrow> path nx xs n"
  by (induction xs arbitrary: p) auto

lemma path_next_upd [simp]: "a \<notin> set xs \<Longrightarrow> path (nx(a := v)) xs n = path nx xs n"
  by (induction xs) auto

section \<open>Searches along the links\<close>

text \<open>
  A loop that follows \<open>prev\<close> (or \<open>next\<close>) until it meets a node that satisfies a
  predicate or the null pointer. It need not end on a cyclic store: \<open>None\<close> is "does not
  return".
\<close>

partial_function (option) find_along :: "('a \<Rightarrow> 'a option) \<Rightarrow> ('a \<Rightarrow> bool) \<Rightarrow> 'a option \<Rightarrow> 'a option option" where
  "find_along link P p =
     (case p of None \<Rightarrow> Some None
      | Some x \<Rightarrow> if P x then Some (Some x) else find_along link P (link x))"

lemma find_along_simps [simp]:
  "find_along link P None = Some None"
  "find_along link P (Some x) = (if P x then Some (Some x) else find_along link P (link x))"
  by (simp_all add: find_along.simps)

lemma find_along_prev:
  "dll nx pv None xs n \<Longrightarrow> find_along pv P (last_ptr None xs) = Some (find P (rev xs))"
  by (induction xs arbitrary: n rule: rev_induct) auto

lemma find_along_next:
  "path nx xs None \<Longrightarrow> find_along nx P (first_ptr xs None) = Some (find P xs)"
  by (induction xs) auto

section \<open>Circular lists\<close>

text \<open>A list closed by a dummy node \<open>h\<close> that is before its first and behind its last node.\<close>

definition circ :: "('a \<Rightarrow> 'a option) \<Rightarrow> ('a \<Rightarrow> 'a option) \<Rightarrow> 'a \<Rightarrow> 'a list \<Rightarrow> bool" where
  "circ nx pv h xs \<longleftrightarrow> distinct (h # xs) \<and> dll nx pv (last_ptr (Some h) xs) (h # xs) (Some h)"

lemma circ_empty: "circ nx pv h [] \<longleftrightarrow> nx h = Some h \<and> pv h = Some h"
  by (auto simp: circ_def)

lemma circ_head: "circ nx pv h xs \<Longrightarrow> nx h = first_ptr xs (Some h)" "circ nx pv h xs \<Longrightarrow> pv h = last_ptr (Some h) xs"
  by (simp_all add: circ_def)

lemma circ_cong:
  assumes "\<And>a. a \<in> set (h # xs) \<Longrightarrow> nx' a = nx a" and "\<And>a. a \<in> set (h # xs) \<Longrightarrow> pv' a = pv a"
  shows "circ nx' pv' h xs = circ nx pv h xs"
proof -
  have "dll nx' pv' p (h # xs) n = dll nx pv p (h # xs) n" for p n
    by (rule dll_cong) (use assms in simp_all)
  then show ?thesis by (simp only: circ_def)
qed

lemma circ_next: "circ nx pv h (ys @ a # zs) \<Longrightarrow> nx a = first_ptr zs (Some h)"
  by (simp add: circ_def)

lemma circ_prev: "circ nx pv h (ys @ a # zs) \<Longrightarrow> pv a = last_ptr (Some h) ys"
  by (simp add: circ_def)

lemma circ_insert:
  assumes c: "circ nx pv h (ys @ zs)" and a: "a \<notin> set (h # ys @ zs)"
  defines "p \<equiv> last (h # ys)" and "s \<equiv> hd (zs @ [h])"
  shows "nx p = Some s" "circ (nx(a := Some s, p := Some a)) (pv(a := Some p, s := Some a)) h (ys @ a # zs)"
proof -
  show "nx p = Some s"
    using c by (cases ys rule: rev_cases; cases zs) (auto simp: circ_def p_def s_def)
  show "circ (nx(a := Some s, p := Some a)) (pv(a := Some p, s := Some a)) h (ys @ a # zs)"
    using c a by (cases ys rule: rev_cases; cases zs) (auto simp: circ_def p_def s_def)
qed

lemma circ_remove:
  assumes c: "circ nx pv h (ys @ a # zs)"
  defines "p \<equiv> last (h # ys)" and "s \<equiv> hd (zs @ [h])"
  shows "pv a = Some p" "nx a = Some s" "p \<noteq> a" "s \<noteq> a"
    "circ (nx(p := Some s, a := x)) (pv(s := Some p, a := y)) h (ys @ zs)"
proof -
  show "pv a = Some p" "nx a = Some s" "p \<noteq> a" "s \<noteq> a"
    using c by (cases ys rule: rev_cases; cases zs; auto simp: circ_def p_def s_def)+
  show "circ (nx(p := Some s, a := x)) (pv(s := Some p, a := y)) h (ys @ zs)"
    using c by (cases ys rule: rev_cases; cases zs) (auto simp: circ_def p_def s_def)
qed

end
