(* ===== verification/Message_Block.thy ===== *)
theory Message_Block
  imports Prelude
begin

text \<open>
  \<open>ACE_Data_Block\<close> and \<open>ACE_Message_Block\<close> (ACE/ace/Message_Block.cpp, .inl). Data
  blocks live in a store and are shared by reference counting; a message is the list of the
  message blocks of its \<open>cont_\<close> chain, each with its own read and write offset into its data
  block. A result \<open>None\<close> is undefined behaviour: a null or freed data block, an access
  outside a buffer, a failed \<open>ACE_ASSERT\<close>. Locks and allocators are not modelled; the outcome
  of an allocation is an argument.
\<close>

section \<open>Data\<close>

record data_block =
  db_base :: "u8 list"
  db_cur_size :: size_t
  db_max_size :: size_t
  db_dont_delete :: bool
  db_refcount :: int

type_synonym store = "addr \<Rightarrow> data_block option"

record message_block =
  mb_rd_ptr :: size_t
  mb_wr_ptr :: size_t
  mb_data_block :: ptr
  mb_dont_delete :: bool
  mb_priority :: u64

definition get_db :: "store \<Rightarrow> message_block \<Rightarrow> data_block option" where
  "get_db st mb = (case mb_data_block mb of None \<Rightarrow> None | Some a \<Rightarrow> st a)"

definition mb_length :: "message_block \<Rightarrow> size_t" where
  "mb_length mb = mb_wr_ptr mb - mb_rd_ptr mb"

definition mb_space :: "data_block \<Rightarrow> message_block \<Rightarrow> size_t" where
  "mb_space d mb = db_cur_size d - mb_wr_ptr mb"

text \<open>\<open>memcpy\<close> into a buffer, undefined outside it.\<close>

definition mem_write :: "u8 list \<Rightarrow> nat \<Rightarrow> u8 list \<Rightarrow> u8 list option" where
  "mem_write base off bytes =
     (if off + length bytes \<le> length base
      then Some (take off base @ bytes @ drop (off + length bytes) base) else None)"

section \<open>Operations on one block\<close>

definition mb_copy :: "store \<Rightarrow> message_block \<Rightarrow> u8 list \<Rightarrow> (int \<times> store \<times> message_block) option" where
  "mb_copy st mb buf =
     (case mb_data_block mb of None \<Rightarrow> None
      | Some a \<Rightarrow> (case st a of None \<Rightarrow> None
      | Some d \<Rightarrow>
          (let n = of_nat (length buf) in
           if mb_space d mb < n then Some (-1, st, mb)
           else case mem_write (db_base d) (unat (mb_wr_ptr mb)) buf of None \<Rightarrow> None
             | Some b \<Rightarrow> Some (0, st(a \<mapsto> d\<lparr>db_base := b\<rparr>),
                               mb\<lparr>mb_wr_ptr := mb_wr_ptr mb + n\<rparr>))))"

text \<open>The overload for C strings copies the terminating zero as well.\<close>

definition mb_copy_string :: "store \<Rightarrow> message_block \<Rightarrow> u8 list \<Rightarrow> (int \<times> store \<times> message_block) option" where
  "mb_copy_string st mb str = mb_copy st mb (takeWhile (\<lambda>c. c \<noteq> 0) str @ [0])"

definition mb_crunch :: "store \<Rightarrow> message_block \<Rightarrow> (int \<times> store \<times> message_block) option" where
  "mb_crunch st mb =
     (if mb_rd_ptr mb \<noteq> 0 then
        if mb_rd_ptr mb > mb_wr_ptr mb then Some (-1, st, mb)
        else case mb_data_block mb of None \<Rightarrow> None
          | Some a \<Rightarrow> (case st a of None \<Rightarrow> None
          | Some d \<Rightarrow>
              (let len = mb_length mb;
                   src = take (unat len) (drop (unat (mb_rd_ptr mb)) (db_base d))
               in if length src < unat len then None
                  else case mem_write (db_base d) 0 src of None \<Rightarrow> None
                    | Some b \<Rightarrow> Some (0, st(a \<mapsto> d\<lparr>db_base := b\<rparr>),
                                      mb\<lparr>mb_rd_ptr := 0, mb_wr_ptr := len\<rparr>)))
      else Some (0, st, mb))"

text \<open>
  \<open>ACE_Data_Block::size (size_t)\<close>: \<open>buf\<close> is what \<open>malloc\<close> returned for the
  resized buffer, with its unspecified initial contents, \<open>None\<close> when it failed.
\<close>

definition db_resize :: "data_block \<Rightarrow> size_t \<Rightarrow> u8 list option \<Rightarrow> (int \<times> data_block) option" where
  "db_resize d len buf =
     (if len \<le> db_max_size d then Some (0, d\<lparr>db_cur_size := len\<rparr>)
      else case buf of None \<Rightarrow> Some (-1, d)
        | Some b \<Rightarrow>
            (if length (db_base d) < unat (db_cur_size d) then None
             else case mem_write b 0 (take (unat (db_cur_size d)) (db_base d)) of None \<Rightarrow> None
               | Some b' \<Rightarrow> Some (0, d\<lparr>db_dont_delete := False, db_max_size := len,
                                      db_cur_size := len, db_base := b'\<rparr>)))"

section \<open>Operations on a chain\<close>

text \<open>The \<open>size ()\<close> and \<open>length ()\<close> of every block of the chain.\<close>

fun chain_extents :: "store \<Rightarrow> message_block list \<Rightarrow> (size_t \<times> size_t) list option" where
  "chain_extents st [] = Some []"
| "chain_extents st (mb # cont) =
     (case get_db st mb of None \<Rightarrow> None
      | Some d \<Rightarrow> map_option (\<lambda>es. (db_cur_size d, mb_length mb) # es) (chain_extents st cont))"

text \<open>\<open>total_size_and_length\<close> adds to the two counters it is given.\<close>

fun total_size_and_length :: "(size_t \<times> size_t) list \<Rightarrow> size_t \<times> size_t \<Rightarrow> size_t \<times> size_t" where
  "total_size_and_length [] acc = acc"
| "total_size_and_length ((sz, len) # cont) (bytes, lens) =
     total_size_and_length cont (bytes + sz, lens + len)"

definition db_release_no_delete :: "store \<Rightarrow> addr \<Rightarrow> (bool \<times> store) option" where
  "db_release_no_delete st a =
     (case st a of None \<Rightarrow> None
      | Some d \<Rightarrow>
          (if db_refcount d > 0
           then Some (db_refcount d - 1 = 0, st(a \<mapsto> d\<lparr>db_refcount := db_refcount d - 1\<rparr>))
           else None))"

text \<open>
  \<open>ACE_Message_Block::release_i\<close> of one block (its \<open>cont_\<close> already cleared) and the
  destruction of the data block by its caller when the count fell to zero.
\<close>

definition release_one :: "store \<Rightarrow> message_block \<Rightarrow> store option" where
  "release_one st mb =
     (case mb_data_block mb of None \<Rightarrow> Some st
      | Some a \<Rightarrow>
          (if mb_dont_delete mb then Some st
           else case db_release_no_delete st a of None \<Rightarrow> None
             | Some (destroy, st') \<Rightarrow> Some (if destroy then st'(a := None) else st')))"

fun release_conts :: "store \<Rightarrow> message_block list \<Rightarrow> store option" where
  "release_conts st [] = Some st"
| "release_conts st (mb # cont) =
     (case release_one st mb of None \<Rightarrow> None | Some st' \<Rightarrow> release_conts st' cont)"

text \<open>\<open>release\<close> frees the continuation first, then the block itself.\<close>

fun mb_release :: "store \<Rightarrow> message_block list \<Rightarrow> store option" where
  "mb_release st [] = Some st"
| "mb_release st (mb # cont) =
     (case release_conts st cont of None \<Rightarrow> None | Some st' \<Rightarrow> release_one st' mb)"

definition db_duplicate :: "store \<Rightarrow> addr \<Rightarrow> store option" where
  "db_duplicate st a =
     (case st a of None \<Rightarrow> None
      | Some d \<Rightarrow> Some (st(a \<mapsto> d\<lparr>db_refcount := db_refcount d + 1\<rparr>)))"

text \<open>
  The loop of \<open>duplicate ()\<close>. \<open>oks\<close> says for each block whether its allocation
  succeeds (a missing entry is a success); \<open>done\<close> is the duplicated prefix \<open>nb_top\<close>. A
  failed allocation releases the prefix and returns the null pointer, here \<open>None\<close> in the
  first component.
\<close>

fun duplicate_loop :: "store \<Rightarrow> message_block list \<Rightarrow> message_block list \<Rightarrow> bool list
    \<Rightarrow> (message_block list option \<times> store) option" where
  "duplicate_loop st nb [] oks = Some (Some nb, st)"
| "duplicate_loop st nb (cur # cont) oks =
     (if oks \<noteq> [] \<and> \<not> hd oks
      then map_option (\<lambda>st'. (None, st')) (mb_release st nb)
      else case mb_data_block cur of None \<Rightarrow> None
        | Some a \<Rightarrow> (case db_duplicate st a of None \<Rightarrow> None
          | Some st' \<Rightarrow> duplicate_loop st'
              (nb @ [cur\<lparr>mb_dont_delete := False\<rparr>]) cont (tl oks)))"

definition mb_duplicate :: "store \<Rightarrow> message_block list \<Rightarrow> bool list
    \<Rightarrow> (message_block list option \<times> store) option" where
  "mb_duplicate st ms oks = duplicate_loop st [] ms oks"

section \<open>Well-formed blocks and their contents\<close>

definition wf_block :: "data_block \<Rightarrow> message_block \<Rightarrow> bool" where
  "wf_block d mb \<longleftrightarrow> mb_rd_ptr mb \<le> mb_wr_ptr mb \<and> mb_wr_ptr mb \<le> db_cur_size d
     \<and> db_cur_size d \<le> db_max_size d \<and> length (db_base d) = unat (db_max_size d)"

definition content :: "data_block \<Rightarrow> message_block \<Rightarrow> u8 list" where
  "content d mb = take (unat (mb_length mb)) (drop (unat (mb_rd_ptr mb)) (db_base d))"

lemma unat_diff: "(b :: size_t) \<le> a \<Longrightarrow> unat (a - b) = unat a - unat b"
  by (simp add: unat_sub_if_size word_le_nat_alt)

lemma mem_write_in: "off + length bs \<le> length base
    \<Longrightarrow> mem_write base off bs = Some (take off base @ bs @ drop (off + length bs) base)"
  by (simp add: mem_write_def)

lemma wf_block_nat:
  "wf_block d mb \<longleftrightarrow> unat (mb_rd_ptr mb) \<le> unat (mb_wr_ptr mb) \<and> unat (mb_wr_ptr mb) \<le> unat (db_cur_size d)
     \<and> unat (db_cur_size d) \<le> unat (db_max_size d) \<and> length (db_base d) = unat (db_max_size d)"
  by (simp add: wf_block_def word_le_nat_alt)

lemma content_wf:
  "wf_block d mb \<Longrightarrow> content d mb
     = take (unat (mb_wr_ptr mb) - unat (mb_rd_ptr mb)) (drop (unat (mb_rd_ptr mb)) (db_base d))"
  by (simp add: content_def mb_length_def unat_diff wf_block_def)

section \<open>Reference counts\<close>

text \<open>How many of the blocks of a chain own a reference to the data block at \<open>a\<close>.\<close>

definition refs :: "addr \<Rightarrow> message_block list \<Rightarrow> int" where
  "refs a ms = int (length (filter (\<lambda>m. mb_data_block m = Some a \<and> \<not> mb_dont_delete m) ms))"

definition add_refs :: "store \<Rightarrow> message_block list \<Rightarrow> store" where
  "add_refs st ms = (\<lambda>a. map_option (\<lambda>d. d\<lparr>db_refcount := db_refcount d + refs a ms\<rparr>) (st a))"

definition drop_refs :: "store \<Rightarrow> message_block list \<Rightarrow> store" where
  "drop_refs st ms = (\<lambda>a. case st a of None \<Rightarrow> None
     | Some d \<Rightarrow> if refs a ms > 0 \<and> db_refcount d = refs a ms then None
                 else Some (d\<lparr>db_refcount := db_refcount d - refs a ms\<rparr>))"

text \<open>Every reference of the chain is counted.\<close>

definition counted :: "store \<Rightarrow> message_block list \<Rightarrow> bool" where
  "counted st ms \<longleftrightarrow>
     (\<forall>a. refs a ms > 0 \<longrightarrow> (\<exists>d. st a = Some d \<and> refs a ms \<le> db_refcount d))"

lemma refs_simps [simp]:
  "refs a [] = 0"
  "refs a (m # ms) = (if mb_data_block m = Some a \<and> \<not> mb_dont_delete m then 1 else 0) + refs a ms"
  "refs a (ms @ ms') = refs a ms + refs a ms'"
  by (simp_all add: refs_def)

lemma refs_nonneg: "0 \<le> refs a ms"
  by (simp add: refs_def)

lemma db_refcount_id [simp]: "d\<lparr>db_refcount := db_refcount d\<rparr> = d"
  by simp

lemma add_refs_Nil [simp]: "add_refs st [] = st"
  by (auto simp: add_refs_def option.map_ident fun_eq_iff)

lemma release_one_drop:
  assumes "counted st (m # ms)"
  shows "release_one st m = Some (drop_refs st [m])" and "counted (drop_refs st [m]) ms"
    and "drop_refs (drop_refs st [m]) ms = drop_refs st (m # ms)"
proof -
  note c = assms [unfolded counted_def refs_simps]
  consider (none) "mb_data_block m = None" | (keep) "mb_dont_delete m"
    | (own) a where "mb_data_block m = Some a" "\<not> mb_dont_delete m"
    by blast
  then have "release_one st m = Some (drop_refs st [m]) \<and> counted (drop_refs st [m]) ms
    \<and> drop_refs (drop_refs st [m]) ms = drop_refs st (m # ms)"
  proof cases
    case own
    have "0 < 1 + refs a ms" using refs_nonneg [of a ms] by linarith
    then obtain d where d: "st a = Some d" "1 + refs a ms \<le> db_refcount d"
      using c own by (auto dest: spec [of _ a])
    have "counted (drop_refs st [m]) ms" unfolding counted_def
    proof (intro allI impI)
      fix b assume "refs b ms > 0"
      then show "\<exists>e. drop_refs st [m] b = Some e \<and> refs b ms \<le> db_refcount e"
        using c own d by (cases "b = a") (auto simp: drop_refs_def dest: spec [of _ b])
    qed
    moreover have "drop_refs (drop_refs st [m]) ms b = drop_refs st (m # ms) b" for b
      using own d refs_nonneg [of b ms] \<open>0 < 1 + refs a ms\<close>
      by (cases "b = a"; cases "st b") (auto simp: drop_refs_def)
    moreover have "release_one st m = Some (drop_refs st [m])"
      using own d refs_nonneg [of a ms]
      by (auto simp: release_one_def db_release_no_delete_def drop_refs_def fun_eq_iff split: option.splits)
    ultimately show ?thesis by (simp add: fun_eq_iff)
  next
    case none
    then have "drop_refs st [m] = st" by (auto simp: drop_refs_def fun_eq_iff split: option.splits)
    with none c show ?thesis
      by (auto simp: release_one_def counted_def) (auto simp: drop_refs_def fun_eq_iff split: option.splits)
  next
    case keep
    then have "drop_refs st [m] = st" by (auto simp: drop_refs_def fun_eq_iff split: option.splits)
    with keep c show ?thesis
      by (auto simp: release_one_def counted_def split: option.splits) (auto simp: drop_refs_def fun_eq_iff split: option.splits)
  qed
  then show "release_one st m = Some (drop_refs st [m])" "counted (drop_refs st [m]) ms"
    "drop_refs (drop_refs st [m]) ms = drop_refs st (m # ms)" by blast+
qed

lemma release_conts_drop: "counted st ms \<Longrightarrow> release_conts st ms = Some (drop_refs st ms)"
proof (induction ms arbitrary: st)
  case Nil
  have "drop_refs st [] = st" by (auto simp: drop_refs_def fun_eq_iff split: option.splits)
  then show ?case by simp
next
  case (Cons m ms)
  show ?case using Cons.IH release_one_drop [OF Cons.prems] by simp
qed

lemma release_conts_append:
  "release_conts st (xs @ ys) = (case release_conts st xs of None \<Rightarrow> None | Some st' \<Rightarrow> release_conts st' ys)"
  by (induction xs arbitrary: st) (auto split: option.splits)

lemma mb_release_conts: "mb_release st (mb # cont) = release_conts st (cont @ [mb])"
  by (auto simp: release_conts_append split: option.splits)

lemma mb_release_drop: "counted st ms \<Longrightarrow> mb_release st ms = Some (drop_refs st ms)"
proof (cases ms)
  case Nil
  have "drop_refs st [] = st" by (auto simp: drop_refs_def fun_eq_iff split: option.splits)
  then show ?thesis using Nil by simp
next
  case (Cons mb cont)
  moreover assume "counted st ms"
  ultimately have "counted st (cont @ [mb])" "drop_refs st (cont @ [mb]) = drop_refs st ms"
    by (auto simp: counted_def drop_refs_def fun_eq_iff add.commute split: option.splits)
  then show ?thesis by (simp only: Cons mb_release_conts release_conts_drop)
qed

text \<open>The data blocks a chain refers to are alive.\<close>

definition live :: "store \<Rightarrow> message_block list \<Rightarrow> bool" where
  "live st ms \<longleftrightarrow> (\<forall>m \<in> set ms. \<exists>a d. mb_data_block m = Some a \<and> st a = Some d \<and> db_refcount d > 0)"

definition owned :: "message_block list \<Rightarrow> message_block list" where
  "owned ms = map (\<lambda>m. m\<lparr>mb_dont_delete := False\<rparr>) ms"

lemma release_add_refs:
  assumes "live st nb" and "\<forall>m \<in> set nb. \<not> mb_dont_delete m"
  shows "mb_release (add_refs st nb) nb = Some st"
proof -
  have alive: "\<exists>d. st a = Some d \<and> db_refcount d > 0" if "refs a nb > 0" for a
    using that assms by (auto simp: refs_def live_def filter_empty_conv)
  have "counted (add_refs st nb) nb"
    using alive by (fastforce simp: counted_def add_refs_def)
  moreover have "drop_refs (add_refs st nb) nb = st"
  proof
    fix a show "drop_refs (add_refs st nb) nb a = st a"
      using alive [of a] by (cases "st a") (auto simp: drop_refs_def add_refs_def)
  qed
  ultimately show ?thesis by (simp add: mb_release_drop)
qed

lemma live_add_refs_dup:
  "live st (cur # cont) \<Longrightarrow> \<exists>a. mb_data_block cur = Some a
     \<and> db_duplicate (add_refs st nb) a = Some (add_refs st (nb @ [cur\<lparr>mb_dont_delete := False\<rparr>]))"
  by (auto simp: live_def db_duplicate_def add_refs_def fun_eq_iff)

lemma duplicate_loop_spec:
  assumes "live st (nb @ ms)" and "\<forall>m \<in> set nb. \<not> mb_dont_delete m"
  shows "duplicate_loop (add_refs st nb) nb ms oks
     = Some (if False \<in> set (take (length ms) oks) then (None, st)
             else (Some (nb @ owned ms), add_refs st (nb @ owned ms)))"
  using assms
proof (induction ms arbitrary: nb oks)
  case Nil
  then show ?case by (simp add: owned_def)
next
  case (Cons cur cont)
  have l: "live st nb" "live st (cur # cont)" "live st ((nb @ [cur\<lparr>mb_dont_delete := False\<rparr>]) @ cont)"
    using Cons.prems(1) by (auto simp: live_def)
  obtain a where a: "mb_data_block cur = Some a"
    "db_duplicate (add_refs st nb) a = Some (add_refs st (nb @ [cur\<lparr>mb_dont_delete := False\<rparr>]))"
    using live_add_refs_dup [OF l(2)] by blast
  have IH: "duplicate_loop (add_refs st (nb @ [cur\<lparr>mb_dont_delete := False\<rparr>])) (nb @ [cur\<lparr>mb_dont_delete := False\<rparr>]) cont oks'
     = Some (if False \<in> set (take (length cont) oks') then (None, st)
             else (Some (nb @ owned (cur # cont)), add_refs st (nb @ owned (cur # cont))))" for oks'
    using Cons.IH [OF l(3)] Cons.prems(2) by (simp add: owned_def)
  show ?case
  proof (cases "oks \<noteq> [] \<and> \<not> hd oks")
    case True
    then show ?thesis using release_add_refs [OF l(1) Cons.prems(2)] by (cases oks) auto
  next
    case False
    then show ?thesis using a IH [of "tl oks"] by (cases oks) auto
  qed
qed

section \<open>Properties\<close>

text \<open>
  \<open>copy\<close> on a well-formed block: when the buffer fits, the contents grow by exactly its
  bytes and the block stays well formed; otherwise the result is -1 and nothing changes.
\<close>

theorem mb_copy_appends:
  assumes "mb_data_block mb = Some a" and "st a = Some d" and "wf_block d mb"
    and "length buf < 2 ^ 64"
  shows "if unat (db_cur_size d) - unat (mb_wr_ptr mb) < length buf
    then mb_copy st mb buf = Some (-1, st, mb)
    else \<exists>d' mb'. mb_copy st mb buf = Some (0, st(a \<mapsto> d'), mb')
      \<and> wf_block d' mb' \<and> content d' mb' = content d mb @ buf"
proof -
  let ?room = "unat (db_cur_size d) - unat (mb_wr_ptr mb)"
  have w: "mb_wr_ptr mb \<le> db_cur_size d" using assms(3) by (simp add: wf_block_def)
  have n: "unat (of_nat (length buf) :: size_t) = length buf"
    using assms(4) by (rule unat_of_nat_u64)
  have less: "mb_space d mb < of_nat (length buf) \<longleftrightarrow> ?room < length buf"
    by (simp add: mb_space_def word_less_nat_alt n unat_diff w)
  show ?thesis
  proof (cases "?room < length buf")
    case True
    then show ?thesis using assms less by (auto simp: mb_copy_def)
  next
    case False
    define d' where "d' = d\<lparr>db_base := take (unat (mb_wr_ptr mb)) (db_base d) @ buf
      @ drop (unat (mb_wr_ptr mb) + length buf) (db_base d)\<rparr>"
    define mb' where "mb' = mb\<lparr>mb_wr_ptr := mb_wr_ptr mb + of_nat (length buf)\<rparr>"
    note wf = assms(3) [unfolded wf_block_nat]
    have fit: "unat (mb_wr_ptr mb) + length buf \<le> unat (db_cur_size d)"
      using False wf by linarith
    have sum: "unat (mb_wr_ptr mb + of_nat (length buf)) = unat (mb_wr_ptr mb) + length buf"
      using fit unat_u64_less [of "db_cur_size d"] n by (subst unat_add_u64) auto
    have "mb_copy st mb buf = Some (0, st(a \<mapsto> d'), mb')"
      using assms less False fit wf
      by (simp add: mb_copy_def mem_write_in d'_def mb'_def)
    moreover have wf': "wf_block d' mb'"
      using wf fit sum by (simp add: wf_block_nat d'_def mb'_def)
    moreover have "content d' mb' = content d mb @ buf"
    proof -
      have le: "unat (mb_rd_ptr mb) \<le> unat (mb_wr_ptr mb)"
        "unat (mb_wr_ptr mb) + length buf \<le> length (db_base d)"
        using wf fit by linarith+
      have fields: "mb_rd_ptr mb' = mb_rd_ptr mb" "unat (mb_wr_ptr mb') = unat (mb_wr_ptr mb) + length buf"
        "db_base d' = take (unat (mb_wr_ptr mb)) (db_base d) @ buf
           @ drop (unat (mb_wr_ptr mb) + length buf) (db_base d)"
        using sum by (simp_all add: d'_def mb'_def)
      show ?thesis unfolding content_wf [OF wf'] content_wf [OF assms(3)] fields
        by (rule window_write [OF le])
    qed
    ultimately show ?thesis using False by auto
  qed
qed

theorem mb_copy_appends_witness:
  "mb_copy (Map.empty(0 \<mapsto> \<lparr>db_base = [1, 2, 0, 0], db_cur_size = 4, db_max_size = 4,
       db_dont_delete = False, db_refcount = 1\<rparr>))
     \<lparr>mb_rd_ptr = 1, mb_wr_ptr = 2, mb_data_block = Some 0, mb_dont_delete = False, mb_priority = 0\<rparr> [7, 8]
   \<noteq> None"
proof -
  let ?d = "\<lparr>db_base = [1, 2, 0, 0], db_cur_size = 4, db_max_size = 4,
    db_dont_delete = False, db_refcount = 1\<rparr>"
  let ?mb = "\<lparr>mb_rd_ptr = 1, mb_wr_ptr = 2, mb_data_block = Some 0, mb_dont_delete = False, mb_priority = 0\<rparr>"
  show ?thesis
    using mb_copy_appends [of ?mb 0 "Map.empty(0 \<mapsto> ?d)" ?d "[7, 8]"]
    by (auto simp: wf_block_def)
qed

text \<open>
  \<open>crunch\<close> on a well-formed block moves the unread bytes to the start of the buffer:
  it succeeds, keeps the contents and the block's form, and leaves the read offset at zero.
\<close>

theorem mb_crunch_keeps_content:
  assumes "mb_data_block mb = Some a" and "st a = Some d" and "wf_block d mb"
  shows "\<exists>d' mb'. (\<exists>st'. mb_crunch st mb = Some (0, st', mb') \<and> st' = st(a \<mapsto> d'))
    \<and> wf_block d' mb' \<and> content d' mb' = content d mb \<and> mb_rd_ptr mb' = 0
    \<and> mb_space d' mb' = mb_space d mb + mb_rd_ptr mb"
proof (cases "mb_rd_ptr mb = 0")
  case True
  then show ?thesis using assms by (intro exI [of _ d] exI [of _ mb]) (auto simp: mb_crunch_def)
next
  case False
  define src where "src = content d mb"
  define d' where "d' = d\<lparr>db_base := src @ drop (length src) (db_base d)\<rparr>"
  define mb' where "mb' = mb\<lparr>mb_rd_ptr := 0, mb_wr_ptr := mb_length mb\<rparr>"
  note wf = assms(3) [unfolded wf_block_nat]
  have le: "mb_rd_ptr mb \<le> mb_wr_ptr mb" using assms(3) by (simp add: wf_block_def)
  have len: "unat (mb_length mb) = unat (mb_wr_ptr mb) - unat (mb_rd_ptr mb)"
    using le by (simp add: mb_length_def unat_diff)
  have src: "length src = unat (mb_length mb)"
    using wf unfolding src_def content_def len length_take length_drop by linarith
  have t: "take (unat (mb_wr_ptr mb) - unat (mb_rd_ptr mb)) (drop (unat (mb_rd_ptr mb)) (db_base d)) = src"
    by (simp add: src_def content_def len)
  have "unat (mb_wr_ptr mb) - unat (mb_rd_ptr mb) \<le> unat (db_max_size d) - unat (mb_rd_ptr mb)"
    using wf by linarith
  then have "mb_crunch st mb = Some (0, st(a \<mapsto> d'), mb')"
    using assms(1,2) False le src wf
    by (simp add: mb_crunch_def Let_def mem_write_in d'_def mb'_def linorder_not_less len t)
  moreover have wf': "wf_block d' mb'"
    using wf src len by (auto simp: wf_block_nat d'_def mb'_def)
  moreover have "content d' mb' = content d mb"
    using wf src len unfolding content_wf [OF wf'] by (simp add: d'_def mb'_def src_def)
  moreover have "mb_space d' mb' = mb_space d mb + mb_rd_ptr mb"
    by (simp add: mb_space_def d'_def mb'_def mb_length_def)
  ultimately show ?thesis by (auto simp: mb'_def)
qed

theorem mb_crunch_keeps_content_witness:
  "mb_crunch (Map.empty(0 \<mapsto> \<lparr>db_base = [1, 2, 3, 0], db_cur_size = 4, db_max_size = 4,
       db_dont_delete = False, db_refcount = 1\<rparr>))
     \<lparr>mb_rd_ptr = 1, mb_wr_ptr = 3, mb_data_block = Some 0, mb_dont_delete = False, mb_priority = 0\<rparr>
   \<noteq> None"
proof -
  let ?d = "\<lparr>db_base = [1, 2, 3, 0], db_cur_size = 4, db_max_size = 4,
    db_dont_delete = False, db_refcount = 1\<rparr>"
  let ?mb = "\<lparr>mb_rd_ptr = 1, mb_wr_ptr = 3, mb_data_block = Some 0, mb_dont_delete = False, mb_priority = 0\<rparr>"
  show ?thesis
    using mb_crunch_keeps_content [of ?mb 0 "Map.empty(0 \<mapsto> ?d)" ?d]
    by (auto simp: wf_block_def)
qed

text \<open>
  (C31) \<open>release\<close> of a chain whose references are counted never goes wrong: every data block
  loses exactly the references the chain held, and is destroyed if and only if these were its
  last ones, so one shared with another message survives.
\<close>

theorem mb_release_counts:
  assumes "counted st ms"
  shows "\<exists>st'. mb_release st ms = Some st'
    \<and> (\<forall>a. st' a = (case st a of None \<Rightarrow> None
         | Some d \<Rightarrow> if refs a ms > 0 \<and> db_refcount d = refs a ms then None
                     else Some (d\<lparr>db_refcount := db_refcount d - refs a ms\<rparr>)))"
  using mb_release_drop [OF assms] by (auto simp: drop_refs_def)

theorem mb_release_counts_witness:
  "\<exists>st'. mb_release (Map.empty(0 \<mapsto> \<lparr>db_base = [], db_cur_size = 0, db_max_size = 0,
       db_dont_delete = False, db_refcount = 2\<rparr>))
     [\<lparr>mb_rd_ptr = 0, mb_wr_ptr = 0, mb_data_block = Some 0, mb_dont_delete = False, mb_priority = 0\<rparr>] = Some st'"
  (is "\<exists>st'. mb_release ?st ?ms = Some st'")
proof -
  have "counted ?st ?ms" by (auto simp: counted_def)
  from mb_release_counts [OF this] show ?thesis by blast
qed

text \<open>
  \<open>duplicate\<close> of a live chain, whichever of its allocations fail: either every
  allocation succeeded, and releasing the duplicate gives back the very same store, or one
  failed and the partial duplicate was already released: no reference is leaked.
\<close>

theorem mb_duplicate_balanced:
  assumes "live st ms"
  shows "\<exists>r st'. mb_duplicate st ms oks = Some (r, st')
    \<and> (case r of None \<Rightarrow> False \<in> set (take (length ms) oks) \<and> st' = st
        | Some dup \<Rightarrow> dup = owned ms \<and> mb_release st' dup = Some st)"
proof -
  have "mb_duplicate st ms oks = Some (if False \<in> set (take (length ms) oks) then (None, st)
     else (Some (owned ms), add_refs st (owned ms)))"
    using duplicate_loop_spec [of st "[]" ms oks] assms by (simp add: mb_duplicate_def)
  moreover have "mb_release (add_refs st (owned ms)) (owned ms) = Some st"
    using assms by (intro release_add_refs) (auto simp: live_def owned_def)
  ultimately show ?thesis by auto
qed

theorem mb_duplicate_balanced_witness:
  "\<exists>r. mb_duplicate (Map.empty(0 \<mapsto> \<lparr>db_base = [], db_cur_size = 0, db_max_size = 0,
       db_dont_delete = False, db_refcount = 1\<rparr>))
     [\<lparr>mb_rd_ptr = 0, mb_wr_ptr = 0, mb_data_block = Some 0, mb_dont_delete = False, mb_priority = 0\<rparr>] [True] = Some r"
  (is "\<exists>r. mb_duplicate ?st ?ms ?oks = Some r")
proof -
  have "live ?st ?ms" by (simp add: live_def)
  from mb_duplicate_balanced [OF this, of ?oks] show ?thesis by blast
qed

end
