(* ===== verification/Time_Value.thy ===== *)
theory Time_Value
  imports Prelude
begin

text \<open>
  \<open>ACE_Time_Value\<close> (ACE/ace/Time_Value.cpp and Time_Value.inl): a pair of seconds and
  microseconds. \<open>time_t\<close> and \<open>suseconds_t\<close> are signed 64-bit integers whose overflow is
  undefined in C++; they are unbounded \<open>int\<close>s here, and the saturating branch of
  \<open>normalize\<close> compares with the limits of the type. \<open>tv_value\<close> is the number of
  microseconds a pair stands for, \<open>tv_normal\<close> the form \<open>normalize\<close> establishes.
\<close>

section \<open>Data and operations\<close>

datatype time_value = Time_Value (tv_sec: int) (tv_usec: int)

abbreviation ONE_SECOND :: int where
  "ONE_SECOND \<equiv> 1000000"

definition time_t_max :: int where
  "time_t_max = 2 ^ 63 - 1"

definition time_t_min :: int where
  "time_t_min = - (2 ^ 63)"

definition normalize_carry :: "bool \<Rightarrow> time_value \<Rightarrow> time_value" where
  "normalize_carry saturate tv =
     (if tv_usec tv \<ge> ONE_SECOND \<or> tv_usec tv \<le> - ONE_SECOND then
        let sec = \<bar>tv_usec tv\<bar> div ONE_SECOND * (if tv_usec tv > 0 then 1 else -1);
            usec = tv_usec tv - sec * ONE_SECOND
        in if saturate \<and> tv_sec tv > 0 \<and> sec > 0 \<and> time_t_max - tv_sec tv < sec
           then Time_Value time_t_max (ONE_SECOND - 1)
           else if saturate \<and> tv_sec tv < 0 \<and> sec < 0 \<and> time_t_min - tv_sec tv > sec
           then Time_Value time_t_min (- ONE_SECOND + 1)
           else Time_Value (tv_sec tv + sec) usec
      else tv)"

definition normalize_sign :: "time_value \<Rightarrow> time_value" where
  "normalize_sign tv =
     (if tv_sec tv \<ge> 1 \<and> tv_usec tv < 0
      then Time_Value (tv_sec tv - 1) (tv_usec tv + ONE_SECOND)
      else if tv_sec tv < 0 \<and> tv_usec tv > 0
      then Time_Value (tv_sec tv + 1) (tv_usec tv - ONE_SECOND)
      else tv)"

definition normalize :: "bool \<Rightarrow> time_value \<Rightarrow> time_value" where
  "normalize saturate tv = normalize_sign (normalize_carry saturate tv)"

text \<open>
  \<open>ACE_Time_Value::set (time_t, suseconds_t)\<close> skips \<open>normalize\<close> for compile-time
  constants that are normal already, where it is the identity.
\<close>

definition tv_set :: "int \<Rightarrow> int \<Rightarrow> time_value" where
  "tv_set sec usec = normalize False (Time_Value sec usec)"

definition tv_max_time :: time_value where
  "tv_max_time = tv_set time_t_max (ONE_SECOND - 1)"

definition tv_gt :: "time_value \<Rightarrow> time_value \<Rightarrow> bool" where
  "tv_gt a b =
     (if tv_sec a > tv_sec b then True
      else if tv_sec a = tv_sec b \<and> tv_usec a > tv_usec b then True else False)"

definition tv_ge :: "time_value \<Rightarrow> time_value \<Rightarrow> bool" where
  "tv_ge a b =
     (if tv_sec a > tv_sec b then True
      else if tv_sec a = tv_sec b \<and> tv_usec a \<ge> tv_usec b then True else False)"

definition tv_lt :: "time_value \<Rightarrow> time_value \<Rightarrow> bool" where
  "tv_lt a b = tv_gt b a"

definition tv_le :: "time_value \<Rightarrow> time_value \<Rightarrow> bool" where
  "tv_le a b = tv_ge b a"

instantiation time_value :: linorder
begin

definition less_time_value :: "time_value \<Rightarrow> time_value \<Rightarrow> bool" where
  "less_time_value a b = tv_lt a b"

definition less_eq_time_value :: "time_value \<Rightarrow> time_value \<Rightarrow> bool" where
  "less_eq_time_value a b = tv_le a b"

instance
proof
  fix a b c :: time_value
  show "(a < b) = (a \<le> b \<and> \<not> b \<le> a)"
    by (auto simp: less_time_value_def tv_lt_def less_eq_time_value_def tv_le_def tv_gt_def tv_ge_def)
  show "a \<le> a"
    by (simp add: less_eq_time_value_def tv_le_def tv_ge_def)
  show "a \<le> b \<Longrightarrow> b \<le> c \<Longrightarrow> a \<le> c"
    by (auto simp: less_eq_time_value_def tv_le_def tv_ge_def split: if_splits)
  show "a \<le> b \<Longrightarrow> b \<le> a \<Longrightarrow> a = b"
    by (auto simp: less_eq_time_value_def tv_le_def tv_ge_def time_value.expand split: if_splits)
  show "a \<le> b \<or> b \<le> a"
    by (auto simp: less_eq_time_value_def tv_le_def tv_ge_def)
qed

end

definition tv_plus :: "time_value \<Rightarrow> time_value \<Rightarrow> time_value" where
  "tv_plus a b =
     normalize False (Time_Value (tv_sec a + tv_sec b) (tv_usec a + tv_usec b))"

definition tv_minus :: "time_value \<Rightarrow> time_value \<Rightarrow> time_value" where
  "tv_minus a b =
     normalize False (Time_Value (tv_sec a - tv_sec b) (tv_usec a - tv_usec b))"

instantiation time_value :: "{zero, plus, minus}"
begin

definition zero_time_value :: time_value where
  "zero_time_value = Time_Value 0 0"

definition plus_time_value :: "time_value \<Rightarrow> time_value \<Rightarrow> time_value" where
  "plus_time_value = tv_plus"

definition minus_time_value :: "time_value \<Rightarrow> time_value \<Rightarrow> time_value" where
  "minus_time_value = tv_minus"

instance ..

end

definition tv_incr :: "time_value \<Rightarrow> time_value" where
  "tv_incr tv = normalize False (Time_Value (tv_sec tv) (tv_usec tv + 1))"

definition tv_decr :: "time_value \<Rightarrow> time_value" where
  "tv_decr tv = normalize False (Time_Value (tv_sec tv) (tv_usec tv - 1))"

definition to_usec :: "time_value \<Rightarrow> u64" where
  "to_usec tv = of_int (tv_sec tv) * 1000000 + of_int (tv_usec tv)"

definition set_msec :: "u64 \<Rightarrow> time_value" where
  "set_msec ms =
     (let secs = ms div 1000
      in Time_Value (sint secs) (sint ((ms - secs * 1000) * 1000)))"

text \<open>
  \<open>truncate_cast<ACE_UINT64>\<close> of a \<open>time_t\<close> is a plain conversion, as no signed
  64-bit value exceeds the unsigned maximum; \<open>tv_usec / 1000\<close> truncates towards zero.
\<close>

definition get_msec :: "time_value \<Rightarrow> u64" where
  "get_msec tv =
     of_int (tv_sec tv) * 1000
     + of_int (sgn (tv_usec tv) * (\<bar>tv_usec tv\<bar> div 1000))"

lemma get_set_msec: "get_msec (set_msec ms) = ms"
proof -
  have ms: "uint ms < 2 ^ 64" "0 \<le> uint ms"
    using uint_bounded [of ms] by simp_all
  have d: "uint (ms div 1000) = uint ms div 1000"
    by (simp add: uint_div)
  have m: "uint (ms - ms div 1000 * 1000) = uint ms mod 1000"
    by (simp add: minus_div_mult_eq_mod uint_mod)
  have m': "uint ((ms - ms div 1000 * 1000) * 1000) = uint ms mod 1000 * 1000"
    unfolding uint_word_ariths(3) m by simp
  have s1: "sint (ms div 1000) = uint ms div 1000"
    using ms by (simp add: sint_small d)
  have s2: "sint ((ms - ms div 1000 * 1000) * 1000) = uint ms mod 1000 * 1000"
    unfolding m' [symmetric] by (rule sint_small) (unfold m', simp)
  have q: "sgn (uint ms mod 1000 * 1000) * (\<bar>uint ms mod 1000 * 1000\<bar> div 1000) = uint ms mod 1000"
    by (simp add: sgn_if abs_mult)
  have "get_msec (set_msec ms) = of_int (uint ms div 1000) * 1000 + of_int (uint ms mod 1000)"
    unfolding get_msec_def set_msec_def Let_def time_value.sel s1 s2 q ..
  also have "\<dots> = of_int (uint ms div 1000 * 1000 + uint ms mod 1000)"
    by (simp only: of_int_add of_int_mult of_int_numeral)
  finally show ?thesis by simp
qed

section \<open>The value of a time and its normal form\<close>

definition tv_value :: "time_value \<Rightarrow> int" where
  "tv_value tv = tv_sec tv * ONE_SECOND + tv_usec tv"

definition tv_normal :: "time_value \<Rightarrow> bool" where
  "tv_normal tv \<longleftrightarrow> \<bar>tv_usec tv\<bar> < ONE_SECOND
     \<and> (tv_sec tv > 0 \<longrightarrow> tv_usec tv \<ge> 0) \<and> (tv_sec tv < 0 \<longrightarrow> tv_usec tv \<le> 0)"

lemma carry_decomp:
  fixes u :: int
  assumes "s = \<bar>u\<bar> div ONE_SECOND * (if u > 0 then 1 else -1)"
  shows "\<bar>u - s * ONE_SECOND\<bar> < ONE_SECOND"
    and "u > 0 \<Longrightarrow> 0 \<le> u - s * ONE_SECOND \<and> s \<ge> 0 \<and> s * ONE_SECOND \<le> u"
    and "u \<le> 0 \<Longrightarrow> u - s * ONE_SECOND \<le> 0 \<and> s \<le> 0 \<and> s * ONE_SECOND \<ge> u"
  using assms by (cases "u > 0"; simp; linarith)+

lemma normalize_carry_value: "tv_value (normalize_carry False tv) = tv_value tv"
  unfolding normalize_carry_def tv_value_def Let_def
  by (simp only: time_value.sel simp_thms if_False split: if_split) (simp add: distrib_right)

lemma normalize_carry_usec: "\<bar>tv_usec (normalize_carry s tv)\<bar> < ONE_SECOND"
proof -
  define c where "c = \<bar>tv_usec tv\<bar> div ONE_SECOND * (if tv_usec tv > 0 then 1 else -1)"
  show ?thesis using carry_decomp(1) [OF c_def]
    unfolding normalize_carry_def Let_def c_def [symmetric] by (simp add: abs_less_iff)
qed

lemma normalize_sign_value: "tv_value (normalize_sign tv) = tv_value tv"
  by (simp add: normalize_sign_def tv_value_def)

lemma normalize_sign_normal: "\<bar>tv_usec tv\<bar> < ONE_SECOND \<Longrightarrow> tv_normal (normalize_sign tv)"
  by (auto simp: normalize_sign_def tv_normal_def)

lemma normalize_normal [simp, intro]: "tv_normal (normalize s tv)"
  by (simp add: normalize_def normalize_sign_normal normalize_carry_usec)

lemma normalize_value [simp]: "tv_value (normalize False tv) = tv_value tv"
  by (simp add: normalize_def normalize_sign_value normalize_carry_value)

lemma tv_normal_zero [simp]: "tv_normal 0"
  by (simp add: tv_normal_def zero_time_value_def)

lemma tv_value_zero [simp]: "tv_value 0 = 0"
  by (simp add: tv_value_def zero_time_value_def)

lemma tv_less_iff: "tv_normal a \<Longrightarrow> tv_normal b \<Longrightarrow> a < b \<longleftrightarrow> tv_value a < tv_value b"
  by (auto simp: tv_normal_def tv_value_def less_time_value_def tv_lt_def tv_gt_def)

lemma tv_le_iff: "tv_normal a \<Longrightarrow> tv_normal b \<Longrightarrow> a \<le> b \<longleftrightarrow> tv_value a \<le> tv_value b"
  by (simp add: tv_less_iff flip: linorder_not_less)

lemma tv_value_inj: "tv_normal a \<Longrightarrow> tv_normal b \<Longrightarrow> tv_value a = tv_value b \<Longrightarrow> a = b"
  by (simp add: order_eq_iff tv_le_iff)

lemma tv_plus_normal [simp]: "tv_normal (a + b)"
  by (simp add: plus_time_value_def tv_plus_def)

lemma tv_minus_normal [simp]: "tv_normal (a - b)" for a b :: time_value
  by (simp add: minus_time_value_def tv_minus_def)

lemma tv_value_plus [simp]: "tv_value (a + b) = tv_value a + tv_value b"
  by (simp add: plus_time_value_def tv_plus_def) (simp add: tv_value_def algebra_simps)

lemma tv_value_minus [simp]: "tv_value (a - b) = tv_value a - tv_value b"
  by (simp add: minus_time_value_def tv_minus_def) (simp add: tv_value_def algebra_simps)

lemmas tv_compare = tv_less_iff tv_le_iff

text \<open>
  The clamp of the saturating form: the least and the greatest number of microseconds a pair of
  in-range fields stands for.
\<close>

definition tv_value_max :: int where
  "tv_value_max = time_t_max * ONE_SECOND + (ONE_SECOND - 1)"

definition tv_value_min :: int where
  "tv_value_min = time_t_min * ONE_SECOND - (ONE_SECOND - 1)"

lemmas tv_limits = tv_value_max_def tv_value_min_def time_t_max_def time_t_min_def

lemma normalize_carry_saturate:
  assumes sec: "time_t_min \<le> tv_sec tv" "tv_sec tv \<le> time_t_max"
    and usec: "\<bar>tv_usec tv\<bar> \<le> 2 ^ 63"
  shows "tv_value (normalize_carry True tv) = max tv_value_min (min tv_value_max (tv_value tv))"
proof (cases "\<bar>tv_usec tv\<bar> < ONE_SECOND")
  case True
  then show ?thesis using sec
    by (auto simp: normalize_carry_def tv_value_def tv_limits)
next
  case False
  define s where "s = \<bar>tv_usec tv\<bar> div ONE_SECOND * (if tv_usec tv > 0 then 1 else -1)"
  note d = carry_decomp [OF s_def]
  show ?thesis using False sec usec d
    unfolding normalize_carry_def tv_value_def tv_limits Let_def s_def [symmetric]
    by (auto split: if_splits)
qed

section \<open>Properties\<close>

text \<open>
  \<open>normalize\<close> always leaves microseconds below one second in magnitude and of the same
  sign as the seconds, and without saturation it does not change the time the pair stands for.
\<close>

theorem time_value_normalize:
  "tv_normal (normalize s tv) \<and> tv_value (normalize False tv) = tv_value tv"
  by simp

text \<open>
  The saturating form of \<open>normalize\<close> computes the exact time clamped to what the type
  can hold, for every pair whose fields are values of their 64-bit types.
\<close>

theorem time_value_saturate:
  assumes "time_t_min \<le> tv_sec tv" and "tv_sec tv \<le> time_t_max"
    and "\<bar>tv_usec tv\<bar> \<le> 2 ^ 63"
  shows "tv_value (normalize True tv) = max tv_value_min (min tv_value_max (tv_value tv))"
  using normalize_carry_saturate [OF assms] by (simp add: normalize_def normalize_sign_value)

theorem time_value_saturate_witness:
  "tv_value (normalize True (Time_Value time_t_max 5000000))
     = max tv_value_min (min tv_value_max (tv_value (Time_Value time_t_max 5000000)))"
  by (rule time_value_saturate) (simp_all add: time_t_max_def time_t_min_def)

text \<open>
  On normal times the code's comparisons, sum and difference are those of the exact number
  of microseconds; in particular adding and then subtracting a time gives the first one back.
\<close>

theorem time_value_arith:
  assumes "tv_normal a" and "tv_normal b"
  shows "(a < b \<longleftrightarrow> tv_value a < tv_value b) \<and> (a \<le> b \<longleftrightarrow> tv_value a \<le> tv_value b)
    \<and> tv_value (tv_plus a b) = tv_value a + tv_value b
    \<and> tv_value (tv_minus a b) = tv_value a - tv_value b
    \<and> tv_minus (tv_plus a b) b = a"
  using assms tv_value_plus [of a b] tv_value_minus [of a b] tv_value_minus [of "a + b" b]
  by (auto simp: tv_compare plus_time_value_def minus_time_value_def tv_minus_def tv_plus_def
      intro!: tv_value_inj)

theorem time_value_arith_witness:
  "tv_normal (Time_Value 1 5) \<and> tv_minus (tv_plus (Time_Value 1 5) (Time_Value (-3) (-7))) (Time_Value (-3) (-7))
     = Time_Value 1 5"
proof -
  have "tv_normal (Time_Value 1 5)" and "tv_normal (Time_Value (-3) (-7))"
    by (simp_all add: tv_normal_def)
  from time_value_arith [OF this] this show ?thesis by blast
qed

end
