(* ===== verification/Message_Queue.thy ===== *)
theory Message_Queue
  imports Linked_List Message_Block Time_Value "HOL-Library.Monad_Syntax"
begin

text \<open>
  \<open>ACE_Message_Queue\<close> (ACE/ace/Message_Queue_T.cpp): a doubly linked list of messages with
  byte counts, high and low water marks, an activation state and two condition variables. The
  model is at the level of the pointers: the \<open>next_\<close> and \<open>prev_\<close> fields are maps
  from addresses, \<open>head_\<close> and \<open>tail_\<close> are pointers, and every assignment of the source
  is one update. The operations with the suffix \<open>_i\<close> run with the lock held. A result
  \<open>None\<close> is a null dereference or a loop that does not return.
\<close>

section \<open>State\<close>

datatype mq_state = ACTIVATED | DEACTIVATED | PULSED

datatype mq_errno = ESHUTDOWN | EWOULDBLOCK | ETIME | EOTHER

text \<open>
  A condition variable: what \<open>signal ()\<close> returns, and how many signals and broadcasts were
  sent.
\<close>

record cond =
  cv_signal_rc :: int
  cv_signals :: nat
  cv_broadcasts :: nat

text \<open>
  What the queue reads of a message: the \<open>size ()\<close> and \<open>length ()\<close> of the blocks of its
  \<open>cont_\<close> chain, its priority and its deadline.
\<close>

record msg =
  msg_extents :: "(size_t \<times> size_t) list"
  msg_priority :: u64
  msg_deadline_time :: time_value

record mqueue =
  mq_next :: "addr \<Rightarrow> ptr"
  mq_prev :: "addr \<Rightarrow> ptr"
  mq_msg :: "addr \<Rightarrow> msg"
  mq_head :: ptr
  mq_tail :: ptr
  mq_low_water_mark :: size_t
  mq_high_water_mark :: size_t
  mq_cur_bytes :: size_t
  mq_cur_length :: size_t
  mq_cur_count :: size_t
  mq_state_of :: mq_state
  mq_not_empty_cond :: cond
  mq_not_full_cond :: cond
  mq_notification_strategy :: ptr
  mq_released :: "addr list"

definition set_next :: "addr \<Rightarrow> ptr \<Rightarrow> mqueue \<Rightarrow> mqueue" where
  "set_next a p q = q\<lparr>mq_next := (mq_next q)(a := p)\<rparr>"

definition set_prev :: "addr \<Rightarrow> ptr \<Rightarrow> mqueue \<Rightarrow> mqueue" where
  "set_prev a p q = q\<lparr>mq_prev := (mq_prev q)(a := p)\<rparr>"

definition is_empty_i :: "mqueue \<Rightarrow> bool" where
  "is_empty_i q \<longleftrightarrow> mq_tail q = None"

definition is_full_i :: "mqueue \<Rightarrow> bool" where
  "is_full_i q \<longleftrightarrow> mq_cur_bytes q \<ge> mq_high_water_mark q"

definition signal_dequeue_waiters :: "mqueue \<Rightarrow> int \<times> mqueue" where
  "signal_dequeue_waiters q =
     (if cv_signal_rc (mq_not_empty_cond q) \<noteq> 0 then -1 else 0,
      q\<lparr>mq_not_empty_cond := (mq_not_empty_cond q)\<lparr>cv_signals := Suc (cv_signals (mq_not_empty_cond q))\<rparr>\<rparr>)"

definition signal_enqueue_waiters :: "mqueue \<Rightarrow> int \<times> mqueue" where
  "signal_enqueue_waiters q =
     (if cv_signal_rc (mq_not_full_cond q) \<noteq> 0 then -1 else 0,
      q\<lparr>mq_not_full_cond := (mq_not_full_cond q)\<lparr>cv_signals := Suc (cv_signals (mq_not_full_cond q))\<rparr>\<rparr>)"

definition mq_open :: "size_t \<Rightarrow> size_t \<Rightarrow> ptr \<Rightarrow> mqueue \<Rightarrow> int \<times> mqueue" where
  "mq_open hwm lwm ns q =
     (0, q\<lparr>mq_high_water_mark := hwm, mq_low_water_mark := lwm, mq_state_of := ACTIVATED,
          mq_cur_bytes := 0, mq_cur_length := 0, mq_cur_count := 0,
          mq_tail := None, mq_head := None, mq_notification_strategy := ns\<rparr>)"

text \<open>
  The constructor, over the messages that exist: \<open>nx\<close>, \<open>pv\<close> and \<open>msgs\<close> are the fields of
  the message blocks of the store.
\<close>

definition mq_new :: "(addr \<Rightarrow> ptr) \<Rightarrow> (addr \<Rightarrow> ptr) \<Rightarrow> (addr \<Rightarrow> msg) \<Rightarrow> size_t \<Rightarrow> size_t \<Rightarrow> ptr \<Rightarrow> mqueue" where
  "mq_new nx pv msgs hwm lwm ns = snd (mq_open hwm lwm ns
     \<lparr>mq_next = nx, mq_prev = pv, mq_msg = msgs, mq_head = None, mq_tail = None,
      mq_low_water_mark = 0, mq_high_water_mark = 0, mq_cur_bytes = 0, mq_cur_length = 0,
      mq_cur_count = 0, mq_state_of = DEACTIVATED,
      mq_not_empty_cond = \<lparr>cv_signal_rc = 0, cv_signals = 0, cv_broadcasts = 0\<rparr>,
      mq_not_full_cond = \<lparr>cv_signal_rc = 0, cv_signals = 0, cv_broadcasts = 0\<rparr>,
      mq_notification_strategy = None, mq_released = []\<rparr>)"

section \<open>Activation\<close>

definition broadcast :: "cond \<Rightarrow> cond" where
  "broadcast c = c\<lparr>cv_broadcasts := Suc (cv_broadcasts c)\<rparr>"

definition deactivate_i :: "bool \<Rightarrow> mqueue \<Rightarrow> mq_state \<times> mqueue" where
  "deactivate_i pulse q =
     (let previous_state = mq_state_of q
      in (previous_state,
          if previous_state \<noteq> DEACTIVATED
          then q\<lparr>mq_not_empty_cond := broadcast (mq_not_empty_cond q),
                 mq_not_full_cond := broadcast (mq_not_full_cond q),
                 mq_state_of := (if pulse then PULSED else DEACTIVATED)\<rparr>
          else q))"

definition activate_i :: "mqueue \<Rightarrow> mq_state \<times> mqueue" where
  "activate_i q = (mq_state_of q, q\<lparr>mq_state_of := ACTIVATED\<rparr>)"

section \<open>Enqueuing\<close>

text \<open>\<open>++cur_count_\<close> and \<open>total_size_and_length (cur_bytes_, cur_length_)\<close>.\<close>

definition count_block :: "addr \<Rightarrow> mqueue \<Rightarrow> mqueue" where
  "count_block a q =
     (let (bytes, len) = total_size_and_length (msg_extents (mq_msg q a)) (mq_cur_bytes q, mq_cur_length q)
      in q\<lparr>mq_cur_count := mq_cur_count q + 1, mq_cur_bytes := bytes, mq_cur_length := len\<rparr>)"

partial_function (option) link_chain :: "addr \<Rightarrow> mqueue \<Rightarrow> (addr \<times> mqueue) option" where
  "link_chain seq_tail q =
     (case mq_next q seq_tail of
        None \<Rightarrow> Some (seq_tail, q)
      | Some nxt \<Rightarrow> link_chain nxt (count_block nxt (set_prev nxt (Some seq_tail) q)))"

definition finish_enqueue :: "mqueue \<Rightarrow> int \<times> mqueue" where
  "finish_enqueue q =
     (let (rc, q') = signal_dequeue_waiters q
      in if rc = -1 then (-1, q') else (int_of_size (mq_cur_count q'), q'))"

definition enqueue_tail_i :: "ptr \<Rightarrow> mqueue \<Rightarrow> (int \<times> mqueue) option" where
  "enqueue_tail_i new_item q =
     (case new_item of
        None \<Rightarrow> Some (-1, q)
      | Some n \<Rightarrow> do {
          (seq_tail, q) \<leftarrow> link_chain n (count_block n q);
          Some (finish_enqueue
            (case mq_tail q of
               None \<Rightarrow> set_prev n None (q\<lparr>mq_head := Some n, mq_tail := Some seq_tail\<rparr>)
             | Some t \<Rightarrow> (set_prev n (Some t) (set_next t (Some n) q))\<lparr>mq_tail := Some seq_tail\<rparr>))
        })"

definition enqueue_head_i :: "ptr \<Rightarrow> mqueue \<Rightarrow> (int \<times> mqueue) option" where
  "enqueue_head_i new_item q =
     (case new_item of
        None \<Rightarrow> Some (-1, q)
      | Some n \<Rightarrow> do {
          (seq_tail, q) \<leftarrow> link_chain n (count_block n q);
          let q = set_next seq_tail (mq_head q) (set_prev n None q);
          let q = (case mq_head q of
                     Some h \<Rightarrow> set_prev h (Some seq_tail) q
                   | None \<Rightarrow> q\<lparr>mq_tail := Some seq_tail\<rparr>);
          Some (finish_enqueue (q\<lparr>mq_head := Some n\<rparr>))
        })"

text \<open>The link of a new node behind \<open>temp\<close>, which has a successor.\<close>

definition insert_behind :: "addr \<Rightarrow> addr \<Rightarrow> addr \<Rightarrow> mqueue \<Rightarrow> mqueue" where
  "insert_behind n temp nxt q =
     set_next temp (Some n) (set_prev nxt (Some n) (set_next n (Some nxt) (set_prev n (Some temp) q)))"

text \<open>\<open>enqueue_i\<close>: insertion by priority, searching from the tail.\<close>

definition enqueue_i :: "ptr \<Rightarrow> mqueue \<Rightarrow> (int \<times> mqueue) option" where
  "enqueue_i new_item q =
     (case new_item of
        None \<Rightarrow> Some (-1, q)
      | Some n \<Rightarrow>
          (let q = set_next n None q in
           if mq_head q = None then enqueue_head_i new_item q
           else do {
             temp \<leftarrow> find_along (mq_prev q)
               (\<lambda>t. msg_priority (mq_msg q t) \<ge> msg_priority (mq_msg q n)) (mq_tail q);
             case temp of
               None \<Rightarrow> enqueue_head_i new_item q
             | Some t \<Rightarrow>
                 (case mq_next q t of
                    None \<Rightarrow> enqueue_tail_i new_item q
                  | Some nxt \<Rightarrow> Some (finish_enqueue (count_block n (insert_behind n t nxt q))))
           }))"

text \<open>\<open>enqueue_deadline_i\<close>: insertion by deadline, searching from the head.\<close>

definition enqueue_deadline_i :: "ptr \<Rightarrow> mqueue \<Rightarrow> (int \<times> mqueue) option" where
  "enqueue_deadline_i new_item q =
     (case new_item of
        None \<Rightarrow> Some (-1, q)
      | Some n \<Rightarrow>
          (let q = set_next n None q in
           if mq_head q = None then enqueue_head_i new_item q
           else do {
             temp \<leftarrow> find_along (mq_next q)
               (\<lambda>t. msg_deadline_time (mq_msg q n) < msg_deadline_time (mq_msg q t)) (mq_head q);
             case temp of
               None \<Rightarrow> enqueue_tail_i new_item q
             | Some t \<Rightarrow>
                 (case mq_next q t of
                    None \<Rightarrow> enqueue_tail_i new_item q
                  | Some nxt \<Rightarrow> Some (finish_enqueue (count_block n (insert_behind n t nxt q))))
           }))"

section \<open>Dequeuing\<close>

text \<open>
  The common end of the dequeue operations: the counters, the reset of an empty list, the
  unlinking of the block and the signal once the queue has fallen to the low water mark.
\<close>

definition finish_dequeue :: "addr \<Rightarrow> mqueue \<Rightarrow> int \<times> ptr \<times> mqueue" where
  "finish_dequeue a q =
     (let (mb_bytes, mb_length) = total_size_and_length (msg_extents (mq_msg q a)) (0, 0);
          q = q\<lparr>mq_cur_bytes := mq_cur_bytes q - mb_bytes,
                mq_cur_length := mq_cur_length q - mb_length,
                mq_cur_count := mq_cur_count q - 1\<rparr>;
          q = (if mq_cur_count q = 0 \<and> mq_head q = mq_tail q
               then q\<lparr>mq_head := None, mq_tail := None\<rparr> else q);
          q = set_next a None (set_prev a None q)
      in if mq_cur_bytes q \<le> mq_low_water_mark q
         then let (rc, q) = signal_enqueue_waiters q
              in if rc = -1 then (-1, Some a, q) else (int_of_size (mq_cur_count q), Some a, q)
         else (int_of_size (mq_cur_count q), Some a, q))"

definition dequeue_head_i :: "mqueue \<Rightarrow> (int \<times> ptr \<times> mqueue) option" where
  "dequeue_head_i q =
     (case mq_head q of
        None \<Rightarrow> Some (-1, None, q)
      | Some first_item \<Rightarrow>
          (let q = q\<lparr>mq_head := mq_next q first_item\<rparr>;
               q = (case mq_head q of
                      None \<Rightarrow> q\<lparr>mq_tail := None\<rparr>
                    | Some h \<Rightarrow> set_prev h None q)
           in Some (finish_dequeue first_item q)))"

text \<open>
  The removal of a node from the middle of the list, shared by \<open>dequeue_prio_i\<close> and
  \<open>dequeue_deadline_i\<close>.
\<close>

definition unlink :: "addr \<Rightarrow> mqueue \<Rightarrow> mqueue" where
  "unlink c q =
     (let q = (case mq_prev q c of
                 None \<Rightarrow> q\<lparr>mq_head := mq_next q c\<rparr>
               | Some p \<Rightarrow> set_next p (mq_next q c) q)
      in case mq_next q c of
           None \<Rightarrow> q\<lparr>mq_tail := mq_prev q c\<rparr>
         | Some n \<Rightarrow> set_prev n (mq_prev q c) q)"

partial_function (option) choose_prio :: "mqueue \<Rightarrow> ptr \<Rightarrow> ptr \<Rightarrow> u64 \<Rightarrow> ptr option" where
  "choose_prio q temp chosen priority =
     (case temp of
        None \<Rightarrow> Some chosen
      | Some t \<Rightarrow>
          (if msg_priority (mq_msg q t) \<le> priority
           then choose_prio q (mq_prev q t) (Some t) (msg_priority (mq_msg q t))
           else choose_prio q (mq_prev q t) chosen priority))"

definition dequeue_prio_i :: "mqueue \<Rightarrow> (int \<times> ptr \<times> mqueue) option" where
  "dequeue_prio_i q =
     (case mq_head q of
        None \<Rightarrow> Some (-1, None, q)
      | Some h \<Rightarrow> do {
          chosen \<leftarrow> choose_prio q (mq_tail q) None (- 1);
          let c = (case chosen of None \<Rightarrow> h | Some c \<Rightarrow> c);
          Some (finish_dequeue c (unlink c q))
        })"

definition dequeue_tail_i :: "mqueue \<Rightarrow> (int \<times> ptr \<times> mqueue) option" where
  "dequeue_tail_i q =
     (case mq_head q of
        None \<Rightarrow> Some (-1, None, q)
      | Some _ \<Rightarrow> do {
          dequeued \<leftarrow> mq_tail q;
          Some (finish_dequeue dequeued
            (case mq_prev q dequeued of
               None \<Rightarrow> q\<lparr>mq_head := None, mq_tail := None\<rparr>
             | Some p \<Rightarrow> (set_next p None q)\<lparr>mq_tail := Some p\<rparr>))
        })"

partial_function (option) choose_deadline :: "mqueue \<Rightarrow> ptr \<Rightarrow> ptr \<Rightarrow> time_value \<Rightarrow> ptr option" where
  "choose_deadline q temp chosen deadline =
     (case temp of
        None \<Rightarrow> Some chosen
      | Some t \<Rightarrow>
          (if msg_deadline_time (mq_msg q t) < deadline
           then choose_deadline q (mq_next q t) (Some t) (msg_deadline_time (mq_msg q t))
           else choose_deadline q (mq_next q t) chosen deadline))"

definition dequeue_deadline_i :: "mqueue \<Rightarrow> (int \<times> ptr \<times> mqueue) option" where
  "dequeue_deadline_i q =
     (case mq_head q of
        None \<Rightarrow> Some (-1, None, q)
      | Some h \<Rightarrow> do {
          chosen \<leftarrow> choose_deadline q (mq_head q) None tv_max_time;
          let c = (case chosen of None \<Rightarrow> h | Some c \<Rightarrow> c);
          Some (finish_dequeue c (unlink c q))
        })"

section \<open>Flush and close\<close>

partial_function (option) flush_loop :: "nat \<Rightarrow> mqueue \<Rightarrow> (nat \<times> mqueue) option" where
  "flush_loop flushed q =
     (case mq_head q of
        None \<Rightarrow> Some (flushed, q)
      | Some h \<Rightarrow>
          (let (mb_bytes, mb_length) = total_size_and_length (msg_extents (mq_msg q h)) (0, 0)
           in flush_loop (Suc flushed)
                (q\<lparr>mq_cur_bytes := mq_cur_bytes q - mb_bytes,
                   mq_cur_length := mq_cur_length q - mb_length,
                   mq_cur_count := mq_cur_count q - 1,
                   mq_head := mq_next q h,
                   mq_released := mq_released q @ [h]\<rparr>)))"

definition flush_i :: "mqueue \<Rightarrow> (nat \<times> mqueue) option" where
  "flush_i q = flush_loop 0 (q\<lparr>mq_tail := None\<rparr>)"

definition mq_close :: "mqueue \<Rightarrow> (nat \<times> mqueue) option" where
  "mq_close q = flush_i (snd (deactivate_i False q))"

section \<open>The queue as a list\<close>

definition msg_bytes :: "msg \<Rightarrow> size_t" where
  "msg_bytes m = sum_list (map fst (msg_extents m))"

definition msg_len :: "msg \<Rightarrow> size_t" where
  "msg_len m = sum_list (map snd (msg_extents m))"

text \<open>
  The abstraction: \<open>xs\<close> are the queued messages from head to tail. \<open>mq_links\<close> is the shape
  of the list, \<open>mq_counts\<close> ties the three counters to it.
\<close>

definition mq_links :: "mqueue \<Rightarrow> addr list \<Rightarrow> bool" where
  "mq_links q xs \<longleftrightarrow> distinct xs \<and> dll (mq_next q) (mq_prev q) None xs None
     \<and> mq_head q = first_ptr xs None \<and> mq_tail q = last_ptr None xs"

definition mq_counts :: "mqueue \<Rightarrow> addr list \<Rightarrow> bool" where
  "mq_counts q xs \<longleftrightarrow> mq_cur_count q = of_nat (length xs)
     \<and> mq_cur_bytes q = sum_list (map (\<lambda>x. msg_bytes (mq_msg q x)) xs)
     \<and> mq_cur_length q = sum_list (map (\<lambda>x. msg_len (mq_msg q x)) xs)"

definition mq_rep :: "mqueue \<Rightarrow> addr list \<Rightarrow> bool" where
  "mq_rep q xs \<longleftrightarrow> mq_links q xs \<and> mq_counts q xs"

text \<open>What no queue operation changes.\<close>

definition same_config :: "mqueue \<Rightarrow> mqueue \<Rightarrow> bool" where
  "same_config q q' \<longleftrightarrow> mq_msg q' = mq_msg q \<and> mq_low_water_mark q' = mq_low_water_mark q
     \<and> mq_high_water_mark q' = mq_high_water_mark q \<and> mq_state_of q' = mq_state_of q"

lemmas mq_rep_defs = mq_rep_def mq_links_def mq_counts_def

lemma total_size_and_length_sum:
  "total_size_and_length es acc = (fst acc + sum_list (map fst es), snd acc + sum_list (map snd es))"
  by (induction es acc rule: total_size_and_length.induct) (auto simp: add.assoc)

lemma set_next_simps [simp]:
  "mq_next (set_next a p q) = (mq_next q)(a := p)" "mq_prev (set_next a p q) = mq_prev q"
  "mq_msg (set_next a p q) = mq_msg q" "mq_head (set_next a p q) = mq_head q"
  "mq_tail (set_next a p q) = mq_tail q" "mq_cur_bytes (set_next a p q) = mq_cur_bytes q"
  "mq_cur_length (set_next a p q) = mq_cur_length q" "mq_cur_count (set_next a p q) = mq_cur_count q"
  "mq_low_water_mark (set_next a p q) = mq_low_water_mark q"
  "mq_high_water_mark (set_next a p q) = mq_high_water_mark q"
  "mq_state_of (set_next a p q) = mq_state_of q" "mq_not_full_cond (set_next a p q) = mq_not_full_cond q"
  "mq_not_empty_cond (set_next a p q) = mq_not_empty_cond q"
  by (simp_all add: set_next_def)

lemma set_prev_simps [simp]:
  "mq_prev (set_prev a p q) = (mq_prev q)(a := p)" "mq_next (set_prev a p q) = mq_next q"
  "mq_msg (set_prev a p q) = mq_msg q" "mq_head (set_prev a p q) = mq_head q"
  "mq_tail (set_prev a p q) = mq_tail q" "mq_cur_bytes (set_prev a p q) = mq_cur_bytes q"
  "mq_cur_length (set_prev a p q) = mq_cur_length q" "mq_cur_count (set_prev a p q) = mq_cur_count q"
  "mq_low_water_mark (set_prev a p q) = mq_low_water_mark q"
  "mq_high_water_mark (set_prev a p q) = mq_high_water_mark q"
  "mq_state_of (set_prev a p q) = mq_state_of q" "mq_not_full_cond (set_prev a p q) = mq_not_full_cond q"
  "mq_not_empty_cond (set_prev a p q) = mq_not_empty_cond q"
  by (simp_all add: set_prev_def)

lemma count_block_simps [simp]:
  "mq_next (count_block a q) = mq_next q" "mq_prev (count_block a q) = mq_prev q"
  "mq_msg (count_block a q) = mq_msg q" "mq_head (count_block a q) = mq_head q"
  "mq_tail (count_block a q) = mq_tail q"
  "mq_cur_bytes (count_block a q) = mq_cur_bytes q + msg_bytes (mq_msg q a)"
  "mq_cur_length (count_block a q) = mq_cur_length q + msg_len (mq_msg q a)"
  "mq_cur_count (count_block a q) = mq_cur_count q + 1"
  "mq_low_water_mark (count_block a q) = mq_low_water_mark q"
  "mq_high_water_mark (count_block a q) = mq_high_water_mark q"
  "mq_state_of (count_block a q) = mq_state_of q" "mq_not_full_cond (count_block a q) = mq_not_full_cond q"
  "mq_not_empty_cond (count_block a q) = mq_not_empty_cond q"
  by (simp_all add: count_block_def total_size_and_length_sum msg_bytes_def msg_len_def)

lemma finish_enqueue_rep:
  "\<exists>q'. finish_enqueue q = (if cv_signal_rc (mq_not_empty_cond q) \<noteq> 0 then -1 else int_of_size (mq_cur_count q), q')
    \<and> mq_rep q' = mq_rep q \<and> same_config q q'"
  by (auto simp: finish_enqueue_def signal_dequeue_waiters_def mq_rep_defs fun_eq_iff same_config_def)

lemma finish_enqueue_step:
  assumes "mq_rep q2 ys" and "same_config q q2" and "mq_not_empty_cond q2 = mq_not_empty_cond q"
  shows "\<exists>q'. finish_enqueue q2
      = (if cv_signal_rc (mq_not_empty_cond q) \<noteq> 0 then -1 else int_of_size (of_nat (length ys)), q')
    \<and> mq_rep q' ys \<and> same_config q q'"
proof -
  obtain q' where q': "finish_enqueue q2
      = (if cv_signal_rc (mq_not_empty_cond q2) \<noteq> 0 then -1 else int_of_size (mq_cur_count q2), q')"
    "mq_rep q' = mq_rep q2" "same_config q2 q'"
    using finish_enqueue_rep by blast
  moreover have "mq_cur_count q2 = of_nat (length ys)" using assms(1) by (simp add: mq_rep_defs)
  moreover have "same_config q q'" using q'(3) assms(2) by (simp add: same_config_def)
  ultimately show ?thesis using assms by auto
qed

subsection \<open>Linking in a chain\<close>

fun chain_result :: "addr \<Rightarrow> addr list \<Rightarrow> mqueue \<Rightarrow> mqueue" where
  "chain_result n [] q = q"
| "chain_result n (x # xs) q = chain_result x xs (count_block x (set_prev x (Some n) q))"

lemma link_chain_result:
  "path (mq_next q) (n # ns) None \<Longrightarrow> link_chain n q = Some (last (n # ns), chain_result n ns q)"
proof (induction ns arbitrary: n q)
  case Nil
  then show ?case by (simp add: link_chain.simps)
next
  case (Cons x xs)
  from Cons.prems have "mq_next q n = Some x" by simp
  moreover have "link_chain x (count_block x (set_prev x (Some n) q))
      = Some (last (x # xs), chain_result x xs (count_block x (set_prev x (Some n) q)))"
    using Cons.prems by (intro Cons.IH) simp
  ultimately show ?case by (subst link_chain.simps) simp
qed

lemma chain_result_simps [simp]:
  "mq_next (chain_result n ns q) = mq_next q" "mq_msg (chain_result n ns q) = mq_msg q"
  "mq_head (chain_result n ns q) = mq_head q" "mq_tail (chain_result n ns q) = mq_tail q"
  "mq_low_water_mark (chain_result n ns q) = mq_low_water_mark q"
  "mq_high_water_mark (chain_result n ns q) = mq_high_water_mark q"
  "mq_state_of (chain_result n ns q) = mq_state_of q"
  "mq_not_empty_cond (chain_result n ns q) = mq_not_empty_cond q"
  "mq_not_full_cond (chain_result n ns q) = mq_not_full_cond q"
  by (induction n ns q rule: chain_result.induct) simp_all

lemma link_chain_count:
  "path (mq_next q) (n # ns) None
    \<Longrightarrow> link_chain n (count_block n q) = Some (last (n # ns), chain_result n ns (count_block n q))"
  by (rule link_chain_result) simp

lemma chain_result_prev: "a \<notin> set ns \<Longrightarrow> mq_prev (chain_result n ns q) a = mq_prev q a"
  by (induction n ns q rule: chain_result.induct) auto

lemma chain_result_counts:
  "mq_cur_count (chain_result n ns q) = mq_cur_count q + of_nat (length ns)"
  "mq_cur_bytes (chain_result n ns q) = mq_cur_bytes q + sum_list (map (\<lambda>x. msg_bytes (mq_msg q x)) ns)"
  "mq_cur_length (chain_result n ns q) = mq_cur_length q + sum_list (map (\<lambda>x. msg_len (mq_msg q x)) ns)"
  by (induction n ns q rule: chain_result.induct) (simp_all add: add.assoc)

lemma chain_result_dll:
  "path (mq_next q) (n # ns) None \<Longrightarrow> distinct (n # ns)
    \<Longrightarrow> dll (mq_next q) (mq_prev (chain_result n ns q)) (mq_prev q n) (n # ns) None"
proof (induction ns arbitrary: n q)
  case Nil
  then show ?case by simp
next
  case (Cons x xs)
  let ?q = "count_block x (set_prev x (Some n) q)"
  have "dll (mq_next ?q) (mq_prev (chain_result x xs ?q)) (mq_prev ?q x) (x # xs) None"
    using Cons.prems by (intro Cons.IH) auto
  then show ?case using Cons.prems by (simp add: chain_result_prev)
qed

lemma dll_chain_other:
  "set xs \<inter> set ns = {} \<Longrightarrow> dll nx (mq_prev (chain_result n ns q)) p xs m = dll nx (mq_prev q) p xs m"
  by (rule dll_cong) (auto intro: chain_result_prev)

subsection \<open>The enqueue operations\<close>

lemma enqueue_tail_i_rep:
  assumes rep: "mq_rep q xs" and chain: "path (mq_next q) (n # ns) None" "distinct (n # ns)"
    and fresh: "set (n # ns) \<inter> set xs = {}"
  shows "\<exists>q'. enqueue_tail_i (Some n) q
      = Some (if cv_signal_rc (mq_not_empty_cond q) \<noteq> 0 then -1 else int_of_size (of_nat (length (xs @ n # ns))), q')
    \<and> mq_rep q' (xs @ n # ns) \<and> same_config q q'"
proof -
  define q1 where "q1 = chain_result n ns (count_block n q)"
  define q2 where "q2 = (case mq_tail q1 of
      None \<Rightarrow> set_prev n None (q1\<lparr>mq_head := Some n, mq_tail := Some (last (n # ns))\<rparr>)
    | Some t \<Rightarrow> (set_prev n (Some t) (set_next t (Some n) q1))\<lparr>mq_tail := Some (last (n # ns))\<rparr>)"
  have enq: "enqueue_tail_i (Some n) q = Some (finish_enqueue q2)"
    unfolding enqueue_tail_i_def option.case link_chain_count [OF chain(1)] q2_def q1_def
    by (simp del: last.simps)
  have links: "mq_links q xs" using rep by (simp add: mq_rep_def)
  have old: "dll (mq_next q) (mq_prev q1) None xs None"
    using links fresh unfolding q1_def by (subst dll_chain_other) (auto simp: mq_links_def)
  have new: "dll (mq_next q) (mq_prev q1) (mq_prev q n) (n # ns) None"
    using chain chain_result_dll [of "count_block n q" n ns] by (simp add: q1_def)
  have "mq_links q2 (xs @ n # ns)"
  proof (cases xs rule: rev_cases)
    case Nil
    then have "mq_tail q1 = None" using links by (simp add: mq_links_def q1_def)
    then show ?thesis using new chain Nil
      by (simp add: q2_def mq_links_def q1_def last_ptr_def)
  next
    case (snoc ys t)
    then have "mq_tail q1 = Some t" "mq_head q1 = first_ptr xs None"
      using links by (simp_all add: mq_links_def q1_def)
    then have q2: "mq_next q2 = (mq_next q)(t := Some n)" "mq_prev q2 = (mq_prev q1)(n := Some t)"
      "mq_head q2 = first_ptr xs None" "mq_tail q2 = Some (last (n # ns))"
      by (simp_all add: q2_def q1_def del: last.simps)
    have t: "t \<notin> set (n # ns)" "t \<notin> set ys" "n \<notin> set xs" "last_ptr None xs = Some t" "distinct xs"
      using fresh snoc links by (auto simp: mq_links_def)
    have "dll (mq_next q2) (mq_prev q1) None xs (Some n)"
      using dll_redirect_next [OF old [unfolded snoc] t(2)] unfolding q2 snoc .
    then have a: "dll (mq_next q2) (mq_prev q2) None xs (Some n)"
      using t(3) unfolding q2 by simp
    have "dll (mq_next q2) (mq_prev q1) (mq_prev q n) (n # ns) None"
      using new t(1) unfolding q2 by (simp del: dll.simps)
    then have b: "dll (mq_next q2) (mq_prev q2) (Some t) (n # ns) None"
      unfolding q2 by (rule dll_redirect_prev) (use chain(2) in simp)
    show ?thesis unfolding mq_links_def dll_append q2(3,4) t(4) first_ptr_simps
      using a b t chain(2) fresh snoc by (auto simp: last_ptr_def)
  qed
  moreover have "mq_counts q2 (xs @ n # ns)"
    using rep by (auto simp: q2_def q1_def mq_rep_defs chain_result_counts algebra_simps split: option.splits)
  ultimately have "mq_rep q2 (xs @ n # ns)" by (simp add: mq_rep_def)
  moreover have "same_config q q2" "mq_not_empty_cond q2 = mq_not_empty_cond q"
    by (auto simp: q2_def q1_def same_config_def split: option.splits)
  ultimately show ?thesis using finish_enqueue_step unfolding enq by fastforce
qed

lemma enqueue_head_i_rep:
  assumes rep: "mq_rep q xs" and chain: "path (mq_next q) (n # ns) None" "distinct (n # ns)"
    and fresh: "set (n # ns) \<inter> set xs = {}"
  shows "\<exists>q'. enqueue_head_i (Some n) q
      = Some (if cv_signal_rc (mq_not_empty_cond q) \<noteq> 0 then -1 else int_of_size (of_nat (length (n # ns @ xs))), q')
    \<and> mq_rep q' (n # ns @ xs) \<and> same_config q q'"
proof -
  define t where "t = last (n # ns)"
  define q1 where "q1 = set_next t (mq_head q) (set_prev n None (chain_result n ns (count_block n q)))"
  define q2 where "q2 = (case mq_head q1 of Some h \<Rightarrow> set_prev h (Some t) q1
    | None \<Rightarrow> q1\<lparr>mq_tail := Some t\<rparr>)\<lparr>mq_head := Some n\<rparr>"
  have enq: "enqueue_head_i (Some n) q = Some (finish_enqueue q2)"
    unfolding enqueue_head_i_def option.case link_chain_count [OF chain(1)] q2_def q1_def t_def
    by (cases "mq_head q") (simp_all add: Let_def del: last.simps)
  have links: "mq_links q xs" using rep by (simp add: mq_rep_def)
  obtain ms where ms: "n # ns = ms @ [t]" unfolding t_def
    by (metis append_butlast_last_id list.distinct(1))
  have "dll (mq_next q) (mq_prev (chain_result n ns (count_block n q))) (mq_prev q n) (n # ns) None"
    using chain chain_result_dll [of "count_block n q" n ns] by simp
  then have "dll (mq_next q) (mq_prev (set_prev n None (chain_result n ns (count_block n q)))) None (n # ns) None"
    using chain by simp
  then have "dll ((mq_next q)(t := mq_head q)) (mq_prev (set_prev n None (chain_result n ns (count_block n q)))) None (n # ns) (mq_head q)"
    unfolding ms using chain(2) by (intro dll_redirect_next) (auto simp: ms)
  then have new: "dll (mq_next q1) (mq_prev q1) None (n # ns) (first_ptr xs None)"
    using links by (simp add: q1_def mq_links_def del: dll.simps)
  have t: "t \<notin> set xs" "n \<notin> set xs" "set xs \<inter> set ns = {}"
    using fresh arg_cong [OF ms, of set] by auto
  then have old: "dll (mq_next q1) (mq_prev q1) None xs None"
    using links unfolding q1_def mq_links_def by (simp add: dll_chain_other)
  have "mq_links q2 (n # ns @ xs)"
  proof (cases xs)
    case Nil
    then have "mq_head q1 = None" using links by (simp add: mq_links_def q1_def)
    then show ?thesis using new chain Nil
      by (simp add: q2_def mq_links_def last_ptr_def t_def)
  next
    case (Cons h ys)
    then have h: "mq_head q1 = Some h" "mq_tail q1 = last_ptr None xs"
      using links by (simp_all add: mq_links_def q1_def)
    have "dll (mq_next q1) ((mq_prev q1)(h := Some t)) None (n # ns) (Some h)"
      using new fresh Cons by (simp del: dll.simps)
    moreover have "dll (mq_next q1) ((mq_prev q1)(h := Some t)) (Some t) xs None"
      using old links Cons by (auto simp: mq_links_def)
    moreover have "last_ptr None (n # ns) = Some t" by (simp add: ms)
    ultimately have "dll (mq_next q1) ((mq_prev q1)(h := Some t)) None ((n # ns) @ xs) None"
      unfolding dll_append using Cons by (simp del: dll.simps last_ptr_simps)
    then show ?thesis using chain Cons fresh links h
      by (auto simp: q2_def mq_links_def last_ptr_def)
  qed
  moreover have "mq_counts q2 (n # ns @ xs)"
    using rep by (auto simp: q2_def q1_def mq_rep_defs chain_result_counts algebra_simps split: option.splits)
  ultimately have "mq_rep q2 (n # ns @ xs)" by (simp add: mq_rep_def)
  moreover have "same_config q q2" "mq_not_empty_cond q2 = mq_not_empty_cond q"
    by (auto simp: q2_def q1_def same_config_def split: option.splits)
  ultimately show ?thesis using finish_enqueue_step unfolding enq by fastforce
qed

lemma insert_behind_links:
  assumes "mq_links q (xs @ t # y # ys)" and "n \<notin> set (xs @ t # y # ys)"
  shows "mq_links (insert_behind n t y q) (xs @ t # n # y # ys)"
  using assms by (auto simp: mq_links_def insert_behind_def last_ptr_def split: if_splits)

lemma insert_behind_rep:
  assumes "mq_rep q (xs @ t # y # ys)" and "n \<notin> set (xs @ t # y # ys)"
  shows "\<exists>q'. finish_enqueue (count_block n (insert_behind n t y q))
      = (if cv_signal_rc (mq_not_empty_cond q) \<noteq> 0 then -1
         else int_of_size (of_nat (length (xs @ t # n # y # ys))), q')
    \<and> mq_rep q' (xs @ t # n # y # ys) \<and> same_config q q'"
proof -
  let ?q = "count_block n (insert_behind n t y q)"
  have "mq_links (insert_behind n t y q) (xs @ t # n # y # ys)"
    using assms by (intro insert_behind_links) (simp_all add: mq_rep_def)
  then have "mq_rep ?q (xs @ t # n # y # ys)"
    using assms(1) by (simp add: mq_rep_defs insert_behind_def algebra_simps)
  moreover have "same_config q ?q" "mq_not_empty_cond ?q = mq_not_empty_cond q"
    by (simp_all add: same_config_def insert_behind_def)
  ultimately show ?thesis by (rule finish_enqueue_step)
qed

lemma set_next_fresh_rep: "mq_rep q xs \<Longrightarrow> n \<notin> set xs \<Longrightarrow> mq_rep (set_next n p q) xs"
  by (simp add: mq_rep_defs)

lemma mq_links_head_None: "mq_links q xs \<Longrightarrow> mq_head q = None \<longleftrightarrow> xs = []"
  by (simp add: mq_links_def)

lemma mq_links_path: "mq_links q xs \<Longrightarrow> path (mq_next q) xs None"
  by (auto simp: mq_links_def intro: dll_path)

lemma mq_links_next:
  "mq_links q (ys @ t # zs) \<Longrightarrow> mq_next q t = first_ptr zs None \<and> mq_prev q t = last_ptr None ys"
  by (simp add: mq_links_def)

definition prio :: "mqueue \<Rightarrow> addr \<Rightarrow> u64" where
  "prio q a = msg_priority (mq_msg q a)"

lemma enqueue_i_rep:
  assumes rep: "mq_rep q xs" and fresh: "n \<notin> set xs"
  shows "\<exists>ys zs q'. enqueue_i (Some n) q
      = Some (if cv_signal_rc (mq_not_empty_cond q) \<noteq> 0 then -1 else int_of_size (of_nat (Suc (length xs))), q')
    \<and> xs = ys @ zs \<and> mq_rep q' (ys @ n # zs) \<and> same_config q q'
    \<and> (ys \<noteq> [] \<longrightarrow> prio q n \<le> prio q (last ys)) \<and> (\<forall>z \<in> set zs. prio q z < prio q n)"
proof -
  define q0 where "q0 = set_next n None q"
  let ?P = "\<lambda>t. msg_priority (mq_msg q0 t) \<ge> msg_priority (mq_msg q0 n)"
  have rep0: "mq_rep q0 xs" using rep fresh by (simp add: q0_def set_next_fresh_rep)
  have links0: "mq_links q0 xs" using rep0 by (simp add: mq_rep_def)
  have cfg: "same_config q q0" "mq_not_empty_cond q0 = mq_not_empty_cond q"
    by (simp_all add: q0_def same_config_def)
  have pr: "?P t \<longleftrightarrow> prio q n \<le> prio q t" for t by (simp add: q0_def prio_def)
  have chain: "path (mq_next q0) [n] None" "distinct [n]" "set [n] \<inter> set xs = {}"
    using fresh by (simp_all add: q0_def)
  note head = enqueue_head_i_rep [OF rep0 chain, simplified cfg(2)]
  note tail = enqueue_tail_i_rep [OF rep0 chain, simplified cfg(2)]
  have trans: "same_config q q'" if "same_config q0 q'" for q'
    using that cfg(1) by (simp add: same_config_def)
  show ?thesis
  proof (cases "xs = []")
    case True
    then have "enqueue_i (Some n) q = enqueue_head_i (Some n) q0"
      using links0 by (simp add: enqueue_i_def q0_def [symmetric] mq_links_def)
    then show ?thesis using head trans True
      by (intro exI [of _ "[]"] exI [of _ "[]"]) auto
  next
    case False
    then have enq: "enqueue_i (Some n) q = (case find ?P (rev xs) of None \<Rightarrow> enqueue_head_i (Some n) q0
       | Some t \<Rightarrow> (case mq_next q0 t of None \<Rightarrow> enqueue_tail_i (Some n) q0
           | Some nxt \<Rightarrow> Some (finish_enqueue (count_block n (insert_behind n t nxt q0)))))"
      using links0 find_along_prev [of "mq_next q0" "mq_prev q0" xs None ?P]
      by (simp add: enqueue_i_def q0_def [symmetric] mq_links_def)
    show ?thesis
    proof (cases "find ?P (rev xs)")
      case None
      then have "\<forall>x \<in> set xs. prio q x < prio q n" unfolding find_None_iff pr by auto
      then show ?thesis using head trans enq None by (intro exI [of _ "[]"] exI [of _ xs]) auto
    next
      case (Some t)
      then obtain ys zs where split: "xs = ys @ t # zs" "prio q n \<le> prio q t"
        "\<forall>z \<in> set zs. prio q z < prio q n"
        using find_rev_split [OF Some] unfolding pr by (auto simp: not_le)
      show ?thesis
      proof (cases zs)
        case Nil
        then have "enqueue_i (Some n) q = enqueue_tail_i (Some n) q0"
          using enq Some mq_links_next [of q0 ys t zs] links0 split(1) by simp
        then show ?thesis using tail trans split Nil
          by (intro exI [of _ xs] exI [of _ "[]"]) auto
      next
        case (Cons y ws)
        then have "enqueue_i (Some n) q = Some (finish_enqueue (count_block n (insert_behind n t y q0)))"
          using enq Some mq_links_next [of q0 ys t zs] links0 split(1) by simp
        moreover have "\<exists>q'. finish_enqueue (count_block n (insert_behind n t y q0))
            = (if cv_signal_rc (mq_not_empty_cond q) \<noteq> 0 then -1
               else int_of_size (of_nat (length (ys @ t # n # zs))), q')
          \<and> mq_rep q' (ys @ t # n # zs) \<and> same_config q0 q'"
          using insert_behind_rep [of q0 ys t y ws n] rep0 fresh
          unfolding cfg(2) split(1) Cons by simp
        ultimately show ?thesis using trans split
          by (intro exI [of _ "ys @ [t]"] exI [of _ zs]) auto
      qed
    qed
  qed
qed

subsection \<open>The dequeue operations\<close>

lemma unlink_links:
  assumes "mq_links q (ys @ c # zs)"
  shows "mq_links (unlink c q) (ys @ zs)"
proof -
  have d: "distinct (ys @ c # zs)" "dll (mq_next q) (mq_prev q) None ys (Some c)"
    "dll (mq_next q) (mq_prev q) (Some c) zs None"
    and c: "mq_next q c = first_ptr zs None" "mq_prev q c = last_ptr None ys"
    and ends: "mq_head q = first_ptr ys (Some c)" "mq_tail q = last_ptr (Some c) zs"
    using assms by (simp_all add: mq_links_def)
  define q1 where "q1 = (case last_ptr None ys of None \<Rightarrow> q\<lparr>mq_head := first_ptr zs None\<rparr>
    | Some p \<Rightarrow> set_next p (first_ptr zs None) q)"
  have u: "unlink c q = (case first_ptr zs None of None \<Rightarrow> q1\<lparr>mq_tail := last_ptr None ys\<rparr>
    | Some n \<Rightarrow> set_prev n (last_ptr None ys) q1)"
  proof (cases ys rule: rev_cases)
    case Nil
    then show ?thesis using c by (cases zs) (simp_all add: unlink_def q1_def Let_def)
  next
    case (snoc us p)
    then have "p \<noteq> c" using d(1) by auto
    then show ?thesis using c snoc by (cases zs) (simp_all add: unlink_def q1_def Let_def)
  qed
  have q1: "mq_prev q1 = mq_prev q" "mq_tail q1 = mq_tail q" "mq_head q1 = first_ptr (ys @ zs) None"
    using ends by (auto simp: q1_def first_ptr_def split: option.splits list.splits)
  have ys: "dll (mq_next q1) (mq_prev q) None ys (first_ptr zs None)"
  proof (cases ys rule: rev_cases)
    case (snoc us p)
    then show ?thesis using d dll_redirect_next [of "mq_next q" "mq_prev q" None us p] by (simp add: q1_def)
  qed simp
  have zs: "dll (mq_next q1) (mq_prev q) (Some c) zs None"
    using d(1,3) by (cases ys rule: rev_cases) (auto simp: q1_def)
  show ?thesis
  proof (cases zs)
    case Nil
    then show ?thesis using u ys q1 d(1) by (simp add: mq_links_def)
  next
    case (Cons n ws)
    then have "mq_prev (unlink c q) = (mq_prev q)(n := last_ptr None ys)" "mq_next (unlink c q) = mq_next q1"
      "mq_head (unlink c q) = first_ptr (ys @ zs) None" "mq_tail (unlink c q) = last_ptr None (ys @ zs)"
      using u q1 ends by (simp_all add: last_ptr_def)
    moreover have "dll (mq_next q1) ((mq_prev q)(n := last_ptr None ys)) None ys (first_ptr zs None)"
      using ys d(1) Cons by (simp del: dll.simps)
    moreover have "dll (mq_next q1) ((mq_prev q)(n := last_ptr None ys)) (last_ptr None ys) zs None"
      using zs d(1) unfolding Cons by (intro dll_redirect_prev) auto
    ultimately show ?thesis using d(1) unfolding mq_links_def dll_append by simp
  qed
qed

lemma unlink_simps [simp]:
  "mq_msg (unlink c q) = mq_msg q" "mq_cur_bytes (unlink c q) = mq_cur_bytes q"
  "mq_cur_length (unlink c q) = mq_cur_length q" "mq_cur_count (unlink c q) = mq_cur_count q"
  "mq_low_water_mark (unlink c q) = mq_low_water_mark q"
  "mq_high_water_mark (unlink c q) = mq_high_water_mark q"
  "mq_state_of (unlink c q) = mq_state_of q" "mq_not_full_cond (unlink c q) = mq_not_full_cond q"
  by (auto simp: unlink_def Let_def split: option.splits)

text \<open>
  \<open>wakes\<close> is what a dequeue does to the enqueuing threads: one signal exactly when the bytes
  left are at or below the low water mark.
\<close>

definition wakes :: "mqueue \<Rightarrow> mqueue \<Rightarrow> bool" where
  "wakes q q' \<longleftrightarrow> mq_not_full_cond q' = (if mq_cur_bytes q' \<le> mq_low_water_mark q'
     then (mq_not_full_cond q)\<lparr>cv_signals := Suc (cv_signals (mq_not_full_cond q))\<rparr>
     else mq_not_full_cond q)"

definition dequeue_rc :: "mqueue \<Rightarrow> mqueue \<Rightarrow> int" where
  "dequeue_rc q q' = (if mq_cur_bytes q' \<le> mq_low_water_mark q' \<and> cv_signal_rc (mq_not_full_cond q) \<noteq> 0
     then -1 else int_of_size (mq_cur_count q'))"

lemma finish_dequeue_step:
  assumes links: "mq_links q1 (ys @ zs)" and counts: "mq_counts q (ys @ a # zs)"
    and same: "same_config q q1" "mq_not_full_cond q1 = mq_not_full_cond q"
      "mq_cur_bytes q1 = mq_cur_bytes q" "mq_cur_length q1 = mq_cur_length q" "mq_cur_count q1 = mq_cur_count q"
    and a: "a \<notin> set (ys @ zs)"
  shows "\<exists>q'. finish_dequeue a q1 = (dequeue_rc q q', Some a, q') \<and> mq_rep q' (ys @ zs)
    \<and> same_config q q' \<and> wakes q q' \<and> mq_next q' a = None \<and> mq_prev q' a = None"
proof -
  have mm: "mq_msg q1 = mq_msg q" using same by (simp add: same_config_def)
  define q2 where "q2 = q1\<lparr>mq_cur_bytes := mq_cur_bytes q1 - msg_bytes (mq_msg q1 a),
    mq_cur_length := mq_cur_length q1 - msg_len (mq_msg q1 a), mq_cur_count := mq_cur_count q1 - 1\<rparr>"
  define q3 where "q3 = (if mq_cur_count q2 = 0 \<and> mq_head q2 = mq_tail q2
    then q2\<lparr>mq_head := None, mq_tail := None\<rparr> else q2)"
  define q4 where "q4 = set_next a None (set_prev a None q3)"
  have c2: "mq_counts q2 (ys @ zs)"
    using counts same mm by (simp add: mq_counts_def q2_def algebra_simps)
  have l2: "mq_links q2 (ys @ zs)" using links by (simp add: mq_links_def q2_def)
  have r3: "mq_rep q3 (ys @ zs)"
  proof (cases "mq_cur_count q2 = 0 \<and> mq_head q2 = mq_tail q2")
    case True
    have "ys @ zs = []"
    proof (rule ccontr)
      assume "ys @ zs \<noteq> []"
      then obtain x us where x: "ys @ zs = x # us" by (cases "ys @ zs") auto
      then have "last (x # us) = x" "distinct (x # us)"
        using True l2 by (auto simp: mq_links_def last_ptr_def)
      then have "us = []" by (cases us rule: rev_cases) auto
      then show False using True c2 x by (simp add: mq_counts_def)
    qed
    then show ?thesis using l2 c2 by (simp add: mq_rep_defs q3_def)
  next
    case False
    then have "q3 = q2" unfolding q3_def by (rule if_not_P)
    then show ?thesis using l2 c2 by (simp add: mq_rep_def)
  qed
  have r4: "mq_rep q4 (ys @ zs)" using r3 a by (simp add: q4_def mq_rep_defs)
  have fd: "finish_dequeue a q1 = (if mq_cur_bytes q4 \<le> mq_low_water_mark q4
         then let (rc, q) = signal_enqueue_waiters q4
              in if rc = -1 then (-1, Some a, q) else (int_of_size (mq_cur_count q), Some a, q)
         else (int_of_size (mq_cur_count q4), Some a, q4))"
    by (simp add: finish_dequeue_def q4_def q3_def q2_def Let_def total_size_and_length_sum
        msg_bytes_def msg_len_def)
  have s4: "same_config q q4" "mq_not_full_cond q4 = mq_not_full_cond q"
    "mq_next q4 a = None" "mq_prev q4 a = None"
    using same by (auto simp: q4_def q3_def q2_def same_config_def)
  show ?thesis
  proof (cases "mq_cur_bytes q4 \<le> mq_low_water_mark q4")
    case True
    then show ?thesis using fd r4 s4
      by (intro exI [of _ "snd (signal_enqueue_waiters q4)"])
        (auto simp: signal_enqueue_waiters_def dequeue_rc_def wakes_def mq_rep_defs same_config_def)
  next
    case False
    then show ?thesis using fd r4 s4
      by (intro exI [of _ q4]) (auto simp: dequeue_rc_def wakes_def)
  qed
qed

lemma dequeue_head_i_rep:
  assumes "mq_rep q (a # xs)"
  shows "\<exists>q'. dequeue_head_i q = Some (dequeue_rc q q', Some a, q') \<and> mq_rep q' xs
    \<and> same_config q q' \<and> wakes q q' \<and> mq_next q' a = None \<and> mq_prev q' a = None"
proof -
  have links: "mq_links q (a # xs)" and counts: "mq_counts q ([] @ a # xs)"
    using assms by (simp_all add: mq_rep_def)
  define q1 where "q1 = (let q = q\<lparr>mq_head := mq_next q a\<rparr>
    in case mq_head q of None \<Rightarrow> q\<lparr>mq_tail := None\<rparr> | Some h \<Rightarrow> set_prev h None q)"
  have "mq_links q1 ([] @ xs)"
    using links by (cases xs) (auto simp: q1_def mq_links_def last_ptr_def)
  moreover have "same_config q q1" "mq_not_full_cond q1 = mq_not_full_cond q"
    "mq_cur_bytes q1 = mq_cur_bytes q" "mq_cur_length q1 = mq_cur_length q" "mq_cur_count q1 = mq_cur_count q"
    by (auto simp: q1_def same_config_def Let_def split: option.splits)
  moreover have "a \<notin> set ([] @ xs)" using links by (simp add: mq_links_def)
  ultimately have "\<exists>q'. finish_dequeue a q1 = (dequeue_rc q q', Some a, q') \<and> mq_rep q' ([] @ xs)
    \<and> same_config q q' \<and> wakes q q' \<and> mq_next q' a = None \<and> mq_prev q' a = None"
    using finish_dequeue_step counts by blast
  moreover have "dequeue_head_i q = Some (finish_dequeue a q1)"
    using links by (simp add: dequeue_head_i_def q1_def Let_def mq_links_def)
  ultimately show ?thesis by auto
qed

lemma dequeue_tail_i_rep:
  assumes "mq_rep q (xs @ [a])"
  shows "\<exists>q'. dequeue_tail_i q = Some (dequeue_rc q q', Some a, q') \<and> mq_rep q' xs
    \<and> same_config q q' \<and> wakes q q' \<and> mq_next q' a = None \<and> mq_prev q' a = None"
proof -
  have links: "mq_links q (xs @ [a])" and counts: "mq_counts q (xs @ a # [])"
    using assms by (simp_all add: mq_rep_def)
  define q1 where "q1 = (case mq_prev q a of None \<Rightarrow> q\<lparr>mq_head := None, mq_tail := None\<rparr>
    | Some p \<Rightarrow> (set_next p None q)\<lparr>mq_tail := Some p\<rparr>)"
  have "mq_links q1 (xs @ [])"
    using links by (cases xs rule: rev_cases) (auto simp: q1_def mq_links_def)
  moreover have "same_config q q1" "mq_not_full_cond q1 = mq_not_full_cond q"
    "mq_cur_bytes q1 = mq_cur_bytes q" "mq_cur_length q1 = mq_cur_length q" "mq_cur_count q1 = mq_cur_count q"
    by (auto simp: q1_def same_config_def split: option.splits)
  moreover have "a \<notin> set (xs @ [])" using links by (simp add: mq_links_def)
  ultimately have "\<exists>q'. finish_dequeue a q1 = (dequeue_rc q q', Some a, q') \<and> mq_rep q' (xs @ [])
    \<and> same_config q q' \<and> wakes q q' \<and> mq_next q' a = None \<and> mq_prev q' a = None"
    using finish_dequeue_step counts by blast
  moreover have "dequeue_tail_i q = Some (finish_dequeue a q1)"
    using links by (auto simp: dequeue_tail_i_def q1_def mq_links_def first_ptr_def split: option.splits list.splits)
  ultimately show ?thesis by auto
qed

lemma unlink_dequeue:
  assumes "mq_rep q (ys @ c # zs)"
  shows "\<exists>q'. finish_dequeue c (unlink c q) = (dequeue_rc q q', Some c, q') \<and> mq_rep q' (ys @ zs)
    \<and> same_config q q' \<and> wakes q q' \<and> mq_next q' c = None \<and> mq_prev q' c = None"
proof (rule finish_dequeue_step)
  show "mq_links (unlink c q) (ys @ zs)" "mq_counts q (ys @ c # zs)"
    using assms by (simp_all add: mq_rep_def unlink_links)
  show "c \<notin> set (ys @ zs)" using assms by (simp add: mq_rep_def mq_links_def)
qed (simp_all add: same_config_def)

text \<open>
  The two scans as functions of the visited list: the best node so far, which a node at least
  as good (or strictly better, for the deadline) replaces.
\<close>

fun scan :: "('k \<Rightarrow> 'k \<Rightarrow> bool) \<Rightarrow> (addr \<Rightarrow> 'k) \<Rightarrow> addr list \<Rightarrow> ptr \<Rightarrow> 'k \<Rightarrow> ptr" where
  "scan better key [] chosen k = chosen"
| "scan better key (t # ts) chosen k =
     (if better (key t) k then scan better key ts (Some t) (key t) else scan better key ts chosen k)"

lemma choose_prio_scan:
  "dll nx (mq_prev q) None xs n
    \<Longrightarrow> choose_prio q (last_ptr None xs) c k = Some (scan (\<le>) (prio q) (rev xs) c k)"
proof (induction xs arbitrary: n c k rule: rev_induct)
  case Nil
  then show ?case by (simp add: choose_prio.simps)
next
  case (snoc x xs)
  then have "mq_prev q x = last_ptr None xs" "dll nx (mq_prev q) None xs (Some x)" by simp_all
  then show ?case using snoc.IH by (simp add: choose_prio.simps prio_def)
qed

lemma choose_deadline_scan:
  "path (mq_next q) xs None
    \<Longrightarrow> choose_deadline q (first_ptr xs None) c k
      = Some (scan (<) (\<lambda>t. msg_deadline_time (mq_msg q t)) xs c k)"
  by (induction xs arbitrary: c k) (simp_all add: choose_deadline.simps)

text \<open>The scan from the back chooses the first of the nodes with the least key.\<close>

lemma scan_le_min:
  fixes key :: "addr \<Rightarrow> 'k::linorder"
  shows "scan (\<le>) key us c k = c \<and> (\<forall>u \<in> set us. k < key u)
    \<or> (\<exists>vs x ws. us = vs @ x # ws \<and> scan (\<le>) key us c k = Some x \<and> key x \<le> k
        \<and> (\<forall>v \<in> set vs. key x \<le> key v) \<and> (\<forall>w \<in> set ws. key x < key w))"
proof (induction us arbitrary: c k)
  case Nil
  then show ?case by simp
next
  case (Cons t ts)
  show ?case
  proof (cases "key t \<le> k")
    case True
    from Cons.IH [of "Some t" "key t"] show ?thesis
    proof (elim disjE exE conjE)
      assume "scan (\<le>) key ts (Some t) (key t) = Some t" "\<forall>u \<in> set ts. key t < key u"
      then show ?thesis using True
        by (intro disjI2 exI [of _ "[]"] exI [of _ t] exI [of _ ts]) auto
    next
      fix vs x ws
      assume "ts = vs @ x # ws" "scan (\<le>) key ts (Some t) (key t) = Some x" "key x \<le> key t"
        "\<forall>v \<in> set vs. key x \<le> key v" "\<forall>w \<in> set ws. key x < key w"
      then show ?thesis using True
        by (intro disjI2 exI [of _ "t # vs"] exI [of _ x] exI [of _ ws]) auto
    qed
  next
    case False
    from Cons.IH [of c k] show ?thesis
    proof (elim disjE exE conjE)
      assume "scan (\<le>) key ts c k = c" "\<forall>u \<in> set ts. k < key u"
      then show ?thesis using False by auto
    next
      fix vs x ws
      assume "ts = vs @ x # ws" "scan (\<le>) key ts c k = Some x" "key x \<le> k"
        "\<forall>v \<in> set vs. key x \<le> key v" "\<forall>w \<in> set ws. key x < key w"
      then show ?thesis using False
        by (intro disjI2 exI [of _ "t # vs"] exI [of _ x] exI [of _ ws]) auto
    qed
  qed
qed

lemma scan_less_min:
  fixes key :: "addr \<Rightarrow> 'k::linorder"
  shows "scan (<) key us c k = c \<and> (\<forall>u \<in> set us. k \<le> key u)
    \<or> (\<exists>vs x ws. us = vs @ x # ws \<and> scan (<) key us c k = Some x \<and> key x < k
        \<and> (\<forall>v \<in> set vs. key x < key v) \<and> (\<forall>w \<in> set ws. key x \<le> key w))"
proof (induction us arbitrary: c k)
  case Nil
  then show ?case by simp
next
  case (Cons t ts)
  show ?case
  proof (cases "key t < k")
    case True
    from Cons.IH [of "Some t" "key t"] show ?thesis
    proof (elim disjE exE conjE)
      assume "scan (<) key ts (Some t) (key t) = Some t" "\<forall>u \<in> set ts. key t \<le> key u"
      then show ?thesis using True
        by (intro disjI2 exI [of _ "[]"] exI [of _ t] exI [of _ ts]) auto
    next
      fix vs x ws
      assume "ts = vs @ x # ws" "scan (<) key ts (Some t) (key t) = Some x" "key x < key t"
        "\<forall>v \<in> set vs. key x < key v" "\<forall>w \<in> set ws. key x \<le> key w"
      then show ?thesis using True
        by (intro disjI2 exI [of _ "t # vs"] exI [of _ x] exI [of _ ws]) auto
    qed
  next
    case False
    from Cons.IH [of c k] show ?thesis
    proof (elim disjE exE conjE)
      assume "scan (<) key ts c k = c" "\<forall>u \<in> set ts. k \<le> key u"
      then show ?thesis using False by auto
    next
      fix vs x ws
      assume "ts = vs @ x # ws" "scan (<) key ts c k = Some x" "key x < k"
        "\<forall>v \<in> set vs. key x < key v" "\<forall>w \<in> set ws. key x \<le> key w"
      then show ?thesis using False
        by (intro disjI2 exI [of _ "t # vs"] exI [of _ x] exI [of _ ws]) auto
    qed
  qed
qed

lemma dequeue_prio_i_rep:
  assumes rep: "mq_rep q xs" and ne: "xs \<noteq> []"
  shows "\<exists>ys c zs q'. dequeue_prio_i q = Some (dequeue_rc q q', Some c, q') \<and> xs = ys @ c # zs
    \<and> mq_rep q' (ys @ zs) \<and> same_config q q' \<and> wakes q q'
    \<and> (\<forall>y \<in> set ys. prio q c < prio q y) \<and> (\<forall>z \<in> set zs. prio q c \<le> prio q z)"
proof -
  have links: "mq_links q xs" using rep by (simp add: mq_rep_def)
  then have choose: "choose_prio q (mq_tail q) None (- 1) = Some (scan (\<le>) (prio q) (rev xs) None (- 1))"
    using choose_prio_scan [of "mq_next q" q xs None] by (simp add: mq_links_def)
  have "\<not> (\<forall>u \<in> set (rev xs). - 1 < prio q u)"
    using ne word_n1_ge by (cases xs) (auto simp: not_less)
  then obtain vs c ws where c: "rev xs = vs @ c # ws" "scan (\<le>) (prio q) (rev xs) None (- 1) = Some c"
    "\<forall>v \<in> set vs. prio q c \<le> prio q v" "\<forall>w \<in> set ws. prio q c < prio q w"
    using scan_le_min [of "prio q" "rev xs" None "- 1"] by blast
  then have xs: "xs = rev ws @ c # rev vs" by (metis append.assoc append_Cons append_Nil rev.simps(2) rev_append rev_rev_ident)
  obtain h where "mq_head q = Some h" using links ne by (cases xs) (simp_all add: mq_links_def)
  then have "dequeue_prio_i q = Some (finish_dequeue c (unlink c q))"
    using choose c(2) by (simp add: dequeue_prio_i_def)
  moreover have "\<forall>y \<in> set (rev ws). prio q c < prio q y" "\<forall>z \<in> set (rev vs). prio q c \<le> prio q z"
    using c(3,4) by simp_all
  ultimately show ?thesis using unlink_dequeue [OF rep [unfolded xs]] xs by metis
qed

lemma dequeue_deadline_i_rep:
  assumes rep: "mq_rep q xs" and ne: "xs \<noteq> []"
    and max: "\<forall>x \<in> set xs. msg_deadline_time (mq_msg q x) \<le> tv_max_time"
  shows "\<exists>ys c zs q'. dequeue_deadline_i q = Some (dequeue_rc q q', Some c, q') \<and> xs = ys @ c # zs
    \<and> mq_rep q' (ys @ zs) \<and> same_config q q' \<and> wakes q q'
    \<and> (\<forall>y \<in> set ys. msg_deadline_time (mq_msg q c) < msg_deadline_time (mq_msg q y))
    \<and> (\<forall>z \<in> set zs. msg_deadline_time (mq_msg q c) \<le> msg_deadline_time (mq_msg q z))"
proof -
  let ?key = "\<lambda>t. msg_deadline_time (mq_msg q t)"
  have links: "mq_links q xs" using rep by (simp add: mq_rep_def)
  then have choose: "choose_deadline q (mq_head q) None tv_max_time = Some (scan (<) ?key xs None tv_max_time)"
    using choose_deadline_scan [OF mq_links_path] by (simp add: mq_links_def)
  obtain h us where xs: "xs = h # us" using ne by (cases xs) auto
  then have h: "mq_head q = Some h" using links by (simp add: mq_links_def)
  have "\<exists>ys c zs. xs = ys @ c # zs \<and> (case scan (<) ?key xs None tv_max_time of None \<Rightarrow> h | Some c \<Rightarrow> c) = c
    \<and> (\<forall>y \<in> set ys. ?key c < ?key y) \<and> (\<forall>z \<in> set zs. ?key c \<le> ?key z)"
    using scan_less_min [of ?key xs None tv_max_time]
  proof (elim disjE exE conjE)
    assume "scan (<) ?key xs None tv_max_time = None" "\<forall>u \<in> set xs. tv_max_time \<le> ?key u"
    moreover from this have "\<forall>u \<in> set xs. ?key u = tv_max_time" using max by (auto intro: antisym)
    ultimately show ?thesis using xs by (intro exI [of _ "[]"] exI [of _ h] exI [of _ us]) auto
  next
    fix vs x ws
    assume "xs = vs @ x # ws" "scan (<) ?key xs None tv_max_time = Some x"
      "\<forall>v \<in> set vs. ?key x < ?key v" "\<forall>w \<in> set ws. ?key x \<le> ?key w"
    then show ?thesis by (intro exI [of _ vs] exI [of _ x] exI [of _ ws]) auto
  qed
  then obtain ys c zs where c: "xs = ys @ c # zs"
    "(case scan (<) ?key xs None tv_max_time of None \<Rightarrow> h | Some c \<Rightarrow> c) = c"
    "\<forall>y \<in> set ys. ?key c < ?key y" "\<forall>z \<in> set zs. ?key c \<le> ?key z"
    by blast
  then have "dequeue_deadline_i q = Some (finish_dequeue c (unlink c q))"
    using choose h by (simp add: dequeue_deadline_i_def)
  moreover obtain q' where "finish_dequeue c (unlink c q) = (dequeue_rc q q', Some c, q')"
    "mq_rep q' (ys @ zs)" "same_config q q'" "wakes q q'"
    using unlink_dequeue [OF rep [unfolded c(1)]] by blast
  ultimately show ?thesis using c(1,3,4)
    by (intro exI [of _ ys] exI [of _ c] exI [of _ zs] exI [of _ q']) simp
qed

lemma dequeue_empty_i:
  assumes "mq_rep q []"
  shows "dequeue_head_i q = Some (-1, None, q)" "dequeue_tail_i q = Some (-1, None, q)"
    "dequeue_prio_i q = Some (-1, None, q)" "dequeue_deadline_i q = Some (-1, None, q)"
  using assms by (simp_all add: mq_rep_defs dequeue_head_i_def dequeue_tail_i_def
      dequeue_prio_i_def dequeue_deadline_i_def)

subsection \<open>Deadline insertion\<close>

definition deadline :: "mqueue \<Rightarrow> addr \<Rightarrow> time_value" where
  "deadline q a = msg_deadline_time (mq_msg q a)"

text \<open>
  \<open>enqueue_deadline_i\<close> puts the new message behind the first one whose deadline is later than
  its own, or at the tail when there is none.
\<close>

definition deadline_insert :: "(addr \<Rightarrow> time_value) \<Rightarrow> addr \<Rightarrow> addr list \<Rightarrow> addr list" where
  "deadline_insert dl n xs =
     (case dropWhile (\<lambda>t. \<not> dl n < dl t) xs of
        [] \<Rightarrow> xs @ [n]
      | t # zs \<Rightarrow> takeWhile (\<lambda>t. \<not> dl n < dl t) xs @ t # n # zs)"

lemma find_takeWhile:
  "find P xs = (case dropWhile (\<lambda>x. \<not> P x) xs of [] \<Rightarrow> None | x # _ \<Rightarrow> Some x)"
  by (induction xs) auto

lemma enqueue_deadline_i_rep:
  assumes rep: "mq_rep q xs" and fresh: "n \<notin> set xs"
  shows "\<exists>q'. enqueue_deadline_i (Some n) q
      = Some (if cv_signal_rc (mq_not_empty_cond q) \<noteq> 0 then -1 else int_of_size (of_nat (Suc (length xs))), q')
    \<and> mq_rep q' (deadline_insert (deadline q) n xs) \<and> same_config q q'"
proof -
  define q0 where "q0 = set_next n None q"
  let ?P = "\<lambda>t. msg_deadline_time (mq_msg q0 n) < msg_deadline_time (mq_msg q0 t)"
  have rep0: "mq_rep q0 xs" using rep fresh by (simp add: q0_def set_next_fresh_rep)
  have links0: "mq_links q0 xs" using rep0 by (simp add: mq_rep_def)
  have cfg: "same_config q q0" "mq_not_empty_cond q0 = mq_not_empty_cond q"
    by (simp_all add: q0_def same_config_def)
  have P: "?P = (\<lambda>t. deadline q n < deadline q t)" by (simp add: q0_def deadline_def)
  have chain: "path (mq_next q0) [n] None" "distinct [n]" "set [n] \<inter> set xs = {}"
    using fresh by (simp_all add: q0_def)
  note head = enqueue_head_i_rep [OF rep0 chain, simplified cfg(2)]
  note tail = enqueue_tail_i_rep [OF rep0 chain, simplified cfg(2)]
  have trans: "same_config q q'" if "same_config q0 q'" for q'
    using that cfg(1) by (simp add: same_config_def)
  show ?thesis
  proof (cases "xs = []")
    case True
    then have "enqueue_deadline_i (Some n) q = enqueue_head_i (Some n) q0"
      using links0 by (simp add: enqueue_deadline_i_def q0_def [symmetric] mq_links_def)
    then show ?thesis using head trans True by (auto simp: deadline_insert_def)
  next
    case False
    then have enq: "enqueue_deadline_i (Some n) q = (case find ?P xs of None \<Rightarrow> enqueue_tail_i (Some n) q0
       | Some t \<Rightarrow> (case mq_next q0 t of None \<Rightarrow> enqueue_tail_i (Some n) q0
           | Some nxt \<Rightarrow> Some (finish_enqueue (count_block n (insert_behind n t nxt q0)))))"
      using links0 find_along_next [OF mq_links_path [OF links0], of ?P]
      by (simp add: enqueue_deadline_i_def q0_def [symmetric] mq_links_def)
    show ?thesis
    proof (cases "dropWhile (\<lambda>t. \<not> deadline q n < deadline q t) xs")
      case Nil
      then have "enqueue_deadline_i (Some n) q = enqueue_tail_i (Some n) q0"
        using enq unfolding P find_takeWhile Nil by simp
      moreover have "deadline_insert (deadline q) n xs = xs @ [n]"
        unfolding deadline_insert_def Nil by simp
      ultimately show ?thesis using tail trans by auto
    next
      case (Cons t zs)
      define ys where "ys = takeWhile (\<lambda>t. \<not> deadline q n < deadline q t) xs"
      have xs: "xs = ys @ t # zs" unfolding ys_def Cons [symmetric] by simp
      have nxt: "mq_next q0 t = first_ptr zs None"
        using mq_links_next [of q0 ys t zs] links0 xs by simp
      have res: "deadline_insert (deadline q) n xs = ys @ t # n # zs"
        using Cons by (simp add: deadline_insert_def ys_def)
      show ?thesis
      proof (cases zs)
        case Nil
        then have "enqueue_deadline_i (Some n) q = enqueue_tail_i (Some n) q0"
          using enq nxt Cons unfolding P find_takeWhile by simp
        then show ?thesis using tail trans res xs Nil by auto
      next
        case (Cons y ws)
        then have "enqueue_deadline_i (Some n) q = Some (finish_enqueue (count_block n (insert_behind n t y q0)))"
          using enq nxt \<open>dropWhile _ xs = t # zs\<close> unfolding P find_takeWhile by simp
        moreover have "\<exists>q'. finish_enqueue (count_block n (insert_behind n t y q0))
            = (if cv_signal_rc (mq_not_empty_cond q) \<noteq> 0 then -1
               else int_of_size (of_nat (length (ys @ t # n # zs))), q')
          \<and> mq_rep q' (ys @ t # n # zs) \<and> same_config q0 q'"
          using insert_behind_rep [of q0 ys t y ws n] rep0 fresh
          unfolding cfg(2) xs Cons by simp
        ultimately show ?thesis using trans res xs by auto
      qed
    qed
  qed
qed

lemma set_deadline_insert: "set (deadline_insert dl n xs) = insert n (set xs)"
proof (cases "dropWhile (\<lambda>t. \<not> dl n < dl t) xs")
  case Nil
  show ?thesis unfolding deadline_insert_def Nil by simp
next
  case (Cons t zs)
  have "set xs = set (takeWhile (\<lambda>t. \<not> dl n < dl t) xs @ t # zs)"
    unfolding Cons [symmetric] by simp
  then show ?thesis using Cons by (auto simp: deadline_insert_def)
qed

subsection \<open>Flush\<close>

lemma flush_loop_rep:
  assumes "path (mq_next q) xs None" and "mq_head q = first_ptr xs None" and "mq_tail q = None"
    and "mq_counts q xs"
  shows "\<exists>q'. flush_loop k q = Some (k + length xs, q') \<and> mq_rep q' []
    \<and> mq_released q' = mq_released q @ xs \<and> same_config q q'"
  using assms
proof (induction xs arbitrary: k q)
  case Nil
  then show ?case by (simp add: flush_loop.simps mq_rep_defs same_config_def)
next
  case (Cons h xs)
  define q1 where "q1 = q\<lparr>mq_cur_bytes := mq_cur_bytes q - msg_bytes (mq_msg q h),
    mq_cur_length := mq_cur_length q - msg_len (mq_msg q h), mq_cur_count := mq_cur_count q - 1,
    mq_head := mq_next q h, mq_released := mq_released q @ [h]\<rparr>"
  have step: "flush_loop k q = flush_loop (Suc k) q1"
    using Cons.prems by (subst flush_loop.simps)
      (simp add: q1_def total_size_and_length_sum msg_bytes_def msg_len_def)
  have "\<exists>q'. flush_loop (Suc k) q1 = Some (Suc k + length xs, q') \<and> mq_rep q' []
    \<and> mq_released q' = mq_released q1 @ xs \<and> same_config q1 q'"
    using Cons.prems by (intro Cons.IH) (auto simp: q1_def mq_counts_def)
  then show ?case unfolding step by (auto simp: q1_def same_config_def)
qed

lemma flush_i_rep:
  assumes "mq_rep q xs"
  shows "\<exists>q'. flush_i q = Some (length xs, q') \<and> mq_rep q' []
    \<and> mq_released q' = mq_released q @ xs \<and> same_config q q'"
  using flush_loop_rep [of "q\<lparr>mq_tail := None\<rparr>" xs 0] assms dll_path
  by (fastforce simp: flush_i_def mq_rep_defs same_config_def)

lemma deactivate_i_rep: "mq_rep (snd (deactivate_i p q)) xs = mq_rep q xs"
  by (simp add: deactivate_i_def Let_def mq_rep_defs)

lemma activate_i_rep: "mq_rep (snd (activate_i q)) xs = mq_rep q xs"
  by (simp add: activate_i_def mq_rep_defs)

lemma mq_open_rep: "mq_rep (snd (mq_open hwm lwm ns q)) []"
  by (simp add: mq_open_def mq_rep_defs)

lemma mq_new_rep [simp]: "mq_rep (mq_new nx pv msgs hwm lwm ns) []"
  by (simp add: mq_new_def mq_open_rep)

lemma mq_new_msg [simp]: "mq_msg (mq_new nx pv msgs hwm lwm ns) = msgs"
  by (simp add: mq_new_def mq_open_def)

end
