(* ===== verification/Message_Queue_Sync.thy ===== *)
theory Message_Queue_Sync
  imports Message_Queue
begin

text \<open>
  The public operations of \<open>ACE_Message_Queue\<close>: the shutdown check, the waits on the two
  condition variables and the call of the operation that runs under the lock. A wait releases
  the lock, so other threads run meanwhile; what a caller sees is a list of wake-ups, each with
  the queue it finds when it has the lock again. Then the queue as a whole: every sequence of
  operations refines the same sequence on a list of messages.
\<close>

section \<open>Waiting\<close>

text \<open>
  One return of \<open>ACE_Condition::wait\<close>: an error (with \<open>errno\<close>) or a wake-up, and the
  queue on return. When the list of wake-ups is used up the caller is still blocked: \<open>None\<close>.
\<close>

datatype wake = Wait_failed mq_errno mqueue | Woken mqueue

fun wait_not_full_cond :: "wake list \<Rightarrow> mqueue \<Rightarrow> (int \<times> mq_errno option \<times> mqueue) option" where
  "wait_not_full_cond ws q =
     (if is_full_i q then
        (case ws of
           [] \<Rightarrow> None
         | Wait_failed e q' # _ \<Rightarrow> Some (-1, Some (if e = ETIME then EWOULDBLOCK else e), q')
         | Woken q' # ws' \<Rightarrow>
             (if mq_state_of q' \<noteq> ACTIVATED then Some (-1, Some ESHUTDOWN, q')
              else wait_not_full_cond ws' q'))
      else Some (0, None, q))"

fun wait_not_empty_cond :: "wake list \<Rightarrow> mqueue \<Rightarrow> (int \<times> mq_errno option \<times> mqueue) option" where
  "wait_not_empty_cond ws q =
     (if is_empty_i q then
        (case ws of
           [] \<Rightarrow> None
         | Wait_failed e q' # _ \<Rightarrow> Some (-1, Some (if e = ETIME then EWOULDBLOCK else e), q')
         | Woken q' # ws' \<Rightarrow>
             (if mq_state_of q' \<noteq> ACTIVATED then Some (-1, Some ESHUTDOWN, q')
              else wait_not_empty_cond ws' q'))
      else Some (0, None, q))"

declare wait_not_full_cond.simps [simp del] wait_not_empty_cond.simps [simp del]

section \<open>Public operations\<close>

record mq_result =
  res_count :: int
  res_item :: ptr
  res_errno :: "mq_errno option"
  res_notify :: bool
  res_queue :: mqueue

definition mq_failed :: "mq_errno option \<Rightarrow> mqueue \<Rightarrow> mq_result" where
  "mq_failed err q = \<lparr>res_count = -1, res_item = None, res_errno = err, res_notify = False, res_queue = q\<rparr>"

definition guarded_enqueue :: "(ptr \<Rightarrow> mqueue \<Rightarrow> (int \<times> mqueue) option) \<Rightarrow> wake list \<Rightarrow> ptr
    \<Rightarrow> mqueue \<Rightarrow> mq_result option" where
  "guarded_enqueue op ws new_item q =
     (if mq_state_of q = DEACTIVATED then Some (mq_failed (Some ESHUTDOWN) q)
      else do {
        (rc, err, q1) \<leftarrow> wait_not_full_cond ws q;
        if rc = -1 then Some (mq_failed err q1)
        else do {
          (queue_count, q2) \<leftarrow> op new_item q1;
          if queue_count = -1 then Some (mq_failed None q2)
          else Some \<lparr>res_count = queue_count, res_item = None, res_errno = None,
                     res_notify = (mq_notification_strategy q2 \<noteq> None), res_queue = q2\<rparr>
        }
      })"

definition enqueue_head :: "wake list \<Rightarrow> ptr \<Rightarrow> mqueue \<Rightarrow> mq_result option" where
  "enqueue_head = guarded_enqueue enqueue_head_i"

definition enqueue_prio :: "wake list \<Rightarrow> ptr \<Rightarrow> mqueue \<Rightarrow> mq_result option" where
  "enqueue_prio = guarded_enqueue enqueue_i"

definition enqueue_deadline :: "wake list \<Rightarrow> ptr \<Rightarrow> mqueue \<Rightarrow> mq_result option" where
  "enqueue_deadline = guarded_enqueue enqueue_deadline_i"

definition enqueue_tail :: "wake list \<Rightarrow> ptr \<Rightarrow> mqueue \<Rightarrow> mq_result option" where
  "enqueue_tail = guarded_enqueue enqueue_tail_i"

definition enqueue :: "wake list \<Rightarrow> ptr \<Rightarrow> mqueue \<Rightarrow> mq_result option" where
  "enqueue = enqueue_prio"

definition guarded_dequeue :: "(mqueue \<Rightarrow> (int \<times> ptr \<times> mqueue) option) \<Rightarrow> wake list
    \<Rightarrow> mqueue \<Rightarrow> mq_result option" where
  "guarded_dequeue op ws q =
     (if mq_state_of q = DEACTIVATED then Some (mq_failed (Some ESHUTDOWN) q)
      else do {
        (rc, err, q1) \<leftarrow> wait_not_empty_cond ws q;
        if rc = -1 then Some (mq_failed err q1)
        else do {
          (queue_count, item, q2) \<leftarrow> op q1;
          Some \<lparr>res_count = queue_count, res_item = item, res_errno = None, res_notify = False, res_queue = q2\<rparr>
        }
      })"

definition dequeue_head :: "wake list \<Rightarrow> mqueue \<Rightarrow> mq_result option" where
  "dequeue_head = guarded_dequeue dequeue_head_i"

definition dequeue_prio :: "wake list \<Rightarrow> mqueue \<Rightarrow> mq_result option" where
  "dequeue_prio = guarded_dequeue dequeue_prio_i"

definition dequeue_tail :: "wake list \<Rightarrow> mqueue \<Rightarrow> mq_result option" where
  "dequeue_tail = guarded_dequeue dequeue_tail_i"

definition dequeue_deadline :: "wake list \<Rightarrow> mqueue \<Rightarrow> mq_result option" where
  "dequeue_deadline = guarded_dequeue dequeue_deadline_i"

definition peek_dequeue_head :: "wake list \<Rightarrow> mqueue \<Rightarrow> mq_result option" where
  "peek_dequeue_head =
     guarded_dequeue (\<lambda>q. Some (int_of_size (mq_cur_count q), mq_head q, q))"

subsection \<open>What a completed wait tells\<close>

definition seen :: "wake list \<Rightarrow> mqueue \<Rightarrow> mqueue set" where
  "seen ws q = insert q {q'. Woken q' \<in> set ws \<and> mq_state_of q' = ACTIVATED}"

lemma seen_Cons: "mq_state_of q' = ACTIVATED \<Longrightarrow> seen ws q' \<subseteq> seen (Woken q' # ws) q"
  by (auto simp: seen_def)

lemma wait_not_full_cond_ok:
  "wait_not_full_cond ws q = Some (rc, err, q1) \<Longrightarrow> rc \<noteq> -1
    \<Longrightarrow> q1 \<in> seen ws q \<and> \<not> is_full_i q1"
proof (induction ws q rule: wait_not_full_cond.induct)
  case (1 ws q)
  show ?case
  proof (cases "is_full_i q")
    case False
    then show ?thesis using "1.prems" by (auto simp: wait_not_full_cond.simps [of ws q] seen_def)
  next
    case True
    with "1.prems" obtain q' ws' where w: "ws = Woken q' # ws'" "mq_state_of q' = ACTIVATED"
      "wait_not_full_cond ws' q' = Some (rc, err, q1)"
      by (auto simp: wait_not_full_cond.simps [of ws q] split: list.splits wake.splits if_splits)
    then show ?thesis using "1.IH" True "1.prems"(2) seen_Cons [of q' ws' q] by blast
  qed
qed

lemma wait_not_empty_cond_ok:
  "wait_not_empty_cond ws q = Some (rc, err, q1) \<Longrightarrow> rc \<noteq> -1
    \<Longrightarrow> q1 \<in> seen ws q \<and> \<not> is_empty_i q1"
proof (induction ws q rule: wait_not_empty_cond.induct)
  case (1 ws q)
  show ?case
  proof (cases "is_empty_i q")
    case False
    then show ?thesis using "1.prems" by (auto simp: wait_not_empty_cond.simps [of ws q] seen_def)
  next
    case True
    with "1.prems" obtain q' ws' where w: "ws = Woken q' # ws'" "mq_state_of q' = ACTIVATED"
      "wait_not_empty_cond ws' q' = Some (rc, err, q1)"
      by (auto simp: wait_not_empty_cond.simps [of ws q] split: list.splits wake.splits if_splits)
    then show ?thesis using "1.IH" True "1.prems"(2) seen_Cons [of q' ws' q] by blast
  qed
qed

lemma guarded_enqueue_ok:
  assumes "guarded_enqueue op ws item q = Some r" and "res_count r \<noteq> -1"
  shows "mq_state_of q \<noteq> DEACTIVATED \<and> (\<exists>q1 \<in> seen ws q. \<not> is_full_i q1
    \<and> op item q1 = Some (res_count r, res_queue r))"
  using assms wait_not_full_cond_ok
  by (fastforce simp: guarded_enqueue_def mq_failed_def bind_eq_Some_conv split: if_splits)

lemma guarded_shutdown:
  assumes "mq_state_of q = DEACTIVATED"
  shows "guarded_enqueue op ws item q = Some (mq_failed (Some ESHUTDOWN) q)"
    and "guarded_dequeue op' ws q = Some (mq_failed (Some ESHUTDOWN) q)"
  using assms by (simp_all add: guarded_enqueue_def guarded_dequeue_def)

lemmas public_enqueue_defs = enqueue_head_def enqueue_prio_def enqueue_deadline_def enqueue_tail_def enqueue_def
lemmas public_dequeue_defs = dequeue_head_def dequeue_prio_def dequeue_tail_def dequeue_deadline_def peek_dequeue_head_def

section \<open>Sequences of operations\<close>

datatype mq_op =
    Enq_tail "addr list" | Enq_head "addr list" | Enq_prio addr | Enq_deadline addr
  | Deq_head | Deq_tail | Deq_prio | Flush | Activate | Deactivate | Pulse

text \<open>The chain a caller passes: the first block, linked to the others by \<open>next\<close>.\<close>

fun exec_op :: "mq_op \<Rightarrow> mqueue \<Rightarrow> (ptr \<times> mqueue) option" where
  "exec_op (Enq_tail ns) q = map_option (\<lambda>(_, q'). (None, q')) (enqueue_tail_i (first_ptr ns None) q)"
| "exec_op (Enq_head ns) q = map_option (\<lambda>(_, q'). (None, q')) (enqueue_head_i (first_ptr ns None) q)"
| "exec_op (Enq_prio n) q = map_option (\<lambda>(_, q'). (None, q')) (enqueue_i (Some n) q)"
| "exec_op (Enq_deadline n) q = map_option (\<lambda>(_, q'). (None, q')) (enqueue_deadline_i (Some n) q)"
| "exec_op Deq_head q = map_option snd (dequeue_head_i q)"
| "exec_op Deq_tail q = map_option snd (dequeue_tail_i q)"
| "exec_op Deq_prio q = map_option snd (dequeue_prio_i q)"
| "exec_op Flush q = map_option (\<lambda>(_, q'). (None, q')) (flush_i q)"
| "exec_op Activate q = Some (None, snd (activate_i q))"
| "exec_op Deactivate q = Some (None, snd (deactivate_i False q))"
| "exec_op Pulse q = Some (None, snd (deactivate_i True q))"

fun exec_ops :: "mq_op list \<Rightarrow> mqueue \<Rightarrow> (ptr list \<times> mqueue) option" where
  "exec_ops [] q = Some ([], q)"
| "exec_ops (x # xs) q = do {
     (out, q1) \<leftarrow> exec_op x q;
     (outs, q2) \<leftarrow> exec_ops xs q1;
     Some (out # outs, q2)
   }"

text \<open>The specification: the same operations on the list of queued messages.\<close>

definition prio_insert :: "('a \<Rightarrow> 'k::linorder) \<Rightarrow> 'a \<Rightarrow> 'a list \<Rightarrow> 'a list" where
  "prio_insert pr n xs =
     rev (dropWhile (\<lambda>t. pr t < pr n) (rev xs)) @ n # rev (takeWhile (\<lambda>t. pr t < pr n) (rev xs))"

fun spec_op :: "(addr \<Rightarrow> u64) \<Rightarrow> (addr \<Rightarrow> time_value) \<Rightarrow> mq_op \<Rightarrow> addr list \<Rightarrow> ptr \<times> addr list" where
  "spec_op pr dl (Enq_tail ns) xs = (None, xs @ ns)"
| "spec_op pr dl (Enq_head ns) xs = (None, ns @ xs)"
| "spec_op pr dl (Enq_prio n) xs = (None, prio_insert pr n xs)"
| "spec_op pr dl (Enq_deadline n) xs = (None, deadline_insert dl n xs)"
| "spec_op pr dl Deq_head xs = (case xs of [] \<Rightarrow> (None, []) | x # xs' \<Rightarrow> (Some x, xs'))"
| "spec_op pr dl Deq_tail xs = (if xs = [] then (None, []) else (Some (last xs), butlast xs))"
| "spec_op pr dl Deq_prio xs = (if xs = [] then (None, [])
     else let c = arg_min_list pr xs in (Some c, remove1 c xs))"
| "spec_op pr dl Flush xs = (None, [])"
| "spec_op pr dl Activate xs = (None, xs)"
| "spec_op pr dl Deactivate xs = (None, xs)"
| "spec_op pr dl Pulse xs = (None, xs)"

fun spec_ops :: "(addr \<Rightarrow> u64) \<Rightarrow> (addr \<Rightarrow> time_value) \<Rightarrow> mq_op list \<Rightarrow> addr list \<Rightarrow> ptr list \<times> addr list" where
  "spec_ops pr dl [] xs = ([], xs)"
| "spec_ops pr dl (x # ops) xs =
     (let (out, xs1) = spec_op pr dl x xs; (outs, xs2) = spec_ops pr dl ops xs1 in (out # outs, xs2))"

text \<open>
  The callers' obligations: a chain is a proper list of blocks none of which is queued, a
  message enqueued by priority or deadline is not queued. \<open>legal_ops\<close> checks them along the
  run of the queue.
\<close>

fun legal_op :: "mq_op \<Rightarrow> mqueue \<Rightarrow> addr list \<Rightarrow> bool" where
  "legal_op (Enq_tail ns) q xs = (ns \<noteq> [] \<and> path (mq_next q) ns None \<and> distinct ns \<and> set ns \<inter> set xs = {})"
| "legal_op (Enq_head ns) q xs = (ns \<noteq> [] \<and> path (mq_next q) ns None \<and> distinct ns \<and> set ns \<inter> set xs = {})"
| "legal_op (Enq_prio n) q xs = (n \<notin> set xs)"
| "legal_op (Enq_deadline n) q xs = (n \<notin> set xs)"
| "legal_op _ q xs = True"

fun legal_ops :: "mq_op list \<Rightarrow> mqueue \<Rightarrow> addr list \<Rightarrow> bool" where
  "legal_ops [] q xs = True"
| "legal_ops (x # ops) q xs = (legal_op x q xs \<and> (\<forall>out q1. exec_op x q = Some (out, q1)
     \<longrightarrow> legal_ops ops q1 (snd (spec_op (prio q) (deadline q) x xs))))"

lemma prio_insert_split:
  assumes "\<forall>z \<in> set zs. pr z < pr n" and "ys \<noteq> [] \<longrightarrow> pr n \<le> pr (last ys)"
  shows "prio_insert pr n (ys @ zs) = ys @ n # zs"
proof -
  let ?low = "\<lambda>t. pr t < pr n"
  have ys: "dropWhile ?low (rev ys) = rev ys \<and> takeWhile ?low (rev ys) = []"
    using assms(2) by (cases ys rule: rev_cases) (simp_all add: not_less)
  have zs: "\<And>z. z \<in> set (rev zs) \<Longrightarrow> ?low z" using assms(1) by simp
  have "dropWhile ?low (rev zs @ rev ys) = rev ys"
    by (simp only: dropWhile_append2 [OF zs] ys)
  moreover have "takeWhile ?low (rev zs @ rev ys) = rev zs"
    by (simp only: takeWhile_append2 [OF zs] ys append_Nil2)
  ultimately show ?thesis by (simp add: prio_insert_def)
qed

lemma arg_min_list_split:
  assumes "\<forall>y \<in> set ys. pr c < pr y" and "\<forall>z \<in> set zs. (pr c :: 'k::linorder) \<le> pr z"
  shows "arg_min_list pr (ys @ c # zs) = c"
  using assms
proof (induction ys)
  case Nil
  then show ?case
  proof (cases zs)
    case (Cons z us)
    then have "arg_min_list pr zs \<in> set zs" by (intro arg_min_list_in) simp
    then show ?thesis using Nil Cons by (auto simp: Let_def)
  qed simp
next
  case (Cons y ys)
  then show ?case by (cases "ys @ c # zs") (auto simp: Let_def not_le)
qed

text \<open>One operation.\<close>

lemma exec_op_refines:
  assumes rep: "mq_rep q xs" and legal: "legal_op x q xs"
  shows "\<exists>q'. exec_op x q = Some (fst (spec_op (prio q) (deadline q) x xs), q')
    \<and> mq_rep q' (snd (spec_op (prio q) (deadline q) x xs)) \<and> mq_msg q' = mq_msg q"
proof (cases x)
  case (Enq_tail ns)
  then obtain n ms where "ns = n # ms" using legal by (cases ns) auto
  then show ?thesis using Enq_tail legal enqueue_tail_i_rep [OF rep, of n ms]
    by (auto simp: same_config_def)
next
  case (Enq_head ns)
  then obtain n ms where "ns = n # ms" using legal by (cases ns) auto
  then show ?thesis using Enq_head legal enqueue_head_i_rep [OF rep, of n ms]
    by (auto simp: same_config_def)
next
  case (Enq_prio n)
  then obtain ys zs q' where "xs = ys @ zs" "mq_rep q' (ys @ n # zs)" "same_config q q'"
    "\<exists>rc. enqueue_i (Some n) q = Some (rc, q')"
    "ys \<noteq> [] \<longrightarrow> prio q n \<le> prio q (last ys)" "\<forall>z \<in> set zs. prio q z < prio q n"
    using enqueue_i_rep [OF rep, of n] legal by auto
  then show ?thesis using Enq_prio prio_insert_split [of zs "prio q" n ys] by (auto simp: same_config_def)
next
  case (Enq_deadline n)
  then show ?thesis using enqueue_deadline_i_rep [OF rep, of n] legal by (auto simp: same_config_def)
next
  case Deq_head
  show ?thesis
  proof (cases xs)
    case Nil
    then show ?thesis using rep Deq_head dequeue_empty_i by auto
  next
    case (Cons y ys)
    then show ?thesis using rep Deq_head dequeue_head_i_rep [of q y ys] by (auto simp: same_config_def)
  qed
next
  case Deq_tail
  show ?thesis
  proof (cases xs rule: rev_cases)
    case Nil
    then show ?thesis using rep Deq_tail dequeue_empty_i by auto
  next
    case (snoc ys y)
    then show ?thesis using rep Deq_tail dequeue_tail_i_rep [of q ys y] by (auto simp: same_config_def)
  qed
next
  case Deq_prio
  show ?thesis
  proof (cases "xs = []")
    case True
    then show ?thesis using rep Deq_prio dequeue_empty_i by auto
  next
    case False
    then obtain ys c zs q' where d: "dequeue_prio_i q = Some (dequeue_rc q q', Some c, q')"
      "xs = ys @ c # zs" "mq_rep q' (ys @ zs)" "same_config q q'"
      "\<forall>y \<in> set ys. prio q c < prio q y" "\<forall>z \<in> set zs. prio q c \<le> prio q z"
      using dequeue_prio_i_rep [OF rep] by blast
    moreover have "arg_min_list (prio q) xs = c" unfolding d(2) using d(5,6) by (rule arg_min_list_split)
    moreover have "c \<notin> set ys" using rep d(2) by (simp add: mq_rep_def mq_links_def)
    ultimately show ?thesis using Deq_prio False by (auto simp: remove1_append same_config_def)
  qed
next
  case Flush
  then show ?thesis using flush_i_rep [OF rep] by (auto simp: same_config_def)
next
  case Activate
  then show ?thesis using rep by (simp add: activate_i_rep) (simp add: activate_i_def)
next
  case Deactivate
  then show ?thesis using rep by (simp add: deactivate_i_rep) (simp add: deactivate_i_def Let_def)
next
  case Pulse
  then show ?thesis using rep by (simp add: deactivate_i_rep) (simp add: deactivate_i_def Let_def)
qed

lemma exec_ops_refine:
  assumes "mq_rep q xs" and "legal_ops ops q xs"
  shows "\<exists>q'. exec_ops ops q = Some (fst (spec_ops (prio q) (deadline q) ops xs), q')
    \<and> mq_rep q' (snd (spec_ops (prio q) (deadline q) ops xs))"
  using assms
proof (induction ops arbitrary: q xs)
  case Nil
  then show ?case by simp
next
  case (Cons x ops)
  obtain q1 where q1: "exec_op x q = Some (fst (spec_op (prio q) (deadline q) x xs), q1)"
    "mq_rep q1 (snd (spec_op (prio q) (deadline q) x xs))" "mq_msg q1 = mq_msg q"
    using exec_op_refines Cons.prems by (metis legal_ops.simps(2))
  have same: "prio q1 = prio q" "deadline q1 = deadline q"
    using q1(3) by (simp_all add: prio_def deadline_def fun_eq_iff)
  have "legal_ops ops q1 (snd (spec_op (prio q) (deadline q) x xs))"
    using Cons.prems(2) q1(1) by simp
  from Cons.IH [OF q1(2) this] show ?case
    using q1(1) by (auto simp: same split: prod.splits)
qed

section \<open>Properties\<close>

lemma enqueue_tail_new:
  assumes "nx n = None"
  shows "\<exists>q'. enqueue_tail_i (Some n) (mq_new nx pv msgs hwm lwm ns) = Some (1, q')
    \<and> mq_rep q' [n] \<and> mq_msg q' = msgs"
proof -
  have "cv_signal_rc (mq_not_empty_cond (mq_new nx pv msgs hwm lwm ns)) = 0"
    "path (mq_next (mq_new nx pv msgs hwm lwm ns)) [n] None"
    using assms by (simp_all add: mq_new_def mq_open_def)
  then show ?thesis using enqueue_tail_i_rep [OF mq_new_rep, of nx pv msgs hwm lwm ns n "[]"]
    by (auto simp: same_config_def int_of_size_def)
qed



text \<open>
  (C21) Priority insertion into a queue ordered by priority keeps it ordered, and is first-in
  first-out within a priority: the new message comes behind every message of the same or a
  higher priority and before every one of a lower priority.
\<close>

theorem enqueue_prio_sorted_fifo:
  assumes "mq_rep q xs" and "n \<notin> set xs" and "sorted_wrt (\<lambda>a b. prio q b \<le> prio q a) xs"
  shows "\<exists>rc q' ys zs. enqueue_i (Some n) q = Some (rc, q') \<and> xs = ys @ zs \<and> mq_rep q' (ys @ n # zs)
    \<and> sorted_wrt (\<lambda>a b. prio q b \<le> prio q a) (ys @ n # zs)
    \<and> (\<forall>y \<in> set ys. prio q n \<le> prio q y) \<and> (\<forall>z \<in> set zs. prio q z < prio q n)"
proof -
  obtain ys zs q' rc where e: "enqueue_i (Some n) q = Some (rc, q')" "xs = ys @ zs" "mq_rep q' (ys @ n # zs)"
    "ys \<noteq> [] \<longrightarrow> prio q n \<le> prio q (last ys)" "\<forall>z \<in> set zs. prio q z < prio q n"
    using enqueue_i_rep [OF assms(1,2)] by blast
  have "\<forall>y \<in> set ys. prio q n \<le> prio q y"
  proof (cases ys rule: rev_cases)
    case (snoc us u)
    then show ?thesis using e(2,4) assms(3) by (auto simp: sorted_wrt_append)
  qed simp
  moreover from this have "sorted_wrt (\<lambda>a b. prio q b \<le> prio q a) (ys @ n # zs)"
    using assms(3) e(2,5) by (auto simp: sorted_wrt_append)
  ultimately show ?thesis using e by blast
qed

theorem enqueue_prio_sorted_fifo_witness:
  "\<exists>rc q'. enqueue_i (Some 3)
      (mq_new (\<lambda>_. None) (\<lambda>_. None) (\<lambda>_. \<lparr>msg_extents = [(4, 2)], msg_priority = 0, msg_deadline_time = 0\<rparr>) 16 8 None)
    = Some (rc, q')"
  (is "\<exists>rc q'. enqueue_i _ ?q = _")
proof -
  have "3 \<notin> set []" "sorted_wrt (\<lambda>a b. prio ?q b \<le> prio ?q a) []" by simp_all
  from enqueue_prio_sorted_fifo [OF mq_new_rep this] show ?thesis by blast
qed

text \<open>
  Priority removal from a non-empty queue takes out, of the messages with the lowest
  priority, the one nearest the head, and leaves the others in their order; enqueuing threads
  get one signal exactly when the bytes left are at or below the low water mark.
\<close>

theorem dequeue_prio_first_lowest:
  assumes "mq_rep q xs" and "xs \<noteq> []"
  shows "\<exists>ys c zs rc q'. dequeue_prio_i q = Some (rc, Some c, q') \<and> xs = ys @ c # zs
    \<and> mq_rep q' (ys @ zs)
    \<and> (\<forall>y \<in> set ys. prio q c < prio q y) \<and> (\<forall>z \<in> set zs. prio q c \<le> prio q z)
    \<and> mq_not_full_cond q' = (if mq_cur_bytes q' \<le> mq_low_water_mark q'
         then (mq_not_full_cond q)\<lparr>cv_signals := Suc (cv_signals (mq_not_full_cond q))\<rparr>
         else mq_not_full_cond q)"
  using dequeue_prio_i_rep [OF assms] unfolding wakes_def by blast

theorem dequeue_prio_first_lowest_witness:
  "\<exists>q rc c q'. mq_rep q [3] \<and> dequeue_prio_i q = Some (rc, Some c, q')"
proof -
  obtain q where "mq_rep q [3]"
    using enqueue_tail_new [of "\<lambda>_. None" 3 "\<lambda>_. None"
      "\<lambda>_. \<lparr>msg_extents = [(4, 2)], msg_priority = 0, msg_deadline_time = 0\<rparr>" 16 8 None] by blast
  moreover have "[3 :: addr] \<noteq> []" by simp
  ultimately show ?thesis using dequeue_prio_first_lowest by blast
qed

text \<open>
  Deadline insertion does not keep a queue in deadline order: whenever some queued message
  has a later deadline than the new one, the new one is linked behind it, so the result is out
  of order, although the code and its comment mean to insert behind the messages of lesser or
  equal deadline.
\<close>

theorem enqueue_deadline_misorders:
  assumes "mq_rep q xs" and "n \<notin> set xs" and "t \<in> set xs" and "deadline q n < deadline q t"
  shows "\<exists>rc q' ys. enqueue_deadline_i (Some n) q = Some (rc, q') \<and> mq_rep q' ys
    \<and> set ys = insert n (set xs) \<and> \<not> sorted_wrt (\<lambda>a b. deadline q a \<le> deadline q b) ys"
proof -
  obtain rc q' where e: "enqueue_deadline_i (Some n) q = Some (rc, q')"
    "mq_rep q' (deadline_insert (deadline q) n xs)"
    using enqueue_deadline_i_rep [OF assms(1,2)] by blast
  let ?P = "\<lambda>t. \<not> deadline q n < deadline q t"
  have ne: "dropWhile ?P xs \<noteq> []" using assms(3,4) by (simp only: dropWhile_eq_Nil_conv) blast
  then obtain u zs where u: "dropWhile ?P xs = u # zs" by (cases "dropWhile ?P xs") simp_all
  have "\<not> ?P (hd (dropWhile ?P xs))" using ne by (rule hd_dropWhile)
  then have "deadline q n < deadline q u" unfolding u by simp
  then have "\<not> sorted_wrt (\<lambda>a b. deadline q a \<le> deadline q b) (deadline_insert (deadline q) n xs)"
    unfolding deadline_insert_def u by (simp add: sorted_wrt_append not_le)
  then show ?thesis using e set_deadline_insert by blast
qed

theorem enqueue_deadline_misorders_witness:
  "\<exists>q q' rc. mq_rep q [1] \<and> enqueue_deadline_i (Some 2) q = Some (rc, q') \<and> mq_rep q' [1, 2]
    \<and> deadline q 2 < deadline q 1"
proof -
  let ?m = "\<lambda>a. \<lparr>msg_extents = [(4, 2)], msg_priority = 0,
    msg_deadline_time = (if a = (1 :: nat) then Time_Value 10 0 else Time_Value 5 0)\<rparr>"
  obtain q where q: "mq_rep q [1]" "mq_msg q = ?m"
    using enqueue_tail_new [of "\<lambda>_. None" 1 "\<lambda>_. None" ?m 16 8 None] by blast
  have d: "deadline q 2 < deadline q 1"
    by (simp add: deadline_def q(2) less_time_value_def tv_lt_def tv_gt_def)
  then have "deadline_insert (deadline q) 2 [1] = [1, 2]" by (simp add: deadline_insert_def)
  moreover have "\<exists>rc q' ys. enqueue_deadline_i (Some 2) q = Some (rc, q') \<and> mq_rep q' ys"
    using enqueue_deadline_misorders [OF q(1), of 2 1] d by auto
  ultimately show ?thesis using q(1) d enqueue_deadline_i_rep [OF q(1), of 2] by auto
qed

text \<open>
  (C34) Flow control: a tail enqueue that succeeds, however often its caller was woken, did the
  insertion on a queue that was below the high water mark (the caller's own, or one it was
  woken with while the queue was active), and never starts on a deactivated queue.
\<close>

theorem enqueue_tail_flow_control:
  assumes "enqueue_tail ws item q = Some r" and "res_count r \<noteq> -1"
  shows "mq_state_of q \<noteq> DEACTIVATED
    \<and> (\<exists>q1. (q1 = q \<or> Woken q1 \<in> set ws \<and> mq_state_of q1 = ACTIVATED)
         \<and> mq_cur_bytes q1 < mq_high_water_mark q1
         \<and> enqueue_tail_i item q1 = Some (res_count r, res_queue r))"
  using guarded_enqueue_ok [OF assms [unfolded enqueue_tail_def]]
  by (auto simp: seen_def is_full_i_def not_le)

theorem enqueue_tail_flow_control_witness:
  "\<exists>q r. enqueue_tail [] (Some 3) q = Some r \<and> res_count r = 1
    \<and> mq_cur_bytes q < mq_high_water_mark q"
proof -
  let ?q = "mq_new (\<lambda>_. None) (\<lambda>_. None) (\<lambda>_. \<lparr>msg_extents = [(4, 2)], msg_priority = 0, msg_deadline_time = 0\<rparr>) 16 8 None"
  have f: "\<not> is_full_i ?q" "mq_state_of ?q = ACTIVATED" "mq_notification_strategy ?q = None"
    by (simp_all add: is_full_i_def mq_new_def mq_open_def)
  obtain q' where "enqueue_tail_i (Some 3) ?q = Some (1, q')"
    using enqueue_tail_new [of "\<lambda>_. None" 3] by blast
  then obtain r where r: "enqueue_tail [] (Some 3) ?q = Some r" "res_count r = 1"
    using f by (auto simp: enqueue_tail_def guarded_enqueue_def wait_not_full_cond.simps)
  have "mq_cur_bytes ?q < mq_high_water_mark ?q" using f(1) by (simp add: is_full_i_def)
  then show ?thesis using r enqueue_tail_flow_control [OF r(1)] by auto
qed

text \<open>
  Shutdown: closing a queue releases each of its messages once, in order, wakes every
  waiter of both conditions, and from then on every enqueue and dequeue fails with
  \<open>ESHUTDOWN\<close> and leaves the queue alone.
\<close>

theorem close_shuts_down:
  assumes "mq_rep q xs"
  shows "\<exists>q'. mq_close q = Some (length xs, q') \<and> mq_rep q' [] \<and> mq_state_of q' = DEACTIVATED
    \<and> mq_released q' = mq_released q @ xs
    \<and> enqueue_tail ws item q' = Some (mq_failed (Some ESHUTDOWN) q')
    \<and> enqueue_head ws item q' = Some (mq_failed (Some ESHUTDOWN) q')
    \<and> enqueue_prio ws item q' = Some (mq_failed (Some ESHUTDOWN) q')
    \<and> enqueue_deadline ws item q' = Some (mq_failed (Some ESHUTDOWN) q')
    \<and> dequeue_head ws q' = Some (mq_failed (Some ESHUTDOWN) q')
    \<and> dequeue_tail ws q' = Some (mq_failed (Some ESHUTDOWN) q')
    \<and> dequeue_prio ws q' = Some (mq_failed (Some ESHUTDOWN) q')
    \<and> dequeue_deadline ws q' = Some (mq_failed (Some ESHUTDOWN) q')"
proof -
  let ?q = "snd (deactivate_i False q)"
  have "mq_rep ?q xs" using assms by (simp add: deactivate_i_rep)
  then obtain q' where q': "mq_close q = Some (length xs, q')" "mq_rep q' []"
    "mq_released q' = mq_released ?q @ xs" "same_config ?q q'"
    using flush_i_rep by (auto simp: mq_close_def)
  then have "mq_state_of q' = DEACTIVATED" "mq_released q' = mq_released q @ xs"
    by (auto simp: same_config_def deactivate_i_def Let_def split: if_splits)
  then show ?thesis using q' by (simp add: public_enqueue_defs public_dequeue_defs guarded_shutdown)
qed

theorem close_shuts_down_witness:
  "\<exists>q q'. mq_rep q [] \<and> mq_close q = Some (0, q') \<and> mq_state_of q' = DEACTIVATED"
  using close_shuts_down [OF mq_new_rep] mq_new_rep by fastforce

end
