(* ===== verification/Timer_Heap.thy ===== *)
theory Timer_Heap
imports Time_Value "HOL-Library.Monad_Syntax"
begin

text \<open>
  The heap-based timer queue of ACE/ace/Timer_Heap_T.cpp. The heap array \<open>heap_\<close> holds the timer
  nodes ordered by their due time; the parallel array \<open>timer_ids_\<close> maps a timer id to the slot of
  its node and doubles as the table of free ids (a negative entry: \<open>-2\<close> for a node that was taken
  out of the heap but keeps its id, anything else negative for a free id). Nodes are modelled by
  value, with the address they live at, as each node is owned by one place at a time. Indices are
  natural numbers: the sizes stay far below the range of \<open>size_t\<close> and of the \<open>int\<close> the assertion
  in \<open>copy\<close> casts to. Each array access is checked, an access outside the array, the read of a slot
  never written and a failed \<open>ACE_ASSERT\<close> being the result \<open>None\<close>. Calls of the upcall functor are
  recorded in a trace; growing the arrays is assumed to find memory, the allocation of a node is
  not. The free list of preallocated nodes is the list of their addresses.
\<close>

section \<open>State\<close>

record 't timer_node =
  nd_addr :: addr
  nd_type :: 't
  nd_act :: addr
  nd_timer_value :: time_value
  nd_interval :: time_value
  nd_timer_id :: int

datatype 't upcall_event =
    Registration 't addr
  | Cancel_type 't int
  | Cancel_timer 't int
  | Deletion 't addr

record 't timer_heap =
  th_max_size :: nat
  th_cur_size :: nat
  th_cur_limbo :: nat
  th_heap :: "'t timer_node option list"
  th_timer_ids :: "int list"
  th_ids_curr :: nat
  th_ids_min_free :: nat
  th_preallocated :: "addr list option"
  th_fresh_addr :: addr
  th_upcalls :: "'t upcall_event list"

definition heap_parent :: "nat \<Rightarrow> nat" where
  "heap_parent x = (if x = 0 then 0 else (x - 1) div 2)"

definition heap_lchild :: "nat \<Rightarrow> nat" where
  "heap_lchild x = x + x + 1"

definition timer_heap_new :: "nat \<Rightarrow> bool \<Rightarrow> addr \<Rightarrow> 't timer_heap" where
  "timer_heap_new sz preallocated base =
     \<lparr>th_max_size = sz, th_cur_size = 0, th_cur_limbo = 0, th_heap = replicate sz None,
      th_timer_ids = replicate sz (-1), th_ids_curr = 0, th_ids_min_free = 0,
      th_preallocated = (if preallocated then Some [base..<base + sz] else None),
      th_fresh_addr = (if preallocated then base + sz else base), th_upcalls = []\<rparr>"

section \<open>Array accesses\<close>

definition node_at :: "nat \<Rightarrow> 't timer_heap \<Rightarrow> 't timer_node option" where
  "node_at slot h = (if slot < length (th_heap h) then th_heap h ! slot else None)"

definition id_at :: "nat \<Rightarrow> 't timer_heap \<Rightarrow> int option" where
  "id_at k h = (if k < length (th_timer_ids h) then Some (th_timer_ids h ! k) else None)"

definition set_id :: "nat \<Rightarrow> int \<Rightarrow> 't timer_heap \<Rightarrow> 't timer_heap option" where
  "set_id k v h = (if k < length (th_timer_ids h)
     then Some (h\<lparr>th_timer_ids := (th_timer_ids h)[k := v]\<rparr>) else None)"

definition set_node :: "nat \<Rightarrow> 't timer_node \<Rightarrow> 't timer_heap \<Rightarrow> 't timer_heap option" where
  "set_node slot n h = (if slot < length (th_heap h)
     then Some (h\<lparr>th_heap := (th_heap h)[slot := Some n]\<rparr>) else None)"

section \<open>Timer ids\<close>

text \<open>The scan of \<open>pop_freelist\<close> for a slot that is neither in use nor in limbo.\<close>

partial_function (option) next_free :: "nat \<Rightarrow> 't timer_heap \<Rightarrow> nat option" where
  "next_free c h = (if c < th_max_size h
     then do { v \<leftarrow> id_at c h;
               if 0 \<le> v \<or> v = -2 then next_free (c + 1) h else Some c }
     else Some c)"

definition pop_freelist :: "'t timer_heap \<Rightarrow> (int \<times> 't timer_heap) option" where
  "pop_freelist h = do {
     c \<leftarrow> next_free (th_ids_curr h + 1) h;
     if c = th_max_size h
     then (if th_ids_min_free h < th_max_size h
           then Some (int (th_ids_min_free h),
                      h\<lparr>th_ids_curr := th_ids_min_free h, th_ids_min_free := th_max_size h\<rparr>)
           else None)
     else Some (int c, h\<lparr>th_ids_curr := c\<rparr>) }"

definition push_freelist :: "int \<Rightarrow> 't timer_heap \<Rightarrow> 't timer_heap option" where
  "push_freelist old_id h = (let oldid = nat old_id in do {
     v \<leftarrow> id_at oldid h;
     if 0 \<le> v \<or> v = -2
     then do {
       h1 \<leftarrow> Some (if v = -2 then h\<lparr>th_cur_limbo := th_cur_limbo h - 1\<rparr>
                   else h\<lparr>th_cur_size := th_cur_size h - 1\<rparr>);
       h2 \<leftarrow> set_id oldid (-1) h1;
       Some (if oldid < th_ids_min_free h2 \<and> oldid \<le> th_ids_curr h2
             then h2\<lparr>th_ids_min_free := oldid\<rparr> else h2) }
     else None })"

section \<open>The heap\<close>

definition copy :: "nat \<Rightarrow> 't timer_node \<Rightarrow> 't timer_heap \<Rightarrow> 't timer_heap option" where
  "copy slot moved h = do {
     h1 \<leftarrow> set_node slot moved h;
     if 0 \<le> nd_timer_id moved \<and> nd_timer_id moved < int (th_max_size h1)
     then set_id (nat (nd_timer_id moved)) (int slot) h1
     else None }"

partial_function (option) reheap_up ::
  "'t timer_node \<Rightarrow> nat \<Rightarrow> nat \<Rightarrow> 't timer_heap \<Rightarrow> 't timer_heap option" where
  "reheap_up moved slot parent h = (if 0 < slot
     then do {
       p \<leftarrow> node_at parent h;
       if nd_timer_value moved < nd_timer_value p
       then do { h1 \<leftarrow> copy slot p h; reheap_up moved parent (heap_parent parent) h1 }
       else copy slot moved h }
     else copy slot moved h)"

partial_function (option) reheap_down ::
  "'t timer_node \<Rightarrow> nat \<Rightarrow> nat \<Rightarrow> 't timer_heap \<Rightarrow> 't timer_heap option" where
  "reheap_down moved slot child h = (if child < th_cur_size h
     then do {
       l \<leftarrow> node_at child h;
       right \<leftarrow> (if child + 1 < th_cur_size h
                 then do { r \<leftarrow> node_at (child + 1) h; Some (nd_timer_value r < nd_timer_value l) }
                 else Some False);
       child' \<leftarrow> Some (if right then child + 1 else child);
       c \<leftarrow> node_at child' h;
       if nd_timer_value c < nd_timer_value moved
       then do { h1 \<leftarrow> copy slot c h; reheap_down moved child' (heap_lchild child') h1 }
       else copy slot moved h }
     else copy slot moved h)"

definition grow_heap :: "'t timer_heap \<Rightarrow> 't timer_heap" where
  "grow_heap h = (let new_size = th_max_size h * 2
     in h\<lparr>th_heap := th_heap h @ replicate (th_max_size h) None,
          th_timer_ids := th_timer_ids h @ map (\<lambda>i. - (int i + 1)) [th_max_size h..<new_size],
          th_preallocated := map_option (\<lambda>fl. fl @ [th_fresh_addr h..<th_fresh_addr h + th_max_size h])
                               (th_preallocated h),
          th_fresh_addr := (if th_preallocated h = None then th_fresh_addr h
                            else th_fresh_addr h + th_max_size h),
          th_max_size := new_size,
          th_ids_min_free := new_size\<rparr>)"

definition insert_node :: "'t timer_node \<Rightarrow> 't timer_heap \<Rightarrow> 't timer_heap option" where
  "insert_node new_node h =
     (let h1 = (if th_max_size h \<le> th_cur_size h + th_cur_limbo h + 2 then grow_heap h else h)
      in do {
        h2 \<leftarrow> reheap_up new_node (th_cur_size h1) (heap_parent (th_cur_size h1)) h1;
        Some (h2\<lparr>th_cur_size := th_cur_size h2 + 1\<rparr>) })"

text \<open>The part of \<open>remove\<close> that moves the last node to the slot just vacated.\<close>

definition refill_slot :: "nat \<Rightarrow> 't timer_heap \<Rightarrow> 't timer_heap option" where
  "refill_slot slot h = (if slot < th_cur_size h
     then do {
       moved \<leftarrow> node_at (th_cur_size h) h;
       h1 \<leftarrow> copy slot moved h;
       p \<leftarrow> node_at (heap_parent slot) h1;
       if nd_timer_value p \<le> nd_timer_value moved
       then reheap_down moved slot (heap_lchild slot) h1
       else reheap_up moved slot (heap_parent slot) h1 }
     else Some h)"

definition remove_slot :: "nat \<Rightarrow> 't timer_heap \<Rightarrow> ('t timer_node \<times> 't timer_heap) option" where
  "remove_slot slot h = do {
     removed \<leftarrow> node_at slot h;
     h1 \<leftarrow> refill_slot slot (h\<lparr>th_cur_size := th_cur_size h - 1\<rparr>);
     h2 \<leftarrow> set_id (nat (nd_timer_id removed)) (-2) h1;
     Some (removed, h2\<lparr>th_cur_limbo := th_cur_limbo h2 + 1\<rparr>) }"

section \<open>Nodes\<close>

text \<open>\<open>memory\<close> says whether the allocation of a node outside the preallocated ones succeeds.\<close>

definition alloc_node :: "bool \<Rightarrow> 't timer_heap \<Rightarrow> addr option \<times> 't timer_heap" where
  "alloc_node memory h = (case th_preallocated h of
     None \<Rightarrow> (if memory then (Some (th_fresh_addr h), h\<lparr>th_fresh_addr := th_fresh_addr h + 1\<rparr>)
              else (None, h))
   | Some fl \<Rightarrow>
       (let h1 = (if fl = [] then grow_heap h else h)
        in (case th_preallocated h1 of
              Some (a # rest) \<Rightarrow> (Some a, h1\<lparr>th_preallocated := Some rest\<rparr>)
            | _ \<Rightarrow> (None, h1))))"

definition free_node :: "'t timer_node \<Rightarrow> 't timer_heap \<Rightarrow> 't timer_heap option" where
  "free_node n h = do {
     h1 \<leftarrow> push_freelist (nd_timer_id n) h;
     Some (h1\<lparr>th_preallocated := map_option (\<lambda>fl. nd_addr n # fl) (th_preallocated h1)\<rparr>) }"

definition upcall :: "'t upcall_event \<Rightarrow> 't timer_heap \<Rightarrow> 't timer_heap" where
  "upcall u h = h\<lparr>th_upcalls := th_upcalls h @ [u]\<rparr>"

section \<open>The queue operations\<close>

definition th_is_empty :: "'t timer_heap \<Rightarrow> bool" where
  "th_is_empty h \<longleftrightarrow> th_cur_size h = 0"

definition earliest_time :: "'t timer_heap \<Rightarrow> time_value option" where
  "earliest_time h = map_option nd_timer_value (node_at 0 h)"

definition schedule_i ::
  "bool \<Rightarrow> 't \<Rightarrow> addr \<Rightarrow> time_value \<Rightarrow> time_value \<Rightarrow> 't timer_heap \<Rightarrow> (int \<times> 't timer_heap) option" where
  "schedule_i memory type act future_time interval h =
     (if th_cur_size h + th_cur_limbo h < th_max_size h
      then do {
        (timer_id, h1) \<leftarrow> pop_freelist h;
        case alloc_node memory h1 of
          (None, h2) \<Rightarrow> Some (-1, h2)
        | (Some a, h2) \<Rightarrow> do {
            h3 \<leftarrow> insert_node \<lparr>nd_addr = a, nd_type = type, nd_act = act, nd_timer_value = future_time,
                                nd_interval = interval, nd_timer_id = timer_id\<rparr> h2;
            Some (timer_id, h3) } }
      else Some (-1, h))"

definition reschedule :: "'t timer_node \<Rightarrow> 't timer_heap \<Rightarrow> 't timer_heap option" where
  "reschedule expired h = do {
     v \<leftarrow> id_at (nat (nd_timer_id expired)) h;
     insert_node expired (if v = -2 then h\<lparr>th_cur_limbo := th_cur_limbo h - 1\<rparr> else h) }"

definition remove_first :: "'t timer_heap \<Rightarrow> ('t timer_node option \<times> 't timer_heap) option" where
  "remove_first h = (if th_cur_size h = 0 then Some (None, h)
     else do { (n, h1) \<leftarrow> remove_slot 0 h; Some (Some n, h1) })"

definition get_first :: "'t timer_heap \<Rightarrow> 't timer_node option" where
  "get_first h = (if th_cur_size h = 0 then None else node_at 0 h)"

text \<open>
  Cancellation by id; the second component of the result is what the code stores through the
  \<open>act\<close> pointer. The bounds check is the code's: it compares with \<open>>\<close>.
\<close>

definition cancel_id :: "int \<Rightarrow> int \<Rightarrow> 't timer_heap \<Rightarrow> (int \<times> addr option \<times> 't timer_heap) option" where
  "cancel_id timer_id dont_call h =
     (if timer_id < 0 \<or> int (th_max_size h) < timer_id then Some (0, None, h)
      else do {
        slot \<leftarrow> id_at (nat timer_id) h;
        if slot < 0 then Some (0, None, h)
        else do {
          n \<leftarrow> node_at (nat slot) h;
          if timer_id \<noteq> nd_timer_id n then None
          else do {
            (temp, h1) \<leftarrow> remove_slot (nat slot) h;
            h2 \<leftarrow> Some (upcall (Cancel_timer (nd_type temp) dont_call)
                        (upcall (Cancel_type (nd_type temp) dont_call) h1));
            h3 \<leftarrow> free_node temp h2;
            Some (1, Some (nd_act temp), h3) } } })"

definition reset_interval :: "int \<Rightarrow> time_value \<Rightarrow> 't timer_heap \<Rightarrow> (int \<times> 't timer_heap) option" where
  "reset_interval timer_id interval h =
     (if timer_id < 0 \<or> int (th_max_size h) < timer_id then Some (-1, h)
      else do {
        slot \<leftarrow> id_at (nat timer_id) h;
        if slot < 0 then Some (-1, h)
        else do {
          n \<leftarrow> node_at (nat slot) h;
          if timer_id \<noteq> nd_timer_id n then None
          else do { h1 \<leftarrow> set_node (nat slot) (n\<lparr>nd_interval := interval\<rparr>) h; Some (0, h1) } } })"

partial_function (option) cancel_type_loop ::
  "'t \<Rightarrow> nat \<Rightarrow> nat \<Rightarrow> 't timer_heap \<Rightarrow> (nat \<times> 't timer_heap) option" where
  "cancel_type_loop type i cancelled h = (if i < th_cur_size h
     then do {
       n \<leftarrow> node_at i h;
       if nd_type n = type
       then do {
         (temp, h1) \<leftarrow> remove_slot i h;
         h2 \<leftarrow> free_node temp h1;
         cancel_type_loop type 0 (cancelled + 1) h2 }
       else cancel_type_loop type (i + 1) cancelled h }
     else Some (cancelled, h))"

definition cancel_type :: "'t \<Rightarrow> int \<Rightarrow> 't timer_heap \<Rightarrow> (nat \<times> 't timer_heap) option" where
  "cancel_type type dont_call h = do {
     (count, h1) \<leftarrow> cancel_type_loop type 0 0 h;
     Some (count, fold upcall (Cancel_type type dont_call # replicate count (Cancel_timer type dont_call)) h1) }"

text \<open>\<open>close\<close> frees the nodes in slot order; each call of \<open>free_node\<close> shrinks \<open>cur_size_\<close>.\<close>

fun close_loop :: "nat list \<Rightarrow> 't timer_heap \<Rightarrow> 't timer_heap option" where
  "close_loop [] h = Some h"
| "close_loop (i # is) h = do {
     n \<leftarrow> node_at i h;
     h1 \<leftarrow> free_node n h;
     close_loop is (upcall (Deletion (nd_type n) (nd_act n)) h1) }"

definition th_close :: "'t timer_heap \<Rightarrow> 't timer_heap option" where
  "th_close h = close_loop [0..<th_cur_size h] h"

section \<open>Views of the arrays\<close>

abbreviation nid :: "'t timer_node \<Rightarrow> nat" where
  "nid n \<equiv> nat (nd_timer_id n)"

abbreviation due :: "'t timer_node \<Rightarrow> time_value" where
  "due n \<equiv> nd_timer_value n"

text \<open>
  \<open>th_hole h n s a\<close>: the first \<open>n\<close> slots hold the nodes \<open>a 0, a 1, \<dots>\<close> and the id table points back
  at them, but for slot \<open>s\<close>, which is to hold \<open>a s\<close>. \<open>th_view\<close> has no such hole.
\<close>

definition th_sizes :: "'t timer_heap \<Rightarrow> bool" where
  "th_sizes h \<longleftrightarrow> length (th_heap h) = th_max_size h \<and> length (th_timer_ids h) = th_max_size h"

definition good_id :: "'t timer_heap \<Rightarrow> 't timer_node \<Rightarrow> bool" where
  "good_id h x \<longleftrightarrow> 0 \<le> nd_timer_id x \<and> nd_timer_id x < int (th_max_size h)"

definition th_hole :: "'t timer_heap \<Rightarrow> nat \<Rightarrow> nat \<Rightarrow> (nat \<Rightarrow> 't timer_node) \<Rightarrow> bool" where
  "th_hole h n s a \<longleftrightarrow> th_sizes h \<and> n \<le> th_max_size h \<and> s < n
     \<and> (\<forall>i<n. good_id h (a i)) \<and> inj_on (\<lambda>i. nid (a i)) {..<n}
     \<and> (\<forall>i<n. i \<noteq> s \<longrightarrow> th_heap h ! i = Some (a i) \<and> th_timer_ids h ! nid (a i) = int i)"

definition th_view :: "'t timer_heap \<Rightarrow> nat \<Rightarrow> (nat \<Rightarrow> 't timer_node) \<Rightarrow> bool" where
  "th_view h n a \<longleftrightarrow> th_sizes h \<and> n \<le> th_max_size h
     \<and> (\<forall>i<n. good_id h (a i)) \<and> inj_on (\<lambda>i. nid (a i)) {..<n}
     \<and> (\<forall>i<n. th_heap h ! i = Some (a i) \<and> th_timer_ids h ! nid (a i) = int i)"

definition heap_ordered :: "(nat \<Rightarrow> 't timer_node) \<Rightarrow> nat \<Rightarrow> bool" where
  "heap_ordered a n \<longleftrightarrow> (\<forall>i<n. 0 < i \<longrightarrow> due (a (heap_parent i)) \<le> due (a i))"

definition ordered_above :: "(nat \<Rightarrow> 't timer_node) \<Rightarrow> nat \<Rightarrow> nat \<Rightarrow> bool" where
  "ordered_above a n s \<longleftrightarrow> (\<forall>i<n. 0 < i \<longrightarrow> i \<noteq> s \<longrightarrow> due (a (heap_parent i)) \<le> due (a i))
     \<and> (\<forall>i<n. 0 < i \<longrightarrow> heap_parent i = s \<longrightarrow> 0 < s \<longrightarrow> due (a (heap_parent s)) \<le> due (a i))"

definition ordered_below :: "(nat \<Rightarrow> 't timer_node) \<Rightarrow> nat \<Rightarrow> nat \<Rightarrow> bool" where
  "ordered_below a n s \<longleftrightarrow> (\<forall>i<n. 0 < i \<longrightarrow> heap_parent i \<noteq> s \<longrightarrow> due (a (heap_parent i)) \<le> due (a i))
     \<and> (\<forall>i<n. 0 < i \<longrightarrow> heap_parent i = s \<longrightarrow> 0 < s \<longrightarrow> due (a (heap_parent s)) \<le> due (a i))"

text \<open>What the reorderings leave alone: everything but the two arrays, and the ids of other nodes.\<close>

definition same_rest :: "'t timer_heap \<Rightarrow> 't timer_heap \<Rightarrow> bool" where
  "same_rest h h' \<longleftrightarrow> h' = h\<lparr>th_heap := th_heap h', th_timer_ids := th_timer_ids h'\<rparr>"

definition same_ids_but :: "nat set \<Rightarrow> 't timer_heap \<Rightarrow> 't timer_heap \<Rightarrow> bool" where
  "same_ids_but K h h' \<longleftrightarrow> (\<forall>k. k \<notin> K \<longrightarrow> th_timer_ids h' ! k = th_timer_ids h ! k)"

lemma heap_parent_less: "0 < i \<Longrightarrow> heap_parent i < i"
  by (simp add: heap_parent_def)

lemma heap_parent_eq: "0 < i \<Longrightarrow> heap_parent i = s \<longleftrightarrow> i = heap_lchild s \<or> i = heap_lchild s + 1"
  unfolding heap_parent_def heap_lchild_def by (simp, presburger)

lemma same_rest_refl [simp]: "same_rest h h"
  by (simp add: same_rest_def)

lemma same_rest_trans: "same_rest h1 h2 \<Longrightarrow> same_rest h2 h3 \<Longrightarrow> same_rest h1 h3"
  by (cases h1; cases h2; cases h3) (auto simp: same_rest_def)

lemma same_rest_sizes:
  assumes "same_rest h h'"
  shows "th_max_size h' = th_max_size h" "th_cur_size h' = th_cur_size h"
    "th_cur_limbo h' = th_cur_limbo h" "th_ids_curr h' = th_ids_curr h"
    "th_ids_min_free h' = th_ids_min_free h" "th_preallocated h' = th_preallocated h"
    "th_upcalls h' = th_upcalls h" "th_fresh_addr h' = th_fresh_addr h"
  using assms by (cases h; cases h'; simp add: same_rest_def)+

lemma same_ids_trans: "same_ids_but K h1 h2 \<Longrightarrow> same_ids_but K h2 h3 \<Longrightarrow> same_ids_but K h1 h3"
  by (simp add: same_ids_but_def)

lemma same_ids_update:
  "j \<in> K \<Longrightarrow> same_ids_but K h (h\<lparr>th_heap := xs, th_timer_ids := (th_timer_ids h)[j := v]\<rparr>)"
  unfolding same_ids_but_def by (simp, metis nth_list_update_neq)

lemma copy_eq:
  assumes "th_sizes h" and "slot < th_max_size h" and "good_id h x"
  shows "copy slot x h = Some (h\<lparr>th_heap := (th_heap h)[slot := Some x],
    th_timer_ids := (th_timer_ids h)[nid x := int slot]\<rparr>)"
  using assms by (simp add: copy_def set_node_def set_id_def th_sizes_def good_id_def nat_less_iff)

lemma node_at_view: "th_view h n a \<Longrightarrow> i < n \<Longrightarrow> node_at i h = Some (a i)"
  by (simp add: th_view_def node_at_def th_sizes_def)

lemma node_at_hole: "th_hole h n s a \<Longrightarrow> i < n \<Longrightarrow> i \<noteq> s \<Longrightarrow> node_at i h = Some (a i)"
  by (simp add: th_hole_def node_at_def th_sizes_def)

text \<open>Filling the hole gives a view.\<close>

lemma copy_hole:
  assumes "th_hole h n s a"
  obtains h' where "copy s (a s) h = Some h'" "th_view h' n a" "same_rest h h'"
    "same_ids_but ((\<lambda>i. nid (a i)) ` {..<n}) h h'"
proof -
  let ?h = "h\<lparr>th_heap := (th_heap h)[s := Some (a s)], th_timer_ids := (th_timer_ids h)[nid (a s) := int s]\<rparr>"
  have s: "s < n" "n \<le> th_max_size h" "th_sizes h" "good_id h (a s)"
    and inj: "inj_on (\<lambda>i. nid (a i)) {..<n}"
    and good: "\<forall>i<n. good_id h (a i)"
    and old: "\<forall>i<n. i \<noteq> s \<longrightarrow> th_heap h ! i = Some (a i) \<and> th_timer_ids h ! nid (a i) = int i"
    using assms by (auto simp: th_hole_def)
  have len: "nid (a s) < length (th_timer_ids h)" "s < length (th_heap h)"
    using s by (auto simp: th_sizes_def good_id_def nat_less_iff)
  have c: "copy s (a s) h = Some ?h" using s by (intro copy_eq) auto
  have sz: "th_sizes ?h" using s(3) by (simp add: th_sizes_def)
  have cells: "th_heap ?h ! i = Some (a i) \<and> th_timer_ids ?h ! nid (a i) = int i" if "i < n" for i
  proof (cases "i = s")
    case True
    then show ?thesis using len by simp
  next
    case False
    then have "nid (a i) \<noteq> nid (a s)" using inj that s(1) by (auto dest: inj_onD)
    then show ?thesis using False old that by simp
  qed
  have "th_view ?h n a" unfolding th_view_def using sz s inj good cells by (simp add: good_id_def)
  moreover have "same_ids_but ((\<lambda>i. nid (a i)) ` {..<n}) h ?h"
    using s(1) by (intro same_ids_update) simp
  moreover have "same_rest h ?h" by (simp add: same_rest_def)
  ultimately show thesis using c that by blast
qed

text \<open>Moving a node into the hole moves the hole: the node to be placed goes with it.\<close>

lemma copy_moves_hole:
  assumes hole: "th_hole h n s a" and p: "p < n" "p \<noteq> s"
  obtains h' where "copy s (a p) h = Some h'" "th_hole h' n p (a(s := a p, p := a s))" "same_rest h h'"
    "same_ids_but ((\<lambda>i. nid (a i)) ` {..<n}) h h'"
proof -
  let ?h = "h\<lparr>th_heap := (th_heap h)[s := Some (a p)], th_timer_ids := (th_timer_ids h)[nid (a p) := int s]\<rparr>"
  let ?a = "a(s := a p, p := a s)"
  have s: "s < n" "n \<le> th_max_size h" "th_sizes h" "good_id h (a p)"
    and inj: "inj_on (\<lambda>i. nid (a i)) {..<n}"
    and good: "\<forall>i<n. good_id h (a i)"
    and old: "\<forall>i<n. i \<noteq> s \<longrightarrow> th_heap h ! i = Some (a i) \<and> th_timer_ids h ! nid (a i) = int i"
    using assms by (auto simp: th_hole_def)
  have len: "nid (a p) < length (th_timer_ids h)" "s < length (th_heap h)"
    using s by (auto simp: th_sizes_def good_id_def nat_less_iff)
  have c: "copy s (a p) h = Some ?h" using s by (intro copy_eq) auto
  have cells: "th_heap ?h ! i = Some (?a i) \<and> th_timer_ids ?h ! nid (?a i) = int i"
    if "i < n" "i \<noteq> p" for i
  proof (cases "i = s")
    case True
    then show ?thesis using len p by simp
  next
    case False
    then have "nid (a i) \<noteq> nid (a p)" using inj that p by (auto dest: inj_onD)
    then show ?thesis using False old that by simp
  qed
  have inj': "inj_on (\<lambda>i. nid (?a i)) {..<n}"
  proof (rule inj_onI)
    fix x y assume xy: "x \<in> {..<n}" "y \<in> {..<n}" "nid (?a x) = nid (?a y)"
    then show "x = y" using inj_onD [OF inj, of x y] inj_onD [OF inj, of p y] inj_onD [OF inj, of s y]
      inj_onD [OF inj, of x p] inj_onD [OF inj, of x s] inj_onD [OF inj, of p s] inj_onD [OF inj, of s p]
      p s(1) by (auto split: if_splits)
  qed
  have "\<forall>i<n. good_id ?h (?a i)" using good p s(1) by (simp add: good_id_def)
  then have "th_hole ?h n p ?a"
    unfolding th_hole_def using s p(1) inj' cells by (simp add: th_sizes_def)
  moreover have "same_ids_but ((\<lambda>i. nid (a i)) ` {..<n}) h ?h"
    using p(1) by (intro same_ids_update) simp
  moreover have "same_rest h ?h" by (simp add: same_rest_def)
  ultimately show thesis using c that by blast
qed

lemma swap_image: "s < n \<Longrightarrow> p < n \<Longrightarrow> f ` (a(s := a p, p := a s)) ` {..<n} = f ` a ` {..<n}"
  for n :: nat
  by (auto simp: image_iff)

section \<open>Restoring the heap order\<close>

definition reordered :: "'t timer_heap \<Rightarrow> nat \<Rightarrow> (nat \<Rightarrow> 't timer_node) \<Rightarrow> 't timer_heap \<Rightarrow> bool" where
  "reordered h n a h' \<longleftrightarrow> (\<exists>a'. th_view h' n a' \<and> heap_ordered a' n \<and> a' ` {..<n} = a ` {..<n}
     \<and> same_rest h h' \<and> same_ids_but ((\<lambda>i. nid (a i)) ` {..<n}) h h')"

lemma reordered_step:
  assumes "reordered h1 n (a(s := a p, p := a s)) h'" and "s < n" "p < n"
    and "same_rest h h1" "same_ids_but ((\<lambda>i. nid (a i)) ` {..<n}) h h1"
  shows "reordered h n a h'"
proof -
  let ?a = "a(s := a p, p := a s)"
  have im: "?a ` {..<n} = a ` {..<n}" using swap_image [OF assms(2,3), of id a] by simp
  have "(\<lambda>i. nid (?a i)) ` {..<n} = nid ` ?a ` {..<n}" by (simp only: image_image)
  also have "\<dots> = (\<lambda>i. nid (a i)) ` {..<n}" unfolding im by (simp only: image_image)
  finally show ?thesis using assms im unfolding reordered_def
    by (metis same_rest_trans same_ids_trans)
qed

lemma reordered_fill:
  assumes "th_hole h n s a" and "heap_ordered a n"
  shows "\<exists>h'. copy s (a s) h = Some h' \<and> reordered h n a h'"
  using copy_hole [OF assms(1)] assms(2) unfolding reordered_def by metis

lemma reheap_up_reorders:
  assumes "th_hole h n s a" and "ordered_above a n s"
  shows "\<exists>h'. reheap_up (a s) s (heap_parent s) h = Some h' \<and> reordered h n a h'"
  using assms
proof (induction s arbitrary: h a rule: less_induct)
  case (less s)
  show ?case
  proof (cases "0 < s \<and> due (a s) < due (a (heap_parent s))")
    case False
    then have "heap_ordered a n" using less.prems(2)
      by (auto simp: heap_ordered_def ordered_above_def not_less)
    moreover have "reheap_up (a s) s (heap_parent s) h = copy s (a s) h"
    proof (cases "0 < s")
      case True
      moreover have "s < n" using less.prems(1) by (simp add: th_hole_def)
      ultimately have "node_at (heap_parent s) h = Some (a (heap_parent s))"
        using heap_parent_less [of s] by (intro node_at_hole [OF less.prems(1)]) auto
      then show ?thesis using False True by (subst reheap_up.simps) simp
    qed (simp add: reheap_up.simps)
    ultimately show ?thesis using reordered_fill [OF less.prems(1)] by simp
  next
    case True
    let ?p = "heap_parent s"
    let ?a = "a(s := a ?p, ?p := a s)"
    have p: "?p < s" "?p \<noteq> s" using True heap_parent_less by auto
    have s: "s < n" using less.prems(1) by (simp add: th_hole_def)
    have pn: "?p < n" using p s by simp
    obtain h1 where h1: "copy s (a ?p) h = Some h1" "th_hole h1 n ?p ?a" "same_rest h h1"
      "same_ids_but ((\<lambda>i. nid (a i)) ` {..<n}) h h1"
      using copy_moves_hole [OF less.prems(1) pn p(2)] by metis
    have up: "ordered_above ?a n ?p"
    proof (unfold ordered_above_def, intro conjI allI impI)
      fix i assume i: "i < n" "0 < i" "i \<noteq> ?p"
      show "due (?a (heap_parent i)) \<le> due (?a i)"
        using less.prems(2) i p True unfolding ordered_above_def
        by (cases "i = s"; cases "heap_parent i = s"; cases "heap_parent i = ?p")
           (auto dest: less_imp_le intro: order_trans)
    next
      fix i assume i: "i < n" "0 < i" "heap_parent i = ?p" "0 < ?p"
      have pp: "heap_parent ?p < ?p" using i(4) by (rule heap_parent_less)
      have "due (a (heap_parent ?p)) \<le> due (a ?p)"
        using less.prems(2) i(4) p pn unfolding ordered_above_def by simp
      moreover have "due (a ?p) \<le> due (a i)" if "i \<noteq> s"
        using less.prems(2) i that unfolding ordered_above_def by metis
      ultimately show "due (?a (heap_parent ?p)) \<le> due (?a i)"
        using pp p i(2,3) heap_parent_less [OF i(2)] by auto
    qed
    have "?a ?p = a s" by simp
    then obtain h' where h': "reheap_up (a s) ?p (heap_parent ?p) h1 = Some h'" "reordered h1 n ?a h'"
      using less.IH [OF p(1) h1(2) up] by metis
    have "node_at ?p h = Some (a ?p)" using node_at_hole [OF less.prems(1) pn p(2)] .
    then have "reheap_up (a s) s ?p h = Some h'"
      using True h1(1) h'(1) by (subst reheap_up.simps) simp
    moreover have "reordered h n a h'" using reordered_step [OF h'(2) s pn h1(3,4)] .
    ultimately show ?thesis by blast
  qed
qed

lemma reheap_down_reorders:
  assumes "th_hole h n s a" and "ordered_below a n s" and "th_cur_size h = n"
  shows "\<exists>h'. reheap_down (a s) s (heap_lchild s) h = Some h' \<and> reordered h n a h'"
  using assms
proof (induction "n - s" arbitrary: s h a rule: less_induct)
  case less
  note hole = less.prems(1) and below = less.prems(2) and cur = less.prems(3)
  let ?l = "heap_lchild s"
  define c where "c = (if ?l + 1 < n \<and> due (a (?l + 1)) < due (a ?l) then ?l + 1 else ?l)"
  have s: "s < n" using hole by (simp add: th_hole_def)
  show ?case
  proof (cases "?l < n \<and> due (a c) < due (a s)")
    case False
    have "heap_ordered a n"
    proof (unfold heap_ordered_def, intro allI impI)
      fix i assume i: "i < n" "0 < i"
      show "due (a (heap_parent i)) \<le> due (a i)"
      proof (cases "heap_parent i = s")
        case True
        then have "i = ?l \<or> i = ?l + 1" using heap_parent_eq [OF i(2)] by simp
        then show ?thesis using False i True unfolding c_def by (auto split: if_splits)
      next
        case False
        then show ?thesis using below i by (simp add: ordered_below_def)
      qed
    qed
    moreover have "reheap_down (a s) s ?l h = copy s (a s) h"
    proof (cases "?l < n")
      case True
      have "node_at ?l h = Some (a ?l)"
        using True by (intro node_at_hole [OF hole]) (auto simp: heap_lchild_def)
      moreover have "?l + 1 < n \<Longrightarrow> node_at (?l + 1) h = Some (a (?l + 1))"
        by (intro node_at_hole [OF hole]) (auto simp: heap_lchild_def)
      ultimately show ?thesis using False True cur by (subst reheap_down.simps) (auto simp: c_def)
    qed (subst reheap_down.simps, simp add: cur)
    ultimately show ?thesis using reordered_fill [OF hole] by simp
  next
    case True
    let ?a = "a(s := a c, c := a s)"
    have c: "c < n" "c \<noteq> s" "s < c" "0 < c" "heap_parent c = s" using True
      by (auto simp: c_def heap_lchild_def heap_parent_def)
    obtain h1 where h1: "copy s (a c) h = Some h1" "th_hole h1 n c ?a" "same_rest h h1"
      "same_ids_but ((\<lambda>i. nid (a i)) ` {..<n}) h h1"
      using copy_moves_hole [OF hole c(1,2)] by metis
    have sibling: "due (a c) \<le> due (a i)" if "i < n" "0 < i" "heap_parent i = s" for i
      using that heap_parent_eq [OF that(2), of s] unfolding c_def by (auto simp: not_less)
    have down: "ordered_below ?a n c"
    proof (unfold ordered_below_def, intro conjI allI impI)
      fix i assume i: "i < n" "0 < i" "heap_parent i \<noteq> c"
      consider "i = c" | "i \<noteq> c" "heap_parent i = s" | "i = s" | "i \<noteq> c" "i \<noteq> s" "heap_parent i \<noteq> s" by blast
      then show "due (?a (heap_parent i)) \<le> due (?a i)"
      proof cases
        case 1
        then show ?thesis using c True by (auto dest: less_imp_le)
      next
        case 2
        then show ?thesis using sibling [OF i(1,2)] c heap_parent_less [OF i(2)] by auto
      next
        case 3
        have "heap_parent s < s" using heap_parent_less i(2) 3 by simp
        then show ?thesis using 3 i below c unfolding ordered_below_def by auto
      next
        case 4
        then show ?thesis using i below unfolding ordered_below_def by auto
      qed
    next
      fix i assume i: "i < n" "0 < i" "heap_parent i = c" "0 < c"
      have "i \<noteq> s" "i \<noteq> c" using heap_parent_less [OF i(2)] i(3) c(3) by auto
      moreover have "due (a c) \<le> due (a i)"
        using below i c unfolding ordered_below_def by metis
      ultimately show "due (?a (heap_parent c)) \<le> due (?a i)" using c by simp
    qed
    have "?a c = a s" by simp
    moreover have "th_cur_size h1 = n" using same_rest_sizes [OF h1(3)] cur by simp
    moreover have "n - c < n - s" using c by simp
    ultimately obtain h' where h': "reheap_down (a s) c (heap_lchild c) h1 = Some h'" "reordered h1 n ?a h'"
      using less.hyps [OF _ h1(2) down] by metis
    have "node_at ?l h = Some (a ?l)"
      using True by (intro node_at_hole [OF hole]) (auto simp: heap_lchild_def)
    moreover have "?l + 1 < n \<Longrightarrow> node_at (?l + 1) h = Some (a (?l + 1))"
      by (intro node_at_hole [OF hole]) (auto simp: heap_lchild_def)
    ultimately have "reheap_down (a s) s ?l h = Some h'"
      using True h1(1) h'(1) cur by (subst reheap_down.simps) (auto simp: c_def split: if_splits)
    moreover have "reordered h n a h'" using reordered_step [OF h'(2) s c(1) h1(3,4)] .
    ultimately show ?thesis by blast
  qed
qed

section \<open>The abstract queue\<close>

text \<open>
  The abstraction of a timer heap is the map from the ids of the scheduled timers to their nodes,
  and the ids that are free or in limbo. \<open>th_good\<close> is the consistency of heap and id table.
\<close>

definition timers :: "'t timer_heap \<Rightarrow> int \<Rightarrow> 't timer_node option" where
  "timers h k = (if 0 \<le> k \<and> nat k < th_max_size h \<and> 0 \<le> th_timer_ids h ! nat k
     then th_heap h ! nat (th_timer_ids h ! nat k) else None)"

definition free_id :: "'t timer_heap \<Rightarrow> nat \<Rightarrow> bool" where
  "free_id h k \<longleftrightarrow> k < th_max_size h \<and> th_timer_ids h ! k < 0 \<and> th_timer_ids h ! k \<noteq> -2"

definition limbo_id :: "'t timer_heap \<Rightarrow> nat \<Rightarrow> bool" where
  "limbo_id h k \<longleftrightarrow> k < th_max_size h \<and> th_timer_ids h ! k = -2"

definition th_good :: "'t timer_heap \<Rightarrow> nat \<Rightarrow> (nat \<Rightarrow> 't timer_node) \<Rightarrow> bool" where
  "th_good h n a \<longleftrightarrow> th_view h n a \<and> heap_ordered a n
     \<and> (\<forall>k<th_max_size h. 0 \<le> th_timer_ids h ! k \<longrightarrow> k \<in> (\<lambda>i. nid (a i)) ` {..<n})"

lemma view_hole: "th_view h n a \<Longrightarrow> s < n \<Longrightarrow> th_hole h n s a"
  by (simp add: th_view_def th_hole_def)

lemma good_view: "th_good h n a \<Longrightarrow> th_view h n a"
  by (simp add: th_good_def)

lemma good_entry:
  assumes "th_good h n a" and "i < n"
  shows "th_heap h ! i = Some (a i)" "th_timer_ids h ! nid (a i) = int i"
    "nid (a i) < th_max_size h" "0 \<le> nd_timer_id (a i)"
    "i < th_max_size h"
  using assms by (auto simp: th_good_def th_view_def good_id_def nat_less_iff)

lemma good_used:
  assumes "th_good h n a" and "k < th_max_size h"
  shows "0 \<le> th_timer_ids h ! k \<longleftrightarrow> k \<in> (\<lambda>i. nid (a i)) ` {..<n}"
  using assms by (auto simp: th_good_def th_view_def)

lemma timers_iff:
  assumes "th_good h n a"
  shows "timers h k = Some x \<longleftrightarrow> x \<in> a ` {..<n} \<and> nd_timer_id x = k"
proof
  assume t: "timers h k = Some x"
  then have k: "0 \<le> k" "nat k < th_max_size h" "0 \<le> th_timer_ids h ! nat k"
    "th_heap h ! nat (th_timer_ids h ! nat k) = Some x"
    by (auto simp: timers_def split: if_splits)
  then obtain i where i: "i < n" "nat k = nid (a i)" using good_used [OF assms k(2)] by auto
  then have "x = a i" using k(4) good_entry [OF assms i(1)] by simp
  then show "x \<in> a ` {..<n} \<and> nd_timer_id x = k"
    using i k(1) good_entry [OF assms i(1)] by (auto simp: eq_nat_nat_iff)
next
  assume "x \<in> a ` {..<n} \<and> nd_timer_id x = k"
  then obtain i where "i < n" "x = a i" "nd_timer_id (a i) = k" by auto
  then show "timers h k = Some x" using good_entry [OF assms \<open>i < n\<close>] by (auto simp: timers_def)
qed

lemma timers_eqI:
  assumes "th_good h n a" and "\<And>k x. m k = Some x \<longleftrightarrow> x \<in> a ` {..<n} \<and> nd_timer_id x = k"
  shows "timers h = m"
proof
  fix k
  have "timers h k = Some x \<longleftrightarrow> m k = Some x" for x
    unfolding assms(2) timers_iff [OF assms(1)] by (rule refl)
  then show "timers h k = m k" by (metis option.exhaust)
qed

lemma timers_id: "th_good h n a \<Longrightarrow> timers h k = Some x \<Longrightarrow> nd_timer_id x = k \<and> 0 \<le> k \<and> nat k < th_max_size h"
  using timers_iff [of h n a k x] by (auto simp: timers_def split: if_splits)

lemma timers_None_free: "free_id h k \<or> limbo_id h k \<Longrightarrow> timers h (int k) = None"
  by (auto simp: timers_def free_id_def limbo_id_def)

lemma reordered_good:
  assumes "reordered h n a h'" and "th_sizes h"
    and cover: "\<And>k. k < th_max_size h \<Longrightarrow> k \<notin> (\<lambda>i. nid (a i)) ` {..<n} \<Longrightarrow> th_timer_ids h ! k < 0"
  obtains a' where "th_good h' n a'" "a' ` {..<n} = a ` {..<n}" "same_rest h h'"
    "same_ids_but ((\<lambda>i. nid (a i)) ` {..<n}) h h'"
proof -
  obtain a' where a': "th_view h' n a'" "heap_ordered a' n" "a' ` {..<n} = a ` {..<n}" "same_rest h h'"
    "same_ids_but ((\<lambda>i. nid (a i)) ` {..<n}) h h'"
    using assms(1) by (auto simp: reordered_def)
  have "(\<lambda>i. nid (a' i)) ` {..<n} = nid ` a' ` {..<n}" by (simp only: image_image)
  also have "\<dots> = (\<lambda>i. nid (a i)) ` {..<n}" unfolding a'(3) by (simp only: image_image)
  finally have im: "(\<lambda>i. nid (a' i)) ` {..<n} = (\<lambda>i. nid (a i)) ` {..<n}" .
  have "th_good h' n a'"
    unfolding th_good_def im using a'(1,2) same_rest_sizes(1) [OF a'(4)] a'(5) cover
    by (auto simp: same_ids_but_def) (metis linorder_not_le)
  then show thesis using a'(3-5) that by blast
qed

section \<open>Insertion\<close>

lemma grow_heap_fields:
  "th_max_size (grow_heap h) = 2 * th_max_size h" "th_cur_size (grow_heap h) = th_cur_size h"
  "th_cur_limbo (grow_heap h) = th_cur_limbo h" "th_ids_curr (grow_heap h) = th_ids_curr h"
  "th_ids_min_free (grow_heap h) = 2 * th_max_size h" "th_upcalls (grow_heap h) = th_upcalls h"
  by (simp_all add: grow_heap_def Let_def)

lemma grow_heap_ids:
  assumes "th_sizes h"
  shows "k < th_max_size h \<Longrightarrow> th_timer_ids (grow_heap h) ! k = th_timer_ids h ! k"
    "th_max_size h \<le> k \<Longrightarrow> k < 2 * th_max_size h \<Longrightarrow> th_timer_ids (grow_heap h) ! k = - (int k + 1)"
    "k < th_max_size h \<Longrightarrow> th_heap (grow_heap h) ! k = th_heap h ! k"
    "th_sizes (grow_heap h)"
  using assms by (simp_all add: grow_heap_def Let_def th_sizes_def nth_append)

lemma grow_heap_good:
  assumes "th_good h n a"
  shows "th_good (grow_heap h) n a"
proof -
  have sz: "th_sizes h" using assms by (simp add: th_good_def th_view_def)
  have "\<forall>k<2 * th_max_size h. 0 \<le> th_timer_ids (grow_heap h) ! k \<longrightarrow> k \<in> (\<lambda>i. nid (a i)) ` {..<n}"
  proof (intro allI impI)
    fix k assume k: "k < 2 * th_max_size h" "0 \<le> th_timer_ids (grow_heap h) ! k"
    then have "k < th_max_size h" using grow_heap_ids(2) [OF sz, of k] by (cases "k < th_max_size h") auto
    then show "k \<in> (\<lambda>i. nid (a i)) ` {..<n}"
      using k grow_heap_ids(1) [OF sz] good_used [OF assms] by simp
  qed
  moreover have "th_view (grow_heap h) n a"
  proof -
    have "th_heap (grow_heap h) ! i = Some (a i) \<and> th_timer_ids (grow_heap h) ! nid (a i) = int i"
      "good_id (grow_heap h) (a i)" if "i < n" for i
      using good_entry [OF assms that] grow_heap_ids(1,3) [OF sz]
      by (simp_all add: good_id_def grow_heap_fields nat_less_iff)
    then show ?thesis using assms grow_heap_ids(4) [OF sz]
      by (simp add: th_good_def th_view_def grow_heap_fields)
  qed
  ultimately show ?thesis using assms by (simp add: th_good_def grow_heap_fields)
qed

lemma grow_heap_free:
  assumes "th_sizes h" and "2 \<le> th_max_size h"
  shows "free_id (grow_heap h) k \<longleftrightarrow> free_id h k \<or> th_max_size h \<le> k \<and> k < 2 * th_max_size h"
    and "limbo_id (grow_heap h) k \<longleftrightarrow> limbo_id h k"
  using grow_heap_ids(1,2) [OF assms(1), of k] assms(2)
  by (cases "k < th_max_size h"; auto simp: free_id_def limbo_id_def grow_heap_fields)+

lemma insert_good:
  assumes good: "th_good h n a" and x: "good_id h x" "th_timer_ids h ! nid x < 0" and n: "n < th_max_size h"
  obtains h' a' where "reheap_up x n (heap_parent n) h = Some h'" "th_good h' (Suc n) a'"
    "timers h' = (timers h)(nd_timer_id x \<mapsto> x)" "same_rest h h'"
    "\<And>k. free_id h' k \<longleftrightarrow> free_id h k \<and> k \<noteq> nid x" "\<And>k. limbo_id h' k \<longleftrightarrow> limbo_id h k \<and> k \<noteq> nid x"
proof -
  let ?a = "a(n := x)"
  have sz: "th_sizes h" using good by (simp add: th_good_def th_view_def)
  have xk: "nid x < th_max_size h" using x(1) by (auto simp: good_id_def nat_less_iff)
  have notin: "nid x \<notin> (\<lambda>i. nid (a i)) ` {..<n}" using good_used [OF good xk] x(2) by simp
  have im: "?a ` {..<Suc n} = Set.insert x (a ` {..<n})" "(\<lambda>i. nid (?a i)) ` {..<Suc n} = Set.insert (nid x) ((\<lambda>i. nid (a i)) ` {..<n})"
    by (auto simp: lessThan_Suc image_iff)
  have "inj_on (\<lambda>i. nid (?a i)) {..<Suc n}"
  proof -
    have "inj_on (\<lambda>i. nid (a i)) {..<n}" using good by (simp add: th_good_def th_view_def)
    then have "inj_on (\<lambda>i. nid (?a i)) {..<n}" by (rule inj_on_cong [THEN iffD1, rotated]) simp
    moreover have "nid (?a n) \<notin> (\<lambda>i. nid (?a i)) ` {..<n}" using notin by (auto simp: image_iff)
    moreover have "{..<n} - {n} = {..<n}" by auto
    ultimately show ?thesis unfolding lessThan_Suc by (simp add: inj_on_insert)
  qed
  moreover have "\<forall>i<Suc n. good_id h (?a i)"
    using x(1) good by (auto simp: th_good_def th_view_def less_Suc_eq)
  moreover have "\<forall>i<Suc n. i \<noteq> n \<longrightarrow> th_heap h ! i = Some (?a i) \<and> th_timer_ids h ! nid (?a i) = int i"
    using good by (auto simp: th_good_def th_view_def less_Suc_eq)
  ultimately have hole: "th_hole h (Suc n) n ?a" using n sz by (simp add: th_hole_def)
  have ord: "heap_ordered a n" using good by (simp add: th_good_def)
  have above: "ordered_above ?a (Suc n) n"
  proof (unfold ordered_above_def, intro conjI allI impI)
    fix i assume i: "i < Suc n" "0 < i" "i \<noteq> n"
    then have "i < n" "heap_parent i < n" using heap_parent_less [OF i(2)] by auto
    then show "due (?a (heap_parent i)) \<le> due (?a i)" using ord i by (simp add: heap_ordered_def)
  next
    fix i assume "i < Suc n" "0 < i" "heap_parent i = n"
    then show "due (?a (heap_parent n)) \<le> due (?a i)" using heap_parent_less [of i] by simp
  qed
  obtain h' where h': "reheap_up x n (heap_parent n) h = Some h'" "reordered h (Suc n) ?a h'"
    using reheap_up_reorders [OF hole above] by auto
  have "th_timer_ids h ! k < 0" if "k < th_max_size h" "k \<notin> (\<lambda>i. nid (?a i)) ` {..<Suc n}" for k
    using good_used [OF good that(1)] that(2) unfolding im by auto
  then obtain a' where a': "th_good h' (Suc n) a'" "a' ` {..<Suc n} = ?a ` {..<Suc n}" "same_rest h h'"
    "same_ids_but ((\<lambda>i. nid (?a i)) ` {..<Suc n}) h h'"
    using reordered_good [OF h'(2) sz] by metis
  have "timers h' = (timers h)(nd_timer_id x \<mapsto> x)"
  proof (rule timers_eqI [OF a'(1)])
    fix k y
    show "((timers h)(nd_timer_id x \<mapsto> x)) k = Some y \<longleftrightarrow> y \<in> a' ` {..<Suc n} \<and> nd_timer_id y = k"
    proof (cases "k = nd_timer_id x")
      case True
      have "y \<notin> a ` {..<n}" if id: "nd_timer_id y = nd_timer_id x"
      proof
        assume "y \<in> a ` {..<n}"
        then obtain j where "j < n" "y = a j" by auto
        then have "nid x \<in> (\<lambda>i. nid (a i)) ` {..<n}" using id by (intro image_eqI [of _ _ j]) simp_all
        then show False using notin by simp
      qed
      then show ?thesis using True unfolding a'(2) im by auto
    next
      case False
      then show ?thesis using timers_iff [OF good, of k y] unfolding a'(2) im by auto
    qed
  qed
  moreover have mx: "th_max_size h' = th_max_size h" using same_rest_sizes [OF a'(3)] by simp
  have same: "(th_timer_ids h' ! k < 0 \<longleftrightarrow> th_timer_ids h ! k < 0 \<and> k \<noteq> nid x)
    \<and> (k \<noteq> nid x \<longrightarrow> th_timer_ids h ! k < 0 \<longrightarrow> th_timer_ids h' ! k = th_timer_ids h ! k)"
    if "k < th_max_size h" for k
  proof -
    have im': "(\<lambda>i. nid (a' i)) ` {..<Suc n} = Set.insert (nid x) ((\<lambda>i. nid (a i)) ` {..<n})"
    proof -
      have "(\<lambda>i. nid (a' i)) ` {..<Suc n} = nid ` a' ` {..<Suc n}" by (simp only: image_image)
      also have "\<dots> = Set.insert (nid x) ((\<lambda>i. nid (a i)) ` {..<n})" unfolding a'(2) im(1) by auto
      finally show ?thesis .
    qed
    have "0 \<le> th_timer_ids h' ! k \<longleftrightarrow> k = nid x \<or> 0 \<le> th_timer_ids h ! k"
      using good_used [OF a'(1), of k] good_used [OF good that] mx that unfolding im' by auto
    moreover have "k \<noteq> nid x \<longrightarrow> th_timer_ids h ! k < 0 \<longrightarrow> th_timer_ids h' ! k = th_timer_ids h ! k"
      using a'(4) good_used [OF good that] unfolding same_ids_but_def im(2) by auto
    ultimately show ?thesis by linarith
  qed
  have "free_id h' k \<longleftrightarrow> free_id h k \<and> k \<noteq> nid x" "limbo_id h' k \<longleftrightarrow> limbo_id h k \<and> k \<noteq> nid x" for k
    using same [of k] mx by (auto simp: free_id_def limbo_id_def)
  ultimately show thesis using h'(1) a'(1,3) that by blast
qed

end
