(* ===== verification/Timer_Heap_Inv.thy ===== *)
theory Timer_Heap_Inv
imports Timer_Heap
begin

text \<open>
  The invariant of the timer heap and what each operation does to it and to the abstract queue, the
  map from timer ids to nodes. The part of the invariant about free ids says that at most one free
  id can be out of sight of the scan of \<open>pop_freelist\<close>; as the heap always keeps room for two more
  timers, the scan always finds an id that no scheduled and no dispatched timer has.
\<close>

section \<open>Removal\<close>

lemma remove_last:
  assumes good: "th_good h (Suc m) a" and s: "s < m"
  defines "a' \<equiv> a(s := a m)"
  shows "\<exists>h'. refill_slot s (h\<lparr>th_cur_size := m\<rparr>) = Some h' \<and> reordered (h\<lparr>th_cur_size := m\<rparr>) m a' h'"
proof -
  let ?h = "h\<lparr>th_cur_size := m\<rparr>"
  have view: "th_view h (Suc m) a" and ord: "heap_ordered a (Suc m)"
    using good by (simp_all add: th_good_def)
  have le: "due (a (heap_parent i)) \<le> due (a i)" if "i < Suc m" "0 < i" for i
    using ord that by (simp add: heap_ordered_def)
  have a': "a' i = (if i = s then a m else a i)" for i by (simp add: a'_def)
  have "inj_on (\<lambda>i. nid (a' i)) {..<m}"
  proof (rule inj_onI)
    have inj: "inj_on (\<lambda>i. nid (a i)) {..<Suc m}" using view by (simp add: th_view_def)
    fix x y assume "x \<in> {..<m}" "y \<in> {..<m}" "nid (a' x) = nid (a' y)"
    then show "x = y" using inj_onD [OF inj, of x y] inj_onD [OF inj, of x m] inj_onD [OF inj, of m y]
      by (auto simp: a' split: if_splits)
  qed
  then have hole: "th_hole ?h m s a'"
    using view s by (auto simp: th_hole_def th_view_def th_sizes_def good_id_def a')
  obtain h2 where h2: "copy s (a' s) ?h = Some h2" "th_view h2 m a'" "same_rest ?h h2"
    "same_ids_but ((\<lambda>i. nid (a' i)) ` {..<m}) ?h h2"
    using copy_hole [OF hole] by metis
  have ps: "heap_parent s < m" using s heap_parent_less [of s] by (cases "s = 0") (auto simp: heap_parent_def)
  have p: "node_at (heap_parent s) h2 = Some (a' (heap_parent s))" using node_at_view [OF h2(2) ps] .
  have hole2: "th_hole h2 m s a'" using view_hole [OF h2(2) s] .
  have cur: "th_cur_size h2 = m" using same_rest_sizes [OF h2(3)] by simp
  have moved: "node_at m ?h = Some (a m)"
    using node_at_view [OF view, of m] by (simp add: node_at_def split: if_splits)
  have goal: "\<exists>h'. r = Some h' \<and> reordered ?h m a' h'"
    if "\<exists>h'. r = Some h' \<and> reordered h2 m a' h'" for r
    using that h2(3,4) unfolding reordered_def by (metis same_rest_trans same_ids_trans)
  show ?thesis
  proof (cases "due (a' (heap_parent s)) \<le> due (a' s)")
    case True
    have "ordered_below a' m s"
    proof (unfold ordered_below_def, intro conjI allI impI)
      fix i assume i: "i < m" "0 < i" "heap_parent i \<noteq> s"
      then show "due (a' (heap_parent i)) \<le> due (a' i)" using True le [of i] by (auto simp: a')
    next
      fix i assume i: "i < m" "0 < i" "heap_parent i = s" "0 < s"
      have "heap_parent s \<noteq> s" "i \<noteq> s" using heap_parent_less i(2-4) by (metis less_irrefl)+
      then show "due (a' (heap_parent s)) \<le> due (a' i)"
        using le [of s] le [of i] i s by (auto simp: a' intro: order_trans)
    qed
    then show ?thesis using goal [OF reheap_down_reorders [OF hole2 _ cur]] h2(1) p True s moved
      by (simp add: a' refill_slot_def)
  next
    case False
    then have s0: "0 < s" by (auto simp: heap_parent_def intro: Suc_lessI gr0I)
    have ne: "heap_parent s \<noteq> s" using heap_parent_less [OF s0] by simp
    have "ordered_above a' m s"
    proof (unfold ordered_above_def, intro conjI allI impI)
      fix i assume i: "i < m" "0 < i" "i \<noteq> s"
      have "due (a' (heap_parent i)) \<le> due (a i)" if "heap_parent i = s"
        using False that le [of s] le [of i] s s0 i ne by (simp add: a')
      then show "due (a' (heap_parent i)) \<le> due (a' i)" using le [of i] i by (cases "heap_parent i = s") (auto simp: a')
    next
      fix i assume i: "i < m" "0 < i" "heap_parent i = s" "0 < s"
      have "i \<noteq> s" using heap_parent_less i(2,3) by (metis less_irrefl)
      then show "due (a' (heap_parent s)) \<le> due (a' i)"
        using le [of s] le [of i] i s ne by (auto simp: a' intro: order_trans)
    qed
    then show ?thesis using goal [OF reheap_up_reorders [OF hole2]] h2(1) p False s moved
      by (simp add: a' refill_slot_def)
  qed
qed

lemma same_ids_mono: "K \<subseteq> L \<Longrightarrow> same_ids_but K h h' \<Longrightarrow> same_ids_but L h h'"
  unfolding same_ids_but_def by blast

lemma remove_image:
  assumes "s < Suc m"
  shows "inj_on a {..<Suc m} \<Longrightarrow> (a(s := a m)) ` {..<m} = a ` {..<Suc m} - {a s}"
  using assms by (auto simp: lessThan_Suc image_iff inj_on_def) (metis lessThan_iff less_SucE)+

lemma remove_slot_good:
  assumes good: "th_good h n a" and s: "s < n" and cur: "th_cur_size h = n"
  obtains h' a' where "remove_slot s h = Some (a s, h')" "th_good h' (n - 1) a'"
    "timers h' = (timers h)(nd_timer_id (a s) := None)"
    "same_rest (h\<lparr>th_cur_size := n - 1, th_cur_limbo := th_cur_limbo h + 1\<rparr>) h'"
    "\<And>k. free_id h' k \<longleftrightarrow> free_id h k" "\<And>k. limbo_id h' k \<longleftrightarrow> limbo_id h k \<or> k = nid (a s)"
proof -
  obtain m where n: "n = Suc m" using s by (cases n) auto
  let ?h = "h\<lparr>th_cur_size := m\<rparr>"
  let ?K = "(\<lambda>i. nid (a i)) ` {..<n}"
  have sz: "th_sizes h" and injn: "inj_on (\<lambda>i. nid (a i)) {..<n}"
    using good by (simp_all add: th_good_def th_view_def)
  have inja: "inj_on a {..<n}" using injn by (auto simp: inj_on_def)
  have at: "node_at s h = Some (a s)" using node_at_view [OF good_view [OF good] s] .
  have xk: "nid (a s) < th_max_size h" using good_entry(3) [OF good s] .
  \<comment> \<open>the nodes that stay, in the arrays before the id is marked\<close>
  obtain h2 b where h2: "refill_slot s ?h = Some h2"
    "th_view h2 m b" "heap_ordered b m" "b ` {..<m} = a ` {..<n} - {a s}" "same_rest ?h h2" "same_ids_but ?K ?h h2"
  proof (cases "s < m")
    case True
    let ?a = "a(s := a m)"
    obtain h2 where h2: "refill_slot s ?h = Some h2" "reordered ?h m ?a h2"
      using remove_last [OF good [unfolded n] True] by blast
    obtain b where b: "th_view h2 m b" "heap_ordered b m" "b ` {..<m} = ?a ` {..<m}" "same_rest ?h h2"
      "same_ids_but ((\<lambda>i. nid (?a i)) ` {..<m}) ?h h2"
      using h2(2) by (auto simp: reordered_def)
    have im: "?a ` {..<m} = a ` {..<n} - {a s}" using remove_image [of s m a] s inja n by simp
    have "(\<lambda>i. nid (?a i)) ` {..<m} = nid ` ?a ` {..<m}" by (simp only: image_image)
    then have "(\<lambda>i. nid (?a i)) ` {..<m} \<subseteq> ?K" unfolding im by auto
    then have "same_ids_but ?K ?h h2" using b(5) by (rule same_ids_mono)
    then show thesis using that [of h2 b] b(1-4) h2(1) im by simp
  next
    case False
    then have "s = m" using s n by simp
    then have "a ` {..<m} = a ` {..<n} - {a s}" using inja n by (auto simp: inj_on_def lessThan_Suc)
    moreover have "th_view ?h m a" "heap_ordered a m" using good n
      by (auto simp: th_good_def th_view_def heap_ordered_def th_sizes_def good_id_def inj_on_def)
    moreover have "refill_slot s ?h = Some ?h" using False by (simp add: refill_slot_def)
    ultimately show thesis using that [of ?h a] by (simp add: same_ids_but_def)
  qed
  have Kb: "(\<lambda>i. nid (b i)) ` {..<m} = ?K - {nid (a s)}"
  proof -
    have "(\<lambda>i. nid (b i)) ` {..<m} = nid ` b ` {..<m}" by (simp only: image_image)
    also have "\<dots> = nid ` (a ` {..<n} - {a s})" unfolding h2(4) by (rule refl)
    also have "\<dots> = ?K - {nid (a s)}" using injn s by (auto simp: inj_on_def)
    finally show ?thesis .
  qed
  have mx: "th_max_size h2 = th_max_size h" using same_rest_sizes [OF h2(5)] by simp
  \<comment> \<open>marking the id of the removed node\<close>
  let ?g = "h2\<lparr>th_timer_ids := (th_timer_ids h2)[nid (a s) := -2]\<rparr>"
  let ?f = "?g\<lparr>th_cur_limbo := th_cur_limbo h2 + 1\<rparr>"
  have sz2: "th_sizes h2" using h2(2) by (simp add: th_view_def)
  have ids: "th_timer_ids ?g ! k = (if k = nid (a s) then -2 else th_timer_ids h2 ! k)"
    if "k < th_max_size h" for k
    using sz2 that mx by (simp add: th_sizes_def nth_list_update)
  have neg: "(k \<in> ?K \<and> k \<noteq> nid (a s) \<longrightarrow> 0 \<le> th_timer_ids h2 ! k)
      \<and> (k \<notin> ?K \<longrightarrow> th_timer_ids h2 ! k = th_timer_ids h ! k \<and> th_timer_ids h ! k < 0)"
    if "k < th_max_size h" for k
  proof (intro conjI impI)
    assume "k \<in> ?K \<and> k \<noteq> nid (a s)"
    then have "k \<in> (\<lambda>i. nid (b i)) ` {..<m}" using Kb by simp
    then show "0 \<le> th_timer_ids h2 ! k" using h2(2) by (auto simp: th_view_def)
  next
    assume k: "k \<notin> ?K"
    then show "th_timer_ids h2 ! k = th_timer_ids h ! k" using h2(6) by (auto simp: same_ids_but_def)
    show "th_timer_ids h ! k < 0" using good_used [OF good that] k by auto
  qed
  have xK: "nid (a s) \<in> ?K" using s by auto
  have goodg: "th_good ?g m b"
  proof -
    have "th_timer_ids ?g ! nid (b i) = int i" if "i < m" for i
    proof -
      have "nid (b i) \<in> ?K - {nid (a s)}" unfolding Kb [symmetric] using that by auto
      then have "nid (b i) \<noteq> nid (a s)" by simp
      then show ?thesis using h2(2) that by (simp add: th_view_def)
    qed
    then have "th_view ?g m b" using h2(2) by (simp add: th_view_def th_sizes_def good_id_def)
    moreover have "k \<in> (\<lambda>i. nid (b i)) ` {..<m}" if "k < th_max_size h" "0 \<le> th_timer_ids ?g ! k" for k
      unfolding Kb using ids [OF that(1)] that(2) neg [OF that(1)] by (auto split: if_splits)
    ultimately show ?thesis using h2(3) mx by (simp add: th_good_def)
  qed
  have goodf: "th_good ?f m b" using goodg by (simp add: th_good_def th_view_def th_sizes_def good_id_def)
  have rem: "remove_slot s h = Some (a s, ?f)"
  proof -
    have "set_id (nid (a s)) (-2) h2 = Some ?g"
      using sz2 xk mx by (simp add: set_id_def th_sizes_def)
    then show ?thesis using at h2(1) unfolding remove_slot_def cur n by simp
  qed
  have "timers ?f = (timers h)(nd_timer_id (a s) := None)"
  proof (rule timers_eqI [OF goodf])
    fix k y
    have "y \<noteq> a s \<longleftrightarrow> nd_timer_id y \<noteq> nd_timer_id (a s)" if "y \<in> a ` {..<n}"
    proof -
      obtain j where j: "j < n" "y = a j" using \<open>y \<in> a ` {..<n}\<close> by blast
      then have "nd_timer_id (a j) = nd_timer_id (a s) \<Longrightarrow> j = s" using s inj_onD [OF injn, of j s] by simp
      then show ?thesis using j(2) by metis
    qed
    moreover have "((timers h)(nd_timer_id (a s) := None)) k = Some y
        \<longleftrightarrow> k \<noteq> nd_timer_id (a s) \<and> y \<in> a ` {..<n} \<and> nd_timer_id y = k"
      using timers_iff [OF good, of k y] by simp
    ultimately show "((timers h)(nd_timer_id (a s) := None)) k = Some y \<longleftrightarrow> y \<in> b ` {..<m} \<and> nd_timer_id y = k"
      unfolding h2(4) by (metis DiffD1 DiffD2 DiffI singletonD singletonI)
  qed
  moreover have "same_rest (h\<lparr>th_cur_size := n - 1, th_cur_limbo := th_cur_limbo h + 1\<rparr>) ?f"
    using h2(5) n by (cases h; cases h2) (simp add: same_rest_def)
  moreover have "free_id ?f k \<longleftrightarrow> free_id h k" "limbo_id ?f k \<longleftrightarrow> limbo_id h k \<or> k = nid (a s)" for k
  proof -
    have x0: "0 \<le> th_timer_ids h ! nid (a s)" using good_entry(2) [OF good s] by simp
    have "free_id ?f k \<longleftrightarrow> free_id h k" if "k < th_max_size h"
      using ids [OF that] neg [OF that] good_used [OF good that] x0 mx that xK
      by (cases "k \<in> ?K"; cases "k = nid (a s)") (auto simp: free_id_def)
    then show "free_id ?f k \<longleftrightarrow> free_id h k" using mx by (auto simp: free_id_def)
    have "limbo_id ?f k \<longleftrightarrow> limbo_id h k \<or> k = nid (a s)" if "k < th_max_size h"
      using ids [OF that] neg [OF that] good_used [OF good that] x0 mx that xK
      by (cases "k \<in> ?K"; cases "k = nid (a s)") (auto simp: limbo_id_def)
    then show "limbo_id ?f k \<longleftrightarrow> limbo_id h k \<or> k = nid (a s)" using mx xk by (auto simp: limbo_id_def)
  qed
  ultimately show thesis using that [OF rem] goodf n by simp
qed

section \<open>The invariant\<close>

definition ids_inv :: "'t timer_heap \<Rightarrow> bool" where
  "ids_inv h \<longleftrightarrow> th_ids_curr h < th_max_size h \<and> th_ids_min_free h \<le> th_max_size h
     \<and> (th_ids_min_free h < th_max_size h \<longrightarrow>
          free_id h (th_ids_min_free h) \<and> th_ids_min_free h \<le> th_ids_curr h)
     \<and> card {k. free_id h k \<and> k \<le> th_ids_curr h \<and> k < th_ids_min_free h} \<le> 1"

definition th_inv :: "'t timer_heap \<Rightarrow> bool" where
  "th_inv h \<longleftrightarrow> 2 \<le> th_max_size h \<and> (\<exists>a. th_good h (th_cur_size h) a) \<and> ids_inv h
     \<and> th_cur_limbo h = card {k. limbo_id h k}
     \<and> th_cur_size h + th_cur_limbo h + 2 \<le> th_max_size h
     \<and> (\<forall>fl. th_preallocated h = Some fl \<longrightarrow> length fl + th_cur_size h + th_cur_limbo h = th_max_size h)"

text \<open>The abstraction and the id tables depend on the arrays alone.\<close>

definition same_arrays :: "'t timer_heap \<Rightarrow> 't timer_heap \<Rightarrow> bool" where
  "same_arrays h h' \<longleftrightarrow> th_max_size h' = th_max_size h \<and> th_heap h' = th_heap h
     \<and> th_timer_ids h' = th_timer_ids h"

lemma same_arrays_cong:
  assumes "same_arrays h h'"
  shows "th_good h' n a \<longleftrightarrow> th_good h n a" "timers h' = timers h" "free_id h' k \<longleftrightarrow> free_id h k"
    "limbo_id h' k \<longleftrightarrow> limbo_id h k" "good_id h' x \<longleftrightarrow> good_id h x" "th_sizes h' \<longleftrightarrow> th_sizes h"
  using assms by (simp_all add: same_arrays_def th_good_def th_view_def th_sizes_def good_id_def timers_def
    fun_eq_iff free_id_def limbo_id_def)

lemma free_id_less: "free_id h k \<Longrightarrow> k < th_max_size h"
  by (simp add: free_id_def)

lemma limbo_id_less: "limbo_id h k \<Longrightarrow> k < th_max_size h"
  by (simp add: limbo_id_def)

lemma finite_ids [simp]: "finite {k. free_id h k \<and> P k}" "finite {k. limbo_id h k \<and> P k}"
  "finite {k. free_id h k}" "finite {k. limbo_id h k}"
  by (rule finite_subset [of _ "{..<th_max_size h}"]; auto dest: free_id_less limbo_id_less)+

lemma card_one_mono: "A \<subseteq> B \<Longrightarrow> card B \<le> 1 \<Longrightarrow> finite B \<Longrightarrow> card A \<le> 1"
  by (meson card_mono le_trans)

lemma good_sizes: "th_good h n a \<Longrightarrow> th_sizes h"
  by (simp add: th_good_def th_view_def)

lemma count_ids:
  assumes "th_good h n a"
  shows "card {k. free_id h k} + n + card {k. limbo_id h k} = th_max_size h"
proof -
  let ?U = "(\<lambda>i. nid (a i)) ` {..<n}"
  have U: "card ?U = n" using assms by (subst card_image) (auto simp: th_good_def th_view_def)
  have less: "u < th_max_size h" if "u \<in> ?U" for u using that good_entry(3) [OF assms] by auto
  have "{..<th_max_size h} = {k. free_id h k} \<union> (?U \<union> {k. limbo_id h k})"
  proof (rule set_eqI)
    fix k
    have "k < th_max_size h \<Longrightarrow> k \<in> ?U \<or> free_id h k \<or> limbo_id h k"
      using good_used [OF assms, of k] unfolding free_id_def limbo_id_def by linarith
    then show "k \<in> {..<th_max_size h} \<longleftrightarrow> k \<in> {k. free_id h k} \<union> (?U \<union> {k. limbo_id h k})"
      using less free_id_less limbo_id_less by blast
  qed
  moreover have "{k. free_id h k} \<inter> (?U \<union> {k. limbo_id h k}) = {}" "?U \<inter> {k. limbo_id h k} = {}"
    using good_used [OF assms] less by (fastforce simp: free_id_def limbo_id_def)+
  ultimately have "th_max_size h = card {k. free_id h k} + (card ?U + card {k. limbo_id h k})"
    by (metis card_Un_disjoint card_lessThan finite_UnI finite_ids(3,4) finite_imageI finite_lessThan)
  then show ?thesis using U by simp
qed

section \<open>Taking and returning ids\<close>

lemma next_free_ok:
  assumes "th_sizes h" and "c \<le> th_max_size h"
  shows "\<exists>d. next_free c h = Some d \<and> c \<le> d \<and> d \<le> th_max_size h
    \<and> (d < th_max_size h \<longrightarrow> free_id h d) \<and> (\<forall>j. c \<le> j \<and> j < d \<longrightarrow> \<not> free_id h j)"
  using assms(2)
proof (induction "th_max_size h - c" arbitrary: c rule: less_induct)
  case less
  show ?case
  proof (cases "c < th_max_size h \<and> \<not> free_id h c")
    case True
    then have "next_free c h = next_free (c + 1) h"
      using assms(1) by (subst next_free.simps) (auto simp: id_at_def th_sizes_def free_id_def)
    moreover obtain d where "next_free (c + 1) h = Some d" "c + 1 \<le> d" "d \<le> th_max_size h"
      "d < th_max_size h \<longrightarrow> free_id h d" "\<forall>j. c + 1 \<le> j \<and> j < d \<longrightarrow> \<not> free_id h j"
    proof -
      have "th_max_size h - (c + 1) < th_max_size h - c" "c + 1 \<le> th_max_size h" using True by linarith+
      from less.hyps [OF this] show thesis using that by blast
    qed
    moreover have "\<not> free_id h j" if "c \<le> j" "j < d" for j
      using calculation(6) that True by (cases "j = c") simp_all
    ultimately show ?thesis by (intro exI [of _ d]) auto
  next
    case False
    then have "next_free c h = Some c"
      using assms(1) by (subst next_free.simps) (auto simp: id_at_def th_sizes_def free_id_def)
    then show ?thesis using False less.prems by auto
  qed
qed

lemma pop_freelist_ok:
  assumes inv: "th_inv h"
  obtains k mf where "pop_freelist h = Some (int k, h\<lparr>th_ids_curr := k, th_ids_min_free := mf\<rparr>)"
    "free_id h k" "mf \<le> th_max_size h" "mf < th_max_size h \<longrightarrow> free_id h mf \<and> mf < k"
    "card {j. free_id h j \<and> j \<le> k \<and> j < mf \<and> j \<noteq> k} \<le> 1"
proof -
  obtain a where good: "th_good h (th_cur_size h) a" using inv by (auto simp: th_inv_def)
  let ?c = "th_ids_curr h" and ?mf = "th_ids_min_free h" and ?max = "th_max_size h"
  have ids: "?c < ?max" "?mf \<le> ?max" "?mf < ?max \<longrightarrow> free_id h ?mf \<and> ?mf \<le> ?c"
    "card {k. free_id h k \<and> k \<le> ?c \<and> k < ?mf} \<le> 1"
    using inv by (simp_all add: th_inv_def ids_inv_def)
  obtain d where d: "next_free (?c + 1) h = Some d" "?c + 1 \<le> d" "d \<le> ?max"
    "d < ?max \<longrightarrow> free_id h d" "\<forall>j. ?c + 1 \<le> j \<and> j < d \<longrightarrow> \<not> free_id h j"
    using next_free_ok [OF good_sizes [OF good], of "?c + 1"] ids(1) by auto
  have passed: "j \<le> ?c" if "free_id h j" "j < d" for j
    using d(5) that by (cases "j \<le> ?c") simp_all
  show thesis
  proof (cases "d < ?max")
    case True
    have "{j. free_id h j \<and> j \<le> d \<and> j < ?mf \<and> j \<noteq> d} \<subseteq> {k. free_id h k \<and> k \<le> ?c \<and> k < ?mf}"
      using passed by auto
    then have "card {j. free_id h j \<and> j \<le> d \<and> j < ?mf \<and> j \<noteq> d} \<le> 1"
      using card_one_mono [OF _ ids(4)] by simp
    moreover have "?mf < ?max \<longrightarrow> free_id h ?mf \<and> ?mf < d" using ids(3) d(2) by auto
    ultimately show thesis using that [of d ?mf] d True ids(2) by (simp add: pop_freelist_def)
  next
    case False
    have "\<not> ?max \<le> ?mf"
    proof
      assume "?max \<le> ?mf"
      then have "{k. free_id h k} \<subseteq> {k. free_id h k \<and> k \<le> ?c \<and> k < ?mf}"
        using passed False d(3) by (auto dest: free_id_less)
      then have "card {k. free_id h k} \<le> 1" using card_one_mono [OF _ ids(4)] by simp
      then show False using count_ids [OF good] inv by (simp add: th_inv_def)
    qed
    then have mf: "?mf < ?max" "free_id h ?mf" "?mf \<le> ?c" using ids(3) by auto
    have "{j. free_id h j \<and> j \<le> ?mf \<and> j < ?max \<and> j \<noteq> ?mf} \<subseteq> {k. free_id h k \<and> k \<le> ?c \<and> k < ?mf}"
      using mf(3) by auto
    then have "card {j. free_id h j \<and> j \<le> ?mf \<and> j < ?max \<and> j \<noteq> ?mf} \<le> 1"
      using card_one_mono [OF _ ids(4)] by simp
    moreover have "pop_freelist h = Some (int ?mf, h\<lparr>th_ids_curr := ?mf, th_ids_min_free := ?max\<rparr>)"
      using d False mf by (simp add: pop_freelist_def)
    ultimately show thesis using that [of ?mf ?max] mf by simp
  qed
qed

lemma ids_inv_free:
  assumes inv: "ids_inv h" and k: "k < th_max_size h" "\<not> free_id h k" and sz: "th_sizes h"
    and h': "th_max_size h' = th_max_size h" "th_timer_ids h' = (th_timer_ids h)[k := -1]" "th_ids_curr h' = th_ids_curr h"
      "th_ids_min_free h' = (if k < th_ids_min_free h \<and> k \<le> th_ids_curr h then k else th_ids_min_free h)"
  shows "ids_inv h'" "\<And>j. free_id h' j \<longleftrightarrow> free_id h j \<or> j = k"
    "\<And>j. limbo_id h' j \<longleftrightarrow> limbo_id h j \<and> j \<noteq> k"
proof -
  show fr: "free_id h' j \<longleftrightarrow> free_id h j \<or> j = k" for j
    using k(1) sz h'(1,2) by (cases "j < th_max_size h"; cases "j = k") (auto simp: free_id_def th_sizes_def)
  show "limbo_id h' j \<longleftrightarrow> limbo_id h j \<and> j \<noteq> k" for j
    using k(1) sz h'(1,2) by (cases "j < th_max_size h"; cases "j = k") (auto simp: limbo_id_def th_sizes_def)
  have "{j. free_id h' j \<and> j \<le> th_ids_curr h' \<and> j < th_ids_min_free h'}
      \<subseteq> {j. free_id h j \<and> j \<le> th_ids_curr h \<and> j < th_ids_min_free h}"
    using h' by (auto simp: fr split: if_splits)
  then have "card {j. free_id h' j \<and> j \<le> th_ids_curr h' \<and> j < th_ids_min_free h'} \<le> 1"
    by (rule card_one_mono) (use inv in \<open>simp_all add: ids_inv_def\<close>)
  moreover have "th_ids_curr h < th_max_size h" "th_ids_min_free h \<le> th_max_size h"
    "th_ids_min_free h < th_max_size h \<longrightarrow> free_id h (th_ids_min_free h) \<and> th_ids_min_free h \<le> th_ids_curr h"
    using inv by (simp_all add: ids_inv_def)
  ultimately show "ids_inv h'" unfolding ids_inv_def fr h'(1,3,4) using k(1) by simp
qed

section \<open>Operations and the invariant\<close>

lemma timers_inv_id:
  "th_inv h \<Longrightarrow> timers h k = Some x \<Longrightarrow> nd_timer_id x = k \<and> 0 \<le> k \<and> nat k < th_max_size h"
  unfolding th_inv_def using timers_id by blast

lemma inv_sizes: "th_inv h \<Longrightarrow> th_sizes h"
  by (auto simp: th_inv_def dest: good_sizes)

lemma same_rest_good:
  assumes "same_rest h h'" and "th_good h' n a"
  shows "th_cur_size h' = th_cur_size h" "th_cur_limbo h' = th_cur_limbo h"
  using assms(1) by (simp_all add: same_rest_sizes)

lemma remove_slot_inv:
  assumes inv: "th_inv h" and good: "th_good h (th_cur_size h) a" and s: "s < th_cur_size h"
  obtains h' where "remove_slot s h = Some (a s, h')" "th_inv h'"
    "timers h' = (timers h)(nd_timer_id (a s) := None)" "th_cur_size h' = th_cur_size h - 1"
    "\<And>k. limbo_id h' k \<longleftrightarrow> limbo_id h k \<or> k = nid (a s)" "limbo_id h' (nid (a s))"
    "th_upcalls h' = th_upcalls h" "th_max_size h' = th_max_size h"
proof -
  obtain h' a' where h': "remove_slot s h = Some (a s, h')" "th_good h' (th_cur_size h - 1) a'"
    "timers h' = (timers h)(nd_timer_id (a s) := None)"
    "same_rest (h\<lparr>th_cur_size := th_cur_size h - 1, th_cur_limbo := th_cur_limbo h + 1\<rparr>) h'"
    and fr: "\<And>k. free_id h' k \<longleftrightarrow> free_id h k" and li: "\<And>k. limbo_id h' k \<longleftrightarrow> limbo_id h k \<or> k = nid (a s)"
    using remove_slot_good [OF good s refl] by metis
  note sizes = same_rest_sizes [OF h'(4), simplified]
  have "\<not> limbo_id h (nid (a s))" using good_entry(2) [OF good s] by (simp add: limbo_id_def)
  moreover have "{k. limbo_id h' k} = Set.insert (nid (a s)) {k. limbo_id h k}" using li by auto
  ultimately have "card {k. limbo_id h' k} = Suc (card {k. limbo_id h k})" by simp
  then have "th_inv h'" using inv h'(2) s fr sizes by (auto simp: th_inv_def ids_inv_def)
  moreover have "limbo_id h' (nid (a s))" using li by simp
  ultimately show thesis using that h'(1,3) li sizes by simp
qed

lemma free_limbo_inv:
  assumes inv: "th_inv h" and x: "limbo_id h (nid x)"
  obtains h' where "free_node x h = Some h'" "th_inv h'" "timers h' = timers h"
    "th_cur_size h' = th_cur_size h" "\<And>k. limbo_id h' k \<longleftrightarrow> limbo_id h k \<and> k \<noteq> nid x"
    "th_upcalls h' = th_upcalls h" "th_max_size h' = th_max_size h" "th_heap h' = th_heap h"
proof -
  let ?k = "nid x"
  let ?mf = "if ?k < th_ids_min_free h \<and> ?k \<le> th_ids_curr h then ?k else th_ids_min_free h"
  let ?h = "h\<lparr>th_cur_limbo := th_cur_limbo h - 1, th_timer_ids := (th_timer_ids h)[?k := -1],
    th_ids_min_free := ?mf, th_preallocated := map_option (\<lambda>fl. nd_addr x # fl) (th_preallocated h)\<rparr>"
  obtain a where good: "th_good h (th_cur_size h) a" using inv by (auto simp: th_inv_def)
  have sz: "th_sizes h" using good by (rule good_sizes)
  have k: "?k < th_max_size h" "th_timer_ids h ! ?k = -2" "\<not> free_id h ?k"
    using x by (simp_all add: limbo_id_def free_id_def)
  have free: "free_node x h = Some ?h"
    using k sz by (simp add: free_node_def push_freelist_def Let_def id_at_def set_id_def th_sizes_def)
  have ids: "ids_inv h" using inv by (simp add: th_inv_def)
  note after = ids_inv_free [OF ids k(1,3) sz, of ?h, simplified]
  have good': "th_good ?h (th_cur_size h) a"
  proof -
    have "(th_timer_ids h)[?k := -1] ! nid (a i) = int i" if "i < th_cur_size h" for i
    proof -
      have "nid (a i) \<noteq> ?k" using good_entry(2) [OF good that] k(2) by auto
      then show ?thesis using good_entry(2) [OF good that] by simp
    qed
    then have "th_view ?h (th_cur_size h) a"
      using good by (simp add: th_good_def th_view_def th_sizes_def good_id_def)
    moreover have "j \<in> (\<lambda>i. nid (a i)) ` {..<th_cur_size h}"
      if "j < th_max_size h" "0 \<le> (th_timer_ids h)[?k := -1] ! j" for j
      using that good_used [OF good that(1)] k sz by (cases "j = ?k") (simp_all add: th_sizes_def)
    ultimately show ?thesis using good by (simp add: th_good_def)
  qed
  have lim: "{j. limbo_id ?h j} = {j. limbo_id h j} - {?k}" using after(3) by auto
  have card: "th_cur_limbo h = card {k. limbo_id h k}" "0 < card {k. limbo_id h k}"
    using inv x by (auto simp: th_inv_def card_gt_0_iff)
  have "card {j. limbo_id ?h j} = th_cur_limbo h - 1"
    unfolding lim using card(1) x by simp
  then have "th_inv ?h" using inv good' after(1) card by (auto simp: th_inv_def)
  moreover have "timers ?h = timers h"
    by (rule timers_eqI [OF good']) (rule timers_iff [OF good])
  ultimately show thesis using that [OF free] after(3) by simp
qed

text \<open>
  Insertion, for a node whose id is marked free or in limbo. The last three assumptions are what
  the callers know of the ids when they insert: \<open>schedule_i\<close> has just taken the id, \<open>reschedule\<close>
  has just discounted it from the limbo ids.
\<close>

definition may_insert :: "'t timer_heap \<Rightarrow> 't timer_node \<Rightarrow> bool" where
  "may_insert h x \<longleftrightarrow> 2 \<le> th_max_size h \<and> (\<exists>a. th_good h (th_cur_size h) a) \<and> good_id h x
     \<and> th_timer_ids h ! nid x < 0 \<and> th_cur_limbo h = card {k. limbo_id h k \<and> k \<noteq> nid x}
     \<and> th_cur_size h + th_cur_limbo h + 2 \<le> th_max_size h
     \<and> card {k. free_id h k \<and> k \<noteq> nid x} + th_cur_size h + th_cur_limbo h + 1 = th_max_size h
     \<and> (\<forall>fl. th_preallocated h = Some fl \<longrightarrow> length fl + th_cur_size h + th_cur_limbo h + 1 = th_max_size h)
     \<and> th_ids_curr h < th_max_size h \<and> th_ids_min_free h \<le> th_max_size h
     \<and> (th_ids_min_free h < th_max_size h \<longrightarrow> free_id h (th_ids_min_free h)
          \<and> th_ids_min_free h \<le> th_ids_curr h \<and> th_ids_min_free h \<noteq> nid x)
     \<and> card {k. free_id h k \<and> k \<le> th_ids_curr h \<and> k < th_ids_min_free h \<and> k \<noteq> nid x} \<le> 1"

definition room :: "'t timer_heap \<Rightarrow> 't timer_heap" where
  "room h = (if th_max_size h \<le> th_cur_size h + th_cur_limbo h + 2 then grow_heap h else h)"

lemma room_fields:
  "th_cur_size (room h) = th_cur_size h" "th_cur_limbo (room h) = th_cur_limbo h"
  "th_ids_curr (room h) = th_ids_curr h" "th_upcalls (room h) = th_upcalls h"
  "th_max_size h \<le> th_max_size (room h)"
  by (simp_all add: room_def grow_heap_fields)

lemma room_good:
  assumes "th_good h n a"
  shows "th_good (room h) n a" "timers (room h) = timers h"
proof -
  show good: "th_good (room h) n a" using assms by (simp add: room_def grow_heap_good)
  show "timers (room h) = timers h" by (rule timers_eqI [OF good]) (rule timers_iff [OF assms])
qed

lemma room_ids_inv:
  assumes m: "may_insert h x" and h': "same_rest ((room h)\<lparr>th_cur_size := th_cur_size h + 1\<rparr>) h'"
    and fr: "\<And>k. free_id h' k \<longleftrightarrow> free_id (room h) k \<and> k \<noteq> nid x"
  shows "ids_inv h'"
proof -
  note sizes = same_rest_sizes [OF h', simplified]
  have sz: "th_sizes h" using m good_sizes by (auto simp: may_insert_def)
  show ?thesis
  proof (cases "th_max_size h \<le> th_cur_size h + th_cur_limbo h + 2")
    case True
    then have r: "room h = grow_heap h" by (simp add: room_def)
    have two: "2 \<le> th_max_size h" using m by (simp add: may_insert_def)
    have "{k. free_id h' k \<and> k \<le> th_ids_curr h' \<and> k < th_ids_min_free h'} \<subseteq> {k. free_id h k \<and> k \<noteq> nid x}"
      using m by (auto simp: fr r sizes grow_heap_free(1) [OF sz two] grow_heap_fields may_insert_def)
    moreover have "card {k. free_id h k \<and> k \<noteq> nid x} \<le> 1" using m True by (simp add: may_insert_def)
    ultimately have "card {k. free_id h' k \<and> k \<le> th_ids_curr h' \<and> k < th_ids_min_free h'} \<le> 1"
      by (rule card_one_mono) simp
    then show ?thesis using m by (simp add: ids_inv_def sizes r grow_heap_fields may_insert_def)
  next
    case False
    then have r: "room h = h" by (simp add: room_def)
    have "{k. free_id h' k \<and> k \<le> th_ids_curr h' \<and> k < th_ids_min_free h'}
      = {k. free_id h k \<and> k \<le> th_ids_curr h \<and> k < th_ids_min_free h \<and> k \<noteq> nid x}"
      by (auto simp: fr r sizes)
    then show ?thesis using m by (simp add: ids_inv_def sizes r may_insert_def fr)
  qed
qed

lemma insert_node_inv:
  assumes m: "may_insert h x"
  obtains h' where "insert_node x h = Some h'" "th_inv h'"
    "timers h' = (timers h)(nd_timer_id x \<mapsto> x)" "th_cur_size h' = th_cur_size h + 1"
    "\<And>k. limbo_id h' k \<longleftrightarrow> limbo_id h k \<and> k \<noteq> nid x" "th_upcalls h' = th_upcalls h"
proof -
  let ?n = "th_cur_size h"
  let ?h = "room h"
  obtain a where good: "th_good h ?n a" using m by (auto simp: may_insert_def)
  have sz: "th_sizes h" using good by (rule good_sizes)
  have two: "2 \<le> th_max_size h" using m by (simp add: may_insert_def)
  have x: "good_id ?h x" using m room_fields(5) [of h] by (auto simp: may_insert_def good_id_def)
  have "nid x < th_max_size h" using m by (auto simp: may_insert_def good_id_def nat_less_iff)
  then have neg: "th_timer_ids ?h ! nid x < 0"
    using m grow_heap_ids(1) [OF sz, of "nid x"] by (simp add: room_def may_insert_def)
  have less: "?n < th_max_size ?h" using m room_fields(5) [of h] by (simp add: may_insert_def)
  obtain h1 a1 where h1: "reheap_up x ?n (heap_parent ?n) ?h = Some h1" "th_good h1 (Suc ?n) a1"
    "timers h1 = (timers ?h)(nd_timer_id x \<mapsto> x)" "same_rest ?h h1"
    and fr1: "\<And>k. free_id h1 k \<longleftrightarrow> free_id ?h k \<and> k \<noteq> nid x"
    and li1: "\<And>k. limbo_id h1 k \<longleftrightarrow> limbo_id ?h k \<and> k \<noteq> nid x"
    using insert_good [OF room_good(1) [OF good] x neg less] by metis
  note sizes = same_rest_sizes [OF h1(4)]
  define h' where "h' = h1\<lparr>th_cur_size := th_cur_size h1 + 1\<rparr>"
  have same: "same_arrays h1 h'" by (simp add: same_arrays_def h'_def)
  have rest: "same_rest (?h\<lparr>th_cur_size := ?n + 1\<rparr>) h'"
    using h1(4) room_fields(1) [of h] by (cases h1; cases "room h") (simp add: same_rest_def h'_def)
  have cur: "th_cur_size h' = ?n + 1" "th_cur_limbo h' = th_cur_limbo h" "th_max_size h' = th_max_size ?h"
    "th_preallocated h' = th_preallocated ?h" "th_upcalls h' = th_upcalls h"
    using sizes by (simp_all add: h'_def room_fields)
  have li: "limbo_id h' k \<longleftrightarrow> limbo_id h k \<and> k \<noteq> nid x" for k
    using grow_heap_free(2) [OF sz two, of k] by (simp add: same_arrays_cong(4) [OF same] li1 room_def)
  have "\<exists>a. th_good h' (th_cur_size h') a"
    unfolding cur(1) same_arrays_cong(1) [OF same] using h1(2) by auto
  moreover have "ids_inv h'" by (rule room_ids_inv [OF m rest]) (simp add: same_arrays_cong(3) [OF same] fr1)
  moreover have "th_cur_limbo h' = card {k. limbo_id h' k}"
    unfolding cur(2) li using m by (simp add: may_insert_def)
  moreover have "th_cur_size h' + th_cur_limbo h' + 2 \<le> th_max_size h'" "2 \<le> th_max_size h'"
    using m unfolding cur by (simp_all add: room_def grow_heap_fields may_insert_def)
  moreover have "\<forall>fl. th_preallocated h' = Some fl \<longrightarrow> length fl + th_cur_size h' + th_cur_limbo h' = th_max_size h'"
    using m unfolding cur by (auto simp: room_def grow_heap_def Let_def may_insert_def)
  ultimately have "th_inv h'" unfolding th_inv_def by blast
  moreover have "insert_node x h = Some h'"
    using h1(1) unfolding room_def by (auto simp: insert_node_def Let_def h'_def grow_heap_fields)
  moreover have "timers h' = (timers h)(nd_timer_id x \<mapsto> x)"
    using h1(3) by (simp add: same_arrays_cong(2) [OF same] room_good(2) [OF good])
  ultimately show thesis using that li cur(1,5) by blast
qed

subsection \<open>Scheduling\<close>

lemma schedule_may_insert:
  assumes inv: "th_inv h" and k: "free_id h k" and x: "nd_timer_id x = int k"
    and mf: "mf \<le> th_max_size h" "mf < th_max_size h \<longrightarrow> free_id h mf \<and> mf < k"
      "card {j. free_id h j \<and> j \<le> k \<and> j < mf \<and> j \<noteq> k} \<le> 1"
    and h': "same_arrays h h'" "th_cur_size h' = th_cur_size h" "th_cur_limbo h' = th_cur_limbo h"
      "th_ids_curr h' = k" "th_ids_min_free h' = mf"
      "\<And>fl. th_preallocated h' = Some fl \<Longrightarrow> length fl + th_cur_size h + th_cur_limbo h + 1 = th_max_size h"
  shows "may_insert h' x"
proof -
  obtain a where good: "th_good h (th_cur_size h) a" using inv by (auto simp: th_inv_def)
  have mx: "th_max_size h' = th_max_size h" "th_timer_ids h' = th_timer_ids h"
    using h'(1) by (simp_all add: same_arrays_def)
  have kk: "k < th_max_size h" "th_timer_ids h ! k < 0" "nid x = k" "\<not> limbo_id h k"
    using k x by (simp_all add: free_id_def limbo_id_def)
  have "{j. limbo_id h j \<and> j \<noteq> k} = {j. limbo_id h j}" using kk(4) by auto
  then have lim: "th_cur_limbo h = card {j. limbo_id h j \<and> j \<noteq> k}" using inv by (simp add: th_inv_def)
  have "{j. free_id h j \<and> j \<noteq> k} = {j. free_id h j} - {k}" by auto
  then have "card {j. free_id h j \<and> j \<noteq> k} = card {j. free_id h j} - 1" using k by simp
  moreover have "0 < card {j. free_id h j}" using k by (auto simp: card_gt_0_iff)
  ultimately have cnt: "card {j. free_id h j \<and> j \<noteq> k} + th_cur_size h + th_cur_limbo h + 1 = th_max_size h"
    using count_ids [OF good] inv by (simp add: th_inv_def)
  have two: "2 \<le> th_max_size h" "th_cur_size h + th_cur_limbo h + 2 \<le> th_max_size h"
    using inv by (simp_all add: th_inv_def)
  have gid: "good_id h x" using kk(1) x by (simp add: good_id_def)
  have gd: "\<exists>a. th_good h' (th_cur_size h) a" using good same_arrays_cong(1) [OF h'(1)] by blast
  have mfk: "mf < th_max_size h \<longrightarrow> free_id h mf \<and> mf \<le> k \<and> mf \<noteq> k" using mf(2) by auto
  have pre: "\<forall>fl. th_preallocated h' = Some fl \<longrightarrow> length fl + th_cur_size h + th_cur_limbo h + 1 = th_max_size h"
    using h'(6) by simp
  show ?thesis
    unfolding may_insert_def same_arrays_cong(3,4,5) [OF h'(1)] mx h'(2-5) kk(3)
    by (intro conjI two gd gid kk(1,2) lim cnt pre mf(1,3) mfk)
qed

lemma schedule_inv:
  assumes inv: "th_inv h"
  obtains k x h' where "schedule_i True type act future_time interval h = Some (int k, h')" "free_id h k"
    "th_inv h'" "timers h' = (timers h)(int k \<mapsto> x)"
    "nd_type x = type" "nd_act x = act" "nd_timer_value x = future_time" "nd_interval x = interval"
    "nd_timer_id x = int k" "th_cur_size h' = th_cur_size h + 1"
    "\<And>j. limbo_id h' j \<longleftrightarrow> limbo_id h j" "th_upcalls h' = th_upcalls h"
proof -
  obtain k mf where pop: "pop_freelist h = Some (int k, h\<lparr>th_ids_curr := k, th_ids_min_free := mf\<rparr>)"
    and k: "free_id h k" and mf: "mf \<le> th_max_size h" "mf < th_max_size h \<longrightarrow> free_id h mf \<and> mf < k"
    "card {j. free_id h j \<and> j \<le> k \<and> j < mf \<and> j \<noteq> k} \<le> 1"
    by (rule pop_freelist_ok [OF inv])
  let ?h1 = "h\<lparr>th_ids_curr := k, th_ids_min_free := mf\<rparr>"
  have "\<exists>a h2. alloc_node True ?h1 = (Some a, h2) \<and> same_arrays h h2 \<and> th_cur_size h2 = th_cur_size h
    \<and> th_cur_limbo h2 = th_cur_limbo h \<and> th_ids_curr h2 = k \<and> th_ids_min_free h2 = mf \<and> th_upcalls h2 = th_upcalls h
    \<and> (\<forall>fl. th_preallocated h2 = Some fl \<longrightarrow> length fl + th_cur_size h + th_cur_limbo h + 1 = th_max_size h)"
  proof (cases "th_preallocated h")
    case None
    then show ?thesis by (simp add: alloc_node_def same_arrays_def)
  next
    case (Some fl)
    have "length fl + th_cur_size h + th_cur_limbo h = th_max_size h"
      "th_cur_size h + th_cur_limbo h + 2 \<le> th_max_size h" using inv Some by (simp_all add: th_inv_def)
    then obtain a rest where "fl = a # rest" by (cases fl) auto
    then show ?thesis using Some \<open>length fl + _ + _ = _\<close> by (simp add: alloc_node_def same_arrays_def)
  qed
  then obtain ad h2 where alloc: "alloc_node True ?h1 = (Some ad, h2)" and h2: "same_arrays h h2"
    "th_cur_size h2 = th_cur_size h" "th_cur_limbo h2 = th_cur_limbo h" "th_ids_curr h2 = k"
    "th_ids_min_free h2 = mf" "th_upcalls h2 = th_upcalls h"
    "\<And>fl. th_preallocated h2 = Some fl \<Longrightarrow> length fl + th_cur_size h + th_cur_limbo h + 1 = th_max_size h"
    by blast
  define x where "x = \<lparr>nd_addr = ad, nd_type = type, nd_act = act, nd_timer_value = future_time,
    nd_interval = interval, nd_timer_id = int k\<rparr>"
  have xk: "nd_timer_id x = int k" "nid x = k" by (simp_all add: x_def)
  have "may_insert h2 x"
    using schedule_may_insert [OF inv k xk(1) mf h2(1-5)] h2(7) by blast
  then obtain h' where h': "insert_node x h2 = Some h'" "th_inv h'"
    "timers h' = (timers h2)(nd_timer_id x \<mapsto> x)" "th_cur_size h' = th_cur_size h2 + 1"
    "\<And>k. limbo_id h' k \<longleftrightarrow> limbo_id h2 k \<and> k \<noteq> nid x" "th_upcalls h' = th_upcalls h2"
    by (rule insert_node_inv) blast
  have "th_cur_size h + th_cur_limbo h < th_max_size h" using inv by (simp add: th_inv_def)
  then have "schedule_i True type act future_time interval h = Some (int k, h')"
    using pop alloc h'(1) by (simp add: schedule_i_def x_def)
  moreover have "\<not> limbo_id h k" using k by (simp add: free_id_def limbo_id_def)
  then have "limbo_id h' j \<longleftrightarrow> limbo_id h j" for j
    unfolding h'(5) same_arrays_cong(4) [OF h2(1)] xk(2) by blast
  ultimately show thesis
    using that [of k h' x] k h'(2-4,6) h2(2,6) xk by (simp add: same_arrays_cong(2) [OF h2(1)] x_def)
qed

lemma reschedule_inv:
  assumes inv: "th_inv h" and x: "limbo_id h (nid x)" "0 \<le> nd_timer_id x"
  obtains h' where "reschedule x h = Some h'" "th_inv h'" "timers h' = (timers h)(nd_timer_id x \<mapsto> x)"
    "th_cur_size h' = th_cur_size h + 1" "\<And>j. limbo_id h' j \<longleftrightarrow> limbo_id h j \<and> j \<noteq> nid x"
    "th_upcalls h' = th_upcalls h"
proof -
  obtain a where good: "th_good h (th_cur_size h) a" using inv by (auto simp: th_inv_def)
  let ?h = "h\<lparr>th_cur_limbo := th_cur_limbo h - 1\<rparr>"
  let ?k = "nid x"
  have same: "same_arrays h ?h" by (simp add: same_arrays_def)
  have kk: "?k < th_max_size h" "th_timer_ids h ! ?k = -2" "\<not> free_id h ?k"
    using x(1) by (simp_all add: limbo_id_def free_id_def)
  have "{j. limbo_id h j \<and> j \<noteq> ?k} = {j. limbo_id h j} - {?k}" by auto
  then have lim: "th_cur_limbo h - 1 = card {j. limbo_id h j \<and> j \<noteq> ?k}" "0 < th_cur_limbo h"
    using inv x(1) by (auto simp: th_inv_def card_gt_0_iff)
  have fr: "{j. free_id h j \<and> j \<noteq> ?k} = {j. free_id h j}"
    "{j. free_id h j \<and> j \<le> th_ids_curr h \<and> j < th_ids_min_free h \<and> j \<noteq> ?k}
      = {j. free_id h j \<and> j \<le> th_ids_curr h \<and> j < th_ids_min_free h}" using kk(3) by auto
  have cnt: "card {j. free_id h j \<and> j \<noteq> ?k} + th_cur_size h + (th_cur_limbo h - 1) + 1 = th_max_size h"
    using count_ids [OF good] inv lim(2) unfolding fr(1) by (simp add: th_inv_def)
  have ids: "ids_inv h" using inv by (simp add: th_inv_def)
  have g: "good_id h x" using kk(1) x(2) by (simp add: good_id_def nat_less_iff)
  have two: "2 \<le> th_max_size h" "th_cur_size h + th_cur_limbo h + 2 \<le> th_max_size h" using inv by (simp_all add: th_inv_def)
  have pre: "length fl + th_cur_size h + (th_cur_limbo h - 1) + 1 = th_max_size h"
    if "th_preallocated h = Some fl" for fl using inv that lim(2) by (auto simp: th_inv_def)
  have mf: "th_ids_min_free h \<noteq> ?k" if "th_ids_min_free h < th_max_size h"
    using ids that kk(3) by (auto simp: ids_inv_def)
  have goodh: "\<exists>a. th_good ?h (th_cur_size h) a" using good same_arrays_cong(1) [OF same] by blast
  have sums: "th_cur_size h + (th_cur_limbo h - 1) + 2 \<le> th_max_size h" using two by simp
  have ids': "th_ids_curr h < th_max_size h" "th_ids_min_free h \<le> th_max_size h"
    "th_ids_min_free h < th_max_size h \<longrightarrow> free_id h (th_ids_min_free h) \<and> th_ids_min_free h \<le> th_ids_curr h"
    "card {j. free_id h j \<and> j \<le> th_ids_curr h \<and> j < th_ids_min_free h \<and> j \<noteq> ?k} \<le> 1"
    using ids unfolding fr(2) by (simp_all add: ids_inv_def)
  have "may_insert ?h x"
    unfolding may_insert_def same_arrays_cong(3,4,5) [OF same]
    using g kk(2) lim(1) two cnt pre mf sums ids' goodh by simp
  then obtain h' where h': "insert_node x ?h = Some h'" "th_inv h'"
    "timers h' = (timers ?h)(nd_timer_id x \<mapsto> x)" "th_cur_size h' = th_cur_size ?h + 1"
    "\<And>k. limbo_id h' k \<longleftrightarrow> limbo_id ?h k \<and> k \<noteq> nid x" "th_upcalls h' = th_upcalls ?h"
    by (rule insert_node_inv) blast
  have "id_at ?k h = Some (-2)" using kk good_sizes [OF good] by (simp add: id_at_def th_sizes_def)
  then have "reschedule x h = Some h'" using h'(1) by (simp add: reschedule_def)
  moreover have "timers h' = (timers h)(nd_timer_id x \<mapsto> x)"
    using h'(3) unfolding same_arrays_cong(2) [OF same] .
  moreover have "limbo_id h' j \<longleftrightarrow> limbo_id h j \<and> j \<noteq> ?k" for j
    unfolding h'(5) same_arrays_cong(4) [OF same] by (rule refl)
  ultimately show thesis using that h'(2,4,6) by simp
qed

subsection \<open>An empty heap\<close>

lemma timer_heap_new_inv:
  assumes "2 \<le> n"
  shows "th_inv (timer_heap_new n pre base :: 't timer_heap)"
    "timers (timer_heap_new n pre base :: 't timer_heap) = (\<lambda>_. None)"
    "\<not> limbo_id (timer_heap_new n pre base :: 't timer_heap) k"
proof -
  let ?h = "timer_heap_new n pre base :: 't timer_heap"
  have f: "th_max_size ?h = n" "th_cur_size ?h = 0" "th_cur_limbo ?h = 0" "th_ids_curr ?h = 0"
    "th_ids_min_free ?h = 0" "th_timer_ids ?h = replicate n (-1)" "th_heap ?h = replicate n None"
    by (simp_all add: timer_heap_new_def)
  have fr: "free_id ?h k \<longleftrightarrow> k < n" and li: "\<not> limbo_id ?h k" for k
    by (auto simp: free_id_def limbo_id_def f)
  show "\<not> limbo_id ?h k" by (rule li)
  show "timers ?h = (\<lambda>_. None)" by (auto simp: timers_def fun_eq_iff f)
  have "th_good ?h 0 a" for a by (auto simp: th_good_def th_view_def th_sizes_def heap_ordered_def f)
  moreover have "ids_inv ?h" using assms by (simp add: ids_inv_def fr f)
  moreover have "\<forall>fl. th_preallocated ?h = Some fl \<longrightarrow> length fl = n" by (simp add: timer_heap_new_def)
  moreover have "{k. limbo_id ?h k} = {}" using li by simp
  ultimately show "th_inv ?h" unfolding th_inv_def f using assms by auto
qed

subsection \<open>Removal and cancellation\<close>

lemma good_timers:
  assumes "th_good h n a" and "i < n"
  shows "timers h (nd_timer_id (a i)) = Some (a i)"
  using timers_iff [OF assms(1)] assms(2) by simp

lemma root_minimal:
  assumes "heap_ordered a n" and "i < n"
  shows "due (a 0) \<le> due (a i)"
  using assms(2)
proof (induction i rule: less_induct)
  case (less i)
  show ?case
  proof (cases "i = 0")
    case False
    then have "heap_parent i < i" by (simp add: heap_parent_less)
    then have "due (a 0) \<le> due (a (heap_parent i))" using less by simp
    also have "\<dots> \<le> due (a i)" using assms(1) less.prems False by (simp add: heap_ordered_def)
    finally show ?thesis .
  qed simp
qed

lemma get_first_inv:
  assumes inv: "th_inv h" and ne: "th_cur_size h \<noteq> 0"
  obtains x where "get_first h = Some x" "timers h (nd_timer_id x) = Some x"
    "\<And>k y. timers h k = Some y \<Longrightarrow> due x \<le> due y" "earliest_time h = Some (due x)"
proof -
  obtain a where good: "th_good h (th_cur_size h) a" using inv by (auto simp: th_inv_def)
  have 0: "node_at 0 h = Some (a 0)" using node_at_view [OF good_view [OF good]] ne by simp
  have "due (a 0) \<le> due y" if "timers h k = Some y" for k y
    using that timers_iff [OF good] root_minimal [of a "th_cur_size h"] good by (auto simp: th_good_def)
  then show thesis using that [of "a 0"] 0 ne good_timers [OF good, of 0]
    by (simp add: get_first_def earliest_time_def)
qed

lemma remove_first_inv:
  assumes inv: "th_inv h" and ne: "th_cur_size h \<noteq> 0"
  obtains x h' where "remove_first h = Some (Some x, h')" "get_first h = Some x" "th_inv h'"
    "timers h (nd_timer_id x) = Some x" "timers h' = (timers h)(nd_timer_id x := None)"
    "\<And>k. limbo_id h' k \<longleftrightarrow> limbo_id h k \<or> k = nid x" "th_upcalls h' = th_upcalls h"
    "th_cur_size h' = th_cur_size h - 1"
proof -
  obtain a where good: "th_good h (th_cur_size h) a" using inv by (auto simp: th_inv_def)
  have s: "0 < th_cur_size h" using ne by simp
  obtain h' where h': "remove_slot 0 h = Some (a 0, h')" "th_inv h'"
    "timers h' = (timers h)(nd_timer_id (a 0) := None)" "th_cur_size h' = th_cur_size h - 1"
    "\<And>k. limbo_id h' k \<longleftrightarrow> limbo_id h k \<or> k = nid (a 0)" "th_upcalls h' = th_upcalls h"
    by (rule remove_slot_inv [OF inv good s]) blast
  have "node_at 0 h = Some (a 0)" using node_at_view [OF good_view [OF good]] ne by simp
  then have "remove_first h = Some (Some (a 0), h')" "get_first h = Some (a 0)"
    using h'(1) ne by (simp_all add: remove_first_def get_first_def)
  then show thesis using that h'(2-6) good_timers [OF good s] by blast
qed

lemma upcall_inv:
  "th_inv (upcall u h) \<longleftrightarrow> th_inv h" "timers (upcall u h) = timers h" "limbo_id (upcall u h) k \<longleftrightarrow> limbo_id h k"
  "th_cur_size (upcall u h) = th_cur_size h" "th_upcalls (upcall u h) = th_upcalls h @ [u]"
proof -
  have same: "same_arrays h (upcall u h)" by (simp add: same_arrays_def upcall_def)
  show "th_inv (upcall u h) \<longleftrightarrow> th_inv h"
    unfolding th_inv_def ids_inv_def same_arrays_cong [OF same] by (simp add: upcall_def)
  show "timers (upcall u h) = timers h" "limbo_id (upcall u h) k \<longleftrightarrow> limbo_id h k"
    by (simp_all add: same_arrays_cong [OF same])
  show "th_cur_size (upcall u h) = th_cur_size h" "th_upcalls (upcall u h) = th_upcalls h @ [u]"
    by (simp_all add: upcall_def)
qed

text \<open>Looking up a timer id that the bounds check lets through and that is inside the table.\<close>

lemma timers_slot:
  assumes inv: "th_inv h" and t: "timers h k = Some x"
  obtains a i where "th_good h (th_cur_size h) a" "i < th_cur_size h" "a i = x" "0 \<le> k" "\<not> int (th_max_size h) < k"
    "id_at (nat k) h = Some (int i)" "node_at i h = Some x" "nd_timer_id x = k" "nid x = nat k"
proof -
  obtain a where good: "th_good h (th_cur_size h) a" using inv by (auto simp: th_inv_def)
  have k: "nd_timer_id x = k" "0 \<le> k" "nat k < th_max_size h" using timers_inv_id [OF inv t] by simp_all
  obtain i where i: "i < th_cur_size h" "a i = x" using t timers_iff [OF good] by auto
  have "id_at (nat k) h = Some (int i)"
    using good_entry(2) [OF good i(1)] good_sizes [OF good] k i(2) by (simp add: id_at_def th_sizes_def)
  moreover have "node_at i h = Some x" using node_at_view [OF good_view [OF good] i(1)] i(2) by simp
  ultimately show thesis using that [OF good i] k by simp
qed

lemma timers_none_slot:
  assumes inv: "th_inv h" and t: "timers h k = None" and k: "0 \<le> k" "k < int (th_max_size h)"
  shows "\<exists>v<0. id_at (nat k) h = Some v"
proof -
  obtain a where good: "th_good h (th_cur_size h) a" using inv by (auto simp: th_inv_def)
  have n: "nat k < th_max_size h" using k by (simp add: nat_less_iff)
  have "th_timer_ids h ! nat k < 0"
  proof (rule ccontr)
    assume "\<not> th_timer_ids h ! nat k < 0"
    then obtain i where "i < th_cur_size h" "nid (a i) = nat k" using good_used [OF good n] by auto
    moreover from this have "nd_timer_id (a i) = k" using good_entry(4) [OF good] k by (simp add: eq_nat_nat_iff)
    ultimately show False using good_timers [OF good] t by force
  qed
  then show ?thesis using n good_sizes [OF good] by (simp add: id_at_def th_sizes_def)
qed

lemma cancel_id_inv:
  assumes inv: "th_inv h" and t: "timers h k = Some x"
  obtains h' where "cancel_id k d h = Some (1, Some (nd_act x), h')" "th_inv h'"
    "timers h' = (timers h)(k := None)" "\<And>j. limbo_id h' j \<longleftrightarrow> limbo_id h j"
    "th_upcalls h' = th_upcalls h @ [Cancel_type (nd_type x) d, Cancel_timer (nd_type x) d]"
proof -
  obtain a i where ai: "th_good h (th_cur_size h) a" "i < th_cur_size h" "a i = x" "0 \<le> k" "\<not> int (th_max_size h) < k"
    "id_at (nat k) h = Some (int i)" "node_at i h = Some x" "nd_timer_id x = k" "nid x = nat k"
    by (rule timers_slot [OF inv t])
  obtain h1 where h1: "remove_slot i h = Some (a i, h1)" "th_inv h1"
    "timers h1 = (timers h)(nd_timer_id (a i) := None)"
    "\<And>k. limbo_id h1 k \<longleftrightarrow> limbo_id h k \<or> k = nid (a i)" "limbo_id h1 (nid (a i))" "th_upcalls h1 = th_upcalls h"
    by (rule remove_slot_inv [OF inv ai(1,2)]) blast
  let ?h2 = "upcall (Cancel_timer (nd_type x) d) (upcall (Cancel_type (nd_type x) d) h1)"
  have inv2: "th_inv ?h2" "limbo_id ?h2 (nid x)" using h1(2,5) ai(3) by (simp_all add: upcall_inv)
  obtain h3 where h3: "free_node x ?h2 = Some h3" "th_inv h3" "timers h3 = timers ?h2"
    "\<And>k. limbo_id h3 k \<longleftrightarrow> limbo_id ?h2 k \<and> k \<noteq> nid x" "th_upcalls h3 = th_upcalls ?h2"
    by (rule free_limbo_inv [OF inv2]) blast
  have nl: "\<not> limbo_id h (nid x)" using good_entry(2) [OF ai(1,2)] ai(3) by (simp add: limbo_id_def)
  have "cancel_id k d h = Some (1, Some (nd_act x), h3)"
    using ai(4-8) h1(1) h3(1) ai(3) by (simp add: cancel_id_def)
  moreover have "limbo_id h3 j \<longleftrightarrow> limbo_id h j" for j
    unfolding h3(4) upcall_inv h1(4) ai(3) using nl by blast
  ultimately show thesis using that h3(2,3,5) h1(3,6) ai(3,8) by (simp add: upcall_inv)
qed

lemma cancel_id_unknown:
  assumes "th_inv h" and "timers h k = None" and "k \<noteq> int (th_max_size h)"
  shows "cancel_id k d h = Some (0, None, h)"
proof (cases "k < 0 \<or> int (th_max_size h) < k")
  case False
  then obtain v where "v < 0" "id_at (nat k) h = Some v"
    using timers_none_slot [OF assms(1,2)] assms(3) by auto
  then show ?thesis using False by (simp add: cancel_id_def)
qed (simp add: cancel_id_def)

end
