(* ===== verification/Timer_Heap_Spec.thy ===== *)
theory Timer_Heap_Spec
imports Timer_Heap_Inv
begin

text \<open>
  The contract of the timer heap, as a step relation on maps from timer ids to nodes, the simulation
  of that relation by the operations of \<open>Timer_Heap\<close>, and the properties of the component.
\<close>

section \<open>The remaining operations\<close>

lemma reset_interval_inv:
  assumes inv: "th_inv h" and t: "timers h k = Some x"
  obtains h' where "reset_interval k iv h = Some (0, h')" "th_inv h'"
    "timers h' = (timers h)(k \<mapsto> x\<lparr>nd_interval := iv\<rparr>)" "\<And>j. limbo_id h' j \<longleftrightarrow> limbo_id h j"
proof -
  obtain a i where ai: "th_good h (th_cur_size h) a" "i < th_cur_size h" "a i = x" "0 \<le> k" "\<not> int (th_max_size h) < k"
    "id_at (nat k) h = Some (int i)" "node_at i h = Some x" "nd_timer_id x = k" "nid x = nat k"
    by (rule timers_slot [OF inv t])
  let ?x = "x\<lparr>nd_interval := iv\<rparr>"
  let ?h = "h\<lparr>th_heap := (th_heap h)[i := Some ?x]\<rparr>"
  let ?a = "a(i := ?x)"
  let ?n = "th_cur_size h"
  have len: "i < length (th_heap h)" "th_sizes h"
    using good_entry(5) [OF ai(1,2)] good_sizes [OF ai(1)] by (simp_all add: th_sizes_def)
  have fields: "nd_timer_id (?a j) = nd_timer_id (a j)" "due (?a j) = due (a j)" for j using ai(3) by auto
  have view: "th_view ?h ?n ?a"
  proof -
    have "th_heap ?h ! j = Some (?a j)" if "j < ?n" for j
      using good_entry(1) [OF ai(1) that] len by (cases "j = i") simp_all
    then show ?thesis using good_view [OF ai(1)] unfolding th_view_def fields good_id_def
      by (simp add: th_sizes_def)
  qed
  then have good: "th_good ?h ?n ?a" using ai(1) unfolding th_good_def heap_ordered_def fields by simp
  have same: "free_id ?h j \<longleftrightarrow> free_id h j" "limbo_id ?h j \<longleftrightarrow> limbo_id h j" for j
    by (simp_all add: free_id_def limbo_id_def)
  have "th_inv ?h" using inv good unfolding th_inv_def ids_inv_def same by auto
  moreover have "reset_interval k iv h = Some (0, ?h)"
    using ai(4-8) len by (simp add: reset_interval_def set_node_def)
  moreover have "timers ?h = (timers h)(k \<mapsto> ?x)"
  proof (rule timers_eqI [OF good])
    fix j y
    have im: "?a ` {..<?n} = Set.insert ?x (a ` ({..<?n} - {i}))" using ai(2) by (auto simp: image_iff)
    show "((timers h)(k \<mapsto> ?x)) j = Some y \<longleftrightarrow> y \<in> ?a ` {..<?n} \<and> nd_timer_id y = j"
    proof (cases "nd_timer_id y = k")
      case True
      have "y \<notin> a ` ({..<?n} - {i})"
      proof
        assume "y \<in> a ` ({..<?n} - {i})"
        then obtain m where m: "m < ?n" "m \<noteq> i" "y = a m" by blast
        then have "nid (a m) = nid (a i)" using True ai(3,8) by simp
        then show False using good_entry(2) [OF ai(1) m(1)] good_entry(2) [OF ai(1,2)] m(2) by simp
      qed
      then show ?thesis unfolding im using True timers_inv_id [OF inv, of j y] by (cases "j = k") auto
    next
      case False
      then have "y \<in> a ` ({..<?n} - {i}) \<longleftrightarrow> y \<in> a ` {..<?n}" "y \<noteq> ?x" using ai(3,8) by auto
      then show ?thesis using timers_iff [OF ai(1), of j y] False unfolding im by (cases "j = k") auto
    qed
  qed
  ultimately show thesis using that same(2) by blast
qed

lemma reset_interval_unknown:
  assumes "th_inv h" and "timers h k = None" and "k \<noteq> int (th_max_size h)"
  shows "reset_interval k iv h = Some (-1, h)"
proof (cases "k < 0 \<or> int (th_max_size h) < k")
  case False
  then obtain v where "v < 0" "id_at (nat k) h = Some v"
    using timers_none_slot [OF assms(1,2)] assms(3) by auto
  then show ?thesis using False by (simp add: reset_interval_def)
qed (simp add: reset_interval_def)

subsection \<open>Cancellation by type\<close>

definition of_type :: "(int \<Rightarrow> 't timer_node option) \<Rightarrow> 't \<Rightarrow> int set" where
  "of_type m t = {k. \<exists>x. m k = Some x \<and> nd_type x = t}"

definition drop_type :: "'t \<Rightarrow> (int \<Rightarrow> 't timer_node option) \<Rightarrow> int \<Rightarrow> 't timer_node option" where
  "drop_type t m k = (if k \<in> of_type m t then None else m k)"

lemma finite_of_type: "finite (of_type (timers h) t)"
proof (rule finite_subset)
  show "of_type (timers h) t \<subseteq> int ` {..<th_max_size h}"
    by (auto simp: of_type_def timers_def image_iff split: if_splits) (metis int_nat_eq lessThan_iff)
qed simp

lemma cancel_type_loop_inv:
  assumes "th_inv h" and "th_good h (th_cur_size h) a" and "i \<le> th_cur_size h" and "\<forall>j<i. nd_type (a j) \<noteq> t"
  shows "\<exists>h'. cancel_type_loop t i c h = Some (c + card (of_type (timers h) t), h') \<and> th_inv h'
    \<and> timers h' = drop_type t (timers h) \<and> (\<forall>j. limbo_id h' j \<longleftrightarrow> limbo_id h j) \<and> th_upcalls h' = th_upcalls h"
  using assms
proof (induction "th_cur_size h" arbitrary: h a i c rule: less_induct)
  case (less h)
  note inv = less.prems(1) and good = less.prems(2) and outer = less.hyps
  show ?case using less.prems(3,4)
  proof (induction "th_cur_size h - i" arbitrary: i rule: less_induct)
    case (less i)
    show ?case
    proof (cases "i < th_cur_size h")
      case False
      have "of_type (timers h) t = {}"
        using less.prems False timers_iff [OF good] by (auto simp: of_type_def)
      then show ?thesis using False inv by (subst cancel_type_loop.simps) (simp add: drop_type_def fun_eq_iff)
    next
      case True
      have at: "node_at i h = Some (a i)" using node_at_view [OF good_view [OF good] True] .
      show ?thesis
      proof (cases "nd_type (a i) = t")
        case False
        have "th_cur_size h - (i + 1) < th_cur_size h - i" "i + 1 \<le> th_cur_size h"
          "\<forall>j<i + 1. nd_type (a j) \<noteq> t"
          using True False less.prems(2) by (auto simp: less_Suc_eq)
        then show ?thesis using less.hyps [of "i + 1"] True False at
          by (subst cancel_type_loop.simps) simp
      next
        case same: True
        obtain h1 where h1: "remove_slot i h = Some (a i, h1)" "th_inv h1"
          "timers h1 = (timers h)(nd_timer_id (a i) := None)" "th_cur_size h1 = th_cur_size h - 1"
          "\<And>k. limbo_id h1 k \<longleftrightarrow> limbo_id h k \<or> k = nid (a i)" "limbo_id h1 (nid (a i))" "th_upcalls h1 = th_upcalls h"
          by (rule remove_slot_inv [OF inv good True]) blast
        obtain h2 where h2: "free_node (a i) h1 = Some h2" "th_inv h2" "timers h2 = timers h1"
          "th_cur_size h2 = th_cur_size h1" "\<And>k. limbo_id h2 k \<longleftrightarrow> limbo_id h1 k \<and> k \<noteq> nid (a i)"
          "th_upcalls h2 = th_upcalls h1"
          by (rule free_limbo_inv [OF h1(2,6)]) blast
        obtain a2 where a2: "th_good h2 (th_cur_size h2) a2" using h2(2) by (auto simp: th_inv_def)
        have "th_cur_size h2 < th_cur_size h" using h1(4) h2(4) True by simp
        from outer [OF this h2(2) a2, of 0 "c + 1"]
        obtain h' where h': "cancel_type_loop t 0 (c + 1) h2 = Some (c + 1 + card (of_type (timers h2) t), h')"
          "th_inv h'" "timers h' = drop_type t (timers h2)" "\<forall>j. limbo_id h' j \<longleftrightarrow> limbo_id h2 j"
          "th_upcalls h' = th_upcalls h2" by auto
        have ti: "timers h (nd_timer_id (a i)) = Some (a i)" using good_timers [OF good True] .
        have "of_type (timers h) t = Set.insert (nd_timer_id (a i)) (of_type (timers h2) t)"
          "nd_timer_id (a i) \<notin> of_type (timers h2) t"
          unfolding h2(3) h1(3) using ti same by (auto simp: of_type_def)
        then have card: "card (of_type (timers h) t) = Suc (card (of_type (timers h2) t))"
          using finite_of_type by (metis card_insert_disjoint)
        have drop: "drop_type t (timers h2) = drop_type t (timers h)"
          unfolding h2(3) h1(3) using ti same by (auto simp: drop_type_def of_type_def fun_eq_iff)
        have nl: "\<not> limbo_id h (nid (a i))" using good_entry(2) [OF good True] by (simp add: limbo_id_def)
        have lim: "limbo_id h' j \<longleftrightarrow> limbo_id h j" for j
          using h'(4) h2(5) h1(5) nl by metis
        have "cancel_type_loop t i c h = cancel_type_loop t 0 (c + 1) h2"
          using True same at h1(1) h2(1) by (subst cancel_type_loop.simps) simp
        then show ?thesis using h' card drop lim h2(6) h1(7) by simp
      qed
    qed
  qed
qed

subsection \<open>Closing\<close>

text \<open>The state of \<open>close\<close> before slot \<open>i\<close> of \<open>n\<close>: the ids of the slots below are free again.\<close>

definition closing :: "'t timer_heap \<Rightarrow> nat \<Rightarrow> nat \<Rightarrow> (nat \<Rightarrow> 't timer_node) \<Rightarrow> bool" where
  "closing h i n a \<longleftrightarrow> th_sizes h \<and> 2 \<le> th_max_size h \<and> ids_inv h \<and> n \<le> th_max_size h \<and> i \<le> n
     \<and> (\<forall>j<n. good_id h (a j)) \<and> inj_on (\<lambda>j. nid (a j)) {..<n}
     \<and> (\<forall>j. i \<le> j \<and> j < n \<longrightarrow> th_heap h ! j = Some (a j) \<and> th_timer_ids h ! nid (a j) = int j)
     \<and> (\<forall>k<th_max_size h. 0 \<le> th_timer_ids h ! k \<longrightarrow> k \<in> (\<lambda>j. nid (a j)) ` {i..<n})
     \<and> th_cur_size h = n - i \<and> th_cur_limbo h = card {k. limbo_id h k}
     \<and> th_cur_size h + th_cur_limbo h + 2 \<le> th_max_size h
     \<and> (\<forall>fl. th_preallocated h = Some fl \<longrightarrow> length fl + th_cur_size h + th_cur_limbo h = th_max_size h)"

lemma closing_start: "th_inv h \<Longrightarrow> th_good h (th_cur_size h) a \<Longrightarrow> closing h 0 (th_cur_size h) a"
  by (auto simp: closing_def th_inv_def th_good_def th_view_def atLeast0LessThan)

lemma closing_end: "closing h n n a \<Longrightarrow> th_inv h"
  unfolding closing_def th_inv_def
  by (auto simp: th_good_def th_view_def heap_ordered_def)

lemma closing_step:
  assumes c: "closing h i n a" and i: "i < n"
  obtains h' where "free_node (a i) h = Some h'" "closing h' (Suc i) n a" "\<And>k. limbo_id h' k \<longleftrightarrow> limbo_id h k"
    "th_upcalls h' = th_upcalls h" "node_at i h = Some (a i)"
proof -
  let ?k = "nid (a i)"
  let ?mf = "if ?k < th_ids_min_free h \<and> ?k \<le> th_ids_curr h then ?k else th_ids_min_free h"
  let ?h = "h\<lparr>th_cur_size := th_cur_size h - 1, th_timer_ids := (th_timer_ids h)[?k := -1],
    th_ids_min_free := ?mf, th_preallocated := map_option (\<lambda>fl. nd_addr (a i) # fl) (th_preallocated h)\<rparr>"
  have f: "th_sizes h" "2 \<le> th_max_size h" "ids_inv h" "n \<le> th_max_size h"
    "\<forall>j<n. good_id h (a j)" "inj_on (\<lambda>j. nid (a j)) {..<n}"
    "\<forall>j. i \<le> j \<and> j < n \<longrightarrow> th_heap h ! j = Some (a j) \<and> th_timer_ids h ! nid (a j) = int j"
    "\<forall>k<th_max_size h. 0 \<le> th_timer_ids h ! k \<longrightarrow> k \<in> (\<lambda>j. nid (a j)) ` {i..<n}"
    "th_cur_size h = n - i" "th_cur_limbo h = card {k. limbo_id h k}"
    "th_cur_size h + th_cur_limbo h + 2 \<le> th_max_size h"
    "\<forall>fl. th_preallocated h = Some fl \<longrightarrow> length fl + th_cur_size h + th_cur_limbo h = th_max_size h"
    using c unfolding closing_def by blast+
  have k: "?k < th_max_size h" "th_timer_ids h ! ?k = int i" "th_heap h ! i = Some (a i)" "\<not> free_id h ?k" "\<not> limbo_id h ?k"
    using f(5,7) i by (auto simp: good_id_def nat_less_iff free_id_def limbo_id_def)
  have at: "node_at i h = Some (a i)" using k(3) f(1,4) i by (simp add: node_at_def th_sizes_def)
  have free: "free_node (a i) h = Some ?h"
    using k(1,2) f(1) by (simp add: free_node_def push_freelist_def Let_def id_at_def set_id_def th_sizes_def)
  note after = ids_inv_free [OF f(3) k(1,4) f(1), of ?h, simplified]
  have lim: "limbo_id ?h j \<longleftrightarrow> limbo_id h j" for j using after(3) k(5) by auto
  have cells: "th_heap h ! j = Some (a j) \<and> (th_timer_ids h)[?k := -1] ! nid (a j) = int j"
    if "Suc i \<le> j" "j < n" for j
  proof -
    have "nid (a j) \<noteq> ?k" using inj_onD [OF f(6), of j i] that i by auto
    then show ?thesis using f(7) that by simp
  qed
  have used: "j \<in> (\<lambda>j. nid (a j)) ` {Suc i..<n}" if j: "j < th_max_size h" "0 \<le> (th_timer_ids h)[?k := -1] ! j" for j
  proof (cases "j = ?k")
    case True
    then show ?thesis using that k(1) f(1) by (simp add: th_sizes_def)
  next
    case False
    then obtain m where "i \<le> m" "m < n" "j = nid (a m)"
      using f(8) [rule_format, of j] j by auto
    moreover from this have "m \<noteq> i" using False by auto
    ultimately show ?thesis by (intro image_eqI [of _ _ m]) auto
  qed
  have "closing ?h (Suc i) n a"
    unfolding closing_def lim using f(1,2,4-6,9-12) after(1) cells used i
    by (auto simp: th_sizes_def good_id_def)
  then show thesis using that [OF free] lim at by simp
qed

lemma upcall_fields:
  "th_max_size (upcall u h) = th_max_size h" "th_cur_size (upcall u h) = th_cur_size h"
  "th_cur_limbo (upcall u h) = th_cur_limbo h" "th_heap (upcall u h) = th_heap h"
  "th_timer_ids (upcall u h) = th_timer_ids h" "th_ids_curr (upcall u h) = th_ids_curr h"
  "th_ids_min_free (upcall u h) = th_ids_min_free h" "th_preallocated (upcall u h) = th_preallocated h"
  by (simp_all add: upcall_def)

lemma close_loop_inv:
  "closing h i n a \<Longrightarrow> \<exists>h'. close_loop [i..<n] h = Some h' \<and> th_inv h' \<and> th_cur_size h' = 0
     \<and> (\<forall>k. limbo_id h' k \<longleftrightarrow> limbo_id h k)
     \<and> th_upcalls h' = th_upcalls h @ map (\<lambda>j. Deletion (nd_type (a j)) (nd_act (a j))) [i..<n]"
proof (induction "n - i" arbitrary: h i)
  case 0
  then have "i = n" by (simp add: closing_def)
  moreover from this have "th_inv h" using closing_end 0(2) by blast
  moreover have "th_cur_size h = n - i" using 0(2) unfolding closing_def by blast
  ultimately show ?case by simp
next
  case (Suc d)
  then have i: "i < n" by simp
  obtain h1 where h1: "free_node (a i) h = Some h1" "closing h1 (Suc i) n a" "\<And>k. limbo_id h1 k \<longleftrightarrow> limbo_id h k"
    "th_upcalls h1 = th_upcalls h" "node_at i h = Some (a i)"
    by (rule closing_step [OF Suc.prems i]) blast
  let ?h = "upcall (Deletion (nd_type (a i)) (nd_act (a i))) h1"
  have same: "same_arrays h1 ?h" by (simp add: same_arrays_def upcall_def)
  have "closing ?h (Suc i) n a"
    using h1(2) unfolding closing_def ids_inv_def same_arrays_cong [OF same] upcall_fields .
  moreover have "d = n - Suc i" using Suc(2) by simp
  ultimately obtain h' where h': "close_loop [Suc i..<n] ?h = Some h'" "th_inv h'" "th_cur_size h' = 0"
    "\<forall>k. limbo_id h' k \<longleftrightarrow> limbo_id ?h k"
    "th_upcalls h' = th_upcalls ?h @ map (\<lambda>j. Deletion (nd_type (a j)) (nd_act (a j))) [Suc i..<n]"
    using Suc(1) by blast
  have "[i..<n] = i # [Suc i..<n]" using i by (simp add: upt_conv_Cons)
  then show ?case using h' h1(1,3-5) by (simp add: upcall_inv)
qed

lemma empty_timers: "th_inv h \<Longrightarrow> th_cur_size h = 0 \<longleftrightarrow> timers h = (\<lambda>_. None)"
proof -
  assume inv: "th_inv h"
  obtain a where good: "th_good h (th_cur_size h) a" using inv by (auto simp: th_inv_def)
  show ?thesis
  proof
    assume "th_cur_size h = 0"
    then show "timers h = (\<lambda>_. None)" using timers_iff [OF good] by (intro ext) (metis empty_iff image_empty lessThan_0 not_None_eq)
  next
    assume "timers h = (\<lambda>_. None)"
    then show "th_cur_size h = 0" using good_timers [OF good, of 0] by (metis gr0I option.distinct(1))
  qed
qed

section \<open>The contract\<close>

datatype 't tq_op =
    Schedule 't addr time_value time_value
  | Cancel int int
  | Cancel_all 't int
  | Reset_interval int time_value
  | Get_first
  | Remove_first
  | Reschedule "'t timer_node"
  | Free_node "'t timer_node"
  | Close

datatype 't tq_result =
    Timer_id int
  | Cancelled int "addr option"
  | Count nat
  | Status int
  | Node "'t timer_node option"
  | Done

fun tq_exec :: "'t tq_op \<Rightarrow> 't timer_heap \<Rightarrow> ('t tq_result \<times> 't timer_heap) option" where
  "tq_exec (Schedule type act time interval) h =
     map_option (\<lambda>(k, h'). (Timer_id k, h')) (schedule_i True type act time interval h)"
| "tq_exec (Cancel k dont_call) h = map_option (\<lambda>(n, act, h'). (Cancelled n act, h')) (cancel_id k dont_call h)"
| "tq_exec (Cancel_all type dont_call) h = map_option (\<lambda>(n, h'). (Count n, h')) (cancel_type type dont_call h)"
| "tq_exec (Reset_interval k interval) h = map_option (\<lambda>(n, h'). (Status n, h')) (reset_interval k interval h)"
| "tq_exec Get_first h = Some (Node (get_first h), h)"
| "tq_exec Remove_first h = map_option (\<lambda>(n, h'). (Node n, h')) (remove_first h)"
| "tq_exec (Reschedule n) h = map_option (\<lambda>h'. (Done, h')) (reschedule n h)"
| "tq_exec (Free_node n) h = map_option (\<lambda>h'. (Done, h')) (free_node n h)"
| "tq_exec Close h = map_option (\<lambda>h'. (Done, h')) (th_close h)"

text \<open>
  The abstract state is the map of the scheduled timers and the map of the timers that were taken
  out and are neither freed nor rescheduled yet.
\<close>

type_synonym 't tq_state = "(int \<Rightarrow> 't timer_node option) \<times> (int \<Rightarrow> 't timer_node option)"

inductive tq_step :: "'t tq_state \<Rightarrow> 't tq_op \<Rightarrow> 't tq_result \<Rightarrow> 't tq_state \<Rightarrow> bool" where
  schedule: "s k = None \<Longrightarrow> l k = None \<Longrightarrow> 0 \<le> k \<Longrightarrow> nd_timer_id x = k \<Longrightarrow> nd_type x = type \<Longrightarrow>
    nd_act x = act \<Longrightarrow> nd_timer_value x = time \<Longrightarrow> nd_interval x = interval \<Longrightarrow>
    tq_step (s, l) (Schedule type act time interval) (Timer_id k) (s(k \<mapsto> x), l)"
| cancel: "s k = Some x \<Longrightarrow> tq_step (s, l) (Cancel k d) (Cancelled 1 (Some (nd_act x))) (s(k := None), l)"
| cancel_unknown: "s k = None \<Longrightarrow> tq_step (s, l) (Cancel k d) (Cancelled 0 None) (s, l)"
| cancel_all: "tq_step (s, l) (Cancel_all type d) (Count (card (of_type s type))) (drop_type type s, l)"
| reset: "s k = Some x \<Longrightarrow>
    tq_step (s, l) (Reset_interval k iv) (Status 0) (s(k \<mapsto> x\<lparr>nd_interval := iv\<rparr>), l)"
| reset_unknown: "s k = None \<Longrightarrow> tq_step (s, l) (Reset_interval k iv) (Status (-1)) (s, l)"
| get_first: "s k = Some x \<Longrightarrow> (\<forall>j y. s j = Some y \<longrightarrow> due x \<le> due y) \<Longrightarrow>
    tq_step (s, l) Get_first (Node (Some x)) (s, l)"
| get_first_empty: "tq_step (\<lambda>_. None, l) Get_first (Node None) (\<lambda>_. None, l)"
| remove_first: "s k = Some x \<Longrightarrow> (\<forall>j y. s j = Some y \<longrightarrow> due x \<le> due y) \<Longrightarrow>
    tq_step (s, l) Remove_first (Node (Some x)) (s(k := None), l(k \<mapsto> x))"
| remove_first_empty: "tq_step (\<lambda>_. None, l) Remove_first (Node None) (\<lambda>_. None, l)"
| reschedule: "l (nd_timer_id x) \<noteq> None \<Longrightarrow>
    tq_step (s, l) (Reschedule x) Done (s(nd_timer_id x \<mapsto> x), l(nd_timer_id x := None))"
| free: "l (nd_timer_id x) \<noteq> None \<Longrightarrow> tq_step (s, l) (Free_node x) Done (s, l(nd_timer_id x := None))"
| close: "tq_step (s, l) Close Done (\<lambda>_. None, l)"

inductive_cases tq_remove_firstE: "tq_step st Remove_first r st'"
inductive_simps tq_get_first_simps: "tq_step st Get_first r st'"

text \<open>The simulation relation, and the operations a client may call: no node is returned that was
  not taken out, and no lookup one past the end of the id table.\<close>

definition tq_sim :: "'t timer_heap \<Rightarrow> 't tq_state \<Rightarrow> bool" where
  "tq_sim h st \<longleftrightarrow> th_inv h \<and> fst st = timers h
     \<and> (\<forall>k. snd st k \<noteq> None \<longleftrightarrow> 0 \<le> k \<and> limbo_id h (nat k))"

fun tq_legal :: "'t timer_heap \<Rightarrow> 't tq_op \<Rightarrow> bool" where
  "tq_legal h (Cancel k d) = (k \<noteq> int (th_max_size h))"
| "tq_legal h (Reset_interval k iv) = (k \<noteq> int (th_max_size h))"
| "tq_legal h (Reschedule x) = (0 \<le> nd_timer_id x \<and> limbo_id h (nid x))"
| "tq_legal h (Free_node x) = (0 \<le> nd_timer_id x \<and> limbo_id h (nid x))"
| "tq_legal h _ = True"

lemma tq_simI:
  assumes "th_inv h" and "\<And>k. l k \<noteq> None \<longleftrightarrow> 0 \<le> k \<and> limbo_id h (nat k)"
  shows "tq_sim h (timers h, l)"
  using assms by (simp add: tq_sim_def)

lemma tq_sim_new: "2 \<le> n \<Longrightarrow> tq_sim (timer_heap_new n pre base) (\<lambda>_. None, \<lambda>_. None)"
  by (simp add: tq_sim_def timer_heap_new_inv)

section \<open>The simulation\<close>

lemma free_limbo_not_used:
  assumes "tq_sim h (s, l)" and "l k \<noteq> None"
  shows "0 \<le> k" "limbo_id h (nat k)"
  using assms by (auto simp: tq_sim_def)

lemma limbo_update:
  assumes "tq_sim h (s, l)" and "\<And>j. limbo_id h' j \<longleftrightarrow> limbo_id h j \<and> j \<noteq> nat k" and "0 \<le> k"
  shows "(l(k := None)) j \<noteq> None \<longleftrightarrow> 0 \<le> j \<and> limbo_id h' (nat j)"
  using assms by (auto simp: tq_sim_def eq_nat_nat_iff)

lemma tq_exec_schedule:
  assumes "tq_sim h st"
  shows "\<exists>r h' st'. tq_exec (Schedule type act time interval) h = Some (r, h')
    \<and> tq_step st (Schedule type act time interval) r st' \<and> tq_sim h' st'"
proof -
  obtain l where st: "st = (timers h, l)" using assms by (cases st) (simp add: tq_sim_def)
  have inv: "th_inv h" and l: "\<And>k. l k \<noteq> None \<longleftrightarrow> 0 \<le> k \<and> limbo_id h (nat k)"
    using assms by (simp_all add: tq_sim_def st)
  obtain k x h' where h': "schedule_i True type act time interval h = Some (int k, h')" "free_id h k"
    "th_inv h'" "timers h' = (timers h)(int k \<mapsto> x)"
    "nd_type x = type" "nd_act x = act" "nd_timer_value x = time" "nd_interval x = interval"
    "nd_timer_id x = int k" "th_cur_size h' = th_cur_size h + 1"
    "\<And>j. limbo_id h' j \<longleftrightarrow> limbo_id h j" "th_upcalls h' = th_upcalls h"
    by (rule schedule_inv [OF inv, of type act time interval]) blast
  have "l (int k) = None" using l [of "int k"] h'(2) by (auto simp: free_id_def limbo_id_def)
  moreover have "timers h (int k) = None" using timers_None_free h'(2) by blast
  ultimately have "tq_step st (Schedule type act time interval) (Timer_id (int k)) (timers h', l)"
    unfolding st h'(4) by (intro tq_step.schedule) (simp_all add: h')
  moreover have "tq_sim h' (timers h', l)" using h'(3,11) l by (simp add: tq_sim_def)
  ultimately show ?thesis using h'(1) by auto
qed

lemma tq_exec_cancel:
  assumes "tq_sim h st" and "k \<noteq> int (th_max_size h)"
  shows "\<exists>r h' st'. tq_exec (Cancel k d) h = Some (r, h') \<and> tq_step st (Cancel k d) r st' \<and> tq_sim h' st'"
proof -
  obtain l where st: "st = (timers h, l)" using assms(1) by (cases st) (simp add: tq_sim_def)
  have inv: "th_inv h" and l: "\<And>k. l k \<noteq> None \<longleftrightarrow> 0 \<le> k \<and> limbo_id h (nat k)"
    using assms(1) by (simp_all add: tq_sim_def st)
  show ?thesis
  proof (cases "timers h k")
    case None
    then show ?thesis using cancel_id_unknown [OF inv None assms(2), of d] tq_step.cancel_unknown [of "timers h" k l d] assms(1) st
      by auto
  next
    case (Some x)
    obtain h' where h': "cancel_id k d h = Some (1, Some (nd_act x), h')" "th_inv h'"
      "timers h' = (timers h)(k := None)" "\<And>j. limbo_id h' j \<longleftrightarrow> limbo_id h j"
      by (rule cancel_id_inv [OF inv Some, of d]) blast
    have "tq_sim h' (timers h', l)" using h'(2,4) l by (simp add: tq_sim_def)
    moreover have "tq_step st (Cancel k d) (Cancelled 1 (Some (nd_act x))) (timers h', l)"
      unfolding st h'(3) using Some by (rule tq_step.cancel)
    ultimately show ?thesis using h'(1) by auto
  qed
qed

lemma tq_exec_cancel_all:
  assumes "tq_sim h st"
  shows "\<exists>r h' st'. tq_exec (Cancel_all t d) h = Some (r, h') \<and> tq_step st (Cancel_all t d) r st' \<and> tq_sim h' st'
    \<and> th_upcalls h' = th_upcalls h @ Cancel_type t d # replicate (card (of_type (timers h) t)) (Cancel_timer t d)"
proof -
  obtain l where st: "st = (timers h, l)" using assms by (cases st) (simp add: tq_sim_def)
  have inv: "th_inv h" and l: "\<And>k. l k \<noteq> None \<longleftrightarrow> 0 \<le> k \<and> limbo_id h (nat k)"
    using assms by (simp_all add: tq_sim_def st)
  obtain a where good: "th_good h (th_cur_size h) a" using inv by (auto simp: th_inv_def)
  let ?c = "card (of_type (timers h) t)"
  obtain h1 where h1: "cancel_type_loop t 0 0 h = Some (?c, h1)" "th_inv h1" "timers h1 = drop_type t (timers h)"
    "\<forall>j. limbo_id h1 j \<longleftrightarrow> limbo_id h j" "th_upcalls h1 = th_upcalls h"
    using cancel_type_loop_inv [OF inv good, of 0 t 0] by auto
  have fold: "th_inv (fold upcall us g) = th_inv g \<and> timers (fold upcall us g) = timers g
    \<and> (\<forall>j. limbo_id (fold upcall us g) j \<longleftrightarrow> limbo_id g j) \<and> th_upcalls (fold upcall us g) = th_upcalls g @ us" for us g
    by (induction us arbitrary: g) (simp_all add: upcall_inv)
  let ?us = "Cancel_type t d # replicate ?c (Cancel_timer t d)"
  let ?h = "fold upcall ?us h1"
  note f = fold [of ?us h1]
  have "tq_sim ?h (timers ?h, l)" using f h1(2,4) l by (simp add: tq_sim_def del: fold_simps)
  moreover have "tq_step st (Cancel_all t d) (Count ?c) (timers ?h, l)"
    using f h1(3) tq_step.cancel_all [of "timers h" l t d] unfolding st by (simp del: fold_simps)
  moreover have "tq_exec (Cancel_all t d) h = Some (Count ?c, ?h)"
    using h1(1) by (simp add: cancel_type_def)
  moreover have "th_upcalls ?h = th_upcalls h @ ?us" using f h1(5) by (simp del: fold_simps)
  ultimately show ?thesis by blast
qed

lemma tq_exec_reset:
  assumes "tq_sim h st" and "k \<noteq> int (th_max_size h)"
  shows "\<exists>r h' st'. tq_exec (Reset_interval k iv) h = Some (r, h') \<and> tq_step st (Reset_interval k iv) r st' \<and> tq_sim h' st'"
proof -
  obtain l where st: "st = (timers h, l)" using assms(1) by (cases st) (simp add: tq_sim_def)
  have inv: "th_inv h" and l: "\<And>k. l k \<noteq> None \<longleftrightarrow> 0 \<le> k \<and> limbo_id h (nat k)"
    using assms(1) by (simp_all add: tq_sim_def st)
  show ?thesis
  proof (cases "timers h k")
    case None
    then show ?thesis using reset_interval_unknown [OF inv None assms(2), of iv] tq_step.reset_unknown [of "timers h" k l iv] assms(1) st
      by auto
  next
    case (Some x)
    obtain h' where h': "reset_interval k iv h = Some (0, h')" "th_inv h'"
      "timers h' = (timers h)(k \<mapsto> x\<lparr>nd_interval := iv\<rparr>)" "\<And>j. limbo_id h' j \<longleftrightarrow> limbo_id h j"
      by (rule reset_interval_inv [OF inv Some, of iv]) blast
    have "tq_sim h' (timers h', l)" using h'(2,4) l by (simp add: tq_sim_def)
    moreover have "tq_step st (Reset_interval k iv) (Status 0) (timers h', l)"
      unfolding st h'(3) using Some by (rule tq_step.reset)
    ultimately show ?thesis using h'(1) by auto
  qed
qed

lemma tq_exec_first:
  assumes "tq_sim h st"
  shows "\<exists>r h' st'. tq_exec Remove_first h = Some (r, h') \<and> tq_step st Remove_first r st' \<and> tq_sim h' st'"
    and "\<exists>r. tq_exec Get_first h = Some (r, h) \<and> tq_step st Get_first r st"
proof -
  obtain l where st: "st = (timers h, l)" using assms by (cases st) (simp add: tq_sim_def)
  have inv: "th_inv h" and l: "\<And>k. l k \<noteq> None \<longleftrightarrow> 0 \<le> k \<and> limbo_id h (nat k)"
    using assms by (simp_all add: tq_sim_def st)
  have "(\<exists>r h' st'. tq_exec Remove_first h = Some (r, h') \<and> tq_step st Remove_first r st' \<and> tq_sim h' st')
    \<and> (\<exists>r. tq_exec Get_first h = Some (r, h) \<and> tq_step st Get_first r st)"
  proof (cases "th_cur_size h = 0")
    case True
    then have "timers h = (\<lambda>_. None)" using empty_timers [OF inv] by simp
    then show ?thesis using True assms tq_step.remove_first_empty [of l] tq_step.get_first_empty [of l]
      by (auto simp: remove_first_def get_first_def st)
  next
    case False
    obtain x h' where h': "remove_first h = Some (Some x, h')" "get_first h = Some x" "th_inv h'"
      "timers h (nd_timer_id x) = Some x" "timers h' = (timers h)(nd_timer_id x := None)"
      "\<And>k. limbo_id h' k \<longleftrightarrow> limbo_id h k \<or> k = nid x"
      by (rule remove_first_inv [OF inv False]) blast
    obtain x' where "get_first h = Some x'" "\<And>k y. timers h k = Some y \<Longrightarrow> due x' \<le> due y"
      by (rule get_first_inv [OF inv False]) blast
    then have min: "\<forall>j y. timers h j = Some y \<longrightarrow> due x \<le> due y" using h'(2) by simp
    let ?k = "nd_timer_id x"
    have k: "0 \<le> ?k" using timers_inv_id [OF inv h'(4)] by simp
    have "(l(?k \<mapsto> x)) j \<noteq> None \<longleftrightarrow> 0 \<le> j \<and> limbo_id h' (nat j)" for j
      unfolding h'(6) using l [of j] k by (auto simp: eq_nat_nat_iff)
    then have "tq_sim h' (timers h', l(?k \<mapsto> x))" using h'(3) by (simp add: tq_sim_def)
    moreover have "tq_step st Remove_first (Node (Some x)) (timers h', l(?k \<mapsto> x))"
      unfolding st h'(5) using h'(4) min by (rule tq_step.remove_first)
    moreover have "tq_step st Get_first (Node (Some x)) st"
      unfolding st using h'(4) min by (rule tq_step.get_first)
    ultimately show ?thesis using h'(1,2) by auto
  qed
  then show "\<exists>r h' st'. tq_exec Remove_first h = Some (r, h') \<and> tq_step st Remove_first r st' \<and> tq_sim h' st'"
    "\<exists>r. tq_exec Get_first h = Some (r, h) \<and> tq_step st Get_first r st" by blast+
qed

lemma tq_exec_return:
  assumes "tq_sim h st" and "snd st (nd_timer_id x) \<noteq> None"
  shows "\<exists>r h' st'. tq_exec (Reschedule x) h = Some (r, h') \<and> tq_step st (Reschedule x) r st' \<and> tq_sim h' st'"
    and "\<exists>r h' st'. tq_exec (Free_node x) h = Some (r, h') \<and> tq_step st (Free_node x) r st' \<and> tq_sim h' st'"
proof -
  obtain l where st: "st = (timers h, l)" using assms(1) by (cases st) (simp add: tq_sim_def)
  have inv: "th_inv h" using assms(1) by (simp add: tq_sim_def)
  let ?k = "nd_timer_id x"
  have lk: "l ?k \<noteq> None" using assms(2) st by simp
  have k: "0 \<le> ?k" "limbo_id h (nid x)" using free_limbo_not_used [OF assms(1) [unfolded st] lk] by simp_all
  obtain h1 where h1: "reschedule x h = Some h1" "th_inv h1" "timers h1 = (timers h)(?k \<mapsto> x)"
    "\<And>j. limbo_id h1 j \<longleftrightarrow> limbo_id h j \<and> j \<noteq> nid x"
    by (rule reschedule_inv [OF inv k(2,1)]) blast
  have "tq_sim h1 (timers h1, l(?k := None))"
    using h1(2) limbo_update [OF assms(1) [unfolded st] h1(4) k(1)] by (intro tq_simI) blast+
  moreover have "tq_step st (Reschedule x) Done (timers h1, l(?k := None))"
    unfolding st h1(3) using lk by (rule tq_step.reschedule)
  moreover have "tq_exec (Reschedule x) h = Some (Done, h1)" using h1(1) by simp
  ultimately show "\<exists>r h' st'. tq_exec (Reschedule x) h = Some (r, h') \<and> tq_step st (Reschedule x) r st' \<and> tq_sim h' st'"
    by blast
  obtain h2 where h2: "free_node x h = Some h2" "th_inv h2" "timers h2 = timers h"
    "\<And>j. limbo_id h2 j \<longleftrightarrow> limbo_id h j \<and> j \<noteq> nid x"
    by (rule free_limbo_inv [OF inv k(2)]) blast
  have "tq_sim h2 (timers h2, l(?k := None))"
    using h2(2) limbo_update [OF assms(1) [unfolded st] h2(4) k(1)] by (intro tq_simI) blast+
  moreover have "tq_step st (Free_node x) Done (timers h2, l(?k := None))"
    unfolding st h2(3) using lk by (rule tq_step.free)
  moreover have "tq_exec (Free_node x) h = Some (Done, h2)" using h2(1) by simp
  ultimately show "\<exists>r h' st'. tq_exec (Free_node x) h = Some (r, h') \<and> tq_step st (Free_node x) r st' \<and> tq_sim h' st'"
    by blast
qed

lemma tq_exec_close:
  assumes "tq_sim h st"
  shows "\<exists>h' st'. tq_exec Close h = Some (Done, h') \<and> tq_step st Close Done st' \<and> tq_sim h' st'"
proof -
  obtain l where st: "st = (timers h, l)" using assms by (cases st) (simp add: tq_sim_def)
  have inv: "th_inv h" and l: "\<And>k. l k \<noteq> None \<longleftrightarrow> 0 \<le> k \<and> limbo_id h (nat k)"
    using assms by (simp_all add: tq_sim_def st)
  obtain a where good: "th_good h (th_cur_size h) a" using inv by (auto simp: th_inv_def)
  obtain h' where h': "close_loop [0..<th_cur_size h] h = Some h'" "th_inv h'" "th_cur_size h' = 0"
    "\<forall>k. limbo_id h' k \<longleftrightarrow> limbo_id h k"
    using close_loop_inv [OF closing_start [OF inv good]] by blast
  have "timers h' = (\<lambda>_. None)" using empty_timers [OF h'(2)] h'(3) by simp
  then have "tq_step st Close Done (timers h', l)" unfolding st using tq_step.close by metis
  moreover have "tq_sim h' (timers h', l)" using h'(2,4) l by (simp add: tq_sim_def)
  moreover have "tq_exec Close h = Some (Done, h')" using h'(1) by (simp add: th_close_def)
  ultimately show ?thesis by blast
qed

lemma tq_exec_sim:
  assumes "tq_sim h st" and "tq_legal h op"
  shows "\<exists>r h' st'. tq_exec op h = Some (r, h') \<and> tq_step st op r st' \<and> tq_sim h' st'"
proof (cases op)
  case (Schedule t act time iv)
  show ?thesis unfolding Schedule by (rule tq_exec_schedule [OF assms(1)])
next
  case (Cancel k d)
  then show ?thesis using tq_exec_cancel [OF assms(1), of k d] assms(2) by simp
next
  case (Cancel_all t d)
  show ?thesis unfolding Cancel_all using tq_exec_cancel_all [OF assms(1)] by blast
next
  case (Reset_interval k iv)
  then show ?thesis using tq_exec_reset [OF assms(1), of k iv] assms(2) by simp
next
  case Get_first
  show ?thesis unfolding Get_first using tq_exec_first(2) [OF assms(1)] assms(1) by blast
next
  case Remove_first
  show ?thesis unfolding Remove_first by (rule tq_exec_first(1) [OF assms(1)])
next
  case (Reschedule x)
  then show ?thesis using tq_exec_return(1) [OF assms(1), of x] assms by (simp add: tq_sim_def)
next
  case (Free_node x)
  then show ?thesis using tq_exec_return(2) [OF assms(1), of x] assms by (simp add: tq_sim_def)
next
  case Close
  show ?thesis unfolding Close using tq_exec_close [OF assms(1)] by blast
qed

text \<open>The states a client can reach from a new heap of at least two slots.\<close>

inductive tq_reach :: "'t timer_heap \<Rightarrow> bool" where
  new: "2 \<le> n \<Longrightarrow> tq_reach (timer_heap_new n pre base)"
| step: "tq_reach h \<Longrightarrow> tq_legal h op \<Longrightarrow> tq_exec op h = Some (r, h') \<Longrightarrow> tq_reach h'"

lemma tq_sim_exists: "th_inv h \<Longrightarrow> tq_sim h (timers h, \<lambda>k. if 0 \<le> k \<and> limbo_id h (nat k) then Some x else None)"
  by (simp add: tq_sim_def)

lemma tq_reach_inv: "tq_reach h \<Longrightarrow> th_inv h"
proof (induction rule: tq_reach.induct)
  case (new n pre base)
  then show ?case by (rule timer_heap_new_inv(1))
next
  case (step h op r h')
  then show ?case using tq_exec_sim [OF tq_sim_exists [OF step.IH] step.hyps(2)] by (auto simp: tq_sim_def)
qed

section \<open>Properties\<close>





text \<open>
  Cancelling by type takes out exactly the timers of that type, and calls the functor's
  cancellation hook for the type once and the hook for a timer once per timer taken out;
  cancelling a scheduled id takes out that timer and calls each hook once, with its type.
\<close>

theorem cancel_calls_hooks:
  assumes "tq_sim h st"
  shows "(\<exists>h'. cancel_type t d h = Some (card (of_type (timers h) t), h') \<and> timers h' = drop_type t (timers h)
      \<and> th_upcalls h' = th_upcalls h @ Cancel_type t d # replicate (card (of_type (timers h) t)) (Cancel_timer t d))
    \<and> (\<forall>k x. timers h k = Some x \<longrightarrow> (\<exists>h'. cancel_id k d h = Some (1, Some (nd_act x), h')
        \<and> timers h' = (timers h)(k := None)
        \<and> th_upcalls h' = th_upcalls h @ [Cancel_type (nd_type x) d, Cancel_timer (nd_type x) d]))"
proof (intro conjI allI impI)
  obtain r h' st' where r: "tq_exec (Cancel_all t d) h = Some (r, h')" "tq_step st (Cancel_all t d) r st'" "tq_sim h' st'"
    "th_upcalls h' = th_upcalls h @ Cancel_type t d # replicate (card (of_type (timers h) t)) (Cancel_timer t d)"
    using tq_exec_cancel_all [OF assms] by blast
  then show "\<exists>h'. cancel_type t d h = Some (card (of_type (timers h) t), h') \<and> timers h' = drop_type t (timers h)
      \<and> th_upcalls h' = th_upcalls h @ Cancel_type t d # replicate (card (of_type (timers h) t)) (Cancel_timer t d)"
    using assms by (auto simp: tq_sim_def elim!: tq_step.cases)
next
  fix k x assume "timers h k = Some x"
  moreover have "th_inv h" using assms by (simp add: tq_sim_def)
  ultimately obtain h' where "cancel_id k d h = Some (1, Some (nd_act x), h')" "timers h' = (timers h)(k := None)"
    "th_upcalls h' = th_upcalls h @ [Cancel_type (nd_type x) d, Cancel_timer (nd_type x) d]"
    using cancel_id_inv [of h k x d] by metis
  then show "\<exists>h'. cancel_id k d h = Some (1, Some (nd_act x), h') \<and> timers h' = (timers h)(k := None)
      \<and> th_upcalls h' = th_upcalls h @ [Cancel_type (nd_type x) d, Cancel_timer (nd_type x) d]" by blast
qed

theorem cancel_calls_hooks_witness:
  "\<exists>h'. cancel_type (5 :: nat) 0 (timer_heap_new 4 False 0) = Some (0, h')
     \<and> th_upcalls h' = [Cancel_type 5 0]"
proof -
  let ?h = "timer_heap_new 4 False 0 :: nat timer_heap"
  have sim: "tq_sim ?h (\<lambda>_. None, \<lambda>_. None)" by (rule tq_sim_new) simp
  have "timers ?h = (\<lambda>_. None)" by (simp add: timer_heap_new_inv)
  moreover have "th_upcalls ?h = []" by (simp add: timer_heap_new_def)
  ultimately show ?thesis using cancel_calls_hooks [OF sim, of 5 0] by (auto simp: of_type_def)
qed

text \<open>
  (C35) The bounds check of \<open>cancel\<close> and \<open>reset_interval\<close> lets one id too many through: the id equal
  to the size of the table reads the table one past its end.
\<close>

theorem cancel_reads_past_end:
  assumes "tq_sim h st"
  shows "cancel_id (int (th_max_size h)) d h = None \<and> reset_interval (int (th_max_size h)) iv h = None"
  using assms inv_sizes [of h]
  by (simp add: tq_sim_def cancel_id_def reset_interval_def id_at_def th_sizes_def)

theorem cancel_reads_past_end_witness:
  "tq_sim (timer_heap_new 4 False 0 :: nat timer_heap) (\<lambda>_. None, \<lambda>_. None)
   \<and> cancel_id 4 0 (timer_heap_new 4 False 0 :: nat timer_heap) = None"
proof -
  let ?h = "timer_heap_new 4 False 0 :: nat timer_heap"
  have sim: "tq_sim ?h (\<lambda>_. None, \<lambda>_. None)" by (rule tq_sim_new) simp
  have "th_max_size ?h = 4" by (simp add: timer_heap_new_def)
  then show ?thesis using sim cancel_reads_past_end [OF sim, of 0 0] by simp
qed

lemmas schedule_eval = schedule_i_def timer_heap_new_def pop_freelist_def next_free.simps id_at_def
  alloc_node_def insert_node_def grow_heap_def reheap_up.simps copy_def set_node_def set_id_def
  heap_parent_def upt_conv_Cons

text \<open>
  Two ways to run out of ids. A timer heap made with one slot stops at the second timer: the slot
  that \<open>grow_heap\<close> adds first is numbered 1 and marked \<open>-2\<close>, the mark of a node in limbo, so the scan
  for an id passes it by and the assertion of \<open>pop_freelist\<close> fails. And \<open>schedule_i\<close> does not return
  the id when the node cannot be allocated: in a heap of two slots three failed allocations make the
  assertion fail for the next timer, with no timer scheduled at all.
\<close>

theorem timer_ids_run_out:
  "(case schedule_i True type act time interval (timer_heap_new 1 False 0) of
     Some (k, h) \<Rightarrow> k = 0 \<and> th_max_size h = 2 \<and> th_timer_ids h = [0, -2]
       \<and> schedule_i True type2 act2 time2 interval2 h = None
   | None \<Rightarrow> False)
   \<and> (case do { (r1, h1) \<leftarrow> schedule_i False type act time interval (timer_heap_new 2 False 0);
               (r2, h2) \<leftarrow> schedule_i False type act time interval h1;
               (r3, h3) \<leftarrow> schedule_i False type act time interval h2; Some ([r1, r2, r3], h3) } of
      Some (rs, h) \<Rightarrow> rs = [-1, -1, -1] \<and> th_cur_size h = 0
        \<and> schedule_i True type2 act2 time2 interval2 h = None
    | None \<Rightarrow> False)"
  by (intro conjI) (simp_all add: schedule_eval)

end
