(* ===== verification/Timer_Queue.thy ===== *)
theory Timer_Queue
imports Timer_Heap_Spec
begin

text \<open>
  The part of the timer queue that all its implementations share (ACE/ace/Timer_Queue_T.cpp): it
  calls the container only through virtual functions. \<open>vt\<close> is the table of those functions, the
  locale \<open>timer_queue\<close> the contract they keep, and the timer heap the container the contract is
  proved for. Handlers run with the lock released: \<open>handler\<close> is what an upcall does to the queue.
\<close>

section \<open>The virtual functions\<close>

record ('q, 't) timer_queue_vt =
  vt_is_empty :: "'q \<Rightarrow> bool"
  vt_earliest_time :: "'q \<Rightarrow> time_value option"
  vt_schedule_i :: "bool \<Rightarrow> 't \<Rightarrow> addr \<Rightarrow> time_value \<Rightarrow> time_value \<Rightarrow> 'q \<Rightarrow> (int \<times> 'q) option"
  vt_remove_first :: "'q \<Rightarrow> ('t timer_node option \<times> 'q) option"
  vt_reschedule :: "'t timer_node \<Rightarrow> 'q \<Rightarrow> 'q option"
  vt_free_node :: "'t timer_node \<Rightarrow> 'q \<Rightarrow> 'q option"
  vt_upcall :: "'t upcall_event \<Rightarrow> 'q \<Rightarrow> 'q"

record 't dispatch_info =
  di_type :: 't
  di_act :: addr
  di_recurring :: bool

section \<open>Operations\<close>

text \<open>A zero interval in microseconds is the division by zero of the code: no result.\<close>

definition recompute_next_abs_interval_time ::
  "'t timer_node \<Rightarrow> time_value \<Rightarrow> 't timer_node option" where
  "recompute_next_abs_interval_time expired cur_time =
     (if nd_timer_value expired \<le> cur_time
      then let interval_usec = to_usec (nd_interval expired);
               old_diff_usec = to_usec (cur_time - nd_timer_value expired)
           in if interval_usec = 0 then None
              else let new_timer_usec = interval_usec - old_diff_usec mod interval_usec
                   in Some (expired\<lparr>nd_timer_value :=
                        tv_set (tv_sec cur_time + sint (new_timer_usec div 1000000))
                               (tv_usec cur_time + sint (new_timer_usec mod 1000000))\<rparr>)
      else Some expired)"

definition get_dispatch_info :: "'t timer_node \<Rightarrow> 't dispatch_info" where
  "get_dispatch_info n = \<lparr>di_type = nd_type n, di_act = nd_act n, di_recurring = nd_interval n > 0\<rparr>"

definition dispatch_info_i ::
  "('q, 't) timer_queue_vt \<Rightarrow> time_value \<Rightarrow> 'q \<Rightarrow> ('t dispatch_info option \<times> 'q) option" where
  "dispatch_info_i vt cur_time q =
     (if vt_is_empty vt q then Some (None, q)
      else do {
        earliest \<leftarrow> vt_earliest_time vt q;
        if earliest \<le> cur_time
        then do {
          (first, q1) \<leftarrow> vt_remove_first vt q;
          expired \<leftarrow> first;
          info \<leftarrow> Some (get_dispatch_info expired);
          q2 \<leftarrow> (if nd_interval expired > 0
                 then do {
                   n \<leftarrow> recompute_next_abs_interval_time expired cur_time;
                   vt_reschedule vt n q1 }
                 else vt_free_node vt expired q1);
          Some (Some info, q2) }
        else Some (None, q) })"

text \<open>The loop of \<open>expire\<close>, with the list of the upcalls it makes.\<close>

partial_function (option) expire_loop ::
  "('q, 't) timer_queue_vt \<Rightarrow> ('t dispatch_info \<Rightarrow> 'q \<Rightarrow> 'q) \<Rightarrow> time_value \<Rightarrow> nat \<Rightarrow>
   't dispatch_info list \<Rightarrow> 'q \<Rightarrow> (nat \<times> 't dispatch_info list \<times> 'q) option" where
  "expire_loop vt handler cur_time number upcalls q = do {
     (result, q1) \<leftarrow> dispatch_info_i vt cur_time q;
     case result of
       None \<Rightarrow> Some (number, upcalls, q1)
     | Some info \<Rightarrow> expire_loop vt handler cur_time (number + 1) (upcalls @ [info]) (handler info q1) }"

definition expire ::
  "('q, 't) timer_queue_vt \<Rightarrow> ('t dispatch_info \<Rightarrow> 'q \<Rightarrow> 'q) \<Rightarrow> time_value \<Rightarrow> 'q \<Rightarrow>
   (nat \<times> 't dispatch_info list \<times> 'q) option" where
  "expire vt handler cur_time q =
     (if vt_is_empty vt q then Some (0, [], q) else expire_loop vt handler cur_time 0 [] q)"

definition current_time :: "time_value \<Rightarrow> time_value \<Rightarrow> time_value" where
  "current_time gettimeofday timer_skew = gettimeofday + timer_skew"

definition expire_single ::
  "('q, 't) timer_queue_vt \<Rightarrow> ('t dispatch_info \<Rightarrow> 'q \<Rightarrow> 'q) \<Rightarrow> time_value \<Rightarrow> time_value \<Rightarrow> 'q \<Rightarrow>
   (nat \<times> 't dispatch_info option \<times> 'q) option" where
  "expire_single vt handler gettimeofday timer_skew q =
     (if vt_is_empty vt q then Some (0, None, q)
      else do {
        (result, q1) \<leftarrow> dispatch_info_i vt (current_time gettimeofday timer_skew) q;
        case result of
          None \<Rightarrow> Some (0, None, q1)
        | Some info \<Rightarrow> Some (1, Some info, handler info q1) })"

definition tq_schedule ::
  "('q, 't) timer_queue_vt \<Rightarrow> bool \<Rightarrow> 't \<Rightarrow> addr \<Rightarrow> time_value \<Rightarrow> time_value \<Rightarrow> 'q \<Rightarrow> (int \<times> 'q) option" where
  "tq_schedule vt memory type act future_time interval q = do {
     (result, q1) \<leftarrow> vt_schedule_i vt memory type act future_time interval q;
     if result = -1 then Some (result, q1)
     else Some (result, vt_upcall vt (Registration type act) q1) }"

text \<open>
  \<open>calculate_timeout\<close>, in the form that returns a pointer to the caller's time or to the member
  \<open>timeout_\<close> (the result is the time pointed to and the member), and in the form that fills in a
  time of the caller (\<open>the_timeout\<close> says whether there is one).
\<close>

definition calculate_timeout ::
  "('q, 't) timer_queue_vt \<Rightarrow> time_value \<Rightarrow> time_value option \<Rightarrow> time_value \<Rightarrow> 'q \<Rightarrow>
   (time_value option \<times> time_value) option" where
  "calculate_timeout vt now max_wait_time timeout q =
     (if vt_is_empty vt q then Some (max_wait_time, timeout)
      else do {
        earliest \<leftarrow> vt_earliest_time vt q;
        if earliest > now
        then let timeout = earliest - now
             in case max_wait_time of
                  None \<Rightarrow> Some (Some timeout, timeout)
                | Some w \<Rightarrow> Some (Some (if w > timeout then timeout else w), timeout)
        else Some (Some 0, 0) })"

definition calculate_timeout_to ::
  "('q, 't) timer_queue_vt \<Rightarrow> time_value \<Rightarrow> time_value option \<Rightarrow> bool \<Rightarrow> 'q \<Rightarrow> time_value option option" where
  "calculate_timeout_to vt now max_wait_time the_timeout q =
     (if \<not> the_timeout then Some None
      else if vt_is_empty vt q then Some max_wait_time
      else do {
        earliest \<leftarrow> vt_earliest_time vt q;
        if earliest > now
        then let timeout = earliest - now
             in case max_wait_time of
                  None \<Rightarrow> Some (Some timeout)
                | Some w \<Rightarrow> Some (Some (if \<not> w > timeout then w else timeout))
        else Some (Some 0) })"

section \<open>The next time of an interval timer\<close>

text \<open>The loop the comment in the code gives as the meaning of the computation.\<close>

partial_function (option) skip_loop :: "time_value \<Rightarrow> time_value \<Rightarrow> time_value \<Rightarrow> time_value option" where
  "skip_loop interval cur_time v =
     (if v + interval \<le> cur_time then skip_loop interval cur_time (v + interval) else Some (v + interval))"

definition timer_ok :: "time_value \<Rightarrow> 't timer_node \<Rightarrow> bool" where
  "timer_ok cur_time x \<longleftrightarrow> tv_normal (nd_timer_value x) \<and> tv_normal (nd_interval x)
     \<and> tv_value (nd_interval x) < 2 ^ 64 \<and> tv_value cur_time - tv_value (nd_timer_value x) < 2 ^ 64"

lemma to_usec_value: "0 \<le> tv_value t \<Longrightarrow> tv_value t < 2 ^ 64 \<Longrightarrow> uint (to_usec t) = tv_value t"
proof -
  assume b: "0 \<le> tv_value t" "tv_value t < 2 ^ 64"
  have "to_usec t = of_int (tv_value t)" by (simp add: to_usec_def tv_value_def)
  then show ?thesis using b by (simp add: uint_word_of_int take_bit_int_eq_self)
qed

lemma tv_set_value: "tv_value (tv_set s u) = s * ONE_SECOND + u" "tv_normal (tv_set s u)"
  by (simp_all add: tv_set_def) (simp add: tv_value_def)

lemma tv_pos: "tv_normal t \<Longrightarrow> 0 < t \<longleftrightarrow> 0 < tv_value t"
  using tv_less_iff [of 0 t] by simp

lemma skip_loop_result:
  assumes "tv_normal interval" "tv_normal cur" "0 < tv_value interval" "tv_normal w"
    and "tv_value w = tv_value v + (int k + 1) * tv_value interval"
    and "tv_value cur < tv_value w" "tv_value w \<le> tv_value cur + tv_value interval"
  shows "skip_loop interval cur v = Some w"
  using assms(5)
proof (induction k arbitrary: v)
  case 0
  then have "v + interval = w" using assms(4) by (intro tv_value_inj) simp_all
  then show ?case using assms(2,4,6) by (subst skip_loop.simps) (simp add: tv_le_iff)
next
  case (Suc k)
  have "tv_value (v + interval) \<le> tv_value cur"
  proof -
    have "(int (Suc k) + 1) * tv_value interval = tv_value interval + (int k + 1) * tv_value interval"
      by (simp add: algebra_simps)
    moreover have "tv_value interval \<le> (int k + 1) * tv_value interval" using assms(3) by (simp add: distrib_right)
    ultimately show ?thesis using Suc.prems assms(7) by simp
  qed
  then have "v + interval \<le> cur" using assms(2) by (simp add: tv_le_iff)
  moreover have "skip_loop interval cur (v + interval) = Some w"
    by (rule Suc.IH) (use Suc.prems in \<open>simp add: algebra_simps\<close>)
  ultimately show ?case by (subst skip_loop.simps) simp
qed

lemma recompute_value:
  assumes ok: "timer_ok cur x" and cur: "tv_normal cur" and pos: "0 < nd_interval x" and due: "due x \<le> cur"
  obtains w where "recompute_next_abs_interval_time x cur = Some (x\<lparr>nd_timer_value := w\<rparr>)" "tv_normal w" "cur < w"
    "skip_loop (nd_interval x) cur (due x) = Some w"
proof -
  define i where "i = tv_value (nd_interval x)"
  define d where "d = tv_value (cur - due x)"
  have n: "tv_normal (due x)" "tv_normal (nd_interval x)" using ok by (simp_all add: timer_ok_def)
  have i: "0 < i" "i < 2 ^ 64" using ok pos tv_pos [OF n(2)] by (simp_all add: timer_ok_def i_def)
  have d: "0 \<le> d" "d < 2 ^ 64" "d = tv_value cur - tv_value (due x)"
    using ok due tv_le_iff [OF n(1) cur] by (simp_all add: timer_ok_def d_def)
  let ?i = "to_usec (nd_interval x)" and ?d = "to_usec (cur - due x)"
  have ui: "uint ?i = i" "uint ?d = d" using to_usec_value i d by (simp_all add: i_def d_def)
  then have nz: "?i \<noteq> 0" using i by auto
  let ?new = "?i - ?d mod ?i"
  have m: "uint (?d mod ?i) = d mod i" by (simp add: uint_mod ui)
  have lt: "d mod i < i" "0 \<le> d mod i" using i by simp_all
  have new: "uint ?new = i - d mod i"
    using lt by (subst uint_sub_lem [THEN iffD1]) (simp_all add: m ui)
  have q: "sint (?new div 1000000) = (i - d mod i) div 1000000" "sint (?new mod 1000000) = (i - d mod i) mod 1000000"
  proof -
    have b: "0 \<le> i - d mod i" "i - d mod i < 2 ^ 64" using lt i by linarith+
    have "uint (?new div 1000000) = (i - d mod i) div 1000000" by (simp add: uint_div new)
    moreover have "(i - d mod i) div 1000000 < 2 ^ 63"
      using zdiv_mono1 [of "i - d mod i" "2 ^ 64" 1000000] b by simp
    ultimately show "sint (?new div 1000000) = (i - d mod i) div 1000000"
      using sint_small [of "?new div 1000000"] by simp
    have "uint (?new mod 1000000) = (i - d mod i) mod 1000000" by (simp add: uint_mod new)
    moreover have "(i - d mod i) mod 1000000 < 1000000" by simp
    ultimately show "sint (?new mod 1000000) = (i - d mod i) mod 1000000"
      using sint_small [of "?new mod 1000000"] by simp
  qed
  define w where "w = tv_set (tv_sec cur + sint (?new div 1000000)) (tv_usec cur + sint (?new mod 1000000))"
  have wv: "tv_value w = tv_value cur + (i - d mod i)"
  proof -
    have "(i - d mod i) div 1000000 * 1000000 + (i - d mod i) mod 1000000 = i - d mod i" by simp
    then show ?thesis unfolding w_def tv_set_value q by (simp add: tv_value_def algebra_simps)
  qed
  have wn: "tv_normal w" by (simp add: w_def tv_set_value)
  have "recompute_next_abs_interval_time x cur = Some (x\<lparr>nd_timer_value := w\<rparr>)"
    using due nz by (simp add: recompute_next_abs_interval_time_def Let_def w_def)
  moreover have "cur < w" using tv_less_iff [OF cur wn] lt wv by simp
  moreover have "skip_loop (nd_interval x) cur (due x) = Some w"
  proof (rule skip_loop_result [OF n(2) cur _ wn, where k = "nat (d div i)"])
    show "0 < tv_value (nd_interval x)" using i by (simp add: i_def)
    have "d = d div i * i + d mod i" by simp
    then have "tv_value cur + (i - d mod i) = tv_value (due x) + (d div i + 1) * i"
      using d(3) by (simp add: algebra_simps)
    moreover have "0 \<le> d div i" using d(1) i(1) by (simp add: pos_imp_zdiv_nonneg_iff)
    ultimately show "tv_value w = tv_value (due x) + (int (nat (d div i)) + 1) * tv_value (nd_interval x)"
      unfolding wv i_def [symmetric] by simp
    show "tv_value cur < tv_value w" "tv_value w \<le> tv_value cur + tv_value (nd_interval x)"
      using wv lt by (simp_all add: i_def [symmetric])
  qed
  ultimately show thesis using that wn by blast
qed

section \<open>The contract of the container\<close>

text \<open>
  \<open>timers q\<close> are the scheduled timers by id, \<open>out q x\<close> says that the node \<open>x\<close> was taken out
  and not returned yet, whatever its time is now.
\<close>

locale timer_queue =
  fixes vt :: "('q, 't) timer_queue_vt"
    and inv :: "'q \<Rightarrow> bool"
    and timers :: "'q \<Rightarrow> int \<Rightarrow> 't timer_node option"
    and out :: "'q \<Rightarrow> 't timer_node \<Rightarrow> bool"
  assumes is_empty: "inv q \<Longrightarrow> vt_is_empty vt q \<longleftrightarrow> timers q = (\<lambda>_. None)"
    and keyed: "inv q \<Longrightarrow> timers q k = Some x \<Longrightarrow> nd_timer_id x = k"
    and finite: "inv q \<Longrightarrow> finite (dom (timers q))"
    and first: "inv q \<Longrightarrow> timers q \<noteq> (\<lambda>_. None) \<Longrightarrow>
      \<exists>x q'. vt_earliest_time vt q = Some (nd_timer_value x) \<and> vt_remove_first vt q = Some (Some x, q')
        \<and> timers q (nd_timer_id x) = Some x
        \<and> (\<forall>k y. timers q k = Some y \<longrightarrow> nd_timer_value x \<le> nd_timer_value y)
        \<and> inv q' \<and> timers q' = (timers q)(nd_timer_id x := None) \<and> out q' x"
    and out_time: "out q x \<Longrightarrow> out q (x\<lparr>nd_timer_value := t\<rparr>)"
    and reschedule: "inv q \<Longrightarrow> out q x \<Longrightarrow>
      \<exists>q'. vt_reschedule vt x q = Some q' \<and> inv q' \<and> timers q' = (timers q)(nd_timer_id x \<mapsto> x)"
    and free_node: "inv q \<Longrightarrow> out q x \<Longrightarrow>
      \<exists>q'. vt_free_node vt x q = Some q' \<and> inv q' \<and> timers q' = timers q"
begin

definition due_ids :: "time_value \<Rightarrow> 'q \<Rightarrow> int set" where
  "due_ids cur q = {k. \<exists>x. timers q k = Some x \<and> nd_timer_value x \<le> cur}"

lemma finite_due_ids: "inv q \<Longrightarrow> finite (due_ids cur q)"
  by (rule finite_subset [OF _ finite]) (auto simp: due_ids_def)

text \<open>What becomes of a timer that was due: a new time after \<open>cur\<close>, or nothing.\<close>

definition after :: "time_value \<Rightarrow> 't timer_node \<Rightarrow> 't timer_node option" where
  "after cur x = (if nd_interval x > 0 then recompute_next_abs_interval_time x cur else None)"

lemma dispatch_none:
  assumes "inv q" and "due_ids cur q = {}"
  shows "dispatch_info_i vt cur q = Some (None, q)"
proof (cases "timers q = (\<lambda>_. None)")
  case True
  then show ?thesis using is_empty [OF assms(1)] by (simp add: dispatch_info_i_def)
next
  case False
  then obtain x q' where "vt_earliest_time vt q = Some (nd_timer_value x)" "timers q (nd_timer_id x) = Some x"
    using first [OF assms(1)] by blast
  moreover have "\<not> nd_timer_value x \<le> cur" using calculation(2) assms(2) by (auto simp: due_ids_def)
  ultimately show ?thesis using False is_empty [OF assms(1)] by (simp add: dispatch_info_i_def)
qed

lemma dispatch_due:
  assumes inv: "inv q" and ne: "due_ids cur q \<noteq> {}" and cur: "tv_normal cur"
    and ok: "\<And>k x. timers q k = Some x \<Longrightarrow> timer_ok cur x"
  obtains x q' where "dispatch_info_i vt cur q = Some (Some (get_dispatch_info x), q')" "inv q'"
    "timers q (nd_timer_id x) = Some x" "nd_timer_value x \<le> cur"
    "\<And>k y. timers q k = Some y \<Longrightarrow> nd_timer_value x \<le> nd_timer_value y"
    "timers q' = (timers q)(nd_timer_id x := after cur x)"
    "\<And>y. after cur x = Some y \<Longrightarrow> cur < nd_timer_value y \<and> nd_timer_id y = nd_timer_id x"
proof -
  have some: "timers q \<noteq> (\<lambda>_. None)" using ne by (auto simp: due_ids_def)
  then obtain x q1 where x: "vt_earliest_time vt q = Some (nd_timer_value x)" "vt_remove_first vt q = Some (Some x, q1)"
    "timers q (nd_timer_id x) = Some x" "\<forall>k y. timers q k = Some y \<longrightarrow> nd_timer_value x \<le> nd_timer_value y"
    "inv q1" "timers q1 = (timers q)(nd_timer_id x := None)" "out q1 x"
    using first [OF inv] by blast
  have due: "nd_timer_value x \<le> cur" using ne x(4) unfolding due_ids_def by (blast intro: order_trans)
  have nonempty: "\<not> vt_is_empty vt q" using is_empty [OF inv] some by simp
  show thesis
  proof (cases "nd_interval x > 0")
    case True
    obtain w where w: "recompute_next_abs_interval_time x cur = Some (x\<lparr>nd_timer_value := w\<rparr>)" "cur < w"
      using recompute_value [OF ok [OF x(3)] cur True due] by blast
    let ?x = "x\<lparr>nd_timer_value := w\<rparr>"
    obtain q2 where q2: "vt_reschedule vt ?x q1 = Some q2" "inv q2" "timers q2 = (timers q1)(nd_timer_id x \<mapsto> ?x)"
      using reschedule [OF x(5) out_time [OF x(7)], of w] by auto
    have a: "after cur x = Some ?x" using True w(1) by (simp add: after_def)
    have "dispatch_info_i vt cur q = Some (Some (get_dispatch_info x), q2)"
      using nonempty x(1,2) due True w(1) q2(1) by (simp add: dispatch_info_i_def)
    moreover have "timers q2 = (timers q)(nd_timer_id x := after cur x)"
      using q2(3) x(6) a by (simp add: fun_eq_iff)
    moreover have "cur < nd_timer_value y \<and> nd_timer_id y = nd_timer_id x" if "after cur x = Some y" for y
      using that a w(2) by auto
    ultimately show thesis using that [of x q2] q2(2) x(3,4) due by blast
  next
    case False
    obtain q2 where q2: "vt_free_node vt x q1 = Some q2" "inv q2" "timers q2 = timers q1"
      using free_node [OF x(5,7)] by blast
    have a: "after cur x = None" using False by (simp add: after_def)
    have "dispatch_info_i vt cur q = Some (Some (get_dispatch_info x), q2)"
      using nonempty x(1,2) due False q2(1) by (simp add: dispatch_info_i_def)
    moreover have "timers q2 = (timers q)(nd_timer_id x := after cur x)" using q2(3) x(6) a by simp
    ultimately show thesis using that [of x q2] q2(2) x(3,4) due a by simp
  qed
qed

definition fired :: "time_value \<Rightarrow> 'q \<Rightarrow> int \<Rightarrow> 't timer_node option" where
  "fired cur q k = (case timers q k of None \<Rightarrow> None
     | Some x \<Rightarrow> if nd_timer_value x \<le> cur then after cur x else Some x)"

lemma expire_loop_due:
  assumes "inv q" and cur: "tv_normal cur" and "\<And>k x. timers q k = Some x \<Longrightarrow> timer_ok cur x"
  shows "\<exists>xs q'. expire_loop vt (\<lambda>_ q. q) cur n us q = Some (n + length xs, us @ map get_dispatch_info xs, q')
    \<and> sorted_wrt (\<lambda>x y. nd_timer_value x \<le> nd_timer_value y) xs \<and> distinct (map nd_timer_id xs)
    \<and> (\<forall>x. x \<in> set xs \<longleftrightarrow> timers q (nd_timer_id x) = Some x \<and> nd_timer_value x \<le> cur)
    \<and> inv q' \<and> timers q' = fired cur q"
  using assms(1,3)
proof (induction "card (due_ids cur q)" arbitrary: q n us)
  case 0
  then have none: "due_ids cur q = {}" using finite_due_ids by simp
  then have "fired cur q = timers q"
    by (auto simp: fired_def due_ids_def fun_eq_iff split: option.split)
  moreover have "\<not> (timers q (nd_timer_id x) = Some x \<and> nd_timer_value x \<le> cur)" for x
    using none by (auto simp: due_ids_def)
  ultimately show ?case using dispatch_none [OF 0(2) none] 0(2)
    by (subst expire_loop.simps) (intro exI [of _ "[]"], simp)
next
  case (Suc m)
  then have ne: "due_ids cur q \<noteq> {}" by auto
  obtain x q1 where x: "dispatch_info_i vt cur q = Some (Some (get_dispatch_info x), q1)" "inv q1"
    "timers q (nd_timer_id x) = Some x" "nd_timer_value x \<le> cur"
    "\<And>k y. timers q k = Some y \<Longrightarrow> nd_timer_value x \<le> nd_timer_value y"
    "timers q1 = (timers q)(nd_timer_id x := after cur x)"
    "\<And>y. after cur x = Some y \<Longrightarrow> cur < nd_timer_value y \<and> nd_timer_id y = nd_timer_id x"
    by (rule dispatch_due [OF Suc.prems(1) ne cur Suc.prems(2)]) blast+
  let ?k = "nd_timer_id x"
  have ids: "due_ids cur q1 = due_ids cur q - {?k}"
    unfolding due_ids_def x(6) using x(7) by (auto simp: not_le [symmetric])
  have "?k \<in> due_ids cur q" using x(3,4) by (auto simp: due_ids_def)
  then have m: "m = card (due_ids cur q1)" using Suc.hyps(2) unfolding ids by simp
  have later: "timer_ok cur y" if "timers q1 k = Some y" for k y
  proof (cases "k = ?k")
    case True
    then have a: "after cur x = Some y" using that x(6) by simp
    have pos: "0 < nd_interval x" using a by (auto simp: after_def split: if_splits)
    have okx: "timer_ok cur x" using Suc.prems(2) x(3) by blast
    obtain w where w: "recompute_next_abs_interval_time x cur = Some (x\<lparr>nd_timer_value := w\<rparr>)" "tv_normal w" "cur < w"
      using recompute_value [OF okx cur pos x(4)] by blast
    have "tv_value cur < tv_value w" using w(2,3) cur by (simp add: tv_less_iff)
    then show ?thesis using a pos w(1,2) okx by (auto simp: after_def timer_ok_def)
  next
    case False
    then show ?thesis using that x(6) Suc.prems(2) by simp
  qed
  obtain xs q' where xs: "expire_loop vt (\<lambda>_ q. q) cur (n + 1) (us @ [get_dispatch_info x]) q1
      = Some (n + 1 + length xs, (us @ [get_dispatch_info x]) @ map get_dispatch_info xs, q')"
    "sorted_wrt (\<lambda>x y. nd_timer_value x \<le> nd_timer_value y) xs" "distinct (map nd_timer_id xs)"
    "\<forall>y. y \<in> set xs \<longleftrightarrow> timers q1 (nd_timer_id y) = Some y \<and> nd_timer_value y \<le> cur"
    "inv q'" "timers q' = fired cur q1"
    using Suc.hyps(1) [OF m x(2), of "n + 1" "us @ [get_dispatch_info x]"] later by blast
  have other: "nd_timer_id y \<noteq> ?k" if "y \<in> set xs" for y
  proof
    assume "nd_timer_id y = ?k"
    then have "after cur x = Some y" using that xs(4) x(6) by auto
    then show False using x(7) that xs(4) by (metis not_le)
  qed
  have sets: "y \<in> set (x # xs) \<longleftrightarrow> timers q (nd_timer_id y) = Some y \<and> nd_timer_value y \<le> cur" for y
  proof (cases "nd_timer_id y = ?k")
    case True
    then have "y \<notin> set xs" using other by blast
    then show ?thesis using x(3,4) True by auto
  next
    case False
    then show ?thesis using xs(4) x(6) by auto
  qed
  have fired: "fired cur q1 = fired cur q"
  proof
    fix k
    show "fired cur q1 k = fired cur q k"
    proof (cases "k = ?k")
      case True
      then show ?thesis using x(3,4,6,7) by (cases "after cur x") (auto simp: fired_def not_le)
    qed (simp add: fired_def x(6))
  qed
  have "sorted_wrt (\<lambda>x y. nd_timer_value x \<le> nd_timer_value y) (x # xs)"
    using xs(2) sets x(5) by auto
  moreover have "?k \<notin> set (map nd_timer_id xs)" unfolding set_map using other by (metis imageE)
  then have "distinct (map nd_timer_id (x # xs))" using xs(3) by simp
  moreover have "expire_loop vt (\<lambda>_ q. q) cur n us q
      = Some (n + length (x # xs), us @ map get_dispatch_info (x # xs), q')"
    using x(1) xs(1) by (subst expire_loop.simps) simp
  ultimately show ?case using sets xs(5,6) fired by metis
qed

lemma expire_due:
  assumes "inv q" and "tv_normal cur" and "\<And>k x. timers q k = Some x \<Longrightarrow> timer_ok cur x"
  shows "\<exists>xs q'. expire vt (\<lambda>_ q. q) cur q = Some (length xs, map get_dispatch_info xs, q')
    \<and> sorted_wrt (\<lambda>x y. nd_timer_value x \<le> nd_timer_value y) xs \<and> distinct (map nd_timer_id xs)
    \<and> (\<forall>x. x \<in> set xs \<longleftrightarrow> timers q (nd_timer_id x) = Some x \<and> nd_timer_value x \<le> cur)
    \<and> inv q' \<and> timers q' = fired cur q"
proof (cases "vt_is_empty vt q")
  case True
  then have "timers q = (\<lambda>_. None)" using is_empty assms(1) by simp
  then show ?thesis using True assms(1)
    by (intro exI [of _ "[]"]) (auto simp: expire_def fired_def fun_eq_iff)
next
  case False
  then show ?thesis using expire_loop_due [of q cur 0 "[]"] assms by (simp add: expire_def)
qed

end

section \<open>The timer heap as a container\<close>

definition heap_vt :: "('t timer_heap, 't) timer_queue_vt" where
  "heap_vt = \<lparr>vt_is_empty = th_is_empty, vt_earliest_time = earliest_time, vt_schedule_i = schedule_i,
     vt_remove_first = remove_first, vt_reschedule = reschedule, vt_free_node = free_node, vt_upcall = upcall\<rparr>"

definition out_of_heap :: "'t timer_heap \<Rightarrow> 't timer_node \<Rightarrow> bool" where
  "out_of_heap h x \<longleftrightarrow> 0 \<le> nd_timer_id x \<and> limbo_id h (nid x)"

interpretation heap: timer_queue heap_vt th_inv timers out_of_heap
proof unfold_locales
  fix h :: "'t timer_heap" assume inv: "th_inv h"
  show "vt_is_empty heap_vt h \<longleftrightarrow> timers h = (\<lambda>_. None)"
    using empty_timers [OF inv] by (simp add: heap_vt_def th_is_empty_def)
  show "nd_timer_id x = k" if "timers h k = Some x" for k x using timers_inv_id [OF inv that] by simp
  show "finite (dom (timers h))"
    by (rule finite_subset [of _ "int ` {..<th_max_size h}"])
       (auto simp: timers_def image_iff split: if_splits, metis int_nat_eq lessThan_iff)
next
  fix h :: "'t timer_heap" assume inv: "th_inv h" and ne: "timers h \<noteq> (\<lambda>_. None)"
  have cur: "th_cur_size h \<noteq> 0" using empty_timers [OF inv] ne by simp
  obtain x h' where h': "remove_first h = Some (Some x, h')" "get_first h = Some x" "th_inv h'"
    "timers h (nd_timer_id x) = Some x" "timers h' = (timers h)(nd_timer_id x := None)"
    "\<And>k. limbo_id h' k \<longleftrightarrow> limbo_id h k \<or> k = nid x"
    by (rule remove_first_inv [OF inv cur]) blast
  obtain y where y: "get_first h = Some y" "\<And>k z. timers h k = Some z \<Longrightarrow> due y \<le> due z" "earliest_time h = Some (due y)"
    by (rule get_first_inv [OF inv cur]) blast
  have "out_of_heap h' x"
    using h'(6) timers_inv_id [OF inv h'(4)] by (simp add: out_of_heap_def)
  then show "\<exists>x h'. vt_earliest_time heap_vt h = Some (due x) \<and> vt_remove_first heap_vt h = Some (Some x, h')
      \<and> timers h (nd_timer_id x) = Some x \<and> (\<forall>k y. timers h k = Some y \<longrightarrow> due x \<le> due y)
      \<and> th_inv h' \<and> timers h' = (timers h)(nd_timer_id x := None) \<and> out_of_heap h' x"
    using h' y by (intro exI [of _ x] exI [of _ h']) (simp add: heap_vt_def)
next
  fix h :: "'t timer_heap" and x :: "'t timer_node" and t
  show "out_of_heap h x \<Longrightarrow> out_of_heap h (x\<lparr>nd_timer_value := t\<rparr>)" by (simp add: out_of_heap_def)
next
  fix h :: "'t timer_heap" and x :: "'t timer_node" assume inv: "th_inv h" and out: "out_of_heap h x"
  obtain h' where "reschedule x h = Some h'" "th_inv h'" "timers h' = (timers h)(nd_timer_id x \<mapsto> x)"
    using reschedule_inv [OF inv, of x] out unfolding out_of_heap_def by metis
  then show "\<exists>q'. vt_reschedule heap_vt x h = Some q' \<and> th_inv q' \<and> timers q' = (timers h)(nd_timer_id x \<mapsto> x)"
    by (simp add: heap_vt_def)
  obtain h' where "free_node x h = Some h'" "th_inv h'" "timers h' = timers h"
    using free_limbo_inv [OF inv, of x] out unfolding out_of_heap_def by metis
  then show "\<exists>q'. vt_free_node heap_vt x h = Some q' \<and> th_inv q' \<and> timers q' = timers h"
    by (simp add: heap_vt_def)
qed

section \<open>Properties\<close>

text \<open>
  (C33) The constant-time computation of the next time of an interval timer gives what the loop
  it replaced gives (the loop is quoted in the code's comment): the first time after the current
  one that is a whole number of intervals after the old time.
\<close>

theorem recompute_equals_loop:
  assumes "timer_ok cur_time x" and "tv_normal cur_time" and "0 < nd_interval x" and "nd_timer_value x \<le> cur_time"
  shows "\<exists>w. recompute_next_abs_interval_time x cur_time = Some (x\<lparr>nd_timer_value := w\<rparr>)
    \<and> skip_loop (nd_interval x) cur_time (nd_timer_value x) = Some w \<and> cur_time < w"
  by (rule recompute_value [OF assms]) blast

theorem recompute_equals_loop_witness:
  "\<exists>w. recompute_next_abs_interval_time \<lparr>nd_addr = 0, nd_type = (7 :: nat), nd_act = 0, nd_timer_value = Time_Value 1 0,
      nd_interval = Time_Value 0 300000, nd_timer_id = 1\<rparr> (Time_Value 2 0)
     = Some \<lparr>nd_addr = 0, nd_type = (7 :: nat), nd_act = 0, nd_timer_value = w,
      nd_interval = Time_Value 0 300000, nd_timer_id = 1\<rparr> \<and> Time_Value 2 0 < w"
  using recompute_equals_loop [of "Time_Value 2 0" "\<lparr>nd_addr = 0, nd_type = (7 :: nat), nd_act = 0, nd_timer_value = Time_Value 1 0,
      nd_interval = Time_Value 0 300000, nd_timer_id = 1\<rparr>"]
  by (auto simp: timer_ok_def tv_normal_def tv_value_def tv_less_iff tv_le_iff tv_pos)

text \<open>
  (C11) Expiry of a timer heap, with handlers that leave the queue alone, ends, makes one upcall for
  each timer that is due and for no other, in the order of their times, counts them, frees the
  one-shot timers, gives the interval timers their next time and leaves the others as they are.
\<close>

theorem expire_dispatches_due:
  assumes "th_inv h" and "tv_normal cur_time" and "\<And>k x. timers h k = Some x \<Longrightarrow> timer_ok cur_time x"
  shows "\<exists>xs h'. expire heap_vt (\<lambda>_ q. q) cur_time h = Some (length xs, map get_dispatch_info xs, h')
    \<and> sorted_wrt (\<lambda>x y. nd_timer_value x \<le> nd_timer_value y) xs \<and> distinct (map nd_timer_id xs)
    \<and> (\<forall>x. x \<in> set xs \<longleftrightarrow> timers h (nd_timer_id x) = Some x \<and> nd_timer_value x \<le> cur_time)
    \<and> th_inv h'
    \<and> (\<forall>k. timers h' k = (case timers h k of None \<Rightarrow> None
         | Some x \<Rightarrow> if nd_timer_value x \<le> cur_time
             then if 0 < nd_interval x then recompute_next_abs_interval_time x cur_time else None
             else Some x))"
proof -
  obtain xs h' where xs: "expire heap_vt (\<lambda>_ q. q) cur_time h = Some (length xs, map get_dispatch_info xs, h')"
    "sorted_wrt (\<lambda>x y. nd_timer_value x \<le> nd_timer_value y) xs" "distinct (map nd_timer_id xs)"
    "\<forall>x. x \<in> set xs \<longleftrightarrow> timers h (nd_timer_id x) = Some x \<and> nd_timer_value x \<le> cur_time"
    "th_inv h'" "timers h' = heap.fired cur_time h"
    using heap.expire_due [of h cur_time] assms by blast
  then show ?thesis
    by (intro exI [of _ xs] exI [of _ h'] conjI) (simp_all add: heap.fired_def heap.after_def split: option.split)
qed

theorem expire_dispatches_due_witness:
  "\<exists>h h' info. schedule_i True (7 :: nat) 9 (Time_Value 2 0) 0 (timer_heap_new 4 False 0) = Some (1, h)
     \<and> expire heap_vt (\<lambda>_ q. q) (Time_Value 3 0) h = Some (1, [info], h')"
proof -
  let ?h = "timer_heap_new 4 False 0 :: nat timer_heap"
  obtain k x h where h: "schedule_i True 7 9 (Time_Value 2 0) 0 ?h = Some (int k, h)" "th_inv h"
    "timers h = (timers ?h)(int k \<mapsto> x)" "nd_timer_value x = Time_Value 2 0" "nd_interval x = 0" "nd_timer_id x = int k"
    by (rule schedule_inv [of ?h 7 9 "Time_Value 2 0" 0]) (simp_all add: timer_heap_new_inv(1))
  have k: "int k = 1" using h(1) by (simp add: schedule_eval numeral_eq_Suc)
  have t: "timers h = (\<lambda>_. None)(1 \<mapsto> x)" using h(3) k by (simp add: timer_heap_new_inv(2))
  have n: "tv_normal (Time_Value 3 0)" "tv_normal (Time_Value 2 0)" by (simp_all add: tv_normal_def)
  have ok: "timer_ok (Time_Value 3 0) y" if "timers h j = Some y" for j y
    using that t h(4,5) n by (auto simp: timer_ok_def tv_value_def tv_normal_def zero_time_value_def split: if_splits)
  obtain xs h' where xs: "expire heap_vt (\<lambda>_ q. q) (Time_Value 3 0) h = Some (length xs, map get_dispatch_info xs, h')"
    "distinct (map nd_timer_id xs)"
    "\<forall>y. y \<in> set xs \<longleftrightarrow> timers h (nd_timer_id y) = Some y \<and> nd_timer_value y \<le> Time_Value 3 0"
    using expire_dispatches_due [of h "Time_Value 3 0"] h(2) n(1) ok by blast
  have "Time_Value 2 0 \<le> Time_Value 3 0" using n by (simp add: tv_le_iff tv_value_def)
  then have "set xs = {x}" using xs(3) t h(4,6) k by (auto split: if_splits)
  moreover have "distinct xs" using xs(2) by (simp add: distinct_map)
  ultimately have "xs = [x]" by (cases xs; cases "tl xs") auto
  then show ?thesis using xs(1) h(1) k by auto
qed

text \<open>
  The time a caller should wait is what it asked for when the queue is empty, nothing when the
  earliest timer is due, and otherwise the smaller of what it asked for and the time until the
  earliest timer; both forms of \<open>calculate_timeout\<close> compute the same.
\<close>

theorem calculate_timeout_min:
  assumes "th_inv h"
  shows "if timers h = (\<lambda>_. None)
    then calculate_timeout heap_vt now max_wait_time timeout h = Some (max_wait_time, timeout)
      \<and> calculate_timeout_to heap_vt now max_wait_time True h = Some max_wait_time
    else \<exists>x wait. timers h (nd_timer_id x) = Some x
      \<and> (\<forall>k y. timers h k = Some y \<longrightarrow> nd_timer_value x \<le> nd_timer_value y)
      \<and> wait = (if nd_timer_value x \<le> now then 0
                else case max_wait_time of None \<Rightarrow> nd_timer_value x - now
                     | Some w \<Rightarrow> min w (nd_timer_value x - now))
      \<and> map_option fst (calculate_timeout heap_vt now max_wait_time timeout h) = Some (Some wait)
      \<and> calculate_timeout_to heap_vt now max_wait_time True h = Some (Some wait)"
proof (cases "timers h = (\<lambda>_. None)")
  case True
  then show ?thesis using heap.is_empty [OF assms] by (simp add: calculate_timeout_def calculate_timeout_to_def)
next
  case False
  obtain x where x: "vt_earliest_time heap_vt h = Some (due x)" "timers h (nd_timer_id x) = Some x"
    "\<forall>k y. timers h k = Some y \<longrightarrow> due x \<le> due y"
    using heap.first [OF assms False] by blast
  let ?wait = "if due x \<le> now then 0 else case max_wait_time of None \<Rightarrow> due x - now | Some w \<Rightarrow> min w (due x - now)"
  have "map_option fst (calculate_timeout heap_vt now max_wait_time timeout h) = Some (Some ?wait)"
    "calculate_timeout_to heap_vt now max_wait_time True h = Some (Some ?wait)"
    using x(1) False heap.is_empty [OF assms]
    by (auto simp: calculate_timeout_def calculate_timeout_to_def Let_def not_le min_def split: option.split)
  then show ?thesis using False x(2,3) by auto
qed

theorem calculate_timeout_min_witness:
  "calculate_timeout_to heap_vt 0 (Some (Time_Value 5 0)) True (timer_heap_new 4 False 0 :: nat timer_heap)
     = Some (Some (Time_Value 5 0))"
proof -
  have "th_inv (timer_heap_new 4 False 0 :: nat timer_heap)"
    "timers (timer_heap_new 4 False 0 :: nat timer_heap) = (\<lambda>_. None)"
    by (simp_all add: timer_heap_new_inv)
  then show ?thesis using calculate_timeout_min [of "timer_heap_new 4 False 0 :: nat timer_heap" 0 "Some (Time_Value 5 0)" 0]
    by simp
qed

end
