(* ===== verification/Timer_List.thy ===== *)
theory Timer_List
  imports Timer_Queue Linked_List
begin

text \<open>
  The timer list (ACE/ace/Timer_List_T.cpp), the second container behind the timer queue: a circular
  doubly linked list of nodes in the order of their times, closed by the dummy node \<open>head_\<close>. The
  nodes live in a store; a node that was freed or never allocated is \<open>None\<close>, and reading or
  writing one is the result \<open>None\<close>. The calls of the upcall functor are logged.
\<close>

section \<open>State\<close>

record 't timer_list =
  tl_head :: addr
  tl_nodes :: "addr \<Rightarrow> 't timer_node option"
  tl_next :: "addr \<Rightarrow> ptr"
  tl_prev :: "addr \<Rightarrow> ptr"
  tl_id_counter :: int
  tl_fresh_addr :: addr
  tl_upcalls :: "'t upcall_event list"

definition timer_list_new :: "addr \<Rightarrow> 't timer_list" where
  "timer_list_new head =
     \<lparr>tl_head = head, tl_nodes = (\<lambda>_. None), tl_next = (\<lambda>_. None)(head \<mapsto> head), tl_prev = (\<lambda>_. None)(head \<mapsto> head),
      tl_id_counter = 0, tl_fresh_addr = head + 1, tl_upcalls = []\<rparr>"

section \<open>Accesses\<close>

definition tl_valid :: "addr \<Rightarrow> 't timer_list \<Rightarrow> bool" where
  "tl_valid a q \<longleftrightarrow> a = tl_head q \<or> tl_nodes q a \<noteq> None"

definition tl_get_next :: "addr \<Rightarrow> 't timer_list \<Rightarrow> addr option" where
  "tl_get_next a q = (if tl_valid a q then tl_next q a else None)"

definition tl_get_prev :: "addr \<Rightarrow> 't timer_list \<Rightarrow> addr option" where
  "tl_get_prev a q = (if tl_valid a q then tl_prev q a else None)"

definition tl_set_next :: "addr \<Rightarrow> ptr \<Rightarrow> 't timer_list \<Rightarrow> 't timer_list option" where
  "tl_set_next a p q = (if tl_valid a q then Some (q\<lparr>tl_next := (tl_next q)(a := p)\<rparr>) else None)"

definition tl_set_prev :: "addr \<Rightarrow> ptr \<Rightarrow> 't timer_list \<Rightarrow> 't timer_list option" where
  "tl_set_prev a p q = (if tl_valid a q then Some (q\<lparr>tl_prev := (tl_prev q)(a := p)\<rparr>) else None)"

definition tl_set_node :: "addr \<Rightarrow> 't timer_node \<Rightarrow> 't timer_list \<Rightarrow> 't timer_list option" where
  "tl_set_node a n q = (if tl_nodes q a = None then None else Some (q\<lparr>tl_nodes := (tl_nodes q)(a \<mapsto> n)\<rparr>))"

definition tl_upcall :: "'t upcall_event \<Rightarrow> 't timer_list \<Rightarrow> 't timer_list" where
  "tl_upcall u q = q\<lparr>tl_upcalls := tl_upcalls q @ [u]\<rparr>"

text \<open>The free node function of the timer queue gives the node back to its allocator.\<close>

definition tl_free_node :: "addr \<Rightarrow> 't timer_list \<Rightarrow> 't timer_list option" where
  "tl_free_node a q = (if tl_nodes q a = None then None else Some (q\<lparr>tl_nodes := (tl_nodes q)(a := None)\<rparr>))"

section \<open>Operations\<close>

text \<open>\<open>get_first_i\<close>; the pointer the dummy node holds is never null.\<close>

definition tl_get_first :: "'t timer_list \<Rightarrow> ptr" where
  "tl_get_first q = (if tl_next q (tl_head q) \<noteq> Some (tl_head q) then tl_next q (tl_head q) else None)"

definition tl_is_empty :: "'t timer_list \<Rightarrow> bool" where
  "tl_is_empty q \<longleftrightarrow> tl_get_first q = None"

definition tl_earliest_time :: "'t timer_list \<Rightarrow> time_value option" where
  "tl_earliest_time q = (case tl_get_first q of
     Some first \<Rightarrow> map_option nd_timer_value (tl_nodes q first)
   | None \<Rightarrow> Some 0)"

text \<open>The backward search for the node to insert behind.\<close>

partial_function (option) tl_search :: "time_value \<Rightarrow> addr \<Rightarrow> 't timer_list \<Rightarrow> addr option" where
  "tl_search expiry p q =
     (if p \<noteq> tl_head q
      then do { n \<leftarrow> tl_nodes q p;
                if nd_timer_value n > expiry then do { p' \<leftarrow> tl_get_prev p q; tl_search expiry p' q } else Some p }
      else Some p)"

definition tl_insert :: "addr \<Rightarrow> time_value \<Rightarrow> 't timer_list \<Rightarrow> 't timer_list option" where
  "tl_insert n expiry q =
     (let head = tl_head q in
      if tl_is_empty q
      then do {
        q \<leftarrow> tl_set_prev n (Some head) q; q \<leftarrow> tl_set_next n (Some head) q;
        q \<leftarrow> tl_set_prev head (Some n) q; tl_set_next head (Some n) q }
      else do {
        last \<leftarrow> tl_get_prev head q;
        p \<leftarrow> tl_search expiry last q;
        q \<leftarrow> tl_set_prev n (Some p) q;
        next \<leftarrow> tl_get_next p q;
        q \<leftarrow> tl_set_next n (Some next) q;
        next \<leftarrow> tl_get_next p q;
        q \<leftarrow> tl_set_prev next (Some n) q;
        tl_set_next p (Some n) q })"

text \<open>\<open>memory\<close> tells if \<open>alloc_node\<close> gets a node. The counter of the ids is a signed \<open>long\<close>,
  incremented past its largest value it is undefined.\<close>

definition tl_schedule_i ::
  "bool \<Rightarrow> 't \<Rightarrow> addr \<Rightarrow> time_value \<Rightarrow> time_value \<Rightarrow> 't timer_list \<Rightarrow> (int \<times> 't timer_list) option" where
  "tl_schedule_i memory type act future_time interval q =
     (if memory
      then let n = tl_fresh_addr q;
               id = tl_id_counter q
           in if id = 2 ^ 63 - 1 then None
              else do {
                q \<leftarrow> Some (q\<lparr>tl_fresh_addr := n + 1, tl_id_counter := id + 1\<rparr>);
                if id \<noteq> -1
                then do {
                  q \<leftarrow> Some (q\<lparr>tl_nodes := (tl_nodes q)(n \<mapsto> \<lparr>nd_addr = n, nd_type = type, nd_act = act,
                         nd_timer_value = future_time, nd_interval = interval, nd_timer_id = id\<rparr>),
                       tl_next := (tl_next q)(n := None), tl_prev := (tl_prev q)(n := None)\<rparr>);
                  q \<leftarrow> tl_insert n future_time q;
                  Some (id, q) }
                else Some (id, q) }
      else Some (-1, q))"

text \<open>The node handed back is written to its address, as \<open>get_dispatch_info\<close> and the recomputation of its
  time changed it in place.\<close>

definition tl_reschedule :: "'t timer_node \<Rightarrow> 't timer_list \<Rightarrow> 't timer_list option" where
  "tl_reschedule x q = do { q \<leftarrow> tl_set_node (nd_addr x) x q; tl_insert (nd_addr x) (nd_timer_value x) q }"

definition tl_unlink :: "addr \<Rightarrow> 't timer_list \<Rightarrow> 't timer_list option" where
  "tl_unlink n q = do {
     p \<leftarrow> tl_get_prev n q; next \<leftarrow> tl_get_next n q;
     q \<leftarrow> tl_set_next p (Some next) q;
     next \<leftarrow> tl_get_next n q; p \<leftarrow> tl_get_prev n q;
     q \<leftarrow> tl_set_prev next (Some p) q;
     q \<leftarrow> tl_set_prev n None q;
     tl_set_next n None q }"

definition tl_cancel_i :: "addr \<Rightarrow> 't timer_list \<Rightarrow> 't timer_list option" where
  "tl_cancel_i n q = do { q \<leftarrow> tl_unlink n q; tl_free_node n q }"

definition tl_remove_first :: "'t timer_list \<Rightarrow> ('t timer_node option \<times> 't timer_list) option" where
  "tl_remove_first q = (case tl_get_first q of
     Some first \<Rightarrow> do { q \<leftarrow> tl_unlink first q; n \<leftarrow> tl_nodes q first; Some (Some n, q) }
   | None \<Rightarrow> Some (None, q))"

partial_function (option) tl_find_from :: "int \<Rightarrow> addr \<Rightarrow> 't timer_list \<Rightarrow> ptr option" where
  "tl_find_from timer_id a q =
     (if a \<noteq> tl_head q
      then do { n \<leftarrow> tl_nodes q a;
                if nd_timer_id n = timer_id then Some (Some a)
                else do { a' \<leftarrow> tl_get_next a q; tl_find_from timer_id a' q } }
      else Some None)"

definition tl_find_node :: "int \<Rightarrow> 't timer_list \<Rightarrow> ptr option" where
  "tl_find_node timer_id q = (case tl_get_first q of None \<Rightarrow> Some None | Some a \<Rightarrow> tl_find_from timer_id a q)"

definition tl_reset_interval :: "int \<Rightarrow> time_value \<Rightarrow> 't timer_list \<Rightarrow> (int \<times> 't timer_list) option" where
  "tl_reset_interval timer_id interval q = do {
     a \<leftarrow> tl_find_node timer_id q;
     case a of
       Some a \<Rightarrow> do { n \<leftarrow> tl_nodes q a; q \<leftarrow> tl_set_node a (n\<lparr>nd_interval := interval\<rparr>) q; Some (0, q) }
     | None \<Rightarrow> Some (-1, q) }"

definition tl_cancel_id :: "int \<Rightarrow> int \<Rightarrow> 't timer_list \<Rightarrow> (int \<times> addr option \<times> 't timer_list) option" where
  "tl_cancel_id timer_id skip_close q = do {
     a \<leftarrow> tl_find_node timer_id q;
     case a of
       Some a \<Rightarrow> do {
         n \<leftarrow> tl_nodes q a;
         q \<leftarrow> Some (tl_upcall (Cancel_timer (nd_type n) skip_close) (tl_upcall (Cancel_type (nd_type n) skip_close) q));
         q \<leftarrow> tl_cancel_i a q;
         Some (1, Some (nd_act n), q) }
     | None \<Rightarrow> Some (0, None, q) }"

partial_function (option) tl_cancel_from :: "'t \<Rightarrow> nat \<Rightarrow> addr \<Rightarrow> 't timer_list \<Rightarrow> (nat \<times> 't timer_list) option" where
  "tl_cancel_from type num_canceled a q =
     (if a \<noteq> tl_head q
      then do { n \<leftarrow> tl_nodes q a;
                a' \<leftarrow> tl_get_next a q;
                if nd_type n = type
                then do { q \<leftarrow> tl_cancel_i a q; tl_cancel_from type (num_canceled + 1) a' q }
                else tl_cancel_from type num_canceled a' q }
      else Some (num_canceled, q))"

definition tl_cancel_type :: "'t \<Rightarrow> int \<Rightarrow> 't timer_list \<Rightarrow> (nat \<times> 't timer_list) option" where
  "tl_cancel_type type skip_close q = do {
     (num_canceled, q) \<leftarrow> (case tl_get_first q of None \<Rightarrow> Some (0, q) | Some a \<Rightarrow> tl_cancel_from type 0 a q);
     Some (num_canceled, fold tl_upcall (Cancel_type type skip_close # replicate num_canceled (Cancel_timer type skip_close)) q) }"

partial_function (option) tl_close_from :: "addr \<Rightarrow> 't timer_list \<Rightarrow> 't timer_list option" where
  "tl_close_from n q =
     (if n \<noteq> tl_head q
      then do { x \<leftarrow> tl_nodes q n;
                q \<leftarrow> Some (tl_upcall (Deletion (nd_type x) (nd_act x)) q);
                next \<leftarrow> tl_get_next n q;
                q \<leftarrow> tl_free_node n q;
                tl_close_from next q }
      else Some q)"

definition tl_close :: "'t timer_list \<Rightarrow> 't timer_list option" where
  "tl_close q = (case tl_get_first q of None \<Rightarrow> Some q | Some n \<Rightarrow> tl_close_from n q)"

text \<open>The iterator from \<open>first\<close> until \<open>isdone\<close>: the nodes \<open>item\<close> gives.\<close>

partial_function (option) tl_iterate_from :: "ptr \<Rightarrow> 't timer_list \<Rightarrow> 't timer_node list option" where
  "tl_iterate_from current_node q =
     (case current_node of
        None \<Rightarrow> Some []
      | Some a \<Rightarrow> do {
          n \<leftarrow> tl_nodes q a;
          a' \<leftarrow> tl_get_next a q;
          ns \<leftarrow> tl_iterate_from (if a' = tl_head q then None else Some a') q;
          Some (n # ns) })"

definition tl_iterate :: "'t timer_list \<Rightarrow> 't timer_node list option" where
  "tl_iterate q = tl_iterate_from (tl_get_first q) q"

definition list_vt :: "('t timer_list, 't) timer_queue_vt" where
  "list_vt = \<lparr>vt_is_empty = tl_is_empty, vt_earliest_time = tl_earliest_time, vt_schedule_i = tl_schedule_i,
     vt_remove_first = tl_remove_first, vt_reschedule = tl_reschedule,
     vt_free_node = (\<lambda>x. tl_free_node (nd_addr x)), vt_upcall = tl_upcall\<rparr>"

section \<open>The invariant\<close>

text \<open>The nodes from the first to the last, and what they hold.\<close>

definition tl_rep :: "'t timer_list \<Rightarrow> addr list \<Rightarrow> bool" where
  "tl_rep q xs \<longleftrightarrow> circ (tl_next q) (tl_prev q) (tl_head q) xs \<and> (\<forall>a \<in> set xs. tl_nodes q a \<noteq> None)"

abbreviation tl_node :: "'t timer_list \<Rightarrow> addr \<Rightarrow> 't timer_node" where
  "tl_node q a \<equiv> the (tl_nodes q a)"

abbreviation tl_due :: "'t timer_list \<Rightarrow> addr \<Rightarrow> time_value" where
  "tl_due q a \<equiv> nd_timer_value (tl_node q a)"

definition nodes_inv :: "'t timer_list \<Rightarrow> bool" where
  "nodes_inv q \<longleftrightarrow> tl_nodes q (tl_head q) = None \<and> tl_head q < tl_fresh_addr q \<and> 0 \<le> tl_id_counter q \<and>
     (\<forall>a n. tl_nodes q a = Some n \<longrightarrow> nd_addr n = a \<and> 0 \<le> nd_timer_id n \<and> nd_timer_id n < tl_id_counter q \<and> a < tl_fresh_addr q) \<and>
     (\<forall>a b n m. tl_nodes q a = Some n \<longrightarrow> tl_nodes q b = Some m \<longrightarrow> nd_timer_id n = nd_timer_id m \<longrightarrow> a = b)"

definition tl_good :: "'t timer_list \<Rightarrow> addr list \<Rightarrow> bool" where
  "tl_good q xs \<longleftrightarrow> tl_rep q xs \<and> nodes_inv q \<and> sorted_wrt (\<lambda>a b. tl_due q a \<le> tl_due q b) xs"

definition tl_inv :: "'t timer_list \<Rightarrow> bool" where
  "tl_inv q \<longleftrightarrow> (\<exists>xs. tl_good q xs)"

text \<open>The scheduled timers, as the iterator finds them.\<close>

definition tl_timers :: "'t timer_list \<Rightarrow> int \<Rightarrow> 't timer_node option" where
  "tl_timers q = map_of (map (\<lambda>n. (nd_timer_id n, n)) (the (tl_iterate q)))"

lemma tl_rep_basic:
  assumes "tl_rep q xs"
  shows "tl_next q (tl_head q) = first_ptr xs (Some (tl_head q))" "tl_prev q (tl_head q) = last_ptr (Some (tl_head q)) xs"
    "tl_get_first q = first_ptr xs None" "tl_is_empty q \<longleftrightarrow> xs = []" "tl_head q \<notin> set xs" "distinct xs"
proof -
  show 1: "tl_next q (tl_head q) = first_ptr xs (Some (tl_head q))" and "tl_prev q (tl_head q) = last_ptr (Some (tl_head q)) xs"
    using assms circ_head by (auto simp: tl_rep_def)
  show d: "tl_head q \<notin> set xs" "distinct xs" using assms by (simp_all add: tl_rep_def circ_def)
  show g: "tl_get_first q = first_ptr xs None" using 1 d by (cases xs) (simp_all add: tl_get_first_def)
  show "tl_is_empty q \<longleftrightarrow> xs = []" using g by (simp add: tl_is_empty_def)
qed

lemma tl_rep_next: "tl_rep q (ys @ a # zs) \<Longrightarrow> tl_get_next a q = first_ptr zs (Some (tl_head q))"
  using circ_next [of "tl_next q" "tl_prev q" "tl_head q" ys a zs] by (simp add: tl_rep_def tl_get_next_def tl_valid_def)

lemma tl_rep_prev: "tl_rep q (ys @ a # zs) \<Longrightarrow> tl_get_prev a q = last_ptr (Some (tl_head q)) ys"
  using circ_prev [of "tl_next q" "tl_prev q" "tl_head q" ys a zs] by (simp add: tl_rep_def tl_get_prev_def tl_valid_def)

lemma tl_iterate_rep: "tl_rep q xs \<Longrightarrow> tl_iterate q = Some (map (tl_node q) xs)"
proof -
  assume r: "tl_rep q xs"
  have "tl_iterate_from (first_ptr zs None) q = Some (map (tl_node q) zs)" if "xs = ys @ zs" for ys zs
    using that
  proof (induction zs arbitrary: ys)
    case Nil
    then show ?case by (simp add: tl_iterate_from.simps)
  next
    case (Cons a zs)
    have n: "tl_get_next a q = first_ptr zs (Some (tl_head q))" using tl_rep_next r Cons.prems by blast
    obtain m where m: "tl_nodes q a = Some m" using r Cons.prems by (auto simp: tl_rep_def)
    have "tl_head q \<notin> set zs" using tl_rep_basic(5) [OF r] Cons.prems by simp
    then obtain a' where "tl_get_next a q = Some a'" "(if a' = tl_head q then None else Some a') = first_ptr zs None"
      using n by (cases zs) simp_all
    moreover have "tl_iterate_from (first_ptr zs None) q = Some (map (tl_node q) zs)"
      using Cons.IH [of "ys @ [a]"] Cons.prems by simp
    ultimately show ?case using m by (subst tl_iterate_from.simps) simp
  qed
  from this [of "[]" xs] show ?thesis using tl_rep_basic(3) [OF r] by (simp add: tl_iterate_def)
qed

lemma tl_timers_iff:
  assumes "tl_rep q xs" and "nodes_inv q"
  shows "tl_timers q k = Some n \<longleftrightarrow> (\<exists>a \<in> set xs. tl_nodes q a = Some n \<and> nd_timer_id n = k)"
proof -
  let ?l = "map (\<lambda>n. (nd_timer_id n, n)) (map (tl_node q) xs)"
  have s: "\<forall>a \<in> set xs. \<exists>n. tl_nodes q a = Some n" using assms(1) by (auto simp: tl_rep_def)
  have "inj_on (\<lambda>a. nd_timer_id (tl_node q a)) (set xs)"
  proof (rule inj_onI)
    fix a b assume "a \<in> set xs" "b \<in> set xs" "nd_timer_id (tl_node q a) = nd_timer_id (tl_node q b)"
    moreover from this s obtain n m where "tl_nodes q a = Some n" "tl_nodes q b = Some m" by blast
    ultimately show "a = b" using assms(2) unfolding nodes_inv_def by (metis option.sel)
  qed
  then have "distinct (map fst ?l)"
    using tl_rep_basic(6) [OF assms(1)] by (simp add: distinct_map comp_def)
  then have "tl_timers q k = Some n \<longleftrightarrow> (k, n) \<in> set ?l"
    by (simp add: tl_timers_def tl_iterate_rep [OF assms(1)])
  also have "\<dots> \<longleftrightarrow> (\<exists>a \<in> set xs. tl_nodes q a = Some n \<and> nd_timer_id n = k)"
    using s by (auto simp: image_iff) (metis option.sel)+
  finally show ?thesis .
qed

section \<open>Linking and unlinking\<close>

lemma tl_valid_links [simp]:
  "tl_valid a (q\<lparr>tl_next := nx\<rparr>) = tl_valid a q" "tl_valid a (q\<lparr>tl_prev := pv\<rparr>) = tl_valid a q"
  by (simp_all add: tl_valid_def)

lemma tl_rep_valid: "tl_rep q xs \<Longrightarrow> a \<in> set (tl_head q # xs) \<Longrightarrow> tl_valid a q"
  by (auto simp: tl_rep_def tl_valid_def)

lemma tl_search_rep:
  assumes r: "tl_rep q (us @ vs)"
  shows "\<exists>ys zs. us = ys @ zs \<and> (\<forall>z \<in> set zs. expiry < tl_due q z) \<and> (ys = [] \<or> tl_due q (last ys) \<le> expiry) \<and>
    tl_search expiry (last (tl_head q # us)) q = Some (last (tl_head q # ys))"
  using r
proof (induction us arbitrary: vs rule: rev_induct)
  case Nil
  then show ?case by (simp add: tl_search.simps)
next
  case (snoc u us)
  have r: "tl_rep q (us @ u # vs)" using snoc.prems by simp
  have h: "u \<noteq> tl_head q" using tl_rep_basic(5) [OF r] by auto
  obtain n where n: "tl_nodes q u = Some n" using r by (auto simp: tl_rep_def)
  show ?case
  proof (cases "nd_timer_value n > expiry")
    case True
    obtain ys zs where yz: "us = ys @ zs" "\<forall>z \<in> set zs. expiry < tl_due q z" "ys = [] \<or> tl_due q (last ys) \<le> expiry"
      "tl_search expiry (last (tl_head q # us)) q = Some (last (tl_head q # ys))"
      using snoc.IH [OF r] by blast
    have "tl_get_prev u q = Some (last (tl_head q # us))"
      using tl_rep_prev [OF r] by (simp add: last_ptr_def)
    then have "tl_search expiry u q = Some (last (tl_head q # ys))"
      using h n True yz(4) by (subst tl_search.simps) simp
    then show ?thesis
      using yz(1-3) True n by (intro exI [of _ ys] exI [of _ "zs @ [u]"]) auto
  next
    case False
    then have "tl_search expiry u q = Some u" using h n by (subst tl_search.simps) simp
    then show ?thesis using False n by (intro exI [of _ "us @ [u]"] exI [of _ "[]"]) (simp add: not_less)
  qed
qed

lemma tl_insert_rep:
  assumes r: "tl_rep q xs" and a: "tl_nodes q a \<noteq> None" "a \<notin> set (tl_head q # xs)"
  obtains ys zs nx pv where "xs = ys @ zs" "\<forall>z \<in> set zs. expiry < tl_due q z" "ys = [] \<or> tl_due q (last ys) \<le> expiry"
    "tl_insert a expiry q = Some (q\<lparr>tl_next := nx, tl_prev := pv\<rparr>)" "tl_rep (q\<lparr>tl_next := nx, tl_prev := pv\<rparr>) (ys @ a # zs)"
proof -
  let ?h = "tl_head q"
  obtain ys zs where yz: "xs = ys @ zs" "\<forall>z \<in> set zs. expiry < tl_due q z" "ys = [] \<or> tl_due q (last ys) \<le> expiry"
    "tl_search expiry (last (?h # xs)) q = Some (last (?h # ys))"
    using tl_search_rep [of q xs "[]"] r unfolding append_Nil2 by blast
  define p s where "p = last (?h # ys)" and "s = hd (zs @ [?h])"
  have ps: "p \<in> set (?h # xs)" "s \<in> set (?h # xs)"
    using yz(1) by (auto simp: p_def s_def last_ConsR intro: last_in_set) (cases zs; simp)+
  then have v: "tl_valid p q" "tl_valid s q" "tl_valid ?h q" "tl_valid a q"
    using tl_rep_valid [OF r] a(1) by (auto simp: tl_valid_def)
  have ne: "a \<noteq> p" "a \<noteq> s" "a \<noteq> ?h" using ps a(2) by auto
  let ?nx = "(tl_next q)(a := Some s, p := Some a)"
  let ?pv = "(tl_prev q)(a := Some p, s := Some a)"
  have c: "circ (tl_next q) (tl_prev q) ?h (ys @ zs)" using r yz(1) by (simp add: tl_rep_def)
  have nxp: "tl_next q p = Some s" and c': "circ ?nx ?pv ?h (ys @ a # zs)"
    using circ_insert [OF c, of a] a(2) yz(1) by (simp_all add: p_def s_def)
  have sw: "q\<lparr>tl_prev := x, tl_next := y\<rparr> = q\<lparr>tl_next := y, tl_prev := x\<rparr>" for x y
    by (rule timer_list.equality) simp_all
  have "tl_insert a expiry q = Some (q\<lparr>tl_next := ?nx, tl_prev := ?pv\<rparr>)"
  proof (cases "xs = []")
    case True
    then have "p = ?h" "s = ?h" using yz(1) by (simp_all add: p_def s_def)
    then show ?thesis
      using True tl_rep_basic(4) [OF r] v ne sw
      by (simp add: tl_insert_def tl_set_prev_def tl_set_next_def Let_def)
  next
    case False
    obtain l where l: "tl_get_prev ?h q = Some l" "tl_search expiry l q = Some p"
      using tl_rep_basic(2) [OF r] v(3) yz(4) by (cases "xs = []") (auto simp: tl_get_prev_def last_ptr_def p_def)
    have "\<not> tl_is_empty q" using False tl_rep_basic(4) [OF r] by simp
    then show ?thesis
      using l v ne nxp sw by (simp add: tl_insert_def tl_set_prev_def tl_set_next_def tl_get_next_def Let_def)
  qed
  moreover have "tl_rep (q\<lparr>tl_next := ?nx, tl_prev := ?pv\<rparr>) (ys @ a # zs)"
    using c' r a(1) yz(1) by (auto simp: tl_rep_def)
  ultimately show ?thesis using that yz(1-3) by blast
qed

lemma tl_unlink_rep:
  assumes r: "tl_rep q (ys @ a # zs)"
  obtains nx pv where "tl_unlink a q = Some (q\<lparr>tl_next := nx, tl_prev := pv\<rparr>)" "tl_rep (q\<lparr>tl_next := nx, tl_prev := pv\<rparr>) (ys @ zs)"
proof -
  let ?h = "tl_head q"
  define p s where "p = last (?h # ys)" and "s = hd (zs @ [?h])"
  have c: "circ (tl_next q) (tl_prev q) ?h (ys @ a # zs)" using r by (simp add: tl_rep_def)
  have d: "tl_prev q a = Some p" "tl_next q a = Some s" "p \<noteq> a" "s \<noteq> a"
    "circ ((tl_next q)(p := Some s, a := None)) ((tl_prev q)(s := Some p, a := None)) ?h (ys @ zs)"
    using circ_remove [OF c] by (simp_all add: p_def s_def)
  have "p \<in> set (?h # ys @ a # zs)" "s \<in> set (?h # ys @ a # zs)"
    by (auto simp: p_def s_def last_ConsR intro: last_in_set) (cases zs; simp)+
  then have v: "tl_valid p q" "tl_valid s q" "tl_valid a q"
    using tl_rep_valid [OF r] by auto
  let ?q = "q\<lparr>tl_next := (tl_next q)(p := Some s, a := None), tl_prev := (tl_prev q)(s := Some p, a := None)\<rparr>"
  have "tl_unlink a q = Some ?q"
    using d(1-4) v by (simp add: tl_unlink_def tl_get_prev_def tl_get_next_def tl_set_prev_def tl_set_next_def fun_upd_twist)
  moreover have "tl_rep ?q (ys @ zs)" using d(5) r by (simp add: tl_rep_def)
  ultimately show ?thesis using that by blast
qed

section \<open>What the operations do to the timers\<close>

lemma tl_goodD:
  assumes "tl_good q xs"
  shows "tl_rep q xs" "nodes_inv q" "sorted_wrt (\<lambda>a b. tl_due q a \<le> tl_due q b) xs"
  using assms by (simp_all add: tl_good_def)

lemma tl_timers_eq:
  assumes "tl_good q xs" and "\<And>k n. m k = Some n \<longleftrightarrow> (\<exists>a \<in> set xs. tl_nodes q a = Some n \<and> nd_timer_id n = k)"
  shows "tl_timers q = m"
proof
  fix k
  have "tl_timers q k = Some n \<longleftrightarrow> m k = Some n" for n
    using tl_timers_iff [OF tl_goodD(1) [OF assms(1)] tl_goodD(2) [OF assms(1)]] assms(2) by blast
  then show "tl_timers q k = m k" by (metis not_None_eq)
qed

lemma tl_timers_good:
  "tl_good q xs \<Longrightarrow> tl_timers q k = Some n \<longleftrightarrow> (\<exists>a \<in> set xs. tl_nodes q a = Some n \<and> nd_timer_id n = k)"
  using tl_timers_iff tl_goodD by blast

lemma tl_timers_same:
  assumes "tl_good q xs" and "tl_good q' xs" and "\<And>a. a \<in> set xs \<Longrightarrow> tl_nodes q' a = tl_nodes q a"
  shows "tl_timers q' = tl_timers q"
proof (rule tl_timers_eq [OF assms(2)])
  fix k n
  have "(\<exists>b \<in> set xs. tl_nodes q' b = Some n \<and> nd_timer_id n = k) \<longleftrightarrow> (\<exists>b \<in> set xs. tl_nodes q b = Some n \<and> nd_timer_id n = k)"
    by (rule bex_cong) (use assms(3) in auto)
  then show "tl_timers q k = Some n \<longleftrightarrow> (\<exists>b \<in> set xs. tl_nodes q' b = Some n \<and> nd_timer_id n = k)"
    using tl_timers_good [OF assms(1)] by simp
qed

lemma nodes_invD:
  assumes "nodes_inv q" and "tl_nodes q a = Some n"
  shows "nd_addr n = a" "0 \<le> nd_timer_id n" "nd_timer_id n < tl_id_counter q" "a < tl_fresh_addr q" "a \<noteq> tl_head q"
  using assms unfolding nodes_inv_def by (metis option.distinct(1))+

lemma nodes_inv_inj:
  "nodes_inv q \<Longrightarrow> tl_nodes q a = Some n \<Longrightarrow> tl_nodes q b = Some m \<Longrightarrow> nd_timer_id n = nd_timer_id m \<Longrightarrow> a = b"
  unfolding nodes_inv_def by blast

lemma nodes_inv_links: "nodes_inv (q\<lparr>tl_next := nx, tl_prev := pv\<rparr>) = nodes_inv q"
  by (simp add: nodes_inv_def)

lemma tl_insert_good:
  assumes g: "tl_good q xs" and a: "tl_nodes q a = Some n" "a \<notin> set xs"
  obtains ys zs nx pv where "xs = ys @ zs" "\<forall>z \<in> set zs. due n < tl_due q z" "\<forall>y \<in> set ys. tl_due q y \<le> due n"
    "tl_insert a (due n) q = Some (q\<lparr>tl_next := nx, tl_prev := pv\<rparr>)" "tl_good (q\<lparr>tl_next := nx, tl_prev := pv\<rparr>) (ys @ a # zs)"
proof -
  note g' = tl_goodD [OF g]
  have ah: "a \<noteq> tl_head q" using nodes_invD(5) [OF g'(2) a(1)] .
  obtain ys zs nx pv where yz: "xs = ys @ zs" "\<forall>z \<in> set zs. due n < tl_due q z" "ys = [] \<or> tl_due q (last ys) \<le> due n"
    "tl_insert a (due n) q = Some (q\<lparr>tl_next := nx, tl_prev := pv\<rparr>)" "tl_rep (q\<lparr>tl_next := nx, tl_prev := pv\<rparr>) (ys @ a # zs)"
    by (rule tl_insert_rep [OF g'(1), of a "due n"]) (use a ah in auto)
  have before: "\<forall>y \<in> set ys. tl_due q y \<le> due n"
  proof (cases ys rule: rev_cases)
    case (snoc us u)
    then show ?thesis using g'(3) yz(1,3) by (auto simp: sorted_wrt_append)
  qed simp
  have "sorted_wrt (\<lambda>a b. tl_due q a \<le> tl_due q b) (ys @ a # zs)"
    using g'(3) yz(1,2) before a(1) by (fastforce simp: sorted_wrt_append)
  then show ?thesis
    using that [OF yz(1,2) before yz(4)] yz(5) g'(2) by (simp add: tl_good_def nodes_inv_links)
qed

lemma tl_insert_timers:
  assumes "tl_good q (ys @ zs)" and "tl_good (q\<lparr>tl_next := nx, tl_prev := pv\<rparr>) (ys @ a # zs)" and "tl_nodes q a = Some n"
  shows "tl_timers (q\<lparr>tl_next := nx, tl_prev := pv\<rparr>) = (tl_timers q)(nd_timer_id n \<mapsto> n)"
proof (rule tl_timers_eq [OF assms(2)])
  fix k m
  have "a \<notin> set (ys @ zs)" using tl_rep_basic(6) [OF tl_goodD(1) [OF assms(2)]] by simp
  then have "b \<in> set (ys @ zs) \<Longrightarrow> tl_nodes q b = Some m \<Longrightarrow> nd_timer_id m \<noteq> nd_timer_id n" for b m
    using nodes_inv_inj [OF tl_goodD(2) [OF assms(1)] _ assms(3)] by blast
  then show "((tl_timers q)(nd_timer_id n \<mapsto> n)) k = Some m \<longleftrightarrow>
      (\<exists>b \<in> set (ys @ a # zs). tl_nodes (q\<lparr>tl_next := nx, tl_prev := pv\<rparr>) b = Some m \<and> nd_timer_id m = k)"
    using tl_timers_good [OF assms(1), of k m] assms(3) by (cases "k = nd_timer_id n") auto
qed

lemma tl_unlink_good:
  assumes g: "tl_good q (ys @ a # zs)" and n: "tl_nodes q a = Some n"
  obtains nx pv where "tl_unlink a q = Some (q\<lparr>tl_next := nx, tl_prev := pv\<rparr>)" "tl_good (q\<lparr>tl_next := nx, tl_prev := pv\<rparr>) (ys @ zs)"
    "tl_timers (q\<lparr>tl_next := nx, tl_prev := pv\<rparr>) = (tl_timers q)(nd_timer_id n := None)" "tl_timers q (nd_timer_id n) = Some n"
proof -
  note g' = tl_goodD [OF g]
  obtain nx pv where u: "tl_unlink a q = Some (q\<lparr>tl_next := nx, tl_prev := pv\<rparr>)" "tl_rep (q\<lparr>tl_next := nx, tl_prev := pv\<rparr>) (ys @ zs)"
    using tl_unlink_rep [OF g'(1)] .
  let ?q = "q\<lparr>tl_next := nx, tl_prev := pv\<rparr>"
  have good: "tl_good ?q (ys @ zs)"
    using u(2) g'(2,3) by (simp add: tl_good_def nodes_inv_links sorted_wrt_append)
  have "a \<notin> set (ys @ zs)" using tl_rep_basic(6) [OF g'(1)] by simp
  then have other: "b \<in> set (ys @ zs) \<Longrightarrow> tl_nodes q b = Some m \<Longrightarrow> nd_timer_id m \<noteq> nd_timer_id n" for b m
    using nodes_inv_inj [OF g'(2) _ n] by blast
  have "tl_timers ?q = (tl_timers q)(nd_timer_id n := None)"
  proof (rule tl_timers_eq [OF good])
    fix k m
    show "((tl_timers q)(nd_timer_id n := None)) k = Some m \<longleftrightarrow>
        (\<exists>b \<in> set (ys @ zs). tl_nodes ?q b = Some m \<and> nd_timer_id m = k)"
      using other tl_timers_good [OF g, of k m] n by (cases "k = nd_timer_id n") auto
  qed
  moreover have "tl_timers q (nd_timer_id n) = Some n" using tl_timers_good [OF g] n by auto
  ultimately show ?thesis using that u(1) good by blast
qed

text \<open>A node that is allocated but not in the list: it was taken out and is to be given back.\<close>

definition tl_out :: "'t timer_list \<Rightarrow> 't timer_node \<Rightarrow> bool" where
  "tl_out q x \<longleftrightarrow> (\<exists>n. tl_nodes q (nd_addr x) = Some n \<and> nd_timer_id n = nd_timer_id x) \<and> tl_timers q (nd_timer_id x) = None"

lemma tl_out_not_linked: "tl_good q xs \<Longrightarrow> tl_out q x \<Longrightarrow> nd_addr x \<notin> set xs"
  using tl_timers_good [of q xs "nd_timer_id x"] by (metis tl_out_def option.distinct(1))

text \<open>Writing a node that is not in the list, and freeing one.\<close>

lemma tl_store_good:
  assumes g: "tl_good q xs" and a: "a \<notin> set xs" and n: "tl_nodes q a = Some n"
    and m: "m = None \<or> (\<exists>x. m = Some x \<and> nd_addr x = a \<and> nd_timer_id x = nd_timer_id n)"
  shows "tl_good (q\<lparr>tl_nodes := (tl_nodes q)(a := m)\<rparr>) xs" "tl_timers (q\<lparr>tl_nodes := (tl_nodes q)(a := m)\<rparr>) = tl_timers q"
proof -
  let ?q = "q\<lparr>tl_nodes := (tl_nodes q)(a := m)\<rparr>"
  note g' = tl_goodD [OF g]
  have "nodes_inv ?q"
    using nodes_invD [OF g'(2) n] nodes_inv_inj [OF g'(2) _ n] nodes_inv_inj [OF g'(2) n] m g'(2)
    unfolding nodes_inv_def by (auto; metis)
  moreover have "tl_rep ?q xs" using g'(1) a by (auto simp: tl_rep_def)
  moreover have "sorted_wrt (\<lambda>a b. tl_due ?q a \<le> tl_due ?q b) xs"
    using g'(3) a by (auto intro: sorted_wrt_mono_rel [rotated])
  ultimately show good: "tl_good ?q xs" by (simp add: tl_good_def)
  show "tl_timers ?q = tl_timers q"
    by (rule tl_timers_same [OF g good]) (use a in auto)
qed

lemma tl_schedule_good:
  fixes type :: 't and act :: addr and time interval :: time_value
  assumes g: "tl_good (q :: 't timer_list) xs" and c: "tl_id_counter q < 2 ^ 63 - 1"
  defines "x \<equiv> \<lparr>nd_addr = tl_fresh_addr q, nd_type = type, nd_act = act, nd_timer_value = time, nd_interval = interval,
    nd_timer_id = tl_id_counter q\<rparr>"
  obtains ys zs q' where "tl_schedule_i True type act time interval q = Some (tl_id_counter q, q')" "xs = ys @ zs"
    "tl_good q' (ys @ tl_fresh_addr q # zs)" "\<forall>z \<in> set zs. time < tl_due q z" "\<forall>y \<in> set ys. tl_due q y \<le> time"
    "tl_timers q' = (tl_timers q)(tl_id_counter q \<mapsto> x)" "tl_timers q (tl_id_counter q) = None"
    "tl_nodes q' = (tl_nodes q)(tl_fresh_addr q \<mapsto> x)" "tl_upcalls q' = tl_upcalls q"
    "tl_id_counter q' = tl_id_counter q + 1" "tl_fresh_addr q' = tl_fresh_addr q + 1"
proof -
  let ?a = "tl_fresh_addr q" and ?k = "tl_id_counter q"
  define q1 where "q1 = q\<lparr>tl_fresh_addr := ?a + 1, tl_id_counter := ?k + 1, tl_nodes := (tl_nodes q)(?a \<mapsto> x),
    tl_next := (tl_next q)(?a := None), tl_prev := (tl_prev q)(?a := None)\<rparr>"
  note g' = tl_goodD [OF g]
  have fresh: "tl_nodes q ?a = None" "?a \<noteq> tl_head q"
    using nodes_invD(4) [OF g'(2), of ?a] by (cases "tl_nodes q ?a"; force) (use g'(2) in \<open>auto simp: nodes_inv_def\<close>)
  then have a: "?a \<notin> set (tl_head q # xs)" using g'(1) by (auto simp: tl_rep_def)
  have k: "0 \<le> ?k" using g'(2) by (simp add: nodes_inv_def)
  have e: "b = ?a \<and> n = x \<or> b \<noteq> ?a \<and> tl_nodes q b = Some n" if "tl_nodes q1 b = Some n" for b n
    using that by (auto simp: q1_def split: if_splits)
  have below: "nd_timer_id n < ?k" if "tl_nodes q b = Some n" for b n using nodes_invD(3) [OF g'(2) that] .
  have "nodes_inv q1"
    unfolding nodes_inv_def
  proof (intro conjI allI impI)
    show "tl_nodes q1 (tl_head q1) = None" "tl_head q1 < tl_fresh_addr q1" "0 \<le> tl_id_counter q1"
      using g'(2) fresh k by (auto simp: q1_def nodes_inv_def)
  next
    fix b n assume "tl_nodes q1 b = Some n"
    then consider "b = ?a" "n = x" | "tl_nodes q b = Some n" using e by blast
    then show "nd_addr n = b" "0 \<le> nd_timer_id n" "nd_timer_id n < tl_id_counter q1" "b < tl_fresh_addr q1"
      by (cases; use k nodes_invD [OF g'(2), of b n] in \<open>simp add: q1_def x_def\<close>)+
  next
    fix b c n m
    assume n: "tl_nodes q1 b = Some n" and m: "tl_nodes q1 c = Some m" and id: "nd_timer_id n = nd_timer_id m"
    have x: "nd_timer_id x = ?k" by (simp add: x_def)
    show "b = c"
      using e [OF n] e [OF m] id x below nodes_inv_inj [OF g'(2)] by (metis less_irrefl)
  qed
  moreover have "circ (tl_next q1) (tl_prev q1) (tl_head q1) xs = circ (tl_next q) (tl_prev q) (tl_head q) xs"
    unfolding q1_def by (simp, rule circ_cong) (use a in auto)
  then have "tl_rep q1 xs" using g'(1) a by (auto simp: tl_rep_def q1_def)
  moreover have "sorted_wrt (\<lambda>a b. tl_due q1 a \<le> tl_due q1 b) xs"
    using g'(3) a by (auto simp: q1_def intro: sorted_wrt_mono_rel [rotated])
  ultimately have good1: "tl_good q1 xs" by (simp add: tl_good_def)
  have same: "tl_due q1 z = tl_due q z" if "z \<in> set xs" for z using that a by (auto simp: q1_def)
  have t1: "tl_timers q1 = tl_timers q"
    by (rule tl_timers_same [OF g good1]) (use a in \<open>auto simp: q1_def\<close>)
  have x1: "tl_nodes q1 ?a = Some x" by (simp add: q1_def)
  obtain ys zs nx pv where i: "xs = ys @ zs" "\<forall>z \<in> set zs. due x < tl_due q1 z" "\<forall>y \<in> set ys. tl_due q1 y \<le> due x"
    "tl_insert ?a (due x) q1 = Some (q1\<lparr>tl_next := nx, tl_prev := pv\<rparr>)" "tl_good (q1\<lparr>tl_next := nx, tl_prev := pv\<rparr>) (ys @ ?a # zs)"
    by (rule tl_insert_good [OF good1 x1]) (use a in auto)
  have t: "tl_timers (q1\<lparr>tl_next := nx, tl_prev := pv\<rparr>) = (tl_timers q)(?k \<mapsto> x)"
    using tl_insert_timers [OF good1 [unfolded i(1)] i(5) x1] t1 by (simp add: x_def)
  have none: "tl_timers q ?k = None"
    using tl_timers_good [OF g, of ?k] nodes_invD(3) [OF g'(2)] by (cases "tl_timers q ?k") fastforce+
  have "tl_schedule_i True type act time interval q = Some (?k, q1\<lparr>tl_next := nx, tl_prev := pv\<rparr>)"
    using i(4) c k by (simp add: tl_schedule_i_def q1_def x_def Let_def)
  then show ?thesis
    using that [of "q1\<lparr>tl_next := nx, tl_prev := pv\<rparr>" ys zs] i same t none by (simp add: q1_def x_def)
qed

lemma tl_good_cons:
  assumes "tl_good q (a # xs)"
  obtains n where "tl_nodes q a = Some n" "tl_get_first q = Some a" "\<not> tl_is_empty q" "tl_earliest_time q = Some (due n)"
    "\<And>k m. tl_timers q k = Some m \<Longrightarrow> due n \<le> due m"
proof -
  note g = tl_goodD [OF assms]
  have "tl_nodes q a \<noteq> None" using g(1) by (simp add: tl_rep_def)
  then obtain n where n: "tl_nodes q a = Some n" by blast
  have f: "tl_get_first q = Some a" using tl_rep_basic(3) [OF g(1)] by simp
  have e: "\<not> tl_is_empty q" using f by (simp add: tl_is_empty_def)
  have first: "due n \<le> due m" if m: "tl_timers q k = Some m" for k m
  proof -
    obtain b where b: "b \<in> set (a # xs)" "tl_nodes q b = Some m" using tl_timers_good [OF assms, of k m] m by blast
    show ?thesis
    proof (cases "b = a")
      case True
      then show ?thesis using b(2) n by simp
    next
      case False
      then have "b \<in> set xs" using b(1) by simp
      then have "tl_due q a \<le> tl_due q b" using g(3) by simp
      then show ?thesis using b(2) n by simp
    qed
  qed
  have "tl_earliest_time q = Some (due n)" using n f by (simp add: tl_earliest_time_def)
  then show ?thesis by (rule that [OF n f e _ first])
qed

lemma tl_empty_timers: "tl_good q xs \<Longrightarrow> tl_timers q = (\<lambda>_. None) \<longleftrightarrow> xs = []"
proof -
  assume g: "tl_good q xs"
  show ?thesis
  proof
    assume t: "tl_timers q = (\<lambda>_. None)"
    show "xs = []"
    proof (cases xs)
      case (Cons a ys)
      then obtain n where "tl_nodes q a = Some n" using tl_goodD(1) [OF g] by (auto simp: tl_rep_def)
      then show ?thesis using tl_timers_good [OF g, of "nd_timer_id n" n] t Cons by auto
    qed
  next
    assume "xs = []"
    then show "tl_timers q = (\<lambda>_. None)" using tl_timers_good [OF g] by (metis empty_iff list.set(1) not_None_eq)
  qed
qed

lemma tl_remove_first_good:
  assumes g: "tl_good q (a # xs)"
  obtains n q' where "tl_remove_first q = Some (Some n, q')" "tl_nodes q a = Some n" "tl_good q' xs"
    "tl_timers q' = (tl_timers q)(nd_timer_id n := None)" "tl_timers q (nd_timer_id n) = Some n" "tl_nodes q' = tl_nodes q"
    "tl_out q' n"
proof -
  obtain n where n: "tl_nodes q a = Some n" "tl_get_first q = Some a" by (rule tl_good_cons [OF g])
  obtain nx pv where u: "tl_unlink a q = Some (q\<lparr>tl_next := nx, tl_prev := pv\<rparr>)" "tl_good (q\<lparr>tl_next := nx, tl_prev := pv\<rparr>) xs"
    "tl_timers (q\<lparr>tl_next := nx, tl_prev := pv\<rparr>) = (tl_timers q)(nd_timer_id n := None)" "tl_timers q (nd_timer_id n) = Some n"
    by (rule tl_unlink_good [of q "[]" a xs n]) (use g n in simp_all)
  have "nd_addr n = a" using nodes_invD(1) [OF tl_goodD(2) [OF g] n(1)] .
  then show ?thesis
    using that [of n "q\<lparr>tl_next := nx, tl_prev := pv\<rparr>"] u n by (simp add: tl_remove_first_def tl_out_def)
qed

lemma tl_reschedule_good:
  assumes g: "tl_good q xs" and out: "tl_out q x"
  obtains ys zs q' where "tl_reschedule x q = Some q'" "xs = ys @ zs" "tl_good q' (ys @ nd_addr x # zs)"
    "tl_timers q' = (tl_timers q)(nd_timer_id x \<mapsto> x)" "tl_nodes q' = (tl_nodes q)(nd_addr x \<mapsto> x)"
    "\<forall>z \<in> set zs. due x < tl_due q z" "\<forall>y \<in> set ys. tl_due q y \<le> due x"
proof -
  let ?a = "nd_addr x"
  have a: "?a \<notin> set xs" by (rule tl_out_not_linked [OF g out])
  obtain n where n: "tl_nodes q ?a = Some n" "nd_timer_id n = nd_timer_id x" using out by (auto simp: tl_out_def)
  let ?q = "q\<lparr>tl_nodes := (tl_nodes q)(?a := Some x)\<rparr>"
  have g1: "tl_good ?q xs" "tl_timers ?q = tl_timers q"
    using tl_store_good [OF g a n(1), of "Some x"] n(2) by simp_all
  have x1: "tl_nodes ?q ?a = Some x" by simp
  obtain ys zs nx pv where i: "xs = ys @ zs" "\<forall>z \<in> set zs. due x < tl_due ?q z" "\<forall>y \<in> set ys. tl_due ?q y \<le> due x"
    "tl_insert ?a (due x) ?q = Some (?q\<lparr>tl_next := nx, tl_prev := pv\<rparr>)" "tl_good (?q\<lparr>tl_next := nx, tl_prev := pv\<rparr>) (ys @ ?a # zs)"
    by (rule tl_insert_good [OF g1(1) x1 a])
  have t: "tl_timers (?q\<lparr>tl_next := nx, tl_prev := pv\<rparr>) = (tl_timers q)(nd_timer_id x \<mapsto> x)"
    using tl_insert_timers [OF g1(1) [unfolded i(1)] i(5) x1] g1(2) by simp
  have "tl_reschedule x q = Some (?q\<lparr>tl_next := nx, tl_prev := pv\<rparr>)"
    using i(4) n(1) by (simp add: tl_reschedule_def tl_set_node_def)
  moreover have "\<forall>z \<in> set zs. due x < tl_due q z" "\<forall>y \<in> set ys. tl_due q y \<le> due x"
    using i(1-3) a by (auto split: if_splits)
  ultimately show ?thesis using that [of "?q\<lparr>tl_next := nx, tl_prev := pv\<rparr>"] i(1,5) t by simp
qed

lemma tl_free_good:
  assumes g: "tl_good q xs" and out: "tl_out q x"
  obtains q' where "tl_free_node (nd_addr x) q = Some q'" "tl_good q' xs" "tl_timers q' = tl_timers q"
    "tl_nodes q' = (tl_nodes q)(nd_addr x := None)"
proof -
  obtain n where n: "tl_nodes q (nd_addr x) = Some n" using out by (auto simp: tl_out_def)
  have a: "nd_addr x \<notin> set xs" by (rule tl_out_not_linked [OF g out])
  show ?thesis
    using that [of "q\<lparr>tl_nodes := (tl_nodes q)(nd_addr x := None)\<rparr>"] tl_store_good [OF g a n, of None] n
    by (simp add: tl_free_node_def)
qed

section \<open>The timer list as a container\<close>

interpretation list: timer_queue list_vt tl_inv tl_timers tl_out
proof unfold_locales
  fix q :: "'t timer_list" assume inv: "tl_inv q"
  then obtain xs where g: "tl_good q xs" by (auto simp: tl_inv_def)
  show "vt_is_empty list_vt q \<longleftrightarrow> tl_timers q = (\<lambda>_. None)"
    using tl_empty_timers [OF g] tl_rep_basic(4) [OF tl_goodD(1) [OF g]] by (simp add: list_vt_def)
  show "nd_timer_id x = k" if "tl_timers q k = Some x" for k x using tl_timers_good [OF g] that by blast
  have "dom (tl_timers q) \<subseteq> (\<lambda>a. nd_timer_id (tl_node q a)) ` set xs"
    using tl_timers_good [OF g] by (force simp: image_iff)
  then show "finite (dom (tl_timers q))" by (rule finite_subset) simp
next
  fix q :: "'t timer_list" assume inv: "tl_inv q" and ne: "tl_timers q \<noteq> (\<lambda>_. None)"
  then obtain a xs where g: "tl_good q (a # xs)"
    using tl_empty_timers by (metis list.exhaust tl_inv_def)
  obtain n q' where r: "tl_remove_first q = Some (Some n, q')" "tl_nodes q a = Some n" "tl_good q' xs"
    "tl_timers q' = (tl_timers q)(nd_timer_id n := None)" "tl_timers q (nd_timer_id n) = Some n" "tl_out q' n"
    by (rule tl_remove_first_good [OF g])
  obtain m where "tl_nodes q a = Some m" "tl_earliest_time q = Some (due m)" "\<And>k y. tl_timers q k = Some y \<Longrightarrow> due m \<le> due y"
    by (rule tl_good_cons [OF g]) blast
  then show "\<exists>x q'. vt_earliest_time list_vt q = Some (due x) \<and> vt_remove_first list_vt q = Some (Some x, q')
      \<and> tl_timers q (nd_timer_id x) = Some x \<and> (\<forall>k y. tl_timers q k = Some y \<longrightarrow> due x \<le> due y)
      \<and> tl_inv q' \<and> tl_timers q' = (tl_timers q)(nd_timer_id x := None) \<and> tl_out q' x"
    using r by (intro exI [of _ n] exI [of _ q']) (auto simp: list_vt_def tl_inv_def)
next
  fix q :: "'t timer_list" and x :: "'t timer_node" and t
  show "tl_out q x \<Longrightarrow> tl_out q (x\<lparr>nd_timer_value := t\<rparr>)" by (simp add: tl_out_def)
next
  fix q :: "'t timer_list" and x :: "'t timer_node" assume inv: "tl_inv q" and out: "tl_out q x"
  obtain xs where g: "tl_good q xs" using inv by (auto simp: tl_inv_def)
  show "\<exists>q'. vt_reschedule list_vt x q = Some q' \<and> tl_inv q' \<and> tl_timers q' = (tl_timers q)(nd_timer_id x \<mapsto> x)"
    by (rule tl_reschedule_good [OF g out]) (auto simp: list_vt_def tl_inv_def)
  show "\<exists>q'. vt_free_node list_vt x q = Some q' \<and> tl_inv q' \<and> tl_timers q' = tl_timers q"
    by (rule tl_free_good [OF g out]) (auto simp: list_vt_def tl_inv_def)
qed

end
