(* ===== verification/Timer_List_Spec.thy ===== *)
theory Timer_List_Spec
  imports Timer_List
begin

text \<open>
  The timer list against the contract of the timer heap: lookup by id, cancellation by id and by
  type, the interval reset, the closing, the simulation of the contract \<open>tq_step\<close>, and the
  properties of the list.
\<close>

section \<open>Lookup\<close>

lemma tl_find_from_rep:
  assumes "tl_rep q (ys @ zs)"
  shows "tl_find_from k (hd (zs @ [tl_head q])) q = Some (List.find (\<lambda>a. nd_timer_id (tl_node q a) = k) zs)"
  using assms
proof (induction zs arbitrary: ys)
  case Nil
  then show ?case by (simp add: tl_find_from.simps)
next
  case (Cons a zs)
  have h: "a \<noteq> tl_head q" using tl_rep_basic(5) [OF Cons.prems] by auto
  have "tl_nodes q a \<noteq> None" using Cons.prems by (simp add: tl_rep_def)
  then obtain n where n: "tl_nodes q a = Some n" by blast
  have "tl_get_next a q = Some (hd (zs @ [tl_head q]))"
    using tl_rep_next [OF Cons.prems] by (cases zs) simp_all
  moreover have "tl_find_from k (hd (zs @ [tl_head q])) q = Some (List.find (\<lambda>a. nd_timer_id (tl_node q a) = k) zs)"
    using Cons.IH [of "ys @ [a]"] Cons.prems by simp
  ultimately show ?case using h n by (subst tl_find_from.simps) simp
qed

lemma tl_find_node_good:
  assumes g: "tl_good q xs"
  shows "tl_find_node k q = Some (map_option nd_addr (tl_timers q k))"
proof -
  note g' = tl_goodD [OF g]
  have f: "tl_find_node k q = Some (List.find (\<lambda>a. nd_timer_id (tl_node q a) = k) xs)"
    using tl_find_from_rep [of q "[]" xs k] g'(1) tl_rep_basic(3) [OF g'(1)]
    by (cases xs) (simp_all add: tl_find_node_def)
  show ?thesis
  proof (cases "tl_timers q k")
    case None
    have "nd_timer_id (tl_node q a) \<noteq> k" if a: "a \<in> set xs" for a
    proof -
      have "tl_nodes q a \<noteq> None" using g'(1) a by (simp add: tl_rep_def)
      then show ?thesis using tl_timers_good [OF g, of k "tl_node q a"] None a by auto
    qed
    then show ?thesis using f None by (simp add: find_None_iff)
  next
    case (Some n)
    then obtain a where a: "a \<in> set xs" "tl_nodes q a = Some n" "nd_timer_id n = k"
      using tl_timers_good [OF g, of k n] by blast
    obtain b where b: "List.find (\<lambda>a. nd_timer_id (tl_node q a) = k) xs = Some b"
      using a find_None_iff [of "\<lambda>a. nd_timer_id (tl_node q a) = k" xs] by (metis option.collapse option.sel)
    then have b': "b \<in> set xs" "nd_timer_id (tl_node q b) = k" by (auto simp: find_Some_iff)
    then have "tl_nodes q b \<noteq> None" using g'(1) by (simp add: tl_rep_def)
    then have "b = a" using nodes_inv_inj [OF g'(2) _ a(2), of b "tl_node q b"] b'(2) a(3) by simp
    then show ?thesis using f b Some nodes_invD(1) [OF g'(2) a(2)] by simp
  qed
qed

text \<open>The node of a scheduled timer, with the nodes before and behind it.\<close>

lemma tl_timers_split:
  assumes "tl_good q xs" and "tl_timers q k = Some n"
  obtains ys zs where "xs = ys @ nd_addr n # zs" "tl_nodes q (nd_addr n) = Some n" "nd_timer_id n = k"
proof -
  obtain a where a: "a \<in> set xs" "tl_nodes q a = Some n" "nd_timer_id n = k"
    using tl_timers_good [OF assms(1), of k n] assms(2) by blast
  have "nd_addr n = a" using nodes_invD(1) [OF tl_goodD(2) [OF assms(1)] a(2)] .
  then show ?thesis using that a split_list [OF a(1)] by blast
qed

section \<open>The nodes taken out\<close>

definition tl_limbo :: "'t timer_list \<Rightarrow> int \<Rightarrow> bool" where
  "tl_limbo q k \<longleftrightarrow> (\<exists>a n. tl_nodes q a = Some n \<and> nd_timer_id n = k) \<and> tl_timers q k = None"

lemma tl_out_limbo: "tl_out q x \<Longrightarrow> tl_limbo q (nd_timer_id x)"
  by (auto simp: tl_out_def tl_limbo_def)

definition tl_has :: "'t timer_list \<Rightarrow> int \<Rightarrow> bool" where
  "tl_has q k \<longleftrightarrow> (\<exists>a n. tl_nodes q a = Some n \<and> nd_timer_id n = k)"

lemma tl_limbo_has: "tl_limbo q k \<longleftrightarrow> tl_has q k \<and> tl_timers q k = None"
  by (simp add: tl_limbo_def tl_has_def)

lemma tl_has_free:
  assumes g: "nodes_inv q" and a: "tl_nodes q a = Some n" and q': "tl_nodes q' = (tl_nodes q)(a := None)"
  shows "tl_has q' k \<longleftrightarrow> tl_has q k \<and> k \<noteq> nd_timer_id n"
proof
  assume "tl_has q' k"
  then obtain b m where "b \<noteq> a" "tl_nodes q b = Some m" "nd_timer_id m = k"
    unfolding tl_has_def q' by (auto split: if_splits)
  then show "tl_has q k \<and> k \<noteq> nd_timer_id n" using nodes_inv_inj [OF g _ a] unfolding tl_has_def by blast
next
  assume k: "tl_has q k \<and> k \<noteq> nd_timer_id n"
  then obtain b m where "tl_nodes q b = Some m" "nd_timer_id m = k" "b \<noteq> a" using a unfolding tl_has_def by (metis option.inject)
  then show "tl_has q' k" unfolding tl_has_def q' by auto
qed

lemma tl_has_write:
  assumes a: "tl_nodes q a = Some n" and q': "tl_nodes q' = (tl_nodes q)(a \<mapsto> m)" and m: "nd_timer_id m = nd_timer_id n"
  shows "tl_has q' k \<longleftrightarrow> tl_has q k"
proof -
  have "\<exists>b x. tl_nodes q' b = Some x \<and> nd_timer_id x = k" if k: "tl_nodes q b = Some x" "nd_timer_id x = k" for b x
    using k m a unfolding q' by (cases "b = a") auto
  moreover have "\<exists>b x. tl_nodes q b = Some x \<and> nd_timer_id x = k" if k: "tl_nodes q' b = Some x" "nd_timer_id x = k" for b x
    using k m a unfolding q' by (cases "b = a") auto
  ultimately show ?thesis unfolding tl_has_def by blast
qed

lemma tl_has_timers: "tl_good q xs \<Longrightarrow> tl_timers q k = Some n \<Longrightarrow> tl_has q k"
  using tl_timers_good unfolding tl_has_def by blast

section \<open>Changing the interval\<close>

lemma tl_write_good:
  assumes g: "tl_good q xs" and a: "tl_nodes q a = Some n" and s: "tl_timers q (nd_timer_id n) = Some n"
    and m: "nd_addr m = nd_addr n" "nd_timer_id m = nd_timer_id n" "due m = due n"
  shows "tl_good (q\<lparr>tl_nodes := (tl_nodes q)(a \<mapsto> m)\<rparr>) xs"
    "tl_timers (q\<lparr>tl_nodes := (tl_nodes q)(a \<mapsto> m)\<rparr>) = (tl_timers q)(nd_timer_id n \<mapsto> m)"
proof -
  let ?q = "q\<lparr>tl_nodes := (tl_nodes q)(a \<mapsto> m)\<rparr>"
  note g' = tl_goodD [OF g]
  have "nodes_inv ?q"
    using nodes_invD [OF g'(2) a] nodes_inv_inj [OF g'(2) _ a] nodes_inv_inj [OF g'(2) a] m g'(2)
    unfolding nodes_inv_def by (auto; metis)
  moreover have "tl_rep ?q xs" using g'(1) by (auto simp: tl_rep_def)
  moreover have "tl_due ?q b = tl_due q b" for b using m(3) a by simp
  ultimately show good: "tl_good ?q xs" using g'(3) by (simp add: tl_good_def)
  have b: "a \<in> set xs" using tl_timers_good [OF g, of "nd_timer_id n" n] s nodes_inv_inj [OF g'(2) _ a] by blast
  show "tl_timers ?q = (tl_timers q)(nd_timer_id n \<mapsto> m)"
  proof (rule tl_timers_eq [OF good])
    fix k x
    show "((tl_timers q)(nd_timer_id n \<mapsto> m)) k = Some x \<longleftrightarrow> (\<exists>b \<in> set xs. tl_nodes ?q b = Some x \<and> nd_timer_id x = k)"
    proof (cases "k = nd_timer_id n")
      case True
      have "(\<exists>c \<in> set xs. tl_nodes ?q c = Some x \<and> nd_timer_id x = nd_timer_id n) \<longleftrightarrow> x = m"
      proof
        assume "\<exists>c \<in> set xs. tl_nodes ?q c = Some x \<and> nd_timer_id x = nd_timer_id n"
        then obtain c where c: "tl_nodes ?q c = Some x" "nd_timer_id x = nd_timer_id n" by blast
        show "x = m"
        proof (cases "c = a")
          case False
          then have "tl_nodes q c = Some x" using c(1) by simp
          then show ?thesis using nodes_inv_inj [OF g'(2) _ a c(2)] False by blast
        qed (use c in simp)
      next
        assume "x = m"
        then show "\<exists>c \<in> set xs. tl_nodes ?q c = Some x \<and> nd_timer_id x = nd_timer_id n" using b m(2) by (intro bexI [of _ a]) simp_all
      qed
      then show ?thesis using True by auto
    next
      case False
      have "(\<exists>b \<in> set xs. tl_nodes ?q b = Some x \<and> nd_timer_id x = k) \<longleftrightarrow> (\<exists>b \<in> set xs. tl_nodes q b = Some x \<and> nd_timer_id x = k)"
        by (rule bex_cong) (use False a m(2) in auto)
      then show ?thesis using False tl_timers_good [OF g, of k x] by simp
    qed
  qed
qed

section \<open>Cancellation\<close>

text \<open>\<open>cancel_i\<close> takes a node out of the list and frees it.\<close>

lemma tl_cancel_i_good:
  assumes g: "tl_good q (ys @ a # zs)" and n: "tl_nodes q a = Some n"
  obtains q' where "tl_cancel_i a q = Some q'" "tl_good q' (ys @ zs)" "tl_timers q' = (tl_timers q)(nd_timer_id n := None)"
    "tl_nodes q' = (tl_nodes q)(a := None)" "tl_upcalls q' = tl_upcalls q" "tl_head q' = tl_head q"
proof -
  obtain nx pv where u: "tl_unlink a q = Some (q\<lparr>tl_next := nx, tl_prev := pv\<rparr>)" "tl_good (q\<lparr>tl_next := nx, tl_prev := pv\<rparr>) (ys @ zs)"
    "tl_timers (q\<lparr>tl_next := nx, tl_prev := pv\<rparr>) = (tl_timers q)(nd_timer_id n := None)" "tl_timers q (nd_timer_id n) = Some n"
    by (rule tl_unlink_good [OF g n])
  let ?q = "q\<lparr>tl_next := nx, tl_prev := pv\<rparr>"
  let ?r = "?q\<lparr>tl_nodes := (tl_nodes ?q)(a := None)\<rparr>"
  have a: "a \<notin> set (ys @ zs)" using tl_rep_basic(6) [OF tl_goodD(1) [OF g]] by simp
  have n': "tl_nodes ?q a = Some n" using n by simp
  have "tl_good ?r (ys @ zs)" "tl_timers ?r = tl_timers ?q"
    by (rule tl_store_good [OF u(2) a n'], simp)+
  moreover have "tl_cancel_i a q = Some ?r" using u(1) n by (simp add: tl_cancel_i_def tl_free_node_def)
  ultimately show ?thesis using that [of ?r] u(3) by simp
qed

lemma tl_upcall_fields [simp]:
  "tl_good (tl_upcall u q) xs = tl_good q xs" "tl_nodes (tl_upcall u q) = tl_nodes q"
  "tl_head (tl_upcall u q) = tl_head q" "tl_upcalls (tl_upcall u q) = tl_upcalls q @ [u]" "tl_has (tl_upcall u q) k = tl_has q k"
  "tl_next (tl_upcall u q) = tl_next q" "tl_get_next a (tl_upcall u q) = tl_get_next a q" "tl_get_first (tl_upcall u q) = tl_get_first q"
proof -
  have "tl_rep (tl_upcall u q) xs = tl_rep q xs" "nodes_inv (tl_upcall u q) = nodes_inv q"
    by (simp_all add: tl_rep_def nodes_inv_def tl_upcall_def)
  then show "tl_good (tl_upcall u q) xs = tl_good q xs" by (simp add: tl_good_def tl_upcall_def)
qed (simp_all add: tl_upcall_def tl_has_def tl_get_next_def tl_valid_def tl_get_first_def)

lemma tl_upcall_timers: "tl_good q xs \<Longrightarrow> tl_timers (tl_upcall u q) = tl_timers q"
  by (rule tl_timers_same [of q xs]) simp_all

lemma tl_upcalls_good:
  assumes "tl_good q xs"
  shows "tl_good (fold tl_upcall us q) xs \<and> tl_timers (fold tl_upcall us q) = tl_timers q \<and> tl_nodes (fold tl_upcall us q) = tl_nodes q
    \<and> tl_upcalls (fold tl_upcall us q) = tl_upcalls q @ us"
  using assms by (induction us arbitrary: q) (simp_all add: tl_upcall_timers)

lemma tl_cancel_id_good:
  assumes g: "tl_good q xs" and s: "tl_timers q k = Some n"
  obtains q' ys zs where "tl_cancel_id k d q = Some (1, Some (nd_act n), q')" "tl_good q' (ys @ zs)"
    "tl_timers q' = (tl_timers q)(k := None)" "tl_nodes q' = (tl_nodes q)(nd_addr n := None)" "tl_nodes q (nd_addr n) = Some n"
    "tl_upcalls q' = tl_upcalls q @ [Cancel_type (nd_type n) d, Cancel_timer (nd_type n) d]" "xs = ys @ nd_addr n # zs"
    "nd_timer_id n = k"
proof -
  obtain ys zs where x: "xs = ys @ nd_addr n # zs" "tl_nodes q (nd_addr n) = Some n" "nd_timer_id n = k"
    by (rule tl_timers_split [OF g s])
  let ?q = "tl_upcall (Cancel_timer (nd_type n) d) (tl_upcall (Cancel_type (nd_type n) d) q)"
  have g1: "tl_good ?q (ys @ nd_addr n # zs)" "tl_nodes ?q (nd_addr n) = Some n" using g x by simp_all
  obtain q' where c: "tl_cancel_i (nd_addr n) ?q = Some q'" "tl_good q' (ys @ zs)" "tl_timers q' = (tl_timers ?q)(nd_timer_id n := None)"
    "tl_nodes q' = (tl_nodes ?q)(nd_addr n := None)" "tl_upcalls q' = tl_upcalls ?q"
    by (rule tl_cancel_i_good [OF g1])
  have "tl_timers ?q = tl_timers q"
    using tl_upcall_timers g by (metis tl_upcall_fields(1))
  then show ?thesis
    using that [of q' ys zs] c x tl_find_node_good [OF g, of k] s by (simp add: tl_cancel_id_def)
qed

lemma tl_cancel_id_unknown: "tl_good q xs \<Longrightarrow> tl_timers q k = None \<Longrightarrow> tl_cancel_id k d q = Some (0, None, q)"
  using tl_find_node_good [of q xs k] by (simp add: tl_cancel_id_def)

lemma tl_reset_good:
  assumes g: "tl_good q xs" and s: "tl_timers q k = Some n"
  obtains q' where "tl_reset_interval k iv q = Some (0, q')" "tl_good q' xs"
    "tl_timers q' = (tl_timers q)(k \<mapsto> n\<lparr>nd_interval := iv\<rparr>)" "tl_nodes q' = (tl_nodes q)(nd_addr n \<mapsto> n\<lparr>nd_interval := iv\<rparr>)"
    "tl_nodes q (nd_addr n) = Some n"
proof -
  obtain ys zs where x: "tl_nodes q (nd_addr n) = Some n" "nd_timer_id n = k"
    by (rule tl_timers_split [OF g s])
  have "tl_good (q\<lparr>tl_nodes := (tl_nodes q)(nd_addr n \<mapsto> n\<lparr>nd_interval := iv\<rparr>)\<rparr>) xs"
    "tl_timers (q\<lparr>tl_nodes := (tl_nodes q)(nd_addr n \<mapsto> n\<lparr>nd_interval := iv\<rparr>)\<rparr>) = (tl_timers q)(nd_timer_id n \<mapsto> n\<lparr>nd_interval := iv\<rparr>)"
    by (rule tl_write_good [OF g x(1)]; use s x(2) in simp)+
  then show ?thesis
    using that [of "q\<lparr>tl_nodes := (tl_nodes q)(nd_addr n \<mapsto> n\<lparr>nd_interval := iv\<rparr>)\<rparr>"] x tl_find_node_good [OF g, of k] s
    by (simp add: tl_reset_interval_def tl_set_node_def)
qed

lemma tl_reset_unknown: "tl_good q xs \<Longrightarrow> tl_timers q k = None \<Longrightarrow> tl_reset_interval k iv q = Some (-1, q)"
  using tl_find_node_good [of q xs k] by (simp add: tl_reset_interval_def)

text \<open>The loop that cancels by type: it keeps the order of the nodes it leaves.\<close>

lemma tl_cancel_from_good:
  assumes "tl_good q (ys @ zs)"
  shows "\<exists>q'. tl_cancel_from t c (hd (zs @ [tl_head q])) q
      = Some (c + length (filter (\<lambda>a. nd_type (tl_node q a) = t) zs), q')
    \<and> tl_good q' (ys @ filter (\<lambda>a. nd_type (tl_node q a) \<noteq> t) zs) \<and> tl_upcalls q' = tl_upcalls q
    \<and> tl_nodes q' = (\<lambda>a. if a \<in> set zs \<and> nd_type (tl_node q a) = t then None else tl_nodes q a)"
  using assms
proof (induction zs arbitrary: q ys c)
  case Nil
  then show ?case by (simp add: tl_cancel_from.simps)
next
  case (Cons a zs)
  have g: "tl_good q (ys @ a # zs)" using Cons.prems by simp
  note g' = tl_goodD [OF g]
  have h: "a \<noteq> tl_head q" and a: "a \<notin> set (ys @ zs)" using tl_rep_basic(5,6) [OF g'(1)] by auto
  have "tl_nodes q a \<noteq> None" using g'(1) by (simp add: tl_rep_def)
  then obtain n where n: "tl_nodes q a = Some n" by blast
  have nx: "tl_get_next a q = Some (hd (zs @ [tl_head q]))"
    using tl_rep_next [OF g'(1)] by (cases zs) simp_all
  show ?case
  proof (cases "nd_type n = t")
    case True
    obtain q1 where c: "tl_cancel_i a q = Some q1" "tl_good q1 (ys @ zs)" "tl_nodes q1 = (tl_nodes q)(a := None)"
      "tl_upcalls q1 = tl_upcalls q" "tl_head q1 = tl_head q"
      by (rule tl_cancel_i_good [OF g n])
    have same: "filter (\<lambda>b. nd_type (tl_node q1 b) = t) zs = filter (\<lambda>b. nd_type (tl_node q b) = t) zs"
      "filter (\<lambda>b. nd_type (tl_node q1 b) \<noteq> t) zs = filter (\<lambda>b. nd_type (tl_node q b) \<noteq> t) zs"
      using a c(3) by (auto intro!: filter_cong)
    obtain q' where q': "tl_cancel_from t (c + 1) (hd (zs @ [tl_head q])) q1
        = Some (c + 1 + length (filter (\<lambda>b. nd_type (tl_node q b) = t) zs), q')"
      "tl_good q' (ys @ filter (\<lambda>b. nd_type (tl_node q b) \<noteq> t) zs)" "tl_upcalls q' = tl_upcalls q"
      "tl_nodes q' = (\<lambda>b. if b \<in> set zs \<and> nd_type (tl_node q1 b) = t then None else tl_nodes q1 b)"
      using Cons.IH [OF c(2), of "c + 1"] unfolding same c(4,5) by blast
    have "tl_nodes q' = (\<lambda>b. if b \<in> set (a # zs) \<and> nd_type (tl_node q b) = t then None else tl_nodes q b)"
      unfolding q'(4) using c(3) n True by (intro ext) auto
    moreover have "tl_cancel_from t c a q = tl_cancel_from t (c + 1) (hd (zs @ [tl_head q])) q1"
      using h n nx True c(1) by (subst tl_cancel_from.simps) simp
    ultimately show ?thesis using q'(1-3) n True by simp
  next
    case False
    have g2: "tl_good q ((ys @ [a]) @ zs)" using g by simp
    obtain q' where q': "tl_cancel_from t c (hd (zs @ [tl_head q])) q
        = Some (c + length (filter (\<lambda>b. nd_type (tl_node q b) = t) zs), q')"
      "tl_good q' ((ys @ [a]) @ filter (\<lambda>b. nd_type (tl_node q b) \<noteq> t) zs)" "tl_upcalls q' = tl_upcalls q"
      "tl_nodes q' = (\<lambda>b. if b \<in> set zs \<and> nd_type (tl_node q b) = t then None else tl_nodes q b)"
      using Cons.IH [OF g2, of c] by blast
    have "tl_nodes q' = (\<lambda>b. if b \<in> set (a # zs) \<and> nd_type (tl_node q b) = t then None else tl_nodes q b)"
      unfolding q'(4) using n False by (intro ext) auto
    moreover have "tl_cancel_from t c a q = tl_cancel_from t c (hd (zs @ [tl_head q])) q"
      using h n nx False by (subst tl_cancel_from.simps) simp
    ultimately show ?thesis using q'(1-3) n False by simp
  qed
qed

lemma tl_of_type_card:
  assumes g: "tl_good q xs"
  shows "card (of_type (tl_timers q) t) = length (filter (\<lambda>a. nd_type (tl_node q a) = t) xs)"
proof -
  note g' = tl_goodD [OF g]
  let ?as = "filter (\<lambda>a. nd_type (tl_node q a) = t) xs"
  have some: "tl_nodes q a = Some (tl_node q a)" if "a \<in> set xs" for a using that g'(1) by (auto simp: tl_rep_def)
  have "of_type (tl_timers q) t = (\<lambda>a. nd_timer_id (tl_node q a)) ` set ?as"
  proof (intro set_eqI iffI)
    fix k assume "k \<in> of_type (tl_timers q) t"
    then obtain x where "tl_timers q k = Some x" "nd_type x = t" by (auto simp: of_type_def)
    then obtain a where "a \<in> set xs" "tl_nodes q a = Some x" "nd_timer_id x = k" "nd_type x = t"
      using tl_timers_good [OF g, of k x] by blast
    then show "k \<in> (\<lambda>a. nd_timer_id (tl_node q a)) ` set ?as" by force
  next
    fix k assume "k \<in> (\<lambda>a. nd_timer_id (tl_node q a)) ` set ?as"
    then obtain a where a: "a \<in> set xs" "nd_type (tl_node q a) = t" "k = nd_timer_id (tl_node q a)" by auto
    then have "tl_timers q k = Some (tl_node q a)" using tl_timers_good [OF g] some by blast
    then show "k \<in> of_type (tl_timers q) t" using a(2) by (auto simp: of_type_def)
  qed
  moreover have "inj_on (\<lambda>a. nd_timer_id (tl_node q a)) (set ?as)"
  proof (rule inj_onI)
    fix a b assume "a \<in> set ?as" "b \<in> set ?as" "nd_timer_id (tl_node q a) = nd_timer_id (tl_node q b)"
    then show "a = b" using nodes_inv_inj [OF g'(2) some some, of a b] by simp
  qed
  moreover have "distinct ?as" using tl_rep_basic(6) [OF g'(1)] by simp
  ultimately show ?thesis by (simp add: card_image distinct_card del: set_filter)
qed

lemma tl_cancel_type_good:
  assumes g: "tl_good q xs"
  obtains q' where "tl_cancel_type t d q = Some (card (of_type (tl_timers q) t), q')"
    "tl_good q' (filter (\<lambda>a. nd_type (tl_node q a) \<noteq> t) xs)" "tl_timers q' = drop_type t (tl_timers q)"
    "\<And>k. tl_limbo q' k \<longleftrightarrow> tl_limbo q k" "\<And>a. a \<notin> set xs \<Longrightarrow> tl_nodes q' a = tl_nodes q a"
    "tl_upcalls q' = tl_upcalls q @ Cancel_type t d # replicate (card (of_type (tl_timers q) t)) (Cancel_timer t d)"
proof -
  note g' = tl_goodD [OF g]
  let ?c = "card (of_type (tl_timers q) t)" and ?ys = "filter (\<lambda>a. nd_type (tl_node q a) \<noteq> t) xs"
  have g0: "tl_good q ([] @ xs)" using g by simp
  obtain q1 where q1: "tl_cancel_from t 0 (hd (xs @ [tl_head q])) q = Some (?c, q1)" "tl_good q1 ?ys" "tl_upcalls q1 = tl_upcalls q"
    "tl_nodes q1 = (\<lambda>a. if a \<in> set xs \<and> nd_type (tl_node q a) = t then None else tl_nodes q a)"
    using tl_cancel_from_good [OF g0, of t 0] tl_of_type_card [OF g, of t] by auto
  have "(case tl_get_first q of None \<Rightarrow> Some (0, q) | Some a \<Rightarrow> tl_cancel_from t 0 a q) = Some (?c, q1)"
    using q1(1) tl_rep_basic(3) [OF g'(1)] by (cases xs) (auto simp: tl_cancel_from.simps)
  then have "tl_cancel_type t d q = Some (?c, fold tl_upcall (Cancel_type t d # replicate ?c (Cancel_timer t d)) q1)"
    unfolding tl_cancel_type_def by (simp del: fold_simps)
  moreover define q' where "q' = fold tl_upcall (Cancel_type t d # replicate ?c (Cancel_timer t d)) q1"
  moreover have f: "tl_good q' ?ys" "tl_timers q' = tl_timers q1" "tl_nodes q' = tl_nodes q1"
    "tl_upcalls q' = tl_upcalls q @ Cancel_type t d # replicate ?c (Cancel_timer t d)"
    using tl_upcalls_good [OF q1(2), of "Cancel_type t d # replicate ?c (Cancel_timer t d)"] q1(3) by (simp_all add: q'_def)
  moreover have timers: "tl_timers q' = drop_type t (tl_timers q)"
  proof (rule tl_timers_eq [OF f(1)])
    fix k x
    have "drop_type t (tl_timers q) k = Some x \<longleftrightarrow> tl_timers q k = Some x \<and> nd_type x \<noteq> t"
      by (auto simp: drop_type_def of_type_def)
    also have "\<dots> \<longleftrightarrow> (\<exists>b \<in> set ?ys. tl_nodes q' b = Some x \<and> nd_timer_id x = k)"
      unfolding f(3) q1(4) tl_timers_good [OF g] by auto
    finally show "drop_type t (tl_timers q) k = Some x \<longleftrightarrow> (\<exists>b \<in> set ?ys. tl_nodes q' b = Some x \<and> nd_timer_id x = k)" .
  qed
  moreover have "tl_limbo q' k \<longleftrightarrow> tl_limbo q k" for k
  proof
    assume l: "tl_limbo q' k"
    then obtain a n where a: "tl_nodes q a = Some n" "nd_timer_id n = k" "\<not> (a \<in> set xs \<and> nd_type n = t)"
      unfolding tl_limbo_def f(3) q1(4) by (auto split: if_splits)
    have "tl_timers q k = None"
    proof (rule ccontr)
      assume "tl_timers q k \<noteq> None"
      then obtain x where x: "tl_timers q k = Some x" "nd_type x = t"
        using l unfolding tl_limbo_def timers by (auto simp: drop_type_def of_type_def split: if_splits)
      then obtain b where "b \<in> set xs" "tl_nodes q b = Some x" "nd_timer_id x = k" using tl_timers_good [OF g, of k x] by blast
      then show False using nodes_inv_inj [OF g'(2) a(1)] a x(2) by (metis option.inject)
    qed
    then show "tl_limbo q k" using a unfolding tl_limbo_def by blast
  next
    assume l: "tl_limbo q k"
    then obtain a n where a: "tl_nodes q a = Some n" "nd_timer_id n = k" "tl_timers q k = None" by (auto simp: tl_limbo_def)
    then have "a \<notin> set xs" using tl_timers_good [OF g, of k n] by auto
    then have "tl_nodes q' a = Some n" using a(1) by (simp add: f(3) q1(4))
    then show "tl_limbo q' k" using a(2,3) timers unfolding tl_limbo_def by (auto simp: drop_type_def)
  qed
  moreover have "tl_nodes q' a = tl_nodes q a" if "a \<notin> set xs" for a using that by (simp add: f(3) q1(4))
  ultimately show ?thesis using that by blast
qed

section \<open>Closing\<close>

lemma tl_close_from_run:
  assumes "\<forall>us a vs. zs = us @ a # vs \<longrightarrow> tl_next q a = Some (hd (vs @ [tl_head q]))" "\<forall>a \<in> set zs. tl_nodes q a \<noteq> None"
    "distinct zs" "tl_head q \<notin> set zs"
  shows "tl_close_from (hd (zs @ [tl_head q])) q = Some (q\<lparr>tl_nodes := (\<lambda>a. if a \<in> set zs then None else tl_nodes q a),
    tl_upcalls := tl_upcalls q @ map (\<lambda>a. Deletion (nd_type (tl_node q a)) (nd_act (tl_node q a))) zs\<rparr>)"
  using assms
proof (induction zs arbitrary: q)
  case Nil
  then show ?case by (simp add: tl_close_from.simps)
next
  case (Cons a zs)
  obtain n where n: "tl_nodes q a = Some n" using Cons.prems(2) by auto
  have a: "a \<noteq> tl_head q" "a \<notin> set zs" using Cons.prems(3,4) by auto
  have nx: "tl_next q a = Some (hd (zs @ [tl_head q]))" using Cons.prems(1) by blast
  let ?q = "q\<lparr>tl_upcalls := tl_upcalls q @ [Deletion (nd_type n) (nd_act n)], tl_nodes := (tl_nodes q)(a := None)\<rparr>"
  have "tl_close_from a q = tl_close_from (hd (zs @ [tl_head q])) ?q"
    using a n nx by (subst tl_close_from.simps) (simp add: tl_get_next_def tl_valid_def tl_upcall_def tl_free_node_def)
  moreover have "tl_close_from (hd (zs @ [tl_head ?q])) ?q
      = Some (?q\<lparr>tl_nodes := (\<lambda>b. if b \<in> set zs then None else tl_nodes ?q b),
          tl_upcalls := tl_upcalls ?q @ map (\<lambda>b. Deletion (nd_type (tl_node ?q b)) (nd_act (tl_node ?q b))) zs\<rparr>)"
  proof (rule Cons.IH)
    show "\<forall>us b vs. zs = us @ b # vs \<longrightarrow> tl_next ?q b = Some (hd (vs @ [tl_head ?q]))"
    proof (intro allI impI)
      fix us b vs assume "zs = us @ b # vs"
      then have "a # zs = (a # us) @ b # vs" by simp
      then have "tl_next q b = Some (hd (vs @ [tl_head q]))" using Cons.prems(1) by blast
      then show "tl_next ?q b = Some (hd (vs @ [tl_head ?q]))" by simp
    qed
  qed (use Cons.prems a in auto)
  moreover have "map (\<lambda>b. Deletion (nd_type (tl_node ?q b)) (nd_act (tl_node ?q b))) zs
      = map (\<lambda>b. Deletion (nd_type (tl_node q b)) (nd_act (tl_node q b))) zs"
    using a(2) by (intro map_cong) auto
  moreover have "(\<lambda>b. if b \<in> set zs then None else tl_nodes ?q b) = (\<lambda>b. if b \<in> set (a # zs) then None else tl_nodes q b)"
    by auto
  ultimately show ?case using n by simp
qed

lemma tl_close_good:
  assumes g: "tl_good q xs"
  shows "tl_close q = Some (q\<lparr>tl_nodes := (\<lambda>a. if a \<in> set xs then None else tl_nodes q a),
    tl_upcalls := tl_upcalls q @ map (\<lambda>a. Deletion (nd_type (tl_node q a)) (nd_act (tl_node q a))) xs\<rparr>)"
proof -
  note g' = tl_goodD [OF g]
  have "tl_next q a = Some (hd (vs @ [tl_head q]))" if e: "xs = us @ a # vs" for us a vs
  proof -
    have "tl_next q a = first_ptr vs (Some (tl_head q))"
      using circ_next [of "tl_next q" "tl_prev q" "tl_head q" us a vs] g'(1) e by (simp add: tl_rep_def)
    then show ?thesis by (cases vs) simp_all
  qed
  then have c: "tl_close_from (hd (xs @ [tl_head q])) q = Some (q\<lparr>tl_nodes := (\<lambda>a. if a \<in> set xs then None else tl_nodes q a),
    tl_upcalls := tl_upcalls q @ map (\<lambda>a. Deletion (nd_type (tl_node q a)) (nd_act (tl_node q a))) xs\<rparr>)"
    using tl_close_from_run [of xs q] g'(1) tl_rep_basic(5,6) [OF g'(1)] by (simp add: tl_rep_def)
  show ?thesis
  proof (cases xs)
    case Nil
    then show ?thesis using tl_rep_basic(3) [OF g'(1)] by (simp add: tl_close_def)
  next
    case (Cons a ys)
    then show ?thesis using tl_rep_basic(3) [OF g'(1)] c by (simp add: tl_close_def)
  qed
qed

section \<open>The simulation\<close>

text \<open>The operations of the contract on the list. A closed list is only destroyed: \<open>Close\<close> is no
  operation of the simulation (what it does is stated below).\<close>

fun tl_exec :: "'t tq_op \<Rightarrow> 't timer_list \<Rightarrow> ('t tq_result \<times> 't timer_list) option" where
  "tl_exec (Schedule type act time interval) q =
     map_option (\<lambda>(k, q'). (Timer_id k, q')) (tl_schedule_i True type act time interval q)"
| "tl_exec (Cancel k dont_call) q = map_option (\<lambda>(n, act, q'). (Cancelled n act, q')) (tl_cancel_id k dont_call q)"
| "tl_exec (Cancel_all type dont_call) q = map_option (\<lambda>(n, q'). (Count n, q')) (tl_cancel_type type dont_call q)"
| "tl_exec (Reset_interval k interval) q = map_option (\<lambda>(n, q'). (Status n, q')) (tl_reset_interval k interval q)"
| "tl_exec Get_first q = Some (Node (case tl_get_first q of None \<Rightarrow> None | Some a \<Rightarrow> tl_nodes q a), q)"
| "tl_exec Remove_first q = map_option (\<lambda>(n, q'). (Node n, q')) (tl_remove_first q)"
| "tl_exec (Reschedule x) q = map_option (\<lambda>q'. (Done, q')) (tl_reschedule x q)"
| "tl_exec (Free_node x) q = map_option (\<lambda>q'. (Done, q')) (tl_free_node (nd_addr x) q)"
| "tl_exec Close q = map_option (\<lambda>q'. (Done, q')) (tl_close q)"

fun tl_legal :: "'t timer_list \<Rightarrow> 't tq_op \<Rightarrow> bool" where
  "tl_legal q (Schedule type act time interval) = (tl_id_counter q < 2 ^ 63 - 1)"
| "tl_legal q (Reschedule x) = tl_out q x"
| "tl_legal q (Free_node x) = tl_out q x"
| "tl_legal q Close = False"
| "tl_legal q _ = True"

definition tl_sim :: "'t timer_list \<Rightarrow> 't tq_state \<Rightarrow> bool" where
  "tl_sim q st \<longleftrightarrow> tl_inv q \<and> fst st = tl_timers q \<and> (\<forall>k. snd st k \<noteq> None \<longleftrightarrow> tl_limbo q k)"

lemma tl_simI:
  assumes "tl_good q xs" and "m = tl_timers q" and "\<And>k. l k \<noteq> None \<longleftrightarrow> tl_limbo q k"
  shows "tl_sim q (m, l)"
  using assms by (auto simp: tl_sim_def tl_inv_def)

lemma tl_simE:
  assumes "tl_sim q st"
  obtains l xs where "st = (tl_timers q, l)" "tl_good q xs" "\<And>k. l k \<noteq> None \<longleftrightarrow> tl_limbo q k"
  using assms that by (cases st) (auto simp: tl_sim_def tl_inv_def)

lemma timer_list_new_good: "tl_good (timer_list_new head) []" "tl_timers (timer_list_new head) = (\<lambda>_. None)"
  "\<not> tl_limbo (timer_list_new head) k"
proof -
  have "nodes_inv (timer_list_new head)" by (simp add: nodes_inv_def timer_list_new_def)
  moreover have "tl_rep (timer_list_new head) []"
    unfolding tl_rep_def timer_list_new_def by (simp add: circ_empty)
  ultimately show g: "tl_good (timer_list_new head) []" by (simp add: tl_good_def)
  show "tl_timers (timer_list_new head) = (\<lambda>_. None)" using tl_empty_timers [OF g] by simp
  show "\<not> tl_limbo (timer_list_new head) k" by (simp add: tl_limbo_def timer_list_new_def)
qed

lemma tl_exec_schedule:
  assumes "tl_sim q st" and "tl_id_counter q < 2 ^ 63 - 1"
  shows "\<exists>r q' st'. tl_exec (Schedule t act time iv) q = Some (r, q') \<and> tq_step st (Schedule t act time iv) r st' \<and> tl_sim q' st'"
proof -
  obtain l xs where st: "st = (tl_timers q, l)" and g: "tl_good q xs" and l: "\<And>k. l k \<noteq> None \<longleftrightarrow> tl_limbo q k"
    by (rule tl_simE [OF assms(1)]) blast
  let ?k = "tl_id_counter q"
  let ?x = "\<lparr>nd_addr = tl_fresh_addr q, nd_type = t, nd_act = act, nd_timer_value = time, nd_interval = iv, nd_timer_id = ?k\<rparr>"
  obtain ys zs q' where q': "tl_schedule_i True t act time iv q = Some (?k, q')" "tl_good q' (ys @ tl_fresh_addr q # zs)"
    "tl_timers q' = (tl_timers q)(?k \<mapsto> ?x)" "tl_timers q ?k = None" "tl_nodes q' = (tl_nodes q)(tl_fresh_addr q \<mapsto> ?x)"
    by (rule tl_schedule_good [OF g assms(2), of t act time iv])
  note inv = tl_goodD(2) [OF g]
  have none: "\<not> tl_has q ?k" using nodes_invD(3) [OF inv] unfolding tl_has_def by (metis less_irrefl)
  have fresh: "tl_nodes q (tl_fresh_addr q) = None" using nodes_invD(4) [OF inv, of "tl_fresh_addr q"] by (cases "tl_nodes q (tl_fresh_addr q)") auto
  have "tl_has q' k \<longleftrightarrow> tl_has q k \<or> k = ?k" for k
    unfolding tl_has_def q'(5) using fresh by auto (metis option.distinct(1))
  then have "tl_limbo q' k \<longleftrightarrow> tl_limbo q k" for k
    using none q'(3) by (cases "k = ?k") (auto simp: tl_limbo_has)
  then have "tl_sim q' ((tl_timers q)(?k \<mapsto> ?x), l)" using q'(2,3) l by (intro tl_simI) auto
  moreover have "l ?k = None" using l [of ?k] none unfolding tl_limbo_has by (cases "l ?k") simp_all
  then have "tq_step st (Schedule t act time iv) (Timer_id ?k) ((tl_timers q)(?k \<mapsto> ?x), l)"
    unfolding st using q'(4) inv by (intro tq_step.schedule) (simp_all add: nodes_inv_def)
  ultimately show ?thesis using q'(1) by auto
qed

lemma tl_exec_cancel:
  assumes "tl_sim q st"
  shows "\<exists>r q' st'. tl_exec (Cancel k d) q = Some (r, q') \<and> tq_step st (Cancel k d) r st' \<and> tl_sim q' st'"
proof -
  obtain l xs where st: "st = (tl_timers q, l)" and g: "tl_good q xs" and l: "\<And>k. l k \<noteq> None \<longleftrightarrow> tl_limbo q k"
    by (rule tl_simE [OF assms(1)]) blast
  show ?thesis
  proof (cases "tl_timers q k")
    case None
    then have "tl_exec (Cancel k d) q = Some (Cancelled 0 None, q)" using tl_cancel_id_unknown [OF g] by simp
    then show ?thesis using tq_step.cancel_unknown [of "tl_timers q" k l d] None assms st by blast
  next
    case (Some n)
    obtain q' ys zs where q': "tl_cancel_id k d q = Some (1, Some (nd_act n), q')" "tl_good q' (ys @ zs)"
      "tl_timers q' = (tl_timers q)(k := None)" "tl_nodes q' = (tl_nodes q)(nd_addr n := None)" "tl_nodes q (nd_addr n) = Some n"
      "nd_timer_id n = k"
      by (rule tl_cancel_id_good [OF g Some])
    have "tl_limbo q' j \<longleftrightarrow> tl_limbo q j" for j
      using tl_has_free [OF tl_goodD(2) [OF g] q'(5,4)] q'(3,6) Some by (auto simp: tl_limbo_has)
    then have "tl_sim q' ((tl_timers q)(k := None), l)" using q'(2,3) l by (intro tl_simI) auto
    moreover have "tq_step st (Cancel k d) (Cancelled 1 (Some (nd_act n))) ((tl_timers q)(k := None), l)"
      unfolding st using Some by (rule tq_step.cancel)
    ultimately show ?thesis using q'(1) by auto
  qed
qed

lemma tl_exec_cancel_all:
  assumes "tl_sim q st"
  shows "\<exists>r q' st'. tl_exec (Cancel_all t d) q = Some (r, q') \<and> tq_step st (Cancel_all t d) r st' \<and> tl_sim q' st'"
proof -
  obtain l xs where st: "st = (tl_timers q, l)" and g: "tl_good q xs" and l: "\<And>k. l k \<noteq> None \<longleftrightarrow> tl_limbo q k"
    by (rule tl_simE [OF assms(1)]) blast
  obtain q' where q': "tl_cancel_type t d q = Some (card (of_type (tl_timers q) t), q')"
    "tl_good q' (filter (\<lambda>a. nd_type (tl_node q a) \<noteq> t) xs)" "tl_timers q' = drop_type t (tl_timers q)"
    "\<And>k. tl_limbo q' k \<longleftrightarrow> tl_limbo q k"
    by (rule tl_cancel_type_good [OF g, of t d]) blast
  have "tl_sim q' (drop_type t (tl_timers q), l)" using q'(2-4) l by (intro tl_simI) auto
  moreover have "tq_step st (Cancel_all t d) (Count (card (of_type (tl_timers q) t))) (drop_type t (tl_timers q), l)"
    unfolding st by (rule tq_step.cancel_all)
  ultimately show ?thesis using q'(1) by auto
qed

lemma tl_exec_reset:
  assumes "tl_sim q st"
  shows "\<exists>r q' st'. tl_exec (Reset_interval k iv) q = Some (r, q') \<and> tq_step st (Reset_interval k iv) r st' \<and> tl_sim q' st'"
proof -
  obtain l xs where st: "st = (tl_timers q, l)" and g: "tl_good q xs" and l: "\<And>k. l k \<noteq> None \<longleftrightarrow> tl_limbo q k"
    by (rule tl_simE [OF assms(1)]) blast
  show ?thesis
  proof (cases "tl_timers q k")
    case None
    then have "tl_exec (Reset_interval k iv) q = Some (Status (-1), q)" using tl_reset_unknown [OF g] by simp
    then show ?thesis using tq_step.reset_unknown [of "tl_timers q" k l iv] None assms st by blast
  next
    case (Some n)
    obtain q' where q': "tl_reset_interval k iv q = Some (0, q')" "tl_good q' xs"
      "tl_timers q' = (tl_timers q)(k \<mapsto> n\<lparr>nd_interval := iv\<rparr>)" "tl_nodes q' = (tl_nodes q)(nd_addr n \<mapsto> n\<lparr>nd_interval := iv\<rparr>)"
      "tl_nodes q (nd_addr n) = Some n"
      by (rule tl_reset_good [OF g Some])
    have "tl_limbo q' j \<longleftrightarrow> tl_limbo q j" for j
      using tl_has_write [OF q'(5,4)] q'(3) Some by (auto simp: tl_limbo_has)
    then have "tl_sim q' ((tl_timers q)(k \<mapsto> n\<lparr>nd_interval := iv\<rparr>), l)" using q'(2,3) l by (intro tl_simI) auto
    moreover have "tq_step st (Reset_interval k iv) (Status 0) ((tl_timers q)(k \<mapsto> n\<lparr>nd_interval := iv\<rparr>), l)"
      unfolding st using Some by (rule tq_step.reset)
    ultimately show ?thesis using q'(1) by auto
  qed
qed

lemma tl_exec_first:
  assumes "tl_sim q st"
  shows "\<exists>r q' st'. tl_exec Remove_first q = Some (r, q') \<and> tq_step st Remove_first r st' \<and> tl_sim q' st'"
    and "\<exists>r. tl_exec Get_first q = Some (r, q) \<and> tq_step st Get_first r st"
proof -
  obtain l xs where st: "st = (tl_timers q, l)" and g: "tl_good q xs" and l: "\<And>k. l k \<noteq> None \<longleftrightarrow> tl_limbo q k"
    by (rule tl_simE [OF assms(1)]) blast
  have "(\<exists>r q' st'. tl_exec Remove_first q = Some (r, q') \<and> tq_step st Remove_first r st' \<and> tl_sim q' st')
    \<and> (\<exists>r. tl_exec Get_first q = Some (r, q) \<and> tq_step st Get_first r st)"
  proof (cases xs)
    case Nil
    then have "tl_timers q = (\<lambda>_. None)" "tl_get_first q = None"
      using tl_empty_timers [OF g] tl_rep_basic(3) [OF tl_goodD(1) [OF g]] by simp_all
    then show ?thesis using assms tq_step.remove_first_empty [of l] tq_step.get_first_empty [of l]
      by (auto simp: tl_remove_first_def st)
  next
    case (Cons a ys)
    have g': "tl_good q (a # ys)" using g Cons by simp
    obtain n where n: "tl_nodes q a = Some n" "tl_get_first q = Some a" and min: "\<And>k m. tl_timers q k = Some m \<Longrightarrow> due n \<le> due m"
      by (rule tl_good_cons [OF g']) blast
    obtain m q' where r: "tl_remove_first q = Some (Some m, q')" "tl_nodes q a = Some m" "tl_good q' ys"
      "tl_timers q' = (tl_timers q)(nd_timer_id m := None)" "tl_timers q (nd_timer_id m) = Some m" "tl_nodes q' = tl_nodes q"
      by (rule tl_remove_first_good [OF g'])
    have m: "m = n" using r(2) n(1) by simp
    let ?k = "nd_timer_id n"
    have s: "tl_timers q ?k = Some n" using r(5) m by simp
    have has: "tl_has q ?k" by (rule tl_has_timers [OF g s])
    have "tl_limbo q' j \<longleftrightarrow> tl_limbo q j \<or> j = ?k" for j
      using r(4,6) m has by (cases "j = ?k") (auto simp: tl_limbo_has tl_has_def)
    then have "tl_sim q' ((tl_timers q)(?k := None), l(?k \<mapsto> n))" using r(3,4) m l by (intro tl_simI) auto
    moreover have "tq_step st Remove_first (Node (Some n)) ((tl_timers q)(?k := None), l(?k \<mapsto> n))"
      unfolding st using s min by (intro tq_step.remove_first) auto
    moreover have "tq_step st Get_first (Node (Some n)) st"
      unfolding st using s min by (intro tq_step.get_first) auto
    ultimately show ?thesis using r(1) m n by auto
  qed
  then show "\<exists>r q' st'. tl_exec Remove_first q = Some (r, q') \<and> tq_step st Remove_first r st' \<and> tl_sim q' st'"
    "\<exists>r. tl_exec Get_first q = Some (r, q) \<and> tq_step st Get_first r st" by simp_all
qed

lemma tl_exec_return:
  assumes "tl_sim q st" and out: "tl_out q x"
  shows "\<exists>r q' st'. tl_exec (Reschedule x) q = Some (r, q') \<and> tq_step st (Reschedule x) r st' \<and> tl_sim q' st'"
    and "\<exists>r q' st'. tl_exec (Free_node x) q = Some (r, q') \<and> tq_step st (Free_node x) r st' \<and> tl_sim q' st'"
proof -
  obtain l xs where st: "st = (tl_timers q, l)" and g: "tl_good q xs" and l: "\<And>k. l k \<noteq> None \<longleftrightarrow> tl_limbo q k"
    by (rule tl_simE [OF assms(1)]) blast
  let ?k = "nd_timer_id x"
  have lk: "l ?k \<noteq> None" using l tl_out_limbo [OF out] by simp
  obtain n where n: "tl_nodes q (nd_addr x) = Some n" "nd_timer_id n = ?k" and none: "tl_timers q ?k = None"
    using out by (auto simp: tl_out_def)
  obtain ys zs q' where r: "tl_reschedule x q = Some q'" "tl_good q' (ys @ nd_addr x # zs)" "tl_timers q' = (tl_timers q)(?k \<mapsto> x)"
    "tl_nodes q' = (tl_nodes q)(nd_addr x \<mapsto> x)"
    by (rule tl_reschedule_good [OF g out])
  have "tl_limbo q' j \<longleftrightarrow> tl_limbo q j \<and> j \<noteq> ?k" for j
    using tl_has_write [OF n(1) r(4)] n(2) r(3) by (auto simp: tl_limbo_has)
  then have "tl_sim q' ((tl_timers q)(?k \<mapsto> x), l(?k := None))" using r(2,3) l by (intro tl_simI) auto
  then show "\<exists>r q' st'. tl_exec (Reschedule x) q = Some (r, q') \<and> tq_step st (Reschedule x) r st' \<and> tl_sim q' st'"
    using r(1) tq_step.reschedule [of l x "tl_timers q"] lk st by auto
  obtain q'' where f: "tl_free_node (nd_addr x) q = Some q''" "tl_good q'' xs" "tl_timers q'' = tl_timers q"
    "tl_nodes q'' = (tl_nodes q)(nd_addr x := None)"
    by (rule tl_free_good [OF g out])
  have "tl_limbo q'' j \<longleftrightarrow> tl_limbo q j \<and> j \<noteq> ?k" for j
    using tl_has_free [OF tl_goodD(2) [OF g] n(1) f(4)] n(2) f(3) by (auto simp: tl_limbo_has)
  then have "tl_sim q'' (tl_timers q, l(?k := None))" using f(2,3) l by (intro tl_simI) auto
  then show "\<exists>r q' st'. tl_exec (Free_node x) q = Some (r, q') \<and> tq_step st (Free_node x) r st' \<and> tl_sim q' st'"
    using f(1) tq_step.free [of l x "tl_timers q"] lk st by auto
qed

lemma tl_exec_sim:
  assumes "tl_sim q st" and "tl_legal q op"
  shows "\<exists>r q' st'. tl_exec op q = Some (r, q') \<and> tq_step st op r st' \<and> tl_sim q' st'"
proof (cases op)
  case (Schedule t act time iv)
  then show ?thesis using tl_exec_schedule [OF assms(1)] assms(2) by simp
next
  case (Cancel k d)
  show ?thesis unfolding Cancel by (rule tl_exec_cancel [OF assms(1)])
next
  case (Cancel_all t d)
  show ?thesis unfolding Cancel_all by (rule tl_exec_cancel_all [OF assms(1)])
next
  case (Reset_interval k iv)
  show ?thesis unfolding Reset_interval by (rule tl_exec_reset [OF assms(1)])
next
  case Get_first
  show ?thesis unfolding Get_first using tl_exec_first(2) [OF assms(1)] assms(1) by blast
next
  case Remove_first
  show ?thesis unfolding Remove_first by (rule tl_exec_first(1) [OF assms(1)])
next
  case (Reschedule x)
  then show ?thesis using tl_exec_return(1) [OF assms(1), of x] assms(2) by simp
next
  case (Free_node x)
  then show ?thesis using tl_exec_return(2) [OF assms(1), of x] assms(2) by simp
next
  case Close
  then show ?thesis using assms(2) by simp
qed

text \<open>A list of one timer, for the witnesses.\<close>

lemma one_timer_list:
  obtains q x where "tl_schedule_i True (7 :: nat) 9 (Time_Value 2 0) 0 (timer_list_new 5) = Some (0, q)" "tl_inv q"
    "tl_timers q = (\<lambda>_. None)(0 \<mapsto> x)" "tl_iterate q = Some [x]"
    "x = \<lparr>nd_addr = 6, nd_type = 7, nd_act = 9, nd_timer_value = Time_Value 2 0, nd_interval = 0, nd_timer_id = 0\<rparr>"
proof -
  let ?q = "timer_list_new 5 :: nat timer_list"
  let ?x = "\<lparr>nd_addr = 6, nd_type = 7 :: nat, nd_act = 9, nd_timer_value = Time_Value 2 0, nd_interval = 0, nd_timer_id = 0\<rparr>"
  have new: "tl_id_counter ?q = 0" "tl_fresh_addr ?q = 6" by (simp_all add: timer_list_new_def)
  then have c: "tl_id_counter ?q < 2 ^ 63 - 1" by simp
  obtain ys zs q where q: "tl_schedule_i True 7 9 (Time_Value 2 0) 0 ?q = Some (tl_id_counter ?q, q)" "[] = ys @ zs"
    "tl_good q (ys @ tl_fresh_addr ?q # zs)" "tl_timers q = (tl_timers ?q)(tl_id_counter ?q \<mapsto>
      \<lparr>nd_addr = tl_fresh_addr ?q, nd_type = 7, nd_act = 9, nd_timer_value = Time_Value 2 0, nd_interval = 0, nd_timer_id = tl_id_counter ?q\<rparr>)"
    "tl_nodes q = (tl_nodes ?q)(tl_fresh_addr ?q \<mapsto>
      \<lparr>nd_addr = tl_fresh_addr ?q, nd_type = 7, nd_act = 9, nd_timer_value = Time_Value 2 0, nd_interval = 0, nd_timer_id = tl_id_counter ?q\<rparr>)"
    by (rule tl_schedule_good [OF timer_list_new_good(1) c, of 7 9 "Time_Value 2 0" 0])
  have "tl_iterate q = Some [?x]" using tl_iterate_rep [OF tl_goodD(1) [OF q(3)]] q(2,5) new by simp
  moreover have "tl_inv q" using q(3) by (auto simp: tl_inv_def)
  moreover have "tl_timers q = (\<lambda>_. None)(0 \<mapsto> ?x)" using q(4) new by (simp add: timer_list_new_good(2))
  ultimately show ?thesis using that q(1) new by simp
qed

section \<open>Properties\<close>

text \<open>
  (C5) The timer list implements the contract the timer heap implements: in every state that
  represents a map of scheduled timers and a map of timers taken out, every operation a client may
  call before the list is closed returns without touching a freed node, its result and the new maps
  are a step of the contract, and the new state represents the new maps: the nodes form a circular
  list closed by the dummy node, linked both ways, in the order of their times.
\<close>

theorem timer_list_simulates:
  assumes "tl_sim q st" and "tl_legal q op"
  shows "\<exists>r q' st'. tl_exec op q = Some (r, q') \<and> tq_step st op r st' \<and> tl_sim q' st'"
  using assms by (rule tl_exec_sim)

theorem timer_list_simulates_witness:
  "\<exists>r q' st'. tl_exec (Schedule (0 :: nat) 0 0 0) (timer_list_new 5) = Some (r, q')
     \<and> tq_step (\<lambda>_. None, \<lambda>_. None) (Schedule (0 :: nat) 0 0 0) r st' \<and> tl_sim q' st'"
proof -
  have "tl_sim (timer_list_new 5 :: nat timer_list) (\<lambda>_. None, \<lambda>_. None)"
    by (rule tl_simI [OF timer_list_new_good(1)]) (simp_all add: timer_list_new_good(2,3))
  moreover have "tl_legal (timer_list_new 5) (Schedule (0 :: nat) 0 0 0)" by (simp add: timer_list_new_def)
  ultimately show ?thesis using timer_list_simulates by blast
qed

text \<open>
  A scheduled timer goes behind every timer that is due no later and before every timer that is
  due later, so timers of the same time are kept in the order of their scheduling, and the walk of
  the iterator gives the timers in the order of their times.
\<close>

theorem timer_list_keeps_order:
  assumes "tl_inv q" and "tl_id_counter q < 2 ^ 63 - 1"
  shows "\<exists>ys zs x q'. tl_schedule_i True type act time interval q = Some (nd_timer_id x, q')
    \<and> nd_timer_id x = tl_id_counter q \<and> nd_type x = type \<and> nd_act x = act \<and> nd_timer_value x = time \<and> nd_interval x = interval
    \<and> tl_iterate q = Some (ys @ zs) \<and> tl_iterate q' = Some (ys @ x # zs)
    \<and> (\<forall>y \<in> set ys. nd_timer_value y \<le> time) \<and> (\<forall>z \<in> set zs. time < nd_timer_value z)
    \<and> sorted_wrt (\<lambda>x y. nd_timer_value x \<le> nd_timer_value y) (ys @ x # zs)"
proof -
  obtain xs where g: "tl_good q xs" using assms(1) by (auto simp: tl_inv_def)
  let ?x = "\<lparr>nd_addr = tl_fresh_addr q, nd_type = type, nd_act = act, nd_timer_value = time, nd_interval = interval,
    nd_timer_id = tl_id_counter q\<rparr>"
  obtain ys zs q' where q': "tl_schedule_i True type act time interval q = Some (tl_id_counter q, q')" "xs = ys @ zs"
    "tl_good q' (ys @ tl_fresh_addr q # zs)" "\<forall>z \<in> set zs. time < tl_due q z" "\<forall>y \<in> set ys. tl_due q y \<le> time"
    "tl_nodes q' = (tl_nodes q)(tl_fresh_addr q \<mapsto> ?x)"
    by (rule tl_schedule_good [OF g assms(2), of type act time interval])
  have "tl_iterate q' = Some (map (tl_node q') (ys @ tl_fresh_addr q # zs))" "tl_iterate q = Some (map (tl_node q) xs)"
    using tl_iterate_rep tl_goodD(1) g q'(3) by blast+
  moreover have m: "map (tl_node q') ys = map (tl_node q) ys" "map (tl_node q') zs = map (tl_node q) zs"
    using tl_rep_basic(6) [OF tl_goodD(1) [OF q'(3)]] q'(6) by (auto intro: map_cong)
  moreover have "tl_node q' (tl_fresh_addr q) = ?x" using q'(6) by simp
  moreover have "sorted_wrt (\<lambda>x y. nd_timer_value x \<le> nd_timer_value y) (map (tl_node q') (ys @ tl_fresh_addr q # zs))"
    unfolding sorted_wrt_map by (rule tl_goodD(3) [OF q'(3)])
  then have "sorted_wrt (\<lambda>x y. nd_timer_value x \<le> nd_timer_value y) (map (tl_node q) ys @ tl_node q' (tl_fresh_addr q) # map (tl_node q) zs)"
    unfolding list.map map_append m .
  ultimately show ?thesis
    using q'(1,2,4,5)
    by - (rule exI [of _ "map (tl_node q) ys"], rule exI [of _ "map (tl_node q) zs"], rule exI [of _ ?x], rule exI [of _ q'], simp)
qed

theorem timer_list_keeps_order_witness:
  "\<exists>x q'. tl_schedule_i True (7 :: nat) 9 (Time_Value 2 0) 0 (timer_list_new 5) = Some (nd_timer_id x, q') \<and> tl_iterate q' = Some [x]"
proof -
  have g: "tl_inv (timer_list_new 5 :: nat timer_list)" using timer_list_new_good(1) [of 5] by (auto simp: tl_inv_def)
  have i: "tl_iterate (timer_list_new 5 :: nat timer_list) = Some []"
    using tl_iterate_rep [OF tl_goodD(1) [OF timer_list_new_good(1)]] by simp
  obtain ys zs x q' where "tl_schedule_i True (7 :: nat) 9 (Time_Value 2 0) 0 (timer_list_new 5) = Some (nd_timer_id x, q')"
    "tl_iterate (timer_list_new 5 :: nat timer_list) = Some (ys @ zs)" "tl_iterate q' = Some (ys @ x # zs)"
    using timer_list_keeps_order [OF g, of 7 9 "Time_Value 2 0" 0] by (auto simp: timer_list_new_def)
  then show ?thesis using i by auto
qed

text \<open>
  (C37) Expiry of a timer list, with handlers that leave the queue alone, has the same specification as
  expiry of a timer heap: one upcall for each timer that is due and for no other, in the order of
  their times, one-shot timers are freed and interval timers get their next time.
\<close>

theorem list_expire_dispatches_due:
  assumes "tl_inv q" and "tv_normal cur_time" and "\<And>k x. tl_timers q k = Some x \<Longrightarrow> timer_ok cur_time x"
  shows "\<exists>xs q'. expire list_vt (\<lambda>_ q. q) cur_time q = Some (length xs, map get_dispatch_info xs, q')
    \<and> sorted_wrt (\<lambda>x y. nd_timer_value x \<le> nd_timer_value y) xs \<and> distinct (map nd_timer_id xs)
    \<and> (\<forall>x. x \<in> set xs \<longleftrightarrow> tl_timers q (nd_timer_id x) = Some x \<and> nd_timer_value x \<le> cur_time)
    \<and> tl_inv q'
    \<and> (\<forall>k. tl_timers q' k = (case tl_timers q k of None \<Rightarrow> None
         | Some x \<Rightarrow> if nd_timer_value x \<le> cur_time
             then if 0 < nd_interval x then recompute_next_abs_interval_time x cur_time else None
             else Some x))"
proof -
  obtain xs q' where xs: "expire list_vt (\<lambda>_ q. q) cur_time q = Some (length xs, map get_dispatch_info xs, q')"
    "sorted_wrt (\<lambda>x y. nd_timer_value x \<le> nd_timer_value y) xs" "distinct (map nd_timer_id xs)"
    "\<forall>x. x \<in> set xs \<longleftrightarrow> tl_timers q (nd_timer_id x) = Some x \<and> nd_timer_value x \<le> cur_time"
    "tl_inv q'" "tl_timers q' = list.fired cur_time q"
    using list.expire_due [of q cur_time] assms by blast
  then show ?thesis
    by (intro exI [of _ xs] exI [of _ q'] conjI) (simp_all add: list.fired_def list.after_def split: option.split)
qed

theorem list_expire_dispatches_due_witness:
  "\<exists>q q' info. tl_schedule_i True (7 :: nat) 9 (Time_Value 2 0) 0 (timer_list_new 5) = Some (0, q)
     \<and> expire list_vt (\<lambda>_ q. q) (Time_Value 3 0) q = Some (1, [info], q')"
proof -
  obtain q x where q: "tl_schedule_i True (7 :: nat) 9 (Time_Value 2 0) 0 (timer_list_new 5) = Some (0, q)" "tl_inv q"
    "tl_timers q = (\<lambda>_. None)(0 \<mapsto> x)"
    "x = \<lparr>nd_addr = 6, nd_type = 7, nd_act = 9, nd_timer_value = Time_Value 2 0, nd_interval = 0, nd_timer_id = 0\<rparr>"
    by (rule one_timer_list)
  have n: "tv_normal (Time_Value 3 0)" "tv_normal (Time_Value 2 0)" by (simp_all add: tv_normal_def)
  have ok: "timer_ok (Time_Value 3 0) y" if "tl_timers q j = Some y" for j y
    using that q(3,4) n by (auto simp: timer_ok_def tv_value_def tv_normal_def zero_time_value_def split: if_splits)
  obtain xs q' where xs: "expire list_vt (\<lambda>_ q. q) (Time_Value 3 0) q = Some (length xs, map get_dispatch_info xs, q')"
    "distinct (map nd_timer_id xs)"
    "\<forall>y. y \<in> set xs \<longleftrightarrow> tl_timers q (nd_timer_id y) = Some y \<and> nd_timer_value y \<le> Time_Value 3 0"
    using list_expire_dispatches_due [of q "Time_Value 3 0"] q(2) n(1) ok by blast
  have "Time_Value 2 0 \<le> Time_Value 3 0" using n by (simp add: tv_le_iff tv_value_def)
  then have "set xs = {x}" using xs(3) q(3,4) by (auto split: if_splits)
  moreover have "distinct xs" using xs(2) by (simp add: distinct_map)
  ultimately have "xs = [x]" by (cases xs; cases "tl xs") auto
  then show ?thesis using xs(1) q(1) by auto
qed

text \<open>
  Closing a list calls the deletion hook once for each node, in order, and frees every node of
  it, but leaves the dummy node pointing at the first freed node: closing a list a second time, as
  the destructor does after the reactor's close of a queue it does not own, reads a freed node.
\<close>

theorem timer_list_second_close_faults:
  assumes "tl_inv q" and "tl_iterate q = Some ns"
  shows "\<exists>q'. tl_close q = Some q' \<and> tl_upcalls q' = tl_upcalls q @ map (\<lambda>n. Deletion (nd_type n) (nd_act n)) ns
    \<and> (\<forall>n \<in> set ns. tl_nodes q' (nd_addr n) = None) \<and> tl_close q' = (if ns = [] then Some q' else None)"
proof -
  obtain xs where g: "tl_good q xs" using assms(1) by (auto simp: tl_inv_def)
  note g' = tl_goodD [OF g]
  have ns: "ns = map (tl_node q) xs" using tl_iterate_rep [OF g'(1)] assms(2) by simp
  let ?q = "q\<lparr>tl_nodes := (\<lambda>a. if a \<in> set xs then None else tl_nodes q a),
    tl_upcalls := tl_upcalls q @ map (\<lambda>a. Deletion (nd_type (tl_node q a)) (nd_act (tl_node q a))) xs\<rparr>"
  have "nd_addr (tl_node q a) = a" if "a \<in> set xs" for a
    using nodes_invD(1) [OF g'(2), of a "tl_node q a"] that g'(1) by (auto simp: tl_rep_def)
  then have "\<forall>n \<in> set ns. tl_nodes ?q (nd_addr n) = None" unfolding ns by auto
  moreover have "tl_close ?q = (if ns = [] then Some ?q else None)"
  proof (cases xs)
    case Nil
    then show ?thesis using tl_rep_basic(3) [OF g'(1)] ns by (simp add: tl_close_def tl_get_first_def)
  next
    case (Cons a ys)
    then have "a \<noteq> tl_head q" "tl_get_first ?q = Some a"
      using tl_rep_basic(3,5) [OF g'(1)] by (auto simp: tl_get_first_def)
    then show ?thesis using Cons ns by (simp add: tl_close_def tl_close_from.simps)
  qed
  ultimately show ?thesis using tl_close_good [OF g] ns by (intro exI [of _ ?q]) (simp add: comp_def)
qed

theorem timer_list_second_close_faults_witness:
  "\<exists>q q'. tl_schedule_i True (7 :: nat) 9 (Time_Value 2 0) 0 (timer_list_new 5) = Some (0, q)
    \<and> tl_close q = Some q' \<and> tl_upcalls q' = tl_upcalls q @ [Deletion 7 9] \<and> tl_close q' = None"
proof -
  obtain q x where q: "tl_schedule_i True (7 :: nat) 9 (Time_Value 2 0) 0 (timer_list_new 5) = Some (0, q)" "tl_inv q" "tl_iterate q = Some [x]"
    "x = \<lparr>nd_addr = 6, nd_type = 7, nd_act = 9, nd_timer_value = Time_Value 2 0, nd_interval = 0, nd_timer_id = 0\<rparr>"
    by (rule one_timer_list)
  show ?thesis using timer_list_second_close_faults [OF q(2,3)] q(1,4) by auto
qed

end
