(* ===== verification/CDR_Base.thy ===== *)
theory CDR_Base
imports Prelude "HOL-Library.Monad_Syntax"
begin

text \<open>
  The base of the CDR streams (ACE/ace/CDR_Base.cpp, CDR_Base.inl and the alignment helper of
  OS_Memory.h): alignment, the growth of buffers, and the byte swapping routines. Memory is a
  list of octets; \<open>of_mem\<close> and \<open>to_mem\<close> are the load and the store of an integer on a little-endian
  machine, where a C++ object is read or written through a cast of the pointer. The swapping
  routines are those compiled for a 64-bit machine without inline assembly.
\<close>

unbundle bit_operations_syntax

section \<open>Integers in memory\<close>

definition of_mem :: "u8 list \<Rightarrow> 'a::len word" where
  "of_mem bs = word_of_int (horner_sum uint (2 ^ LENGTH(8)) bs)"

definition to_mem :: "nat \<Rightarrow> 'a::len word \<Rightarrow> u8 list" where
  "to_mem n w = map (\<lambda>i. ucast (drop_bit (8 * i) w)) [0..<n]"

lemma length_to_mem [simp]: "length (to_mem n w) = n"
  by (simp add: to_mem_def)

lemma bit_of_mem: "bit (of_mem bs :: 'a::len word) k \<longleftrightarrow> k < LENGTH('a) \<and> k div 8 < length bs \<and> bit (bs ! (k div 8)) (k mod 8)"
proof -
  have "bit (horner_sum uint (2 ^ LENGTH(8)) bs) k \<longleftrightarrow> k div LENGTH(8) < length bs \<and> bit (bs ! (k div LENGTH(8))) (k mod LENGTH(8))"
    by (rule bit_horner_sum_uint_exp_iff)
  then show ?thesis by (simp add: of_mem_def bit_word_of_int_iff)
qed

lemma bit_to_mem: "i < n \<Longrightarrow> bit (to_mem n w ! i) j \<longleftrightarrow> j < 8 \<and> bit w (8 * i + j)"
  for w :: "'a::len word"
proof -
  assume "i < n"
  then have "to_mem n w ! i = ucast (drop_bit (8 * i) w)" by (simp add: to_mem_def)
  moreover have "LENGTH(8) = 8" by simp
  ultimately show ?thesis by (simp only: bit_ucast_iff bit_drop_bit_eq comp_def)
qed

lemma mem_eqI:
  assumes "length xs = length ys" and "\<And>i j. i < length ys \<Longrightarrow> j < 8 \<Longrightarrow> bit (xs ! i) j \<longleftrightarrow> bit (ys ! i) j"
  shows "xs = (ys :: u8 list)"
proof (rule nth_equalityI)
  fix i assume "i < length xs"
  then show "xs ! i = ys ! i" using assms by (intro bit_word_eqI) simp
qed (rule assms(1))

lemma of_to_mem: "LENGTH('a) = 8 * n \<Longrightarrow> of_mem (to_mem n w) = (w :: 'a::len word)"
  by (rule bit_word_eqI) (auto simp: bit_of_mem bit_to_mem)

lemma to_of_mem: "LENGTH('a) = 8 * length bs \<Longrightarrow> to_mem (length bs) (of_mem bs :: 'a::len word) = bs"
  by (rule mem_eqI) (auto simp: bit_of_mem bit_to_mem)

section \<open>Alignment\<close>

abbreviation MAX_ALIGNMENT :: nat where
  "MAX_ALIGNMENT \<equiv> 8"

definition align_binary :: "nat \<Rightarrow> nat \<Rightarrow> nat" where
  "align_binary ptr alignment =
     (let tmp = int alignment - 1 in nat ((int ptr + tmp) AND NOT tmp))"

lemma and_not_mask: "(x :: int) AND NOT (2 ^ k - 1) = x - x mod 2 ^ k"
proof -
  have "x AND NOT (mask k) = push_bit k (drop_bit k x)"
    by (rule bit_eqI) (auto simp: bit_simps)
  also have "\<dots> = x - take_bit k x" using bits_ident [of k x] by simp
  finally show ?thesis by (simp add: mask_eq_exp_minus_1 take_bit_eq_mod)
qed

lemma align_binary_eq: "align_binary p (2 ^ k) = (p + 2 ^ k - 1) div 2 ^ k * 2 ^ k"
proof -
  have "1 \<le> p + 2 ^ k" by (simp add: trans_le_add2)
  then have "int p + (int (2 ^ k) - 1) = int (p + 2 ^ k - 1)" by (simp only: of_nat_diff of_nat_add of_nat_1 of_nat_power of_nat_numeral)
  then have "align_binary p (2 ^ k) = nat (int (p + 2 ^ k - 1) - int (p + 2 ^ k - 1) mod 2 ^ k)"
    unfolding align_binary_def Let_def using and_not_mask [of "int (p + 2 ^ k - 1)" k] by simp
  also have "\<dots> = nat (int (p + 2 ^ k - 1) div 2 ^ k * 2 ^ k)" by (simp only: minus_mod_eq_div_mult)
  also have "\<dots> = nat (int ((p + 2 ^ k - 1) div 2 ^ k * 2 ^ k))" by (simp only: of_nat_mult of_nat_div of_nat_power of_nat_numeral)
  finally show ?thesis by (simp only: nat_int)
qed

definition cdr_align :: "nat \<Rightarrow> bool" where
  "cdr_align a \<longleftrightarrow> a \<in> {1, 2, 4, 8}"

lemma cdr_alignE: "cdr_align a \<Longrightarrow> \<exists>k\<le>3. a = 2 ^ k"
  unfolding cdr_align_def
  by (elim insertE; force intro: exI [of _ "0::nat"] exI [of _ "1::nat"] exI [of _ "2::nat"] exI [of _ "3::nat"])

lemma align_binary_bounds:
  assumes "cdr_align a"
  shows "p \<le> align_binary p a" "align_binary p a < p + a" "align_binary p a mod a = 0"
proof -
  obtain k where k: "a = 2 ^ k" using cdr_alignE [OF assms] by blast
  have a: "0 < a" by (simp add: k)
  have e: "align_binary p a = (p + a - 1) div a * a" by (simp add: k align_binary_eq)
  show "align_binary p a mod a = 0" by (simp add: e)
  have "(p + a - 1) div a * a + (p + a - 1) mod a = p + a - 1" by simp
  moreover have "(p + a - 1) mod a < a" using a by simp
  ultimately show "p \<le> align_binary p a" "align_binary p a < p + a" unfolding e using a by linarith+
qed

text \<open>The padding depends on the position modulo eight only.\<close>

definition padding :: "nat \<Rightarrow> nat \<Rightarrow> nat" where
  "padding p a = align_binary p a - p"

lemma padding_eq: "cdr_align a \<Longrightarrow> padding p a = (a - p mod a) mod a"
proof -
  assume a: "cdr_align a"
  note b = align_binary_bounds [OF a, of p]
  have a0: "0 < a" using a by (auto simp: cdr_align_def)
  have less: "padding p a < a" using b a0 by (simp add: padding_def)
  have "(p + padding p a) mod a = 0" using b by (simp add: padding_def)
  then have "(p mod a + padding p a) mod a = 0" by (simp add: mod_add_left_eq)
  then obtain q where q: "p mod a + padding p a = a * q" by auto
  have pa: "p mod a < a" using a0 by simp
  have "a * q < a * 2" using less pa q by linarith
  then have "q < 2" by simp
  then have "p mod a + padding p a = 0 \<or> p mod a + padding p a = a" using q by (auto simp: less_2_cases_iff)
  then show ?thesis using less a0 pa by (cases "p mod a = 0") auto
qed

lemma padding_cong: "cdr_align a \<Longrightarrow> p mod 8 = q mod 8 \<Longrightarrow> padding p a = padding q a"
proof -
  assume a: "cdr_align a" and pq: "p mod 8 = q mod 8"
  have "a dvd 8" using a by (auto simp: cdr_align_def)
  then have "p mod a = q mod a" using pq by (metis mod_mod_cancel)
  then show ?thesis by (simp add: padding_eq [OF a])
qed

section \<open>Buffer sizes\<close>

abbreviation DEFAULT_BUFSIZE :: nat where "DEFAULT_BUFSIZE \<equiv> 512"
abbreviation EXP_GROWTH_MAX :: nat where "EXP_GROWTH_MAX \<equiv> 65536"
abbreviation LINEAR_GROWTH_CHUNK :: nat where "LINEAR_GROWTH_CHUNK \<equiv> 65536"

partial_function (option) first_size_loop :: "nat \<Rightarrow> nat \<Rightarrow> nat option" where
  "first_size_loop newsize minsize = (if newsize < minsize
     then if newsize < EXP_GROWTH_MAX then first_size_loop (newsize * 2 mod 2 ^ 64) minsize
          else first_size_loop ((newsize + LINEAR_GROWTH_CHUNK) mod 2 ^ 64) minsize
     else Some newsize)"

definition first_size :: "nat \<Rightarrow> nat option" where
  "first_size minsize = (if minsize = 0 then Some DEFAULT_BUFSIZE
     else first_size_loop DEFAULT_BUFSIZE minsize)"

definition next_size :: "nat \<Rightarrow> nat option" where
  "next_size minsize = do {
     newsize \<leftarrow> first_size minsize;
     Some (if newsize = minsize
           then if newsize < EXP_GROWTH_MAX then newsize * 2 mod 2 ^ 64
                else (newsize + LINEAR_GROWTH_CHUNK) mod 2 ^ 64
           else newsize) }"

text \<open>The sizes the loop takes: a power of two below the linear range, or a multiple of a chunk.\<close>

definition growth_size :: "nat \<Rightarrow> bool" where
  "growth_size s \<longleftrightarrow> s \<in> {512, 1024, 2048, 4096, 8192, 16384, 32768} \<or> 65536 dvd s \<and> s < 2 ^ 64"

lemma growth_size_step:
  assumes "growth_size s"
  shows "s < EXP_GROWTH_MAX \<Longrightarrow> growth_size (s * 2 mod 2 ^ 64)"
    and "EXP_GROWTH_MAX \<le> s \<Longrightarrow> growth_size ((s + LINEAR_GROWTH_CHUNK) mod 2 ^ 64)"
proof -
  show "growth_size (s * 2 mod 2 ^ 64)" if "s < EXP_GROWTH_MAX"
  proof (cases "s \<in> {512, 1024, 2048, 4096, 8192, 16384, 32768}")
    case False
    then have "65536 dvd s" using assms by (auto simp: growth_size_def)
    then have "s = 0" using that by (auto elim: dvdE)
    then show ?thesis by (simp add: growth_size_def)
  qed (auto simp: growth_size_def)
  show "growth_size ((s + LINEAR_GROWTH_CHUNK) mod 2 ^ 64)" if "EXP_GROWTH_MAX \<le> s"
  proof -
    have "(65536 :: nat) dvd s" using assms that by (auto simp: growth_size_def)
    then have "(65536 :: nat) dvd s + LINEAR_GROWTH_CHUNK" by (rule dvd_add) simp
    moreover have "(65536 :: nat) dvd 2 ^ 64" by simp
    ultimately have "(65536 :: nat) dvd (s + LINEAR_GROWTH_CHUNK) mod 2 ^ 64" by (rule dvd_mod)
    then show ?thesis unfolding growth_size_def by (intro disjI2 conjI) (assumption, rule mod_less_divisor, simp)
  qed
qed

lemma growth_size_le: "growth_size s \<Longrightarrow> s \<le> 2 ^ 64 - LINEAR_GROWTH_CHUNK"
proof -
  assume "growth_size s"
  then consider "s \<in> {512, 1024, 2048, 4096, 8192, 16384, 32768}" | k where "s = 65536 * k" "s < 2 ^ 64"
    unfolding growth_size_def by (blast elim: dvdE)
  then show ?thesis
  proof cases
    case 2
    then have "65536 * k < 65536 * 281474976710656" by simp
    then have "k < 281474976710656" by (simp only: nat_mult_less_cancel1)
    then have "65536 * k \<le> 65536 * 281474976710655" by simp
    then show ?thesis using 2 by simp
  qed auto
qed

lemma first_size_loop_sound:
  assumes "first_size_loop s m = Some n"
  shows "growth_size s \<longrightarrow> m \<le> n \<and> growth_size n"
proof (rule first_size_loop.raw_induct [where P = "\<lambda>s m n. growth_size s \<longrightarrow> m \<le> n \<and> growth_size n", OF _ assms])
  fix f s m n
  assume IH: "\<And>s m n. f s m = Some n \<Longrightarrow> growth_size s \<longrightarrow> m \<le> n \<and> growth_size n"
    and body: "(if s < m then if s < EXP_GROWTH_MAX then f (s * 2 mod 2 ^ 64) m
      else f ((s + LINEAR_GROWTH_CHUNK) mod 2 ^ 64) m else Some s) = Some n"
  show "growth_size s \<longrightarrow> m \<le> n \<and> growth_size n"
  proof
    assume g: "growth_size s"
    consider "\<not> s < m" | "s < m" "s < EXP_GROWTH_MAX" | "s < m" "\<not> s < EXP_GROWTH_MAX" by blast
    then show "m \<le> n \<and> growth_size n"
    proof cases
      case 1
      then show ?thesis using body g by simp
    next
      case 2
      then have "f (s * 2 mod 2 ^ 64) m = Some n" using body by (simp only: if_True)
      then show ?thesis using IH growth_size_step(1) [OF g 2(2)] by blast
    next
      case 3
      then have "f ((s + LINEAR_GROWTH_CHUNK) mod 2 ^ 64) m = Some n" using body by (simp only: if_True if_False)
      then show ?thesis using IH growth_size_step(2) [OF g] 3(2) by (meson linorder_not_less)
    qed
  qed
qed

lemma first_size_loop_total:
  "m \<le> 2 ^ 64 - LINEAR_GROWTH_CHUNK \<Longrightarrow> 0 < s \<Longrightarrow> growth_size s \<Longrightarrow>
   \<exists>n. first_size_loop s m = Some n \<and> m \<le> n \<and> s \<le> n \<and> growth_size n"
proof (induction "m - s" arbitrary: s rule: less_induct)
  case less
  show ?case
  proof (cases "s < m")
    case True
    let ?t = "if s < EXP_GROWTH_MAX then s * 2 mod 2 ^ 64 else (s + LINEAR_GROWTH_CHUNK) mod 2 ^ 64"
    have g: "growth_size ?t" using growth_size_step [OF less.prems(3)] by simp
    have "s + LINEAR_GROWTH_CHUNK < 2 ^ 64"
      using True less.prems(1) by simp
    then have st: "s < ?t" using less.prems(2) by simp
    have step: "first_size_loop s m = first_size_loop ?t m"
      using True by (subst first_size_loop.simps) simp
    have "m - ?t < m - s" using st True by (rule diff_less_mono2)
    moreover have "0 < ?t" using st by (rule le_less_trans [rotated]) simp
    ultimately obtain n where "first_size_loop ?t m = Some n" "m \<le> n" "?t \<le> n" "growth_size n"
      using less.hyps [OF _ less.prems(1) _ g] by blast
    then show ?thesis using step less_imp_le [OF st] by (auto intro: order_trans)
  qed (use less.prems in \<open>simp add: first_size_loop.simps\<close>)
qed

lemma growth_size_512: "growth_size DEFAULT_BUFSIZE"
  by (simp add: growth_size_def)

lemma first_size_ok:
  assumes "m \<le> 2 ^ 64 - LINEAR_GROWTH_CHUNK"
  shows "\<exists>n. first_size m = Some n \<and> m \<le> n \<and> 512 \<le> n \<and> growth_size n"
  using first_size_loop_total [OF assms, of 512] growth_size_512 by (auto simp: first_size_def)

lemma first_size_sound: "first_size m = Some n \<Longrightarrow> m \<le> n \<and> growth_size n"
  using first_size_loop_sound [of 512 m n] growth_size_512
  by (auto simp: first_size_def split: if_splits)

text \<open>
  The loop that picks the size of a buffer returns for exactly the requests up to
  \<open>2 ^ 64 - 65536\<close>; a larger request makes the size wrap to zero, which doubling never leaves.
  Where it returns, the size covers the request.
\<close>
theorem first_size_terminates:
  "(first_size m \<noteq> None \<longleftrightarrow> m \<le> 2 ^ 64 - LINEAR_GROWTH_CHUNK) \<and> pred_option (\<lambda>n. m \<le> n \<and> n < 2 ^ 64) (first_size m)"
proof -
  have "first_size m \<noteq> None \<longleftrightarrow> m \<le> 2 ^ 64 - LINEAR_GROWTH_CHUNK"
    using first_size_ok [of m] first_size_sound [of m] growth_size_le by (auto intro: order_trans)
  moreover have "pred_option (\<lambda>n. m \<le> n \<and> n < 2 ^ 64) (first_size m)"
    using first_size_sound [of m] growth_size_le by (fastforce simp: pred_option_def)
  ultimately show ?thesis ..
qed

end
