(* ===== verification/CDR_Swap.thy ===== *)
theory CDR_Swap
  imports CDR_Base
begin

text \<open>
  The byte swapping routines of ACE/ace/CDR_Base.inl and CDR_Base.cpp, in the branch compiled
  for a little-endian 64-bit machine without inline assembly and compiler intrinsics
  (\<open>ACE_SIZEOF_LONG == 8\<close>). Every routine returns the octets it writes at the target. The
  array routines take the addresses of the original and of the target, on which the choice
  of the loop depends, and the octets from the original on; both arrays are disjoint.
\<close>

section \<open>One element\<close>

definition swap_2 :: "u8 list \<Rightarrow> u8 list" where
  "swap_2 orig =
     (let usrc = (ucast (of_mem (take 2 orig) :: u16) :: u32)
      in to_mem 2 (ucast (push_bit 8 usrc OR drop_bit 8 usrc) :: u16))"

definition swap_4 :: "u8 list \<Rightarrow> u8 list" where
  "swap_4 orig =
     (let x = (of_mem (take 4 orig) :: u32)
      in to_mem 4 (push_bit 24 x OR push_bit 8 (x AND 0xff00) OR drop_bit 8 (x AND 0xff0000) OR drop_bit 24 x))"

definition swap_words :: "u64 \<Rightarrow> u64" where
  "swap_words x =
     (let x84 = push_bit 24 (x AND 0x000000ff000000ff);
          x73 = push_bit 8 (x AND 0x0000ff000000ff00);
          x62 = drop_bit 8 (x AND 0x00ff000000ff0000);
          x51 = drop_bit 24 (x AND 0xff000000ff000000)
      in x84 OR x73 OR x62 OR x51)"

definition swap_8 :: "u8 list \<Rightarrow> u8 list" where
  "swap_8 orig =
     (let x = swap_words (of_mem (take 8 orig))
      in to_mem 8 (push_bit 32 x OR drop_bit 32 x))"

definition swap_16 :: "u8 list \<Rightarrow> u8 list" where
  "swap_16 orig = swap_8 (drop 8 orig) @ swap_8 orig"

section \<open>Arrays\<close>

fun swap_2_head :: "nat \<Rightarrow> nat \<Rightarrow> nat \<Rightarrow> u8 list \<Rightarrow> nat \<Rightarrow> u8 list \<times> nat \<times> nat \<times> u8 list \<times> nat" where
  "swap_2_head o8 orig target bs 0 = ([], orig, target, bs, 0)"
| "swap_2_head o8 orig target bs (Suc n) =
     (if orig < o8
      then let (out, r) = swap_2_head o8 (orig + 2) (target + 2) (drop 2 bs) n in (swap_2 bs @ out, r)
      else ([], orig, target, bs, Suc n))"

definition swap_pairs :: "u64 \<Rightarrow> u64" where
  "swap_pairs a =
     (let a1 = push_bit 8 (a AND 0x00ff00ff00ff00ff);
          a2 = drop_bit 8 (a AND 0xff00ff00ff00ff00)
      in a1 OR a2)"

definition swap_2_chunk :: "bool \<Rightarrow> u8 list \<Rightarrow> u8 list" where
  "swap_2_chunk aligned orig =
     (let a = swap_pairs (of_mem (take 8 orig))
      in if aligned then to_mem 8 a
         else let b1 = (ucast (drop_bit 48 a) :: u16);
                  b2 = (ucast (drop_bit 32 a AND 0xffff) :: u16);
                  b3 = (ucast (drop_bit 16 a AND 0xffff) :: u16);
                  b4 = (ucast (a AND 0xffff) :: u16)
              in to_mem 2 b4 @ to_mem 2 b3 @ to_mem 2 b2 @ to_mem 2 b1)"

fun swap_2_loop :: "bool \<Rightarrow> nat \<Rightarrow> u8 list \<Rightarrow> u8 list \<times> u8 list" where
  "swap_2_loop aligned 0 orig = ([], orig)"
| "swap_2_loop aligned (Suc k) orig =
     (let (out, r) = swap_2_loop aligned k (drop 8 orig) in (swap_2_chunk aligned orig @ out, r))"

definition swap_2_tail :: "nat \<Rightarrow> u8 list \<Rightarrow> u8 list" where
  "swap_2_tail k orig =
     (if k = 3 then swap_2 orig @ swap_2 (drop 2 orig) @ swap_2 (drop 4 orig)
      else if k = 2 then swap_2 orig @ swap_2 (drop 2 orig)
      else if k = 1 then swap_2 orig
      else [])"

definition swap_2_array :: "nat \<Rightarrow> nat \<Rightarrow> u8 list \<Rightarrow> nat \<Rightarrow> u8 list" where
  "swap_2_array orig target bs n =
     (let o8 = align_binary orig 8;
          (head_out, orig, target, bs, n) = swap_2_head o8 orig target bs n
      in if n = 0 then head_out
         else let (out, rest) = swap_2_loop (target = align_binary target 8) (n div 4) bs
              in head_out @ out @ swap_2_tail (n mod 4) rest)"

definition swap_4_chunk :: "bool \<Rightarrow> u8 list \<Rightarrow> u8 list" where
  "swap_4_chunk aligned orig =
     (let a = swap_words (of_mem (take 8 orig));
          b = swap_words (of_mem (take 8 (drop 8 orig)))
      in if aligned then to_mem 8 a @ to_mem 8 b
         else let c1 = (ucast (drop_bit 32 a) :: u32);
                  c2 = (ucast (a AND 0xffffffff) :: u32);
                  c3 = (ucast (drop_bit 32 b) :: u32);
                  c4 = (ucast (b AND 0xffffffff) :: u32)
              in to_mem 4 c2 @ to_mem 4 c1 @ to_mem 4 c4 @ to_mem 4 c3)"

fun swap_4_loop :: "bool \<Rightarrow> nat \<Rightarrow> u8 list \<Rightarrow> u8 list \<times> u8 list" where
  "swap_4_loop aligned 0 orig = ([], orig)"
| "swap_4_loop aligned (Suc k) orig =
     (let (out, r) = swap_4_loop aligned k (drop 16 orig) in (swap_4_chunk aligned orig @ out, r))"

definition swap_4_tail :: "nat \<Rightarrow> u8 list \<Rightarrow> u8 list" where
  "swap_4_tail k orig =
     (if k = 3 then swap_4 orig @ swap_4 (drop 4 orig) @ swap_4 (drop 8 orig)
      else if k = 2 then swap_4 orig @ swap_4 (drop 4 orig)
      else if k = 1 then swap_4 orig
      else [])"

definition swap_4_array :: "nat \<Rightarrow> nat \<Rightarrow> u8 list \<Rightarrow> nat \<Rightarrow> u8 list" where
  "swap_4_array orig target bs n =
     (let o8 = align_binary orig 8;
          (head_out, target, bs, n) =
             (if orig \<noteq> o8 then (swap_4 bs, target + 4, drop 4 bs, n - 1) else ([], target, bs, n))
      in if n = 0 then head_out
         else let (out, rest) = swap_4_loop (target = align_binary target 8) (n div 4) bs
              in head_out @ out @ swap_4_tail (n mod 4) rest)"

fun swap_8_array :: "u8 list \<Rightarrow> nat \<Rightarrow> u8 list" where
  "swap_8_array orig 0 = []"
| "swap_8_array orig (Suc n) = swap_8 orig @ swap_8_array (drop 8 orig) n"

fun swap_16_array :: "u8 list \<Rightarrow> nat \<Rightarrow> u8 list" where
  "swap_16_array orig 0 = []"
| "swap_16_array orig (Suc n) = swap_16 orig @ swap_16_array (drop 16 orig) n"

section \<open>The reference: every element reversed\<close>

fun rev_elems :: "nat \<Rightarrow> nat \<Rightarrow> u8 list \<Rightarrow> u8 list" where
  "rev_elems k 0 bs = []"
| "rev_elems k (Suc n) bs = rev (take k bs) @ rev_elems k n (drop k bs)"

lemma rev_elems_add: "rev_elems k (a + b) bs = rev_elems k a bs @ rev_elems k b (drop (a * k) bs)"
  by (induction a arbitrary: bs) (simp_all add: add.commute)

lemma length_rev_elems: "length bs = k * n \<Longrightarrow> length (rev_elems k n bs) = k * n"
  by (induction n arbitrary: bs) auto

lemma ball_8: "(\<forall>j<8. P j) \<longleftrightarrow> P 0 \<and> P 1 \<and> P 2 \<and> P 3 \<and> P 4 \<and> P 5 \<and> P 6 \<and> P (7 :: nat)"
proof -
  have "j = 0 \<or> j = 1 \<or> j = 2 \<or> j = 3 \<or> j = 4 \<or> j = 5 \<or> j = 6 \<or> j = 7" if "j < 8" for j :: nat
    using that by arith
  then show ?thesis by (intro iffI allI impI) (simp, metis)
qed

lemma ball_4: "(\<forall>j<4. P j) \<longleftrightarrow> P 0 \<and> P 1 \<and> P 2 \<and> P (3 :: nat)"
proof -
  have "j = 0 \<or> j = 1 \<or> j = 2 \<or> j = 3" if "j < 4" for j :: nat using that by arith
  then show ?thesis by (intro iffI allI impI) (simp, metis)
qed

lemma ball_2: "(\<forall>j<2. P j) \<longleftrightarrow> P 0 \<and> P (1 :: nat)"
proof -
  have "j = 0 \<or> j = 1" if "j < 2" for j :: nat using that by arith
  then show ?thesis by (intro iffI allI impI) (simp, metis)
qed

lemma high_bit_16: "16 \<le> k \<Longrightarrow> bit (x :: u16) k \<longleftrightarrow> False"
  by (auto dest: bit_imp_le_length)

lemma high_bit_32: "32 \<le> k \<Longrightarrow> bit (x :: u32) k \<longleftrightarrow> False"
  by (auto dest: bit_imp_le_length)

lemma high_bit_64: "64 \<le> k \<Longrightarrow> bit (x :: u64) k \<longleftrightarrow> False"
  by (auto dest: bit_imp_le_length)

lemmas octet_bits = ball_2 ball_4 ball_8 high_bit_16 high_bit_32 high_bit_64 bit_simps

text \<open>A store whose octets are those of another word, in another order.\<close>

lemma to_mem_permute:
  assumes "\<forall>i<n. \<forall>j<8. bit (w :: 'a::len word) (8 * i + j) \<longleftrightarrow> bit (v :: 'b::len word) (8 * f i + j)"
    and "\<And>i. i < n \<Longrightarrow> f i < m"
  shows "to_mem n w = map (\<lambda>i. to_mem m v ! f i) [0..<n]"
  using assms by (intro mem_eqI) (simp_all add: bit_to_mem)

lemma to_mem_rev:
  assumes "\<forall>i<n. \<forall>j<8. bit (w :: 'a::len word) (8 * i + j) \<longleftrightarrow> bit (v :: 'b::len word) (8 * (n - 1 - i) + j)"
  shows "to_mem n w = rev (to_mem n v)"
  using assms by (intro mem_eqI) (simp_all add: bit_to_mem rev_nth)

lemma swap_2_rev:
  assumes "length bs = 2"
  shows "swap_2 bs = rev bs"
proof -
  define v where "v = (of_mem bs :: u16)"
  have "\<forall>i<2. \<forall>j<8. bit (ucast (push_bit 8 (ucast v) OR drop_bit 8 (ucast v :: u32)) :: u16) (8 * i + j) \<longleftrightarrow> bit v (8 * (2 - 1 - i) + j)"
    by (simp add: octet_bits flip: numeral_2_eq_2)
  then have "swap_2 bs = rev (to_mem 2 v)"
    using assms by (simp add: swap_2_def Let_def v_def to_mem_rev)
  also have "to_mem 2 v = bs" using to_of_mem [of bs, where 'a = 16] assms by (simp add: v_def)
  finally show ?thesis .
qed

lemma swap_4_rev:
  assumes "length bs = 4"
  shows "swap_4 bs = rev bs"
proof -
  define x where "x = (of_mem bs :: u32)"
  have "\<forall>i<4. \<forall>j<8. bit (push_bit 24 x OR push_bit 8 (x AND 0xff00) OR drop_bit 8 (x AND 0xff0000) OR drop_bit 24 x) (8 * i + j)
      \<longleftrightarrow> bit x (8 * (4 - 1 - i) + j)"
    by (simp add: octet_bits flip: numeral_2_eq_2)
  then have "swap_4 bs = rev (to_mem 4 x)"
    using assms by (simp add: swap_4_def Let_def x_def to_mem_rev)
  also have "to_mem 4 x = bs" using to_of_mem [of bs, where 'a = 32] assms by (simp add: x_def)
  finally show ?thesis .
qed

lemma octet_masks:
  "(0x000000ff000000ff :: u64) = mask 8 OR push_bit 32 (mask 8)"
  "(0x0000ff000000ff00 :: u64) = push_bit 8 (mask 8) OR push_bit 40 (mask 8)"
  "(0x00ff000000ff0000 :: u64) = push_bit 16 (mask 8) OR push_bit 48 (mask 8)"
  "(0xff000000ff000000 :: u64) = push_bit 24 (mask 8) OR push_bit 56 (mask 8)"
  "(0x00ff00ff00ff00ff :: u64) = mask 8 OR push_bit 16 (mask 8) OR push_bit 32 (mask 8) OR push_bit 48 (mask 8)"
  "(0xff00ff00ff00ff00 :: u64) = push_bit 8 (mask 8) OR push_bit 24 (mask 8) OR push_bit 40 (mask 8) OR push_bit 56 (mask 8)"
  by (simp_all add: mask_eq_exp_minus_1)

lemma bit_swap_words:
  assumes "j < 8"
  shows "bit (swap_words x) j \<longleftrightarrow> bit x (24 + j)" "bit (swap_words x) (8 + j) \<longleftrightarrow> bit x (16 + j)"
    "bit (swap_words x) (16 + j) \<longleftrightarrow> bit x (8 + j)" "bit (swap_words x) (24 + j) \<longleftrightarrow> bit x j"
    "bit (swap_words x) (32 + j) \<longleftrightarrow> bit x (56 + j)" "bit (swap_words x) (40 + j) \<longleftrightarrow> bit x (48 + j)"
    "bit (swap_words x) (48 + j) \<longleftrightarrow> bit x (40 + j)" "bit (swap_words x) (56 + j) \<longleftrightarrow> bit x (32 + j)"
  using assms unfolding swap_words_def octet_masks Let_def by (auto simp: bit_simps)

lemma bit_swap_pairs:
  assumes "j < 8"
  shows "bit (swap_pairs x) j \<longleftrightarrow> bit x (8 + j)" "bit (swap_pairs x) (8 + j) \<longleftrightarrow> bit x j"
    "bit (swap_pairs x) (16 + j) \<longleftrightarrow> bit x (24 + j)" "bit (swap_pairs x) (24 + j) \<longleftrightarrow> bit x (16 + j)"
    "bit (swap_pairs x) (32 + j) \<longleftrightarrow> bit x (40 + j)" "bit (swap_pairs x) (40 + j) \<longleftrightarrow> bit x (32 + j)"
    "bit (swap_pairs x) (48 + j) \<longleftrightarrow> bit x (56 + j)" "bit (swap_pairs x) (56 + j) \<longleftrightarrow> bit x (48 + j)"
  using assms unfolding swap_pairs_def octet_masks Let_def by (auto simp: bit_simps)

lemma swap_8_rev:
  assumes "length bs = 8"
  shows "swap_8 bs = rev bs"
proof -
  define x where "x = (of_mem bs :: u64)"
  have "\<forall>i<8. \<forall>j<8. bit (push_bit 32 (swap_words x) OR drop_bit 32 (swap_words x)) (8 * i + j)
      \<longleftrightarrow> bit x (8 * (8 - 1 - i) + j)"
    by (subst ball_8) (auto simp: bit_simps bit_swap_words dest: bit_imp_le_length)
  then have "swap_8 bs = rev (to_mem 8 x)"
    using assms by (simp add: swap_8_def Let_def x_def to_mem_rev)
  also have "to_mem 8 x = bs" using to_of_mem [of bs, where 'a = 64] assms by (simp add: x_def)
  finally show ?thesis .
qed

lemma swap_16_rev:
  assumes "length bs = 16"
  shows "swap_16 bs = rev bs"
proof -
  have "swap_8 bs = swap_8 (take 8 bs)" by (simp add: swap_8_def)
  then have "swap_16 bs = rev (drop 8 bs) @ rev (take 8 bs)"
    using assms by (simp add: swap_16_def swap_8_rev)
  then show ?thesis by (simp flip: rev_append)
qed

lemma swap_elem_take:
  "swap_2 (take 2 bs) = swap_2 bs" "swap_4 (take 4 bs) = swap_4 bs" "swap_8 (take 8 bs) = swap_8 bs"
  by (simp_all add: swap_2_def swap_4_def swap_8_def)

lemma swap_elem_rev:
  "2 \<le> length bs \<Longrightarrow> swap_2 bs = rev (take 2 bs)"
  "4 \<le> length bs \<Longrightarrow> swap_4 bs = rev (take 4 bs)"
  "8 \<le> length bs \<Longrightarrow> swap_8 bs = rev (take 8 bs)"
  using swap_2_rev [of "take 2 bs"] swap_4_rev [of "take 4 bs"] swap_8_rev [of "take 8 bs"]
  by (simp_all add: swap_elem_take)

section \<open>The array routines\<close>

lemma swap_8_array_rev: "8 * n \<le> length bs \<Longrightarrow> swap_8_array bs n = rev_elems 8 n bs"
  by (induction n arbitrary: bs) (simp_all add: swap_elem_rev)

lemma swap_16_array_rev: "16 * n \<le> length bs \<Longrightarrow> swap_16_array bs n = rev_elems 16 n bs"
proof (induction n arbitrary: bs)
  case (Suc n)
  have "swap_16 bs = swap_16 (take 16 bs)"
    by (simp add: swap_16_def drop_take min_def swap_elem_take(3) [of "take 16 bs", symmetric] swap_8_def)
  then show ?case using Suc by (simp add: swap_16_rev)
qed simp

lemma four_elems: "rev_elems k 4 bs = rev (take k bs) @ rev (take k (drop k bs)) @ rev (take k (drop (2 * k) bs)) @ rev (take k (drop (3 * k) bs))"
  by (simp add: numeral_eq_Suc mult_2 add.commute)

lemma two_elems: "rev_elems k 2 bs = rev (take k bs) @ rev (take k (drop k bs))"
  by (simp add: numeral_eq_Suc)

text \<open>Stores of the narrower parts of a word add up to the store of the word.\<close>

lemma to_mem_append: "to_mem (m + n) w = to_mem m w @ to_mem n (drop_bit (8 * m) w)"
proof (rule nth_equalityI)
  fix i assume "i < length (to_mem (m + n) w)"
  then show "to_mem (m + n) w ! i = (to_mem m w @ to_mem n (drop_bit (8 * m) w)) ! i"
    by (auto simp: nth_append to_mem_def drop_bit_drop_bit algebra_simps intro!: arg_cong [where f = "\<lambda>k. ucast (drop_bit k w)"])
qed simp

lemma to_mem_ucast: "8 * n \<le> LENGTH('b) \<Longrightarrow> to_mem n (ucast (w :: 'a::len word) :: 'b::len word) = to_mem n w"
  by (rule mem_eqI) (auto simp: bit_to_mem bit_simps)

lemma to_mem_and_mask: "to_mem n (w AND mask (8 * n)) = to_mem n (w :: 'a::len word)"
  by (rule mem_eqI) (auto simp: bit_to_mem bit_simps dest: bit_imp_le_length)

lemma low_masks: "(0xffff :: u64) = mask (8 * 2)" "(0xffffffff :: u64) = mask (8 * 4)"
  by (simp_all add: mask_eq_exp_minus_1)

lemma swap_2_chunk_aligned: "swap_2_chunk al orig = to_mem 8 (swap_pairs (of_mem (take 8 orig)))"
proof (cases al)
  case False
  define a where "a = swap_pairs (of_mem (take 8 orig))"
  have "to_mem 2 (ucast (a AND 0xffff) :: u16) @ to_mem 2 (ucast (drop_bit 16 a AND 0xffff) :: u16)
      @ to_mem 2 (ucast (drop_bit 32 a AND 0xffff) :: u16) @ to_mem 2 (ucast (drop_bit 48 a) :: u16) = to_mem 8 a"
    unfolding low_masks
    by (simp add: to_mem_ucast to_mem_and_mask [of 2, simplified] to_mem_append [of 2 6, simplified] to_mem_append [of 2 4, simplified]
        to_mem_append [of 2 2, simplified] drop_bit_drop_bit)
  then show ?thesis using False by (simp add: swap_2_chunk_def Let_def a_def)
qed (simp add: swap_2_chunk_def Let_def)

lemma swap_2_chunk_rev:
  assumes "8 \<le> length orig"
  shows "swap_2_chunk al orig = rev_elems 2 4 (take 8 orig)"
proof (rule mem_eqI)
  define x where "x = (of_mem (take 8 orig) :: u64)"
  have x: "take 8 orig = to_mem 8 x" using to_of_mem [of "take 8 orig", where 'a = 64] assms by (simp add: x_def)
  show "length (swap_2_chunk al orig) = length (rev_elems 2 4 (take 8 orig))"
    using assms by (simp add: swap_2_chunk_aligned length_rev_elems)
  fix i j :: nat
  assume i: "i < length (rev_elems 2 4 (take 8 orig))" and j: "j < 8"
  have e: "rev_elems 2 4 (take 8 orig) = map (\<lambda>i. to_mem 8 x ! i) [1, 0, 3, 2, 5, 4, 7, 6]"
    unfolding x four_elems by (simp add: to_mem_def upt_rec)
  have "\<forall>i<8. bit (swap_2_chunk al orig ! i) j \<longleftrightarrow> bit (rev_elems 2 4 (take 8 orig) ! i) j"
    unfolding e swap_2_chunk_aligned x_def [symmetric] using j
    by (subst ball_8) (simp add: bit_to_mem bit_swap_pairs)
  then show "bit (swap_2_chunk al orig ! i) j \<longleftrightarrow> bit (rev_elems 2 4 (take 8 orig) ! i) j"
    using i assms by (simp add: length_rev_elems)
qed

lemma swap_4_chunk_aligned:
  "swap_4_chunk al orig = to_mem 8 (swap_words (of_mem (take 8 orig))) @ to_mem 8 (swap_words (of_mem (take 8 (drop 8 orig))))"
proof (cases al)
  case False
  have "to_mem 4 (ucast (a AND 0xffffffff) :: u32) @ to_mem 4 (ucast (drop_bit 32 a) :: u32) = to_mem 8 a" for a :: u64
    unfolding low_masks to_mem_append [of 4 4 a, simplified] by (simp add: to_mem_ucast to_mem_and_mask [of 4, simplified])
  note halves = this
  have "to_mem 4 (ucast (a AND 0xffffffff) :: u32) @ to_mem 4 (ucast (drop_bit 32 a) :: u32) @ r = to_mem 8 a @ r" for a :: u64 and r
    unfolding halves [symmetric] by simp
  then show ?thesis using False halves by (simp add: swap_4_chunk_def Let_def)
qed (simp add: swap_4_chunk_def Let_def)

lemma swap_words_rev:
  assumes "8 \<le> length orig"
  shows "to_mem 8 (swap_words (of_mem (take 8 orig))) = rev_elems 4 2 (take 8 orig)"
proof (rule mem_eqI)
  define x where "x = (of_mem (take 8 orig) :: u64)"
  have x: "take 8 orig = to_mem 8 x" using to_of_mem [of "take 8 orig", where 'a = 64] assms by (simp add: x_def)
  show "length (to_mem 8 (swap_words (of_mem (take 8 orig)))) = length (rev_elems 4 2 (take 8 orig))"
    using assms by (simp add: length_rev_elems)
  fix i j :: nat
  assume i: "i < length (rev_elems 4 2 (take 8 orig))" and j: "j < 8"
  have e: "rev_elems 4 2 (take 8 orig) = map (\<lambda>i. to_mem 8 x ! i) [3, 2, 1, 0, 7, 6, 5, 4]"
    unfolding x two_elems by (simp add: to_mem_def upt_rec)
  have "\<forall>i<8. bit (to_mem 8 (swap_words x) ! i) j \<longleftrightarrow> bit (rev_elems 4 2 (take 8 orig) ! i) j"
    unfolding e using j by (subst ball_8) (simp add: bit_to_mem bit_swap_words)
  then show "bit (to_mem 8 (swap_words (of_mem (take 8 orig))) ! i) j \<longleftrightarrow> bit (rev_elems 4 2 (take 8 orig) ! i) j"
    using i assms by (simp add: length_rev_elems x_def)
qed

lemma rev_elems_take: "k * n \<le> m \<Longrightarrow> rev_elems k n (take m bs) = rev_elems k n bs"
proof (induction n arbitrary: bs m)
  case (Suc n)
  then show ?case by (simp add: take_take min_absorb1 drop_take)
qed simp

lemma swap_4_chunk_rev:
  assumes "16 \<le> length orig"
  shows "swap_4_chunk al orig = rev_elems 4 4 (take 16 orig)"
proof -
  have "rev_elems 4 (2 + 2) (take 16 orig) = rev_elems 4 2 (take 8 orig) @ rev_elems 4 2 (take 8 (drop 8 orig))"
    unfolding rev_elems_add by (simp add: rev_elems_take drop_take)
  then show ?thesis using assms swap_words_rev [of orig] swap_words_rev [of "drop 8 orig"]
    by (simp add: swap_4_chunk_aligned)
qed

lemma swap_2_loop_rev:
  "8 * k \<le> length bs \<Longrightarrow> swap_2_loop al k bs = (rev_elems 2 (4 * k) bs, drop (8 * k) bs)"
proof (induction k arbitrary: bs)
  case (Suc k)
  have "rev_elems 2 (4 * Suc k) bs = rev_elems 2 4 bs @ rev_elems 2 (4 * k) (drop 8 bs)"
    using rev_elems_add [of 2 4 "4 * k" bs] by simp
  then show ?case using Suc by (simp add: swap_2_chunk_rev rev_elems_take add.commute)
qed simp

lemma swap_4_loop_rev:
  "16 * k \<le> length bs \<Longrightarrow> swap_4_loop al k bs = (rev_elems 4 (4 * k) bs, drop (16 * k) bs)"
proof (induction k arbitrary: bs)
  case (Suc k)
  have "rev_elems 4 (4 * Suc k) bs = rev_elems 4 4 bs @ rev_elems 4 (4 * k) (drop 16 bs)"
    using rev_elems_add [of 4 4 "4 * k" bs] by simp
  then show ?case using Suc by (simp add: swap_4_chunk_rev rev_elems_take add.commute)
qed simp

lemma mod_4_cases: "n mod 4 = 0 \<or> n mod 4 = 1 \<or> n mod 4 = 2 \<or> n mod 4 = (3 :: nat)"
  using mod_less_divisor [of 4 n] by arith

lemma rev_elems_2:
  "rev_elems k (Suc 0) bs = rev (take k bs)"
  "rev_elems k 2 bs = rev (take k bs) @ rev (take k (drop k bs))"
  "rev_elems k 3 bs = rev (take k bs) @ rev (take k (drop k bs)) @ rev (take k (drop (k + k) bs))"
  by (simp_all add: numeral_eq_Suc)

lemma swap_2_tail_rev: "2 * (n mod 4) \<le> length bs \<Longrightarrow> swap_2_tail (n mod 4) bs = rev_elems 2 (n mod 4) bs"
  using mod_4_cases [of n]
  by (elim disjE) (simp_all add: swap_2_tail_def swap_elem_rev rev_elems_2)

lemma swap_4_tail_rev: "4 * (n mod 4) \<le> length bs \<Longrightarrow> swap_4_tail (n mod 4) bs = rev_elems 4 (n mod 4) bs"
  using mod_4_cases [of n]
  by (elim disjE) (simp_all add: swap_4_tail_def swap_elem_rev rev_elems_2)

lemma swap_2_head_rev:
  assumes "length bs = 2 * n"
  shows "\<exists>k \<le> n. swap_2_head o8 orig target bs n = (rev_elems 2 k bs, orig + 2 * k, target + 2 * k, drop (2 * k) bs, n - k)"
  using assms
proof (induction n arbitrary: orig target bs)
  case (Suc n)
  show ?case
  proof (cases "orig < o8")
    case True
    obtain k where "k \<le> n" "swap_2_head o8 (orig + 2) (target + 2) (drop 2 bs) n
        = (rev_elems 2 k (drop 2 bs), orig + 2 + 2 * k, target + 2 + 2 * k, drop (2 * k) (drop 2 bs), n - k)"
      using Suc.IH [of "drop 2 bs" "orig + 2" "target + 2"] Suc.prems by auto
    then show ?thesis using True Suc.prems
      by (intro exI [of _ "Suc k"]) (simp add: swap_elem_rev add.commute)
  qed (auto intro: exI [of _ 0])
qed simp

lemma swap_body_2:
  assumes "length bs = 2 * n"
  shows "(let (out, rest) = swap_2_loop al (n div 4) bs in out @ swap_2_tail (n mod 4) rest) = rev_elems 2 n bs"
proof -
  have "2 * n = 8 * (n div 4) + 2 * (n mod 4)" using div_mult_mod_eq [of n 4] by linarith
  then have "8 * (n div 4) \<le> length bs" "2 * (n mod 4) \<le> length (drop (8 * (n div 4)) bs)"
    unfolding length_drop assms by linarith+
  then have "(let (out, rest) = swap_2_loop al (n div 4) bs in out @ swap_2_tail (n mod 4) rest)
      = rev_elems 2 (4 * (n div 4)) bs @ rev_elems 2 (n mod 4) (drop (4 * (n div 4) * 2) bs)"
    by (simp add: swap_2_loop_rev swap_2_tail_rev mult.commute mult.left_commute)
  then show ?thesis unfolding rev_elems_add [symmetric] by simp
qed

lemma swap_body_4:
  assumes "length bs = 4 * n"
  shows "(let (out, rest) = swap_4_loop al (n div 4) bs in out @ swap_4_tail (n mod 4) rest) = rev_elems 4 n bs"
proof -
  have "4 * n = 16 * (n div 4) + 4 * (n mod 4)" using div_mult_mod_eq [of n 4] by linarith
  then have "16 * (n div 4) \<le> length bs" "4 * (n mod 4) \<le> length (drop (16 * (n div 4)) bs)"
    unfolding length_drop assms by linarith+
  then have "(let (out, rest) = swap_4_loop al (n div 4) bs in out @ swap_4_tail (n mod 4) rest)
      = rev_elems 4 (4 * (n div 4)) bs @ rev_elems 4 (n mod 4) (drop (4 * (n div 4) * 4) bs)"
    by (simp add: swap_4_loop_rev swap_4_tail_rev mult.commute mult.left_commute)
  then show ?thesis unfolding rev_elems_add [symmetric] by simp
qed

lemma swap_2_array_rev:
  assumes "length bs = 2 * n"
  shows "swap_2_array orig target bs n = rev_elems 2 n bs"
proof -
  obtain k where k: "k \<le> n" "swap_2_head (align_binary orig 8) orig target bs n
      = (rev_elems 2 k bs, orig + 2 * k, target + 2 * k, drop (2 * k) bs, n - k)"
    using swap_2_head_rev [OF assms] by blast
  define al where "al = (target + 2 * k = align_binary (target + 2 * k) 8)"
  show ?thesis
  proof (cases "k = n")
    case False
    then have "swap_2_array orig target bs n = rev_elems 2 k bs @
        (let (out, rest) = swap_2_loop al ((n - k) div 4) (drop (2 * k) bs) in out @ swap_2_tail ((n - k) mod 4) rest)"
      using k by (simp add: swap_2_array_def Let_def al_def split: prod.split)
    also have "\<dots> = rev_elems 2 k bs @ rev_elems 2 (n - k) (drop (k * 2) bs)"
      using swap_body_2 [of "drop (2 * k) bs" "n - k"] assms k(1) by (simp add: mult.commute)
    finally show ?thesis using k(1) by (simp flip: rev_elems_add)
  qed (use k in \<open>simp add: swap_2_array_def Let_def\<close>)
qed

lemma swap_4_array_rev:
  assumes "length bs = 4 * n" and "0 < n"
  shows "swap_4_array orig target bs n = rev_elems 4 n bs"
proof (cases "orig = align_binary orig 8")
  case True
  then show ?thesis using assms swap_body_4 [OF assms(1)]
    by (simp add: swap_4_array_def Let_def case_prod_unfold)
next
  case False
  obtain m where m: "n = Suc m" using assms(2) by (cases n) auto
  have e: "rev_elems 4 n bs = swap_4 bs @ rev_elems 4 m (drop 4 bs)"
    using assms(1) by (simp add: m swap_elem_rev)
  show ?thesis unfolding e using False swap_body_4 [of "drop 4 bs" m] assms(1)
    by (simp add: swap_4_array_def Let_def case_prod_unfold m)
qed

text \<open>
  (C30) The unrolled array routines, which read and write whole words where the addresses allow
  it, write the octets of every element in reverse order, for every address of the original and
  of the target and every number of elements.
\<close>
theorem swap_arrays_reverse:
  assumes "0 < n"
  shows "(length b2 = 2 * n \<longrightarrow> swap_2_array orig target b2 n = rev_elems 2 n b2) \<and>
    (length b4 = 4 * n \<longrightarrow> swap_4_array orig target b4 n = rev_elems 4 n b4) \<and>
    (length b8 = 8 * n \<longrightarrow> swap_8_array b8 n = rev_elems 8 n b8) \<and>
    (length b16 = 16 * n \<longrightarrow> swap_16_array b16 n = rev_elems 16 n b16)"
  using assms swap_2_array_rev swap_4_array_rev swap_8_array_rev swap_16_array_rev by simp

theorem swap_arrays_reverse_witness:
  "swap_4_array 4 8 [1, 2, 3, 4, 5, 6, 7, 8] 2 = [4, 3, 2, 1, 8, 7, 6, 5]"
proof -
  have "swap_4_array 4 8 [1, 2, 3, 4, 5, 6, 7, 8] 2 = rev_elems 4 2 [1, 2, 3, 4, 5, 6, 7, 8]"
    using swap_arrays_reverse [of 2 "[]" 4 8 "[1, 2, 3, 4, 5, 6, 7, 8]" "[]" "[]"] by simp
  then show ?thesis by (simp add: numeral_2_eq_2)
qed

lemma rev_elems_twice: "length bs = k * n \<Longrightarrow> rev_elems k n (rev_elems k n bs) = bs"
proof (induction n arbitrary: bs)
  case (Suc n)
  then show ?case by simp
qed simp

end
