(* ===== verification/CDR_Output.thy ===== *)
theory CDR_Output
  imports CDR_Swap
begin

text \<open>
  ACE_OutputCDR (ACE/ace/CDR_Stream.cpp, CDR_Stream.inl): a chain of buffers that grows while
  values are written at aligned positions. Positions in a buffer are offsets from its base
  address. The allocator is a parameter: its \<open>n\<close>th call for a buffer of some size gives a base
  address and the initial contents, or fails. Whether the library was compiled with
  \<open>ACE_ENABLE_SWAP_ON_WRITE\<close> is a field of the stream. A pointer argument is the list of the
  octets found from that address on. No code set translator is installed.
\<close>

section \<open>State\<close>

record blk =
  b_base :: nat
  b_data :: "u8 list"
  b_cur :: nat
  b_rd :: nat
  b_wr :: nat

record ocdr =
  o_done :: "blk list"
  o_cur :: blk
  o_conts :: "blk list"
  o_align :: nat
  o_writable :: bool
  o_swap :: bool
  o_swap_on_write :: bool
  o_good :: bool
  o_major :: nat
  o_minor :: nat
  o_allocs :: nat

type_synonym allocator = "nat \<Rightarrow> nat \<Rightarrow> (nat \<times> u8 list) option"

definition blk_length :: "blk \<Rightarrow> nat" where
  "blk_length b = b_wr b - b_rd b"

text \<open>The memory of a block is its capacity; \<open>cur_size_\<close> is the part in use.\<close>

definition blk_size :: "blk \<Rightarrow> nat" where
  "blk_size b = b_cur b"

definition blk_end :: "blk \<Rightarrow> nat" where
  "blk_end b = length (b_data b)"

definition blk_space :: "blk \<Rightarrow> nat" where
  "blk_space b = b_cur b - b_wr b"

definition content :: "blk \<Rightarrow> u8 list" where
  "content b = take (blk_length b) (drop (b_rd b) (b_data b))"

definition blk_mb_align :: "blk \<Rightarrow> blk" where
  "blk_mb_align b =
     (let start = align_binary (b_base b) MAX_ALIGNMENT - b_base b in b\<lparr>b_rd := start, b_wr := start\<rparr>)"

definition ocdr_new :: "nat \<Rightarrow> u8 list \<Rightarrow> bool \<Rightarrow> bool \<Rightarrow> nat \<Rightarrow> nat \<Rightarrow> ocdr" where
  "ocdr_new base data do_byte_swap swap_on_write major_version minor_version =
     \<lparr>o_done = [], o_cur = blk_mb_align \<lparr>b_base = base, b_data = data, b_cur = length data, b_rd = 0, b_wr = 0\<rparr>, o_conts = [],
      o_align = 0, o_writable = True, o_swap = do_byte_swap, o_swap_on_write = swap_on_write, o_good = True,
      o_major = major_version, o_minor = minor_version, o_allocs = 0\<rparr>"

definition chain :: "ocdr \<Rightarrow> blk list" where
  "chain oc = o_done oc @ [o_cur oc]"

fun total_length :: "blk list \<Rightarrow> nat" where
  "total_length [] = 0"
| "total_length (i # is) = blk_length i + total_length is"

section \<open>Space\<close>

definition new_block :: "nat \<Rightarrow> nat \<times> u8 list \<Rightarrow> blk" where
  "new_block current_alignment mem =
     (let (base, data) = mem;
          tmpalign = int (base mod MAX_ALIGNMENT);
          curalign = int (current_alignment mod MAX_ALIGNMENT);
          offset = curalign - tmpalign;
          offset = (if offset < 0 then offset + int MAX_ALIGNMENT else offset)
      in \<lparr>b_base = base, b_data = data, b_cur = length data, b_rd = nat offset, b_wr = nat offset\<rparr>)"

definition move_to_cont :: "ocdr \<Rightarrow> ocdr" where
  "move_to_cont oc = oc\<lparr>o_done := o_done oc @ [o_cur oc], o_cur := hd (o_conts oc),
     o_conts := tl (o_conts oc), o_writable := True\<rparr>"

definition grow_chain :: "allocator \<Rightarrow> nat \<Rightarrow> ocdr \<Rightarrow> (bool \<times> ocdr) option" where
  "grow_chain al sz oc =
     (if \<not> o_writable oc \<or> o_conts oc = [] \<or> blk_size (hd (o_conts oc)) < sz + MAX_ALIGNMENT
      then let cursize = (if o_conts oc \<noteq> [] then blk_size (hd (o_conts oc)) else blk_size (o_cur oc));
               minsize = sz + MAX_ALIGNMENT;
               minsize = (if minsize < cursize then cursize else minsize)
           in do {
             newsize \<leftarrow> next_size minsize;
             let oc = oc\<lparr>o_good := False, o_allocs := Suc (o_allocs oc)\<rparr>;
             (case al (o_allocs oc) newsize of
                None \<Rightarrow> Some (False, oc)
              | Some mem \<Rightarrow>
                  Some (True, move_to_cont (oc\<lparr>o_good := True, o_conts := new_block (o_align oc) mem # o_conts oc\<rparr>))) }
      else Some (True, move_to_cont oc))"

partial_function (option) adjust :: "allocator \<Rightarrow> nat \<Rightarrow> nat \<Rightarrow> ocdr \<Rightarrow> (nat option \<times> ocdr) option" where
  "adjust al sz align oc =
     (let offset = align_binary (o_align oc) align - o_align oc;
          buf = b_wr (o_cur oc) + offset
      in if o_writable oc \<and> buf + sz \<le> blk_end (o_cur oc)
         then Some (Some buf, oc\<lparr>o_align := o_align oc + offset + sz, o_cur := (o_cur oc)\<lparr>b_wr := buf + sz\<rparr>\<rparr>)
         else do {
           r \<leftarrow> grow_chain al sz oc;
           (if fst r then adjust al sz align (snd r) else Some (None, snd r)) })"

section \<open>Writing\<close>

definition store :: "nat \<Rightarrow> u8 list \<Rightarrow> ocdr \<Rightarrow> ocdr" where
  "store buf bs oc = oc\<lparr>o_cur := (o_cur oc)\<lparr>b_data :=
     take buf (b_data (o_cur oc)) @ bs @ drop (buf + length bs) (b_data (o_cur oc))\<rparr>\<rparr>"

definition do_swap :: "ocdr \<Rightarrow> bool" where
  "do_swap oc \<longleftrightarrow> o_swap_on_write oc \<and> o_swap oc"

definition write_1 :: "allocator \<Rightarrow> u8 \<Rightarrow> ocdr \<Rightarrow> (bool \<times> ocdr) option" where
  "write_1 al x oc = do {
     (buf, oc) \<leftarrow> adjust al 1 1 oc;
     (case buf of
        Some buf \<Rightarrow> Some (True, store buf [x] oc)
      | None \<Rightarrow> Some (False, oc)) }"

definition write_2 :: "allocator \<Rightarrow> u16 \<Rightarrow> ocdr \<Rightarrow> (bool \<times> ocdr) option" where
  "write_2 al x oc = do {
     (buf, oc) \<leftarrow> adjust al 2 2 oc;
     (case buf of
        Some buf \<Rightarrow> Some (True, store buf (if \<not> do_swap oc then to_mem 2 x else swap_2 (to_mem 2 x)) oc)
      | None \<Rightarrow> Some (False, oc)) }"

definition write_4 :: "allocator \<Rightarrow> u32 \<Rightarrow> ocdr \<Rightarrow> (bool \<times> ocdr) option" where
  "write_4 al x oc = do {
     (buf, oc) \<leftarrow> adjust al 4 4 oc;
     (case buf of
        Some buf \<Rightarrow> Some (True, store buf (if \<not> do_swap oc then to_mem 4 x else swap_4 (to_mem 4 x)) oc)
      | None \<Rightarrow> Some (False, oc)) }"

definition write_8 :: "allocator \<Rightarrow> u64 \<Rightarrow> ocdr \<Rightarrow> (bool \<times> ocdr) option" where
  "write_8 al x oc = do {
     (buf, oc) \<leftarrow> adjust al 8 8 oc;
     (case buf of
        Some buf \<Rightarrow> Some (True, store buf (if \<not> do_swap oc then to_mem 8 x else swap_8 (to_mem 8 x)) oc)
      | None \<Rightarrow> Some (False, oc)) }"

text \<open>A long double is sixteen octets of memory, aligned to eight.\<close>

definition write_16 :: "allocator \<Rightarrow> u8 list \<Rightarrow> ocdr \<Rightarrow> (bool \<times> ocdr) option" where
  "write_16 al x oc = do {
     (buf, oc) \<leftarrow> adjust al 16 8 oc;
     (case buf of
        Some buf \<Rightarrow> Some (True, store buf (if \<not> do_swap oc then x else swap_16 x) oc)
      | None \<Rightarrow> Some (False, oc)) }"

text \<open>The address of the source decides how the array swap runs; its result does not depend on it.\<close>

definition write_array :: "allocator \<Rightarrow> nat \<Rightarrow> u8 list \<Rightarrow> nat \<Rightarrow> nat \<Rightarrow> nat \<Rightarrow> ocdr \<Rightarrow> (bool \<times> ocdr) option" where
  "write_array al source x sz align len oc =
     (if len = 0 then Some (True, oc)
      else do {
        (buf, oc) \<leftarrow> adjust al (sz * len) align oc;
        (case buf of
           Some buf \<Rightarrow>
             (let bs = take (sz * len) x; target = b_base (o_cur oc) + buf
              in if \<not> do_swap oc \<or> sz = 1 then Some (True, store buf bs oc)
                 else if sz = 2 then Some (True, store buf (swap_2_array source target bs len) oc)
                 else if sz = 4 then Some (True, store buf (swap_4_array source target bs len) oc)
                 else if sz = 8 then Some (True, store buf (swap_8_array bs len) oc)
                 else if sz = 16 then Some (True, store buf (swap_16_array bs len) oc)
                 else Some (False, oc\<lparr>o_good := False\<rparr>))
         | None \<Rightarrow> Some (False, oc\<lparr>o_good := False\<rparr>)) })"

definition write_boolean :: "allocator \<Rightarrow> bool \<Rightarrow> ocdr \<Rightarrow> (bool \<times> ocdr) option" where
  "write_boolean al x = write_1 al (if x then 1 else 0)"

fun write_boolean_array :: "allocator \<Rightarrow> bool list \<Rightarrow> ocdr \<Rightarrow> (bool \<times> ocdr) option" where
  "write_boolean_array al [] oc = Some (o_good oc, oc)"
| "write_boolean_array al (i # is) oc =
     (if o_good oc then do { (_, oc) \<leftarrow> write_boolean al i oc; write_boolean_array al is oc }
      else Some (o_good oc, oc))"

definition write_string :: "allocator \<Rightarrow> nat \<Rightarrow> u8 list \<Rightarrow> ocdr \<Rightarrow> (bool \<times> ocdr) option" where
  "write_string al len x oc =
     (if len \<noteq> 0
      then do {
        (ok, oc) \<leftarrow> write_4 al (of_nat (len + 1)) oc;
        (if ok then write_array al 0 x 1 1 (len + 1) oc else Some (False, oc\<lparr>o_good := False\<rparr>)) }
      else do {
        (ok, oc) \<leftarrow> write_4 al 1 oc;
        (if ok then write_1 al 0 oc else Some (False, oc\<lparr>o_good := False\<rparr>)) })"

text \<open>A string view is a length and the memory from its first character on.\<close>

definition write_string_view :: "allocator \<Rightarrow> nat \<Rightarrow> u8 list \<Rightarrow> ocdr \<Rightarrow> (bool \<times> ocdr) option" where
  "write_string_view al len data oc = write_string al len (if len = 0 then [] else data) oc"

fun write_wchars :: "bool \<Rightarrow> nat \<Rightarrow> u32 list \<Rightarrow> u8 list" where
  "write_wchars swap maxbytes [] = []"
| "write_wchars swap maxbytes (x # xs) =
     (if maxbytes = 2
      then (if \<not> swap then to_mem 2 (ucast x :: u16) else swap_2 (to_mem 2 (ucast x :: u16)))
      else [ucast x]) @ write_wchars swap maxbytes xs"

definition write_wchar_array_i :: "allocator \<Rightarrow> nat \<Rightarrow> u32 list \<Rightarrow> ocdr \<Rightarrow> (bool \<times> ocdr) option" where
  "write_wchar_array_i al maxbytes x oc =
     (if length x = 0 then Some (True, oc)
      else do {
        (buf, oc) \<leftarrow> adjust al (maxbytes * length x) (if maxbytes = 2 then 2 else 1) oc;
        (case buf of
           Some buf \<Rightarrow> Some (o_good oc, store buf (write_wchars (do_swap oc) maxbytes x) oc)
         | None \<Rightarrow> Some (False, oc)) })"

definition write_wchar :: "allocator \<Rightarrow> nat \<Rightarrow> u32 \<Rightarrow> ocdr \<Rightarrow> (bool \<times> ocdr) option" where
  "write_wchar al maxbytes x oc =
     (if maxbytes = 0 then Some (False, oc\<lparr>o_good := False\<rparr>)
      else
        let plain = (\<lambda>oc. if maxbytes = 4 then write_4 al x oc
                      else if maxbytes = 2 then write_2 al (ucast x) oc
                      else write_1 al (ucast x) oc)
        in if o_major oc = 1 \<and> o_minor oc = 2
           then do {
             (ok, oc) \<leftarrow> write_1 al (of_nat maxbytes) oc;
             (if ok then write_array al 0 (if maxbytes = 4 then to_mem 4 x
                 else if maxbytes = 2 then to_mem 2 (ucast x :: u16) else [ucast x])
                 1 1 (unat (of_nat maxbytes :: u8)) oc
              else plain oc) }
           else if o_minor oc = 0 then Some (False, oc\<lparr>o_good := False\<rparr>)
           else plain oc)"

text \<open>A placeholder of \<open>sz\<close> octets: zero is stored and the position returned.\<close>

definition write_placeholder :: "allocator \<Rightarrow> nat \<Rightarrow> ocdr \<Rightarrow> (nat option \<times> ocdr) option" where
  "write_placeholder al sz oc = do {
     (buf, oc) \<leftarrow> adjust al sz sz oc;
     (case buf of
        Some buf \<Rightarrow> Some (Some buf, store buf (replicate sz 0) oc)
      | None \<Rightarrow> Some (None, oc)) }"

section \<open>Patching, consolidating, reset\<close>

definition all_blocks :: "ocdr \<Rightarrow> blk list" where
  "all_blocks oc = o_done oc @ o_cur oc # o_conts oc"

text \<open>\<open>find\<close> by address, as the code compares the pointers.\<close>

definition find_block :: "nat \<Rightarrow> ocdr \<Rightarrow> blk option" where
  "find_block loc oc =
     List.find (\<lambda>mb. loc \<le> b_base mb + b_wr mb \<and> b_base mb + b_rd mb \<le> loc) (all_blocks oc)"

text \<open>A store through a pointer: into the block that owns the octets, or outside of every block.\<close>

datatype 'a access = Done 'a | Out_of_bounds

definition owns :: "nat \<Rightarrow> nat \<Rightarrow> blk \<Rightarrow> bool" where
  "owns loc n mb \<longleftrightarrow> b_base mb \<le> loc \<and> loc + n \<le> b_base mb + blk_end mb"

definition blk_store :: "nat \<Rightarrow> u8 list \<Rightarrow> blk \<Rightarrow> blk" where
  "blk_store loc bs mb = mb\<lparr>b_data := take (loc - b_base mb) (b_data mb) @ bs
     @ drop (loc - b_base mb + length bs) (b_data mb)\<rparr>"

fun store_at :: "nat \<Rightarrow> u8 list \<Rightarrow> blk list \<Rightarrow> blk list access" where
  "store_at loc bs [] = Out_of_bounds"
| "store_at loc bs (mb # mbs) =
     (if owns loc (length bs) mb then Done (blk_store loc bs mb # mbs)
      else case store_at loc bs mbs of Done r \<Rightarrow> Done (mb # r) | Out_of_bounds \<Rightarrow> Out_of_bounds)"

definition put_blocks :: "ocdr \<Rightarrow> blk list \<Rightarrow> ocdr" where
  "put_blocks oc mbs = oc\<lparr>o_done := take (length (o_done oc)) mbs, o_cur := mbs ! length (o_done oc),
     o_conts := drop (Suc (length (o_done oc))) mbs\<rparr>"

definition replace_mem :: "u8 list \<Rightarrow> nat \<Rightarrow> ocdr \<Rightarrow> (bool \<times> ocdr) access" where
  "replace_mem bs loc oc =
     (if find_block loc oc = None then Done (False, oc)
      else case store_at loc bs (all_blocks oc) of
             Done mbs \<Rightarrow> Done (True, put_blocks oc mbs)
           | Out_of_bounds \<Rightarrow> Out_of_bounds)"

definition replace_1 :: "u8 \<Rightarrow> nat \<Rightarrow> ocdr \<Rightarrow> (bool \<times> ocdr) access" where
  "replace_1 x loc oc = replace_mem [x] loc oc"

definition replace_2 :: "u16 \<Rightarrow> nat \<Rightarrow> ocdr \<Rightarrow> (bool \<times> ocdr) access" where
  "replace_2 x loc oc = replace_mem (if \<not> do_swap oc then to_mem 2 x else swap_2 (to_mem 2 x)) loc oc"

definition replace_4 :: "u32 \<Rightarrow> nat \<Rightarrow> ocdr \<Rightarrow> (bool \<times> ocdr) access" where
  "replace_4 x loc oc = replace_mem (if \<not> do_swap oc then to_mem 4 x else swap_4 (to_mem 4 x)) loc oc"

definition replace_8 :: "u64 \<Rightarrow> nat \<Rightarrow> ocdr \<Rightarrow> (bool \<times> ocdr) access" where
  "replace_8 x loc oc = replace_mem (if \<not> do_swap oc then to_mem 8 x else swap_8 (to_mem 8 x)) loc oc"

text \<open>
  \<open>ACE_Data_Block::size\<close> on the first block: a larger buffer is allocated and the octets in
  use are copied, at the same offsets.
\<close>

definition blk_resize :: "allocator \<Rightarrow> nat \<Rightarrow> nat \<Rightarrow> blk \<Rightarrow> blk option" where
  "blk_resize al n newsize b =
     (if newsize \<le> blk_end b then Some (b\<lparr>b_cur := newsize\<rparr>)
      else case al n newsize of
             None \<Rightarrow> None
           | Some (base, data) \<Rightarrow> Some (b\<lparr>b_base := base,
               b_data := take (b_cur b) (b_data b) @ drop (b_cur b) data, b_cur := newsize\<rparr>))"

definition blk_copy :: "u8 list \<Rightarrow> blk \<Rightarrow> blk" where
  "blk_copy bs b = (if length bs \<le> blk_space b
     then b\<lparr>b_data := take (b_wr b) (b_data b) @ bs @ drop (b_wr b + length bs) (b_data b), b_wr := b_wr b + length bs\<rparr>
     else b)"

definition consolidate :: "allocator \<Rightarrow> ocdr \<Rightarrow> (int \<times> ocdr) option" where
  "consolidate al oc =
     (if o_done oc \<noteq> [] then do {
        newsize \<leftarrow> first_size (total_length (chain oc) + MAX_ALIGNMENT);
        let start = hd (chain oc);
        (case blk_resize al (o_allocs oc) newsize start of
           None \<Rightarrow> Some (-1, oc\<lparr>o_allocs := Suc (o_allocs oc)\<rparr>)
         | Some start \<Rightarrow>
             Some (0, oc\<lparr>o_done := [], o_cur := fold (\<lambda>i s. blk_copy (content i) s) (tl (all_blocks oc)) start,
               o_conts := [], o_writable := True, o_allocs := Suc (o_allocs oc)\<rparr>)) }
      else Some (0, oc))"

definition reset :: "ocdr \<Rightarrow> ocdr" where
  "reset oc = oc\<lparr>o_done := [], o_cur := blk_mb_align (hd (chain oc)), o_conts := [], o_align := 0, o_writable := True\<rparr>"

text \<open>
  A message block chain is appended by copying its octets when the block does not own its data
  or when they are few and fit, and by linking its data block otherwise. The flag tells whether
  the block owns its data; \<open>None\<close> in the allocation means \<open>new\<close> failed.
\<close>

fun write_octet_array_mb :: "allocator \<Rightarrow> nat \<Rightarrow> (bool \<times> blk) list \<Rightarrow> ocdr \<Rightarrow> (bool \<times> ocdr) option" where
  "write_octet_array_mb al memcpy_tradeoff [] oc = Some (True, oc)"
| "write_octet_array_mb al memcpy_tradeoff ((owned, i) # is) oc =
     (let len = blk_length i
      in if \<not> owned \<or> len < memcpy_tradeoff \<and> b_wr (o_cur oc) + len < blk_end (o_cur oc)
         then do {
           (ok, oc) \<leftarrow> write_array al (b_base i + b_rd i) (content i) 1 1 (unat (of_nat len :: u32)) oc;
           (if ok then write_octet_array_mb al memcpy_tradeoff is oc else Some (False, oc\<lparr>o_good := False\<rparr>)) }
         else
           (let oc = oc\<lparr>o_allocs := Suc (o_allocs oc)\<rparr>
            in case al (o_allocs oc) 0 of
                 None \<Rightarrow> Some (False, oc\<lparr>o_good := False\<rparr>)
               | Some _ \<Rightarrow> write_octet_array_mb al memcpy_tradeoff is
                   (oc\<lparr>o_good := True, o_done := o_done oc @ [o_cur oc], o_cur := i, o_conts := [],
                     o_writable := False, o_align := (o_align oc + len) mod MAX_ALIGNMENT\<rparr>)))"

end
