(* ===== verification/CDR_Output_Inv.thy ===== *)
theory CDR_Output_Inv
  imports CDR_Output
begin

text \<open>
  The invariant of an output stream (blocks in bounds, nothing behind the current block, the
  alignment counter in step with the octets written and with the addresses) and the
  specification of \<open>adjust\<close> and of the writers: a write that succeeds appends padding and the
  octets of the value to what was written.
\<close>

section \<open>Invariant\<close>

definition written :: "ocdr \<Rightarrow> u8 list" where
  "written oc = concat (map content (chain oc))"

definition blk_ok :: "blk \<Rightarrow> bool" where
  "blk_ok b \<longleftrightarrow> b_rd b \<le> b_wr b \<and> b_wr b \<le> blk_end b \<and> b_cur b \<le> blk_end b"

definition oc_inv :: "ocdr \<Rightarrow> bool" where
  "oc_inv oc \<longleftrightarrow> list_all blk_ok (chain oc) \<and> o_conts oc = [] \<and>
     o_align oc mod 8 = length (written oc) mod 8 \<and>
     (o_writable oc \<longrightarrow> (b_base (o_cur oc) + b_wr (o_cur oc)) mod 8 = o_align oc mod 8)"

definition alloc_ok :: "allocator \<Rightarrow> bool" where
  "alloc_ok al \<longleftrightarrow> (\<forall>n sz base data. al n sz = Some (base, data) \<longrightarrow> length data = sz \<and> 8 dvd base)"

definition same_config :: "ocdr \<Rightarrow> ocdr \<Rightarrow> bool" where
  "same_config oc oc' \<longleftrightarrow> o_swap oc' = o_swap oc \<and> o_swap_on_write oc' = o_swap_on_write oc \<and>
     o_major oc' = o_major oc \<and> o_minor oc' = o_minor oc"

lemma same_config_refl [simp]: "same_config oc oc"
  by (simp add: same_config_def)

lemma same_config_trans [trans]: "same_config a b \<Longrightarrow> same_config b c \<Longrightarrow> same_config a c"
  by (simp add: same_config_def)

lemma same_config_do_swap: "same_config oc oc' \<Longrightarrow> do_swap oc' = do_swap oc"
  by (simp add: same_config_def do_swap_def)

lemma length_content: "blk_ok b \<Longrightarrow> length (content b) = blk_length b"
  by (auto simp: content_def blk_length_def blk_ok_def blk_end_def)

lemma total_length_written: "list_all blk_ok (chain oc) \<Longrightarrow> total_length (chain oc) = length (written oc)"
proof -
  have "list_all blk_ok bs \<Longrightarrow> total_length bs = length (concat (map content bs))" for bs
    by (induction bs) (simp_all add: length_content)
  then show "list_all blk_ok (chain oc) \<Longrightarrow> ?thesis" by (simp add: written_def)
qed

lemma written_cur: "written oc = concat (map content (o_done oc)) @ content (o_cur oc)"
  by (simp add: written_def chain_def)

text \<open>The octets of a block after the write position moved and the new part was stored.\<close>

lemma content_append:
  assumes "blk_ok b" and "b_wr b + off + length bs \<le> blk_end b"
  shows "content (b\<lparr>b_wr := b_wr b + off + length bs,
      b_data := take (b_wr b + off) (b_data b) @ bs @ drop (b_wr b + off + length bs) (b_data b)\<rparr>)
    = content b @ take off (drop (b_wr b) (b_data b)) @ bs"
proof -
  have rw: "b_rd b \<le> b_wr b" and e: "b_wr b + off + length bs \<le> length (b_data b)"
    using assms by (simp_all add: blk_ok_def blk_end_def)
  let ?d = "take (b_wr b + off) (b_data b)"
  have d: "?d = take (b_wr b) (b_data b) @ take off (drop (b_wr b) (b_data b))" by (rule take_add)
  have "content (b\<lparr>b_wr := b_wr b + off + length bs,
      b_data := ?d @ bs @ drop (b_wr b + off + length bs) (b_data b)\<rparr>)
    = take (b_wr b + off + length bs - b_rd b) (drop (b_rd b) ?d @ bs @ drop (b_wr b + off + length bs) (b_data b))"
    using rw e by (simp add: content_def blk_length_def)
  also have "\<dots> = drop (b_rd b) ?d @ bs"
    using rw e by simp
  also have "drop (b_rd b) ?d = content b @ take off (drop (b_wr b) (b_data b))"
    unfolding d using rw e by (simp add: content_def blk_length_def drop_take)
  finally show ?thesis by simp
qed

section \<open>Growth\<close>

abbreviation max_request :: nat where
  "max_request \<equiv> 2 ^ 64 - LINEAR_GROWTH_CHUNK"

lemma next_size_returns:
  assumes "m < max_request"
  shows "\<exists>n. next_size m = Some n \<and> m < n"
proof -
  obtain n where n: "first_size m = Some n" "m \<le> n" "512 \<le> n" "growth_size n"
    using first_size_ok [of m] assms by auto
  show ?thesis
  proof (cases "n = m")
    case True
    then have "n + LINEAR_GROWTH_CHUNK < 2 ^ 64" using assms by simp
    then show ?thesis using True n by (simp add: next_size_def)
  qed (use n in \<open>simp add: next_size_def\<close>)
qed

lemma first_size_loop_le:
  assumes "first_size_loop s m = Some n"
  shows "n \<le> max s (m + LINEAR_GROWTH_CHUNK)"
proof (rule first_size_loop.raw_induct [where P = "\<lambda>s m n. n \<le> max s (m + LINEAR_GROWTH_CHUNK)", OF _ assms])
  fix f s m n
  assume IH: "\<And>s m n. f s m = Some n \<Longrightarrow> n \<le> max s (m + LINEAR_GROWTH_CHUNK)"
    and body: "(if s < m then if s < EXP_GROWTH_MAX then f (s * 2 mod 2 ^ 64) m
      else f ((s + LINEAR_GROWTH_CHUNK) mod 2 ^ 64) m else Some s) = Some n"
  consider "\<not> s < m" | "s < m" "s < EXP_GROWTH_MAX" | "s < m" "\<not> s < EXP_GROWTH_MAX" by blast
  then show "n \<le> max s (m + LINEAR_GROWTH_CHUNK)"
  proof cases
    case 1
    then show ?thesis using body by simp
  next
    case 2
    then have "n \<le> max (s * 2 mod 2 ^ 64) (m + LINEAR_GROWTH_CHUNK)" using body IH by (simp only: if_True)
    moreover have "s * 2 mod 2 ^ 64 \<le> s * 2" by (rule mod_less_eq_dividend)
    then have "s * 2 mod 2 ^ 64 \<le> m + LINEAR_GROWTH_CHUNK" using 2 by linarith
    ultimately show ?thesis by linarith
  next
    case 3
    then have "n \<le> max ((s + LINEAR_GROWTH_CHUNK) mod 2 ^ 64) (m + LINEAR_GROWTH_CHUNK)"
      using body IH by (simp only: if_True if_False)
    moreover have "(s + LINEAR_GROWTH_CHUNK) mod 2 ^ 64 \<le> s + LINEAR_GROWTH_CHUNK" by (rule mod_less_eq_dividend)
    then have "(s + LINEAR_GROWTH_CHUNK) mod 2 ^ 64 \<le> m + LINEAR_GROWTH_CHUNK" using 3 by linarith
    ultimately show ?thesis by linarith
  qed
qed

lemma next_size_le: "next_size m = Some n \<Longrightarrow> n \<le> m + 2 * LINEAR_GROWTH_CHUNK"
proof -
  assume "next_size m = Some n"
  then obtain k where k: "first_size m = Some k"
    "n = (if k = m then if k < EXP_GROWTH_MAX then k * 2 mod 2 ^ 64 else (k + LINEAR_GROWTH_CHUNK) mod 2 ^ 64 else k)"
    unfolding next_size_def by (auto simp: bind_eq_Some_conv)
  have "k \<le> m + LINEAR_GROWTH_CHUNK"
    using k(1) first_size_loop_le [of 512 m k] by (auto simp: first_size_def split: if_splits)
  moreover have "k * 2 mod 2 ^ 64 \<le> k * 2" "(k + LINEAR_GROWTH_CHUNK) mod 2 ^ 64 \<le> k + LINEAR_GROWTH_CHUNK"
    by (rule mod_less_eq_dividend)+
  ultimately show ?thesis unfolding k(2) by (auto split: if_splits)
qed

text \<open>The block \<open>grow_chain\<close> adds starts at the alignment the current block ended with.\<close>

lemma new_block_aligned: "8 dvd base \<Longrightarrow> new_block a (base, data) =
    \<lparr>b_base = base, b_data = data, b_cur = length data, b_rd = a mod 8, b_wr = a mod 8\<rparr>"
  by (auto simp: new_block_def Let_def)

definition growable :: "nat \<Rightarrow> ocdr \<Rightarrow> bool" where
  "growable sz oc \<longleftrightarrow> sz + 8 < max_request \<and> blk_size (o_cur oc) < max_request"

definition grown :: "nat \<times> u8 list \<Rightarrow> ocdr \<Rightarrow> ocdr" where
  "grown mem oc = oc\<lparr>o_done := o_done oc @ [o_cur oc], o_cur := new_block (o_align oc) mem,
     o_conts := [], o_writable := True, o_good := True, o_allocs := Suc (o_allocs oc)\<rparr>"

lemma grow_chain_nil:
  assumes "o_conts oc = []"
  shows "grow_chain al sz oc = do {
     newsize \<leftarrow> next_size (max (sz + 8) (blk_size (o_cur oc)));
     (case al (Suc (o_allocs oc)) newsize of
        None \<Rightarrow> Some (False, oc\<lparr>o_good := False, o_allocs := Suc (o_allocs oc)\<rparr>)
      | Some mem \<Rightarrow> Some (True, grown mem oc)) }"
proof -
  have m: "(if sz + 8 < blk_size (o_cur oc) then blk_size (o_cur oc) else sz + 8) = max (sz + 8) (blk_size (o_cur oc))"
    by simp
  show ?thesis
    unfolding grow_chain_def Let_def using assms m
    by (cases oc) (simp add: move_to_cont_def grown_def cong: option.case_cong)
qed

lemma grow_chain_cases:
  assumes al: "alloc_ok al" and nil: "o_conts oc = []" and g: "growable sz oc"
  obtains (failed) "grow_chain al sz oc = Some (False, oc\<lparr>o_good := False, o_allocs := Suc (o_allocs oc)\<rparr>)"
  | (grown) base data where "grow_chain al sz oc = Some (True, grown (base, data) oc)" "8 dvd base" "sz + 8 < length data"
      "length data \<le> max (sz + 8) (blk_size (o_cur oc)) + 2 * LINEAR_GROWTH_CHUNK"
proof -
  have "max (sz + 8) (blk_size (o_cur oc)) < max_request" using g unfolding growable_def by linarith
  then obtain n where n: "next_size (max (sz + 8) (blk_size (o_cur oc))) = Some n" "max (sz + 8) (blk_size (o_cur oc)) < n"
    using next_size_returns by blast
  show ?thesis
  proof (cases "al (Suc (o_allocs oc)) n")
    case None
    then show ?thesis by (intro failed) (simp add: grow_chain_nil [OF nil] n(1))
  next
    case (Some mem)
    obtain base data where mem: "mem = (base, data)" by (cases mem)
    have len: "length data = n" "8 dvd base" using al Some mem unfolding alloc_ok_def by blast+
    show ?thesis
    proof (rule grown)
      show "grow_chain al sz oc = Some (True, CDR_Output_Inv.grown (base, data) oc)"
        by (simp add: grow_chain_nil [OF nil] n(1) Some mem)
      show "8 dvd base" by (rule len)
      show "sz + 8 < length data" "length data \<le> max (sz + 8) (blk_size (o_cur oc)) + 2 * LINEAR_GROWTH_CHUNK"
        using n(2) next_size_le [OF n(1)] len(1) by linarith+
    qed
  qed
qed

section \<open>Making room\<close>

text \<open>Where the stream puts \<open>sz\<close> octets that fit.\<close>

definition pad_off :: "nat \<Rightarrow> ocdr \<Rightarrow> nat" where
  "pad_off a oc = padding (o_align oc) a"

definition fit :: "nat \<Rightarrow> nat \<Rightarrow> ocdr \<Rightarrow> ocdr" where
  "fit sz a oc = oc\<lparr>o_align := o_align oc + pad_off a oc + sz,
     o_cur := (o_cur oc)\<lparr>b_wr := b_wr (o_cur oc) + pad_off a oc + sz\<rparr>\<rparr>"

definition fits :: "nat \<Rightarrow> nat \<Rightarrow> ocdr \<Rightarrow> bool" where
  "fits sz a oc \<longleftrightarrow> o_writable oc \<and> b_wr (o_cur oc) + pad_off a oc + sz \<le> blk_end (o_cur oc)"

lemma adjust_fits: "fits sz a oc \<Longrightarrow> adjust al sz a oc = Some (Some (b_wr (o_cur oc) + pad_off a oc), fit sz a oc)"
  by (subst adjust.simps) (simp add: fits_def fit_def pad_off_def padding_def Let_def)

lemma adjust_grows: "\<not> fits sz a oc \<Longrightarrow> adjust al sz a oc = do {
     r \<leftarrow> grow_chain al sz oc;
     (if fst r then adjust al sz a (snd r) else Some (None, snd r)) }"
  by (subst adjust.simps) (auto simp: fits_def fit_def pad_off_def padding_def Let_def)

lemma padding_le: "cdr_align a \<Longrightarrow> p mod 8 + padding (p mod 8) a \<le> 8"
proof -
  assume a: "cdr_align a"
  have "a dvd 8" using a by (auto simp: cdr_align_def)
  then obtain k where k: "8 = a * k" ..
  have "align_binary (p mod 8) a \<le> 8"
  proof (rule ccontr)
    let ?x = "align_binary (p mod 8) a"
    assume "\<not> ?x \<le> 8"
    then have "a * k < ?x" using k by simp
    moreover obtain j where "?x = a * j" using align_binary_bounds(3) [OF a, of "p mod 8"] by (auto elim: dvdE)
    ultimately have "a * k < a * j" by simp
    then have "k < j" by (cases "a = 0") auto
    then have "a * k + a \<le> a * j" by (metis Suc_leI add.commute mult_Suc_right mult_le_mono2)
    moreover have "?x < p mod 8 + a" by (rule align_binary_bounds(2) [OF a])
    moreover have "p mod 8 < 8" by simp
    ultimately show False using k \<open>?x = a * j\<close> by linarith
  qed
  then show ?thesis using align_binary_bounds(1) [OF a, of "p mod 8"] by (simp add: padding_def)
qed

lemma fits_grown:
  assumes "8 dvd base" and "sz + 8 < length data" and "cdr_align a"
  shows "fits sz a (grown (base, data) oc)"
proof -
  have "padding (o_align oc) a = padding (o_align oc mod 8) a" by (rule padding_cong [OF assms(3)]) simp
  then show ?thesis using padding_le [OF assms(3), of "o_align oc"] assms
    by (simp add: fits_def grown_def new_block_aligned blk_end_def pad_off_def)
qed

lemma adjust_cases:
  assumes "alloc_ok al" and "o_conts oc = []" and "growable sz oc" and "cdr_align a"
  obtains (fits) "fits sz a oc" "adjust al sz a oc = Some (Some (b_wr (o_cur oc) + pad_off a oc), fit sz a oc)"
  | (failed) "adjust al sz a oc = Some (None, oc\<lparr>o_good := False, o_allocs := Suc (o_allocs oc)\<rparr>)"
  | (grown) base data where "8 dvd base" "fits sz a (grown (base, data) oc)"
      "adjust al sz a oc = Some (Some (b_wr (o_cur (grown (base, data) oc)) + pad_off a (grown (base, data) oc)),
         fit sz a (grown (base, data) oc))"
      "length data \<le> max (sz + 8) (blk_size (o_cur oc)) + 2 * LINEAR_GROWTH_CHUNK" "sz + 8 < length data"
proof (cases "CDR_Output_Inv.fits sz a oc")
  case True
  then show ?thesis using fits adjust_fits by blast
next
  case False
  note eq = adjust_grows [OF False]
  from assms(1-3) show ?thesis
  proof (cases rule: grow_chain_cases)
    case failed
    then show ?thesis using eq [of al] that(2) by simp
  next
    case (grown base data)
    have f: "CDR_Output_Inv.fits sz a (CDR_Output_Inv.grown (base, data) oc)"
      by (rule fits_grown [OF grown(2,3) assms(4)])
    show ?thesis using eq [of al] grown(1) adjust_fits [OF f] by (intro that(3) [OF grown(2) f _ grown(4,3)]) simp
  qed
qed

section \<open>Writing\<close>

text \<open>The state after \<open>bs\<close> was written, in terms of what the stream holds.\<close>

definition appended :: "ocdr \<Rightarrow> nat \<Rightarrow> u8 list \<Rightarrow> ocdr \<Rightarrow> bool" where
  "appended oc a bs oc' \<longleftrightarrow> oc_inv oc' \<and> same_config oc oc' \<and>
     (\<exists>pad. length pad = padding (length (written oc)) a \<and> written oc' = written oc @ pad @ bs)"

definition failed :: "ocdr \<Rightarrow> ocdr \<Rightarrow> bool" where
  "failed oc oc' \<longleftrightarrow> oc_inv oc' \<and> same_config oc oc' \<and> \<not> o_good oc' \<and> written oc' = written oc"

lemma written_grown: "8 dvd base \<Longrightarrow> written (grown (base, data) oc) = written oc"
  by (simp add: written_def chain_def grown_def new_block_aligned content_def blk_length_def)

lemma inv_grown:
  assumes "oc_inv oc" and "8 dvd base" and "8 < length data"
  shows "oc_inv (grown (base, data) oc)"
proof -
  have "o_align oc mod 8 \<le> length data" using assms(3) mod_less_divisor [of 8 "o_align oc"] by linarith
  moreover have "(base + o_align oc mod 8) mod 8 = o_align oc mod 8" using assms(2) by (elim dvdE) (simp add: mod_add_right_eq)
  ultimately show ?thesis using assms(1) written_grown [OF assms(2), of data oc]
    by (simp add: oc_inv_def chain_def grown_def new_block_aligned [OF assms(2)] blk_ok_def blk_end_def)
qed

lemma store_fit:
  assumes inv: "oc_inv oc" and f: "fits (length bs) a oc" and a: "cdr_align a"
  shows "appended oc a bs (store (b_wr (o_cur oc) + pad_off a oc) bs (fit (length bs) a oc))"
    and "(b_base (o_cur oc) + (b_wr (o_cur oc) + pad_off a oc)) mod a = 0"
proof -
  let ?b = "o_cur oc" and ?o = "store (b_wr (o_cur oc) + pad_off a oc) bs (fit (length bs) a oc)"
  have ok: "list_all blk_ok (o_done oc)" "blk_ok ?b" and al: "o_align oc mod 8 = length (written oc) mod 8"
    and nil: "o_conts oc = []" and w: "o_writable oc" and e: "b_wr ?b + pad_off a oc + length bs \<le> blk_end ?b"
    and addr: "(b_base ?b + b_wr ?b) mod 8 = o_align oc mod 8"
    using inv f by (auto simp: oc_inv_def fits_def chain_def)
  let ?pad = "take (pad_off a oc) (drop (b_wr ?b) (b_data ?b))"
  have "pad_off a oc \<le> length (b_data ?b) - b_wr ?b"
    using e unfolding blk_end_def by linarith
  then have lp: "length ?pad = pad_off a oc" by (simp only: length_take length_drop min_absorb2)
  have pad: "pad_off a oc = padding (length (written oc)) a" unfolding pad_off_def by (rule padding_cong [OF a al])
  have c: "content (o_cur ?o) = content ?b @ ?pad @ bs"
    using content_append [OF ok(2) e] by (simp add: store_def fit_def)
  have wr: "written ?o = written oc @ ?pad @ bs"
    using c by (simp add: written_cur store_def fit_def)
  have len: "length (written ?o) = length (written oc) + pad_off a oc + length bs"
    by (simp only: wr length_append lp add.assoc)
  have "oc_inv ?o" unfolding oc_inv_def
  proof (intro conjI impI)
    show "list_all blk_ok (chain ?o)" using ok e
      by (simp add: chain_def store_def fit_def blk_ok_def blk_end_def)
    show "o_conts ?o = []" by (simp add: store_def fit_def nil)
    show "o_align ?o mod 8 = length (written ?o) mod 8"
      unfolding len using al by (simp add: store_def fit_def) (metis add.assoc mod_add_left_eq)
    have "(b_base ?b + b_wr ?b + (pad_off a oc + length bs)) mod 8 = (o_align oc + (pad_off a oc + length bs)) mod 8"
      using addr by (rule mod_add_cong) simp
    then show "(b_base (o_cur ?o) + b_wr (o_cur ?o)) mod 8 = o_align ?o mod 8"
      by (simp add: store_def fit_def add.assoc)
  qed
  moreover have "same_config oc ?o" by (simp add: same_config_def store_def fit_def)
  ultimately show "appended oc a bs ?o" unfolding appended_def using wr trans [OF lp pad] by blast
  have "a dvd 8" using a by (auto simp: cdr_align_def)
  then have "(b_base ?b + b_wr ?b) mod a = o_align oc mod a" using addr by (metis mod_mod_cancel)
  then have "(b_base ?b + b_wr ?b + pad_off a oc) mod a = (o_align oc + pad_off a oc) mod a" by (rule mod_add_cong) simp
  also have "o_align oc + pad_off a oc = align_binary (o_align oc) a"
    using align_binary_bounds(1) [OF a] by (simp add: pad_off_def padding_def)
  finally show "(b_base ?b + (b_wr ?b + pad_off a oc)) mod a = 0"
    using align_binary_bounds(3) [OF a] by (simp add: add.assoc)
qed

lemma appended_grown: "8 dvd base \<Longrightarrow> appended (grown (base, data) oc) a bs oc' \<Longrightarrow> appended oc a bs oc'"
  by (simp add: appended_def written_grown) (auto simp: same_config_def grown_def)

lemma store_config: "o_good (store b bs oc) = o_good oc" "blk_size (o_cur (store b bs oc)) = blk_size (o_cur oc)"
  by (simp_all add: store_def blk_size_def)

text \<open>\<open>adjust\<close> returns, and either the octets can be stored at an aligned address or the stream failed.\<close>

lemma adjust_spec:
  assumes "alloc_ok al" and "oc_inv oc" and "growable (length bs) oc" and "cdr_align a"
  obtains (ok) buf oc' where "adjust al (length bs) a oc = Some (Some buf, oc')" "appended oc a bs (store buf bs oc')"
      "(b_base (o_cur oc') + buf) mod a = 0" "buf + length bs \<le> blk_end (o_cur oc')"
      "do_swap oc' = do_swap oc" "o_good oc \<longrightarrow> o_good oc'"
      "blk_size (o_cur oc') \<le> max (length bs + 8) (blk_size (o_cur oc)) + 2 * LINEAR_GROWTH_CHUNK"
  | (failed) oc' where "adjust al (length bs) a oc = Some (None, oc')" "failed oc oc'" "o_cur oc' = o_cur oc"
proof -
  have nil: "o_conts oc = []" using assms(2) by (simp add: oc_inv_def)
  from assms(1) nil assms(3,4) show ?thesis
  proof (cases rule: adjust_cases)
    case fits
    note st = store_fit [OF assms(2) fits(1) assms(4)]
    show ?thesis
      by (rule ok [OF fits(2) st(1)]) (use st(2) fits(1) in \<open>simp_all add: fits_def fit_def do_swap_def blk_size_def blk_end_def\<close>)
  next
    case failed
    show ?thesis
      by (rule that(2) [OF failed])
        (use assms(2) in \<open>simp_all add: CDR_Output_Inv.failed_def oc_inv_def same_config_def written_def chain_def\<close>)
  next
    case (grown base data)
    have "8 < length data" using grown(5) by linarith
    then have inv: "oc_inv (CDR_Output_Inv.grown (base, data) oc)" by (rule inv_grown [OF assms(2) grown(1)])
    note st = store_fit [OF inv grown(2) assms(4)]
    show ?thesis
      by (rule ok [OF grown(3) appended_grown [OF grown(1) st(1)]])
        (use st(2) grown(2,4) in \<open>simp_all add: fits_def blk_end_def fit_def do_swap_def blk_size_def CDR_Output_Inv.grown_def new_block_aligned [OF grown(1)]\<close>)
  qed
qed

text \<open>The writers are \<open>adjust\<close> and a store.\<close>

definition put :: "allocator \<Rightarrow> nat \<Rightarrow> u8 list \<Rightarrow> ocdr \<Rightarrow> (bool \<times> ocdr) option" where
  "put al a bs oc = do {
     (buf, oc) \<leftarrow> adjust al (length bs) a oc;
     (case buf of Some buf \<Rightarrow> Some (True, store buf bs oc) | None \<Rightarrow> Some (False, oc)) }"

lemma put_spec:
  assumes "alloc_ok al" and "oc_inv oc" and "growable (length bs) oc" and "cdr_align a"
  obtains ok oc' where "put al a bs oc = Some (ok, oc')" "if ok then appended oc a bs oc' else failed oc oc'"
    "blk_size (o_cur oc') \<le> max (length bs + 8) (blk_size (o_cur oc)) + 2 * LINEAR_GROWTH_CHUNK"
    "ok \<longrightarrow> o_good oc \<longrightarrow> o_good oc'"
  using assms
proof (cases rule: adjust_spec)
  case (ok buf oc')
  then show ?thesis by (intro that [of True "store buf bs oc'"]) (simp_all add: put_def store_config)
next
  case (failed oc')
  then show ?thesis by (intro that [of False oc']) (simp_all add: put_def)
qed

definition maybe_swap :: "bool \<Rightarrow> u8 list \<Rightarrow> u8 list" where
  "maybe_swap s bs = (if s then rev bs else bs)"

lemma length_maybe_swap [simp]: "length (maybe_swap s bs) = length bs"
  by (simp add: maybe_swap_def)

lemma adjust_put:
  assumes "alloc_ok al" and "oc_inv oc" and "growable sz oc" and "cdr_align a" and "length bs = sz"
    and "\<And>buf oc'. do_swap oc' = do_swap oc \<Longrightarrow> k (Some buf) oc' = Some (True, store buf bs oc')"
    and "\<And>oc'. \<not> o_good oc' \<Longrightarrow> k None oc' = Some (False, oc')"
  shows "(do { (buf, oc') \<leftarrow> adjust al sz a oc; k buf oc' }) = put al a bs oc"
  using assms(1,2) assms(3) [folded assms(5)] assms(4)
proof (cases rule: adjust_spec)
  case (ok buf oc')
  then show ?thesis using assms(5,6) by (simp add: put_def)
next
  case (failed oc')
  then show ?thesis using assms(5,7) by (simp add: put_def CDR_Output_Inv.failed_def)
qed

section \<open>Items\<close>

text \<open>
  The values a stream carries. An array holds elements of one size, as they are in memory, with
  the alignment of their type.
\<close>

datatype cdr_item =
    Octet u8
  | Boolean bool
  | Short u16
  | Long u32
  | LongLong u64
  | LongDouble "u8 list"
  | Array nat nat "u8 list"
  | Cstring "u8 list"

fun item_ok :: "cdr_item \<Rightarrow> bool" where
  "item_ok (LongDouble x) \<longleftrightarrow> length x = 16"
| "item_ok (Array sz a x) \<longleftrightarrow> sz \<in> {1, 2, 4, 8, 16} \<and> cdr_align a \<and> sz dvd length x \<and> length x div sz < 2 ^ 32"
| "item_ok (Cstring x) \<longleftrightarrow> 0 \<notin> set x \<and> length x < 2 ^ 32 - 1"
| "item_ok _ \<longleftrightarrow> True"

fun write_item :: "allocator \<Rightarrow> cdr_item \<Rightarrow> ocdr \<Rightarrow> (bool \<times> ocdr) option" where
  "write_item al (Octet x) = write_1 al x"
| "write_item al (Boolean x) = write_boolean al x"
| "write_item al (Short x) = write_2 al x"
| "write_item al (Long x) = write_4 al x"
| "write_item al (LongLong x) = write_8 al x"
| "write_item al (LongDouble x) = write_16 al x"
| "write_item al (Array sz a x) = write_array al 0 x sz a (length x div sz)"
| "write_item al (Cstring x) = write_string al (length x) (x @ [0])"

fun write_items :: "allocator \<Rightarrow> cdr_item list \<Rightarrow> ocdr \<Rightarrow> (bool \<times> ocdr) option" where
  "write_items al [] oc = Some (True, oc)"
| "write_items al (x # xs) oc = do {
     (ok, oc) \<leftarrow> write_item al x oc;
     (if ok then write_items al xs oc else Some (False, oc)) }"

text \<open>The octets of an item on the wire, each part with its alignment.\<close>

definition swap_elems :: "bool \<Rightarrow> nat \<Rightarrow> u8 list \<Rightarrow> u8 list" where
  "swap_elems s sz x = (if s \<and> sz \<noteq> 1 then rev_elems sz (length x div sz) x else x)"

fun parts :: "bool \<Rightarrow> cdr_item \<Rightarrow> (nat \<times> u8 list) list" where
  "parts s (Octet x) = [(1, [x])]"
| "parts s (Boolean x) = [(1, [if x then 1 else 0])]"
| "parts s (Short x) = [(2, maybe_swap s (to_mem 2 x))]"
| "parts s (Long x) = [(4, maybe_swap s (to_mem 4 x))]"
| "parts s (LongLong x) = [(8, maybe_swap s (to_mem 8 x))]"
| "parts s (LongDouble x) = [(8, maybe_swap s x)]"
| "parts s (Array sz a x) = (if x = [] then [] else [(a, swap_elems s sz x)])"
| "parts s (Cstring x) = [(4, maybe_swap s (to_mem 4 (of_nat (length x + 1) :: u32))), (1, x @ [0])]"

fun put_parts :: "allocator \<Rightarrow> (nat \<times> u8 list) list \<Rightarrow> ocdr \<Rightarrow> (bool \<times> ocdr) option" where
  "put_parts al [] oc = Some (True, oc)"
| "put_parts al ((a, bs) # ps) oc = do {
     (ok, oc) \<leftarrow> put al a bs oc;
     (if ok then put_parts al ps oc else Some (False, oc)) }"

fun laid_out :: "nat \<Rightarrow> (nat \<times> u8 list) list \<Rightarrow> u8 list \<Rightarrow> bool" where
  "laid_out q [] bs \<longleftrightarrow> bs = []"
| "laid_out q ((a, p) # ps) bs \<longleftrightarrow>
     (\<exists>pad r. bs = pad @ p @ r \<and> length pad = padding q a \<and> laid_out (q + length pad + length p) ps r)"

lemma laid_out_append: "laid_out q ps xs \<Longrightarrow> laid_out (q + length xs) qs ys \<Longrightarrow> laid_out q (ps @ qs) (xs @ ys)"
proof (induction q ps xs rule: laid_out.induct)
  case (2 q a p ps bs)
  then obtain pad r where r: "bs = pad @ p @ r" "length pad = padding q a" "laid_out (q + length pad + length p) ps r"
    by auto
  have "laid_out (q + length pad + length p) (ps @ qs) (r @ ys)"
    by (rule 2(1) [OF r(3)]) (use 2(3) r(1) in \<open>simp add: add.assoc\<close>)
  then show ?case using r by (simp only: append_Cons laid_out.simps) (intro exI [of _ pad] exI [of _ "r @ ys"], simp)
qed simp

section \<open>The writers are puts\<close>

definition ready :: "allocator \<Rightarrow> nat \<Rightarrow> ocdr \<Rightarrow> bool" where
  "ready al sz oc \<longleftrightarrow> alloc_ok al \<and> oc_inv oc \<and> growable sz oc"

lemma readyD: "ready al sz oc \<Longrightarrow> alloc_ok al" "ready al sz oc \<Longrightarrow> oc_inv oc" "ready al sz oc \<Longrightarrow> growable sz oc"
  by (simp_all add: ready_def)

lemma write_1_put: "ready al 1 oc \<Longrightarrow> write_1 al x oc = put al 1 [x] oc"
  unfolding write_1_def by (rule adjust_put [OF readyD]) (simp_all add: cdr_align_def)

lemma write_2_put: "ready al 2 oc \<Longrightarrow> write_2 al x oc = put al 2 (maybe_swap (do_swap oc) (to_mem 2 x)) oc"
  unfolding write_2_def by (rule adjust_put [OF readyD]) (simp_all add: cdr_align_def maybe_swap_def swap_2_rev)

lemma write_4_put: "ready al 4 oc \<Longrightarrow> write_4 al x oc = put al 4 (maybe_swap (do_swap oc) (to_mem 4 x)) oc"
  unfolding write_4_def by (rule adjust_put [OF readyD]) (simp_all add: cdr_align_def maybe_swap_def swap_4_rev)

lemma write_8_put: "ready al 8 oc \<Longrightarrow> write_8 al x oc = put al 8 (maybe_swap (do_swap oc) (to_mem 8 x)) oc"
  unfolding write_8_def by (rule adjust_put [OF readyD]) (simp_all add: cdr_align_def maybe_swap_def swap_8_rev)

lemma write_16_put: "ready al 16 oc \<Longrightarrow> length x = 16 \<Longrightarrow> write_16 al x oc = put al 8 (maybe_swap (do_swap oc) x) oc"
  unfolding write_16_def by (rule adjust_put [OF readyD]) (simp_all add: cdr_align_def maybe_swap_def swap_16_rev)

lemma write_array_put:
  assumes "ready al (sz * n) oc" and "sz \<in> {1, 2, 4, 8, 16}" and "cdr_align a" and "length x = sz * n" and "0 < n"
  shows "write_array al source x sz a n oc = put al a (swap_elems (do_swap oc) sz x) oc"
proof -
  have n: "length x div sz = n" "n \<noteq> 0" "take (sz * n) x = x" using assms(2,4,5) by auto
  have "(case buf of Some buf \<Rightarrow>
       (let bs = take (sz * n) x; target = b_base (o_cur oc') + buf
        in if \<not> do_swap oc' \<or> sz = 1 then Some (True, store buf bs oc')
           else if sz = 2 then Some (True, store buf (swap_2_array source target bs n) oc')
           else if sz = 4 then Some (True, store buf (swap_4_array source target bs n) oc')
           else if sz = 8 then Some (True, store buf (swap_8_array bs n) oc')
           else if sz = 16 then Some (True, store buf (swap_16_array bs n) oc')
           else Some (False, oc'\<lparr>o_good := False\<rparr>))
     | None \<Rightarrow> Some (False, oc'\<lparr>o_good := False\<rparr>)) =
     (case buf of Some buf \<Rightarrow> Some (True, store buf (swap_elems (do_swap oc') sz x) oc')
     | None \<Rightarrow> Some (False, oc'\<lparr>o_good := False\<rparr>))" for buf oc'
    using assms(2,4,5) n
    by (auto simp: swap_elems_def swap_2_array_rev swap_4_array_rev swap_8_array_rev swap_16_array_rev Let_def
        split: option.split)
  then have "write_array al source x sz a n oc = do {
      (buf, oc') \<leftarrow> adjust al (sz * n) a oc;
      (case buf of Some buf \<Rightarrow> Some (True, store buf (swap_elems (do_swap oc') sz x) oc')
       | None \<Rightarrow> Some (False, oc'\<lparr>o_good := False\<rparr>)) }"
    using n(2) by (simp add: write_array_def)
  also have "\<dots> = put al a (swap_elems (do_swap oc) sz x) oc"
    by (rule adjust_put [OF readyD [OF assms(1)] assms(3)])
      (use assms(4) n in \<open>simp_all add: swap_elems_def length_rev_elems\<close>)
  finally show ?thesis .
qed

section \<open>Parts\<close>

text \<open>Room for \<open>k\<close> more puts of at most \<open>m\<close> octets before a buffer size could wrap.\<close>

definition room :: "nat \<Rightarrow> nat \<Rightarrow> ocdr \<Rightarrow> bool" where
  "room m k oc \<longleftrightarrow> max (m + 8) (blk_size (o_cur oc)) + k * (2 * LINEAR_GROWTH_CHUNK) < max_request"

lemma room_growable: "room m k oc \<Longrightarrow> sz \<le> m \<Longrightarrow> growable sz oc"
  by (auto simp: room_def growable_def)

lemma room_step: "room m (Suc k) oc \<Longrightarrow> sz \<le> m \<Longrightarrow>
    blk_size (o_cur oc') \<le> max (sz + 8) (blk_size (o_cur oc)) + 2 * LINEAR_GROWTH_CHUNK \<Longrightarrow> room m k oc'"
  unfolding room_def by simp

lemma room_mono: "room m k oc \<Longrightarrow> j \<le> k \<Longrightarrow> room m j oc"
  unfolding room_def by (meson add_left_mono le_less_trans mult_le_mono1)

definition writes :: "ocdr \<Rightarrow> (nat \<times> u8 list) list \<Rightarrow> bool \<Rightarrow> ocdr \<Rightarrow> bool" where
  "writes oc ps ok oc' \<longleftrightarrow> oc_inv oc' \<and> same_config oc oc' \<and>
     (if ok then (\<exists>r. written oc' = written oc @ r \<and> laid_out (length (written oc)) ps r) \<and> (o_good oc \<longrightarrow> o_good oc')
      else \<not> o_good oc')"

lemma writes_trans:
  assumes "writes oc ps True oc1" and "writes oc1 qs ok oc2"
  shows "writes oc (ps @ qs) ok oc2"
proof (cases ok)
  case True
  obtain r where r: "written oc1 = written oc @ r" "laid_out (length (written oc)) ps r"
    using assms(1) by (auto simp: writes_def)
  obtain r' where r': "written oc2 = written oc1 @ r'" "laid_out (length (written oc1)) qs r'"
    using assms(2) True by (auto simp: writes_def)
  have "laid_out (length (written oc)) (ps @ qs) (r @ r')"
    by (rule laid_out_append [OF r(2)]) (use r'(2) r(1) in simp)
  then show ?thesis using assms True r(1) r'(1) by (auto simp: writes_def intro: same_config_trans)
qed (use assms in \<open>auto simp: writes_def intro: same_config_trans\<close>)

lemma writes_put:
  assumes "alloc_ok al" and "oc_inv oc" and "growable (length bs) oc" and "cdr_align a"
  obtains ok oc' where "put al a bs oc = Some (ok, oc')" "writes oc [(a, bs)] ok oc'"
    "blk_size (o_cur oc') \<le> max (length bs + 8) (blk_size (o_cur oc)) + 2 * LINEAR_GROWTH_CHUNK"
  using assms
proof (cases rule: put_spec)
  case (1 ok oc')
  then show ?thesis
    by (intro that [OF 1(1) _ 1(3)]) (auto simp: writes_def appended_def CDR_Output_Inv.failed_def split: if_splits)
qed

definition part_ok :: "nat \<Rightarrow> nat \<times> u8 list \<Rightarrow> bool" where
  "part_ok m p \<longleftrightarrow> cdr_align (fst p) \<and> length (snd p) \<le> m"

lemma put_parts_spec:
  assumes "alloc_ok al" and "oc_inv oc" and "list_all (part_ok m) ps" and "room m (length ps + k) oc"
  shows "\<exists>ok oc'. put_parts al ps oc = Some (ok, oc') \<and> writes oc ps ok oc' \<and> (ok \<longrightarrow> room m k oc')"
  using assms(2-)
proof (induction ps arbitrary: oc)
  case Nil
  then show ?case by (auto simp: writes_def)
next
  case (Cons p ps)
  obtain a bs where p: "p = (a, bs)" by (cases p)
  have ok: "cdr_align a" "length bs \<le> m" using Cons.prems(2) p by (simp_all add: part_ok_def)
  from assms(1) Cons.prems(1) room_growable [OF Cons.prems(3) ok(2)] ok(1)
  obtain b oc1 where put: "put al a bs oc = Some (b, oc1)" and w: "writes oc [(a, bs)] b oc1"
    and sz: "blk_size (o_cur oc1) \<le> max (length bs + 8) (blk_size (o_cur oc)) + 2 * LINEAR_GROWTH_CHUNK"
    by (rule writes_put)
  show ?case
  proof (cases b)
    case True
    have inv: "oc_inv oc1" using w by (simp add: writes_def)
    have "room m (length ps + k) oc1" by (rule room_step [OF _ ok(2) sz]) (use Cons.prems(3) in simp)
    from Cons.IH [OF inv _ this] Cons.prems(2) obtain ok' oc' where
      "put_parts al ps oc1 = Some (ok', oc')" "writes oc1 ps ok' oc'" "ok' \<longrightarrow> room m k oc'" by auto
    then show ?thesis using put True p writes_trans [of oc "[(a, bs)]" oc1 ps] w by auto
  next
    case False
    then show ?thesis using put p w by (auto simp: writes_def)
  qed
qed

lemma put_parts_single: "put_parts al [(a, bs)] oc = put al a bs oc"
  by (cases "put al a bs oc") auto

section \<open>Writing items\<close>

definition item_fits :: "nat \<Rightarrow> cdr_item \<Rightarrow> bool" where
  "item_fits m it \<longleftrightarrow> item_ok it \<and> list_all (part_ok m) (parts False it)"

lemma cdr_aligns: "cdr_align 1" "cdr_align 2" "cdr_align 4" "cdr_align 8"
  by (simp_all add: cdr_align_def)

lemma swap_elems_False [simp]: "swap_elems False sz x = x"
  by (simp add: swap_elems_def)

lemma length_swap_elems: "sz dvd length x \<Longrightarrow> length (swap_elems s sz x) = length x"
  by (auto simp: swap_elems_def length_rev_elems)

lemma item_fits_parts: "item_fits m it \<Longrightarrow> list_all (part_ok m) (parts s it)"
  by (cases it) (auto simp: item_fits_def part_ok_def length_swap_elems)

lemma write_array_take: "write_array al source (take (sz * n) x) sz a n oc = write_array al source x sz a n oc"
  by (simp add: write_array_def cong: option.case_cong)

text \<open>Whatever octet follows the characters in memory is written as the terminator.\<close>

lemma write_string_mem:
  assumes "alloc_ok al" and "oc_inv oc" and "x \<noteq> []" and "4 \<le> m" and "length x + 1 \<le> m" and "room m 2 oc"
  shows "write_string al (length x) (x @ b # rest) oc
    = put_parts al [(4, maybe_swap (do_swap oc) (to_mem 4 (of_nat (length x + 1) :: u32))), (1, x @ [b])] oc"
proof -
  have g: "ready al 4 oc" using assms(1,2) room_growable [OF assms(6,4)] by (simp add: ready_def)
  let ?bs = "maybe_swap (do_swap oc) (to_mem 4 (of_nat (length x + 1) :: u32))"
  have "growable (length ?bs) oc" using g by (simp add: ready_def)
  from assms(1,2) this obtain ok oc1 where put: "put al 4 ?bs oc = Some (ok, oc1)" and w: "writes oc [(4, ?bs)] ok oc1"
    and sz: "blk_size (o_cur oc1) \<le> max (length ?bs + 8) (blk_size (o_cur oc)) + 2 * LINEAR_GROWTH_CHUNK"
    by (rule writes_put [OF _ _ _ cdr_aligns(3)]) blast
  have "room m 1 oc1" by (rule room_step [OF _ _ sz]) (use assms(4,6) in \<open>simp_all add: numeral_2_eq_2\<close>)
  then have r: "ready al (1 * (length x + 1)) oc1"
    using assms(1) w room_growable [OF _ assms(5)] by (auto simp: ready_def writes_def)
  have "write_array al 0 (x @ [b]) 1 1 (length x + 1) oc1 = put al 1 (swap_elems (do_swap oc1) 1 (x @ [b])) oc1"
    by (rule write_array_put [OF r]) (simp_all add: cdr_align_def)
  moreover have "take (1 * (length x + 1)) (x @ b # rest) = x @ [b]" by simp
  then have "write_array al 0 (x @ b # rest) 1 1 (length x + 1) oc1 = write_array al 0 (x @ [b]) 1 1 (length x + 1) oc1"
    using write_array_take [of al 0 1 "length x + 1" "x @ b # rest" 1 oc1] by simp
  ultimately have "write_array al 0 (x @ b # rest) 1 1 (length x + 1) oc1 = put_parts al [(1, x @ [b])] oc1"
    by (simp only: put_parts_single) (simp add: swap_elems_def)
  then show ?thesis using assms(3) put w
    by (cases ok) (auto simp: write_string_def write_4_put [OF g] writes_def simp del: put_parts.simps(2)
        simp: put_parts.simps(2) [of al 4])
qed

lemma write_string_parts:
  assumes "alloc_ok al" and "oc_inv oc" and "item_fits m (Cstring x)" and "room m 2 oc"
  shows "write_string al (length x) (x @ [0]) oc = put_parts al (parts (do_swap oc) (Cstring x)) oc"
proof (cases "x = []")
  case True
  have m: "4 \<le> m" "1 \<le> m" using assms(3) by (simp_all add: item_fits_def part_ok_def)
  have g: "ready al 4 oc" using assms(1,2) room_growable [OF assms(4) m(1)] by (simp add: ready_def)
  let ?bs = "maybe_swap (do_swap oc) (to_mem 4 (1 :: u32))"
  have "growable (length ?bs) oc" using g by (simp add: ready_def)
  from assms(1,2) this obtain ok oc1 where put: "put al 4 ?bs oc = Some (ok, oc1)" and w: "writes oc [(4, ?bs)] ok oc1"
    and sz: "blk_size (o_cur oc1) \<le> max (length ?bs + 8) (blk_size (o_cur oc)) + 2 * LINEAR_GROWTH_CHUNK"
    by (rule writes_put [OF _ _ _ cdr_aligns(3)]) blast
  have "room m 1 oc1" by (rule room_step [OF _ _ sz]) (use assms(4) m in \<open>simp_all add: numeral_2_eq_2\<close>)
  then have "ready al 1 oc1" using assms(1) w room_growable [OF _ m(2)] by (auto simp: ready_def writes_def)
  then show ?thesis using True put w
    by (cases ok) (auto simp: write_string_def write_4_put [OF g] write_1_put put_parts_single writes_def simp del: put_parts.simps(2)
        simp: put_parts.simps(2) [of al 4])
next
  case False
  have "4 \<le> m" "length x + 1 \<le> m" using assms(3) by (simp_all add: item_fits_def part_ok_def)
  then show ?thesis using write_string_mem [OF assms(1,2) False _ _ assms(4), of 0 "[]"] by simp
qed

lemma write_item_parts:
  assumes "alloc_ok al" and "oc_inv oc" and "item_fits m it" and "room m (length (parts s it)) oc"
  shows "write_item al it oc = put_parts al (parts (do_swap oc) it) oc"
proof -
  have r: "ready al sz oc" if "sz \<le> m" for sz
    using assms(1,2) room_growable [OF assms(4) that] by (simp add: ready_def)
  show ?thesis
  proof (cases it)
    case (Array sz a x)
    then have i: "sz \<in> {1, 2, 4, 8, 16}" "cdr_align a" "sz dvd length x" and m: "x \<noteq> [] \<Longrightarrow> length x \<le> m"
      using assms(3) by (auto simp: item_fits_def part_ok_def)
    show ?thesis
    proof (cases "x = []")
      case False
      have sz: "length x = sz * (length x div sz)" using i(3) by simp
      then have "0 < length x div sz" using False by (cases "length x div sz") auto
      then show ?thesis
        using write_array_put [OF _ i(1,2) sz, of al oc 0] r [OF m [OF False]] sz False Array
        by (simp add: put_parts_single del: put_parts.simps(2))
    qed (simp add: Array write_array_def)
  next
    case (Cstring x)
    then show ?thesis using write_string_parts [OF assms(1,2), of m x] assms(3,4) by (simp add: numeral_2_eq_2)
  qed (use assms(3) r in \<open>simp_all add: item_fits_def part_ok_def write_boolean_def write_1_put write_2_put write_4_put
      write_8_put write_16_put put_parts_single del: put_parts.simps(2)\<close>)
qed

definition all_parts :: "bool \<Rightarrow> cdr_item list \<Rightarrow> (nat \<times> u8 list) list" where
  "all_parts s its = concat (map (parts s) its)"

lemma length_parts: "length (parts s it) = length (parts False it)"
  by (cases it) simp_all

lemma write_items_spec:
  assumes "alloc_ok al" and "oc_inv oc" and "list_all (item_fits m) its" and "room m (2 * length its) oc"
  shows "\<exists>ok oc'. write_items al its oc = Some (ok, oc') \<and> writes oc (all_parts (do_swap oc) its) ok oc'"
  using assms(2-)
proof (induction its arbitrary: oc)
  case Nil
  then show ?case by (auto simp: writes_def all_parts_def)
next
  case (Cons it its)
  have it: "item_fits m it" using Cons.prems(2) by simp
  let ?ps = "parts (do_swap oc) it"
  have lp: "length ?ps \<le> 2" by (cases it) simp_all
  have rm: "room m (length ?ps + 2 * length its) oc" by (rule room_mono [OF Cons.prems(3)]) (use lp in simp)
  have "write_item al it oc = put_parts al ?ps oc"
    by (rule write_item_parts [OF assms(1) Cons.prems(1) it, of "do_swap oc"]) (rule room_mono [OF rm], simp)
  moreover obtain ok oc1 where p: "put_parts al ?ps oc = Some (ok, oc1)" "writes oc ?ps ok oc1"
      "ok \<longrightarrow> room m (2 * length its) oc1"
    using put_parts_spec [OF assms(1) Cons.prems(1) item_fits_parts [OF it] rm] by blast
  ultimately have w: "write_items al (it # its) oc = (if ok then write_items al its oc1 else Some (False, oc1))" by simp
  show ?case
  proof (cases ok)
    case True
    have inv: "oc_inv oc1" and sw: "do_swap oc1 = do_swap oc"
      using p(2) same_config_do_swap unfolding writes_def by blast+
    obtain ok' oc' where "write_items al its oc1 = Some (ok', oc')" "writes oc1 (all_parts (do_swap oc1) its) ok' oc'"
      using Cons.IH [OF inv] Cons.prems(2) p(3) True by auto
    then show ?thesis using writes_trans [OF p(2) [unfolded eqTrueI [OF True]]] w True sw
      by (auto simp: all_parts_def)
  next
    case False
    then show ?thesis using w p(2) by (auto simp: writes_def)
  qed
qed

section \<open>Properties\<close>

text \<open>A stream over a fresh buffer, whose base the allocator aligned.\<close>

lemma ocdr_new_inv: "8 dvd base \<Longrightarrow> oc_inv (ocdr_new base data sw sow major minor)"
proof -
  assume "8 dvd base"
  then obtain k where "base = 8 * k" ..
  then have "align_binary base 8 = base" using align_binary_eq [of base 3] by simp
  then show ?thesis using \<open>8 dvd base\<close>
    by (simp add: oc_inv_def ocdr_new_def blk_mb_align_def chain_def blk_ok_def blk_end_def written_def content_def blk_length_def)
qed

text \<open>
  (C23) \<open>adjust\<close>, which calls itself through \<open>grow_and_adjust\<close> until the octets fit, always
  returns: a stream that had to grow has room in the new block. On success the octets lie in
  the current block, at an address of the alignment asked for; on failure nothing was written
  and the stream is marked bad.
\<close>
theorem adjust_returns:
  assumes "alloc_ok al" and "oc_inv oc" and "growable sz oc" and "cdr_align a"
  shows "\<exists>r oc'. adjust al sz a oc = Some (r, oc') \<and>
    (case r of
       None \<Rightarrow> \<not> o_good oc' \<and> written oc' = written oc
     | Some buf \<Rightarrow> buf + sz \<le> blk_end (o_cur oc') \<and> (b_base (o_cur oc') + buf) mod a = 0)"
proof -
  define bs where "bs = replicate sz (0 :: u8)"
  have g: "growable (length bs) oc" using assms(3) by (simp add: bs_def)
  from assms(1,2) g assms(4) show ?thesis
  proof (cases rule: adjust_spec)
    case (ok buf oc')
    then show ?thesis by (auto simp: bs_def)
  next
    case (failed oc')
    then show ?thesis by (auto simp: bs_def CDR_Output_Inv.failed_def)
  qed
qed

lemma blk_size_new: "blk_size (o_cur (ocdr_new base data sw sow major minor)) = length data"
  by (simp add: ocdr_new_def blk_mb_align_def blk_size_def Let_def)

definition test_alloc :: allocator where
  "test_alloc n sz = Some (1024 * n, replicate sz 0)"

lemma alloc_ok_test: "alloc_ok test_alloc"
  by (simp add: alloc_ok_def test_alloc_def)

theorem adjust_returns_witness:
  "\<exists>r oc'. adjust test_alloc 40 8 (ocdr_new 0 (replicate 32 0) False False 1 2) = Some (r, oc')"
proof -
  have "oc_inv (ocdr_new 0 (replicate 32 0) False False 1 2)" by (rule ocdr_new_inv) simp
  moreover have "growable 40 (ocdr_new 0 (replicate 32 0) False False 1 2)" by (simp add: growable_def blk_size_new)
  ultimately show ?thesis using adjust_returns [OF alloc_ok_test _ _ cdr_aligns(4)] by blast
qed

text \<open>
  (C22) Writing a list of values returns. When it returns true the stream holds what it held
  before followed by the octets of the values in order, each aligned relative to the start of
  the stream and preceded by padding only; when it returns false the stream is marked bad.
\<close>
theorem write_items_lays_out:
  assumes "alloc_ok al" and "oc_inv oc" and "list_all (item_fits m) its" and "room m (2 * length its) oc"
  shows "\<exists>ok oc'. write_items al its oc = Some (ok, oc') \<and> oc_inv oc' \<and>
    (if ok then \<exists>r. written oc' = written oc @ r \<and> laid_out (length (written oc)) (all_parts (do_swap oc) its) r
     else \<not> o_good oc')"
proof -
  obtain ok oc' where "write_items al its oc = Some (ok, oc')" "writes oc (all_parts (do_swap oc) its) ok oc'"
    using write_items_spec [OF assms] by blast
  then show ?thesis by (intro exI [of _ ok] exI [of _ oc']) (cases ok, simp_all add: writes_def)
qed

theorem write_items_lays_out_witness:
  "\<exists>ok oc'. write_items test_alloc [Octet 1, Long 2, Cstring [65]] (ocdr_new 0 (replicate 32 0) False False 1 2) = Some (ok, oc')"
proof -
  let ?its = "[Octet 1, Long 2, Cstring [65]]" and ?oc = "ocdr_new 0 (replicate 32 0) False False 1 2"
  have "oc_inv ?oc" by (rule ocdr_new_inv) simp
  moreover have "list_all (item_fits 4) ?its" by (simp add: item_fits_def part_ok_def cdr_align_def)
  moreover have "room 4 (2 * length ?its) ?oc" by (simp add: room_def blk_size_new)
  ultimately show ?thesis using write_items_lays_out [OF alloc_ok_test, of ?oc 4 ?its] by blast
qed

end
