(* ===== verification/CDR_Input.thy ===== *)
theory CDR_Input
  imports CDR_Output_Inv
begin

text \<open>
  ACE_InputCDR (ACE/ace/CDR_Stream.cpp, CDR_Stream.inl): a read position in one buffer. A read
  returns the value, or \<open>None\<close> where the code returns false, and the new stream. A read that
  stores through a pointer to an object too small for what is read gives \<open>Out_of_bounds\<close>.
  Whether the library was compiled without \<open>ACE_DISABLE_SWAP_ON_READ\<close> is a field of the stream;
  memory for a string is always granted, and no code set translator is installed.
\<close>

section \<open>State\<close>

record icdr =
  i_blk :: blk
  i_swap :: bool
  i_swap_on_read :: bool
  i_good :: bool
  i_major :: nat
  i_minor :: nat

abbreviation i_rd :: "icdr \<Rightarrow> nat" where "i_rd c \<equiv> b_rd (i_blk c)"
abbreviation i_wr :: "icdr \<Rightarrow> nat" where "i_wr c \<equiv> b_wr (i_blk c)"

definition i_length :: "icdr \<Rightarrow> nat" where
  "i_length c = blk_length (i_blk c)"

definition set_rd :: "nat \<Rightarrow> icdr \<Rightarrow> icdr" where
  "set_rd p c = c\<lparr>i_blk := (i_blk c)\<lparr>b_rd := p\<rparr>\<rparr>"

definition fail :: "icdr \<Rightarrow> icdr" where
  "fail c = c\<lparr>i_good := False\<rparr>"

definition load :: "nat \<Rightarrow> nat \<Rightarrow> icdr \<Rightarrow> u8 list" where
  "load buf n c = take n (drop buf (b_data (i_blk c)))"

definition swaps :: "icdr \<Rightarrow> bool" where
  "swaps c \<longleftrightarrow> i_swap_on_read c \<and> i_swap c"

definition giop_1_2 :: "icdr \<Rightarrow> bool" where
  "giop_1_2 c \<longleftrightarrow> i_major c = 1 \<and> i_minor c = 2"

section \<open>Reading\<close>

definition in_adjust :: "nat \<Rightarrow> nat \<Rightarrow> icdr \<Rightarrow> nat option \<times> icdr" where
  "in_adjust sz align c =
     (let buf = align_binary (b_base (i_blk c) + i_rd c) align - b_base (i_blk c);
          end = buf + sz
      in if end \<le> i_wr c then (Some buf, set_rd end c) else (None, fail c))"

definition read_1 :: "icdr \<Rightarrow> u8 option \<times> icdr" where
  "read_1 c = (if i_rd c < i_wr c then (Some (b_data (i_blk c) ! i_rd c), set_rd (i_rd c + 1) c)
     else (None, fail c))"

definition read_2 :: "icdr \<Rightarrow> u16 option \<times> icdr" where
  "read_2 c = (case in_adjust 2 2 c of
       (Some buf, c) \<Rightarrow> (Some (if \<not> swaps c then of_mem (load buf 2 c) else of_mem (swap_2 (load buf 2 c))), c)
     | (None, c) \<Rightarrow> (None, fail c))"

definition read_4 :: "icdr \<Rightarrow> u32 option \<times> icdr" where
  "read_4 c = (case in_adjust 4 4 c of
       (Some buf, c) \<Rightarrow> (Some (if \<not> swaps c then of_mem (load buf 4 c) else of_mem (swap_4 (load buf 4 c))), c)
     | (None, c) \<Rightarrow> (None, fail c))"

definition read_8 :: "icdr \<Rightarrow> u64 option \<times> icdr" where
  "read_8 c = (case in_adjust 8 8 c of
       (Some buf, c) \<Rightarrow> (Some (if \<not> swaps c then of_mem (load buf 8 c) else of_mem (swap_8 (load buf 8 c))), c)
     | (None, c) \<Rightarrow> (None, fail c))"

definition read_16 :: "icdr \<Rightarrow> u8 list option \<times> icdr" where
  "read_16 c = (case in_adjust 16 8 c of
       (Some buf, c) \<Rightarrow> (Some (if \<not> swaps c then load buf 16 c else swap_16 (load buf 16 c)), c)
     | (None, c) \<Rightarrow> (None, fail c))"

definition read_boolean :: "icdr \<Rightarrow> bool option \<times> icdr" where
  "read_boolean c = (case read_1 c of
       (Some tmp, c) \<Rightarrow>
         (let good = (tmp AND NOT 1 = 0); c = c\<lparr>i_good := good\<rparr>
          in (if good then Some (tmp \<noteq> 0) else None, c))
     | (None, c) \<Rightarrow> (None, c))"

text \<open>\<open>read_array\<close> gives the octets it stores at the target; \<open>target\<close> is the address stored to.\<close>

definition read_array :: "nat \<Rightarrow> nat \<Rightarrow> nat \<Rightarrow> nat \<Rightarrow> icdr \<Rightarrow> u8 list option \<times> icdr" where
  "read_array target sz align len c =
     (if len = 0 then (Some [], c)
      else case in_adjust (sz * len) align c of
         (Some buf, c) \<Rightarrow>
           (let bs = load buf (sz * len) c; orig = b_base (i_blk c) + buf;
                ret = (\<lambda>out. (if i_good c then Some out else None, c))
            in if \<not> swaps c \<or> sz = 1 then ret bs
               else if sz = 2 then ret (swap_2_array orig target bs len)
               else if sz = 4 then ret (swap_4_array orig target bs len)
               else if sz = 8 then ret (swap_8_array bs len)
               else if sz = 16 then ret (swap_16_array bs len)
               else (None, fail c))
       | (None, c) \<Rightarrow> (None, c))"

fun read_booleans :: "nat \<Rightarrow> icdr \<Rightarrow> bool list option \<times> icdr" where
  "read_booleans 0 c = (if i_good c then Some [] else None, c)"
| "read_booleans (Suc n) c =
     (if i_good c then
        case read_boolean c of
          (Some x, c) \<Rightarrow> (case read_booleans n c of (Some xs, c) \<Rightarrow> (Some (x # xs), c) | (None, c) \<Rightarrow> (None, c))
        | (None, c) \<Rightarrow> (None, c)
      else (None, c))"

definition read_boolean_array :: "nat \<Rightarrow> icdr \<Rightarrow> bool list option \<times> icdr" where
  "read_boolean_array len c = (if i_length c < len then (None, fail c) else read_booleans len c)"

definition read_char_array :: "nat \<Rightarrow> icdr \<Rightarrow> u8 list option \<times> icdr" where
  "read_char_array len c = (if i_length c < len then (None, fail c) else read_array 0 1 1 len c)"

text \<open>The two versions of \<open>read_string\<close>: into a new array of characters, and into a \<open>std::string\<close>.\<close>

definition read_string :: "icdr \<Rightarrow> u8 list option \<times> icdr" where
  "read_string c = (case read_4 c of
       (None, c) \<Rightarrow> (None, c)
     | (Some len, c) \<Rightarrow>
         (let len = unat len
          in if 0 < len \<and> len \<le> i_length c
             then case read_char_array len c of
                    (Some x, c) \<Rightarrow> (Some x, c)
                  | (None, c) \<Rightarrow> (None, fail c)
             else if len = 0 then (Some [0], c)
             else (None, fail c)))"

definition read_std_string :: "icdr \<Rightarrow> u8 list option \<times> icdr" where
  "read_std_string c = (case read_4 c of
       (None, c) \<Rightarrow> (None, c)
     | (Some len, c) \<Rightarrow>
         (let len = unat len
          in if 0 < len \<and> len \<le> i_length c
             then case (if len = 0 then (Some [], c) else read_char_array (len - 1) c) of
                    (Some x, c) \<Rightarrow> (case read_1 c of (Some _, c) \<Rightarrow> (Some x, c) | (None, c) \<Rightarrow> (None, c))
                  | (None, c) \<Rightarrow> (None, fail c)
             else (None, fail c)))"

section \<open>Skipping\<close>

definition skip_bytes :: "nat \<Rightarrow> icdr \<Rightarrow> bool \<times> icdr" where
  "skip_bytes len c = (if i_rd c + len \<le> i_wr c then (True, set_rd (i_rd c + len) c) else (False, fail c))"

definition skip_string :: "icdr \<Rightarrow> bool \<times> icdr" where
  "skip_string c = (case read_4 c of
       (Some len, c) \<Rightarrow>
         (if len = 0xffffffff
          then case read_4 c of (Some _, c) \<Rightarrow> (True, c) | (None, c) \<Rightarrow> (False, fail c)
          else if i_rd c + unat len \<le> i_wr c then (True, set_rd (i_rd c + unat len) c)
          else (False, fail c))
     | (None, c) \<Rightarrow> (False, c))"

section \<open>Wide characters\<close>

definition skip_wchar :: "nat \<Rightarrow> icdr \<Rightarrow> bool \<times> icdr" where
  "skip_wchar maxbytes c =
     (if giop_1_2 c
      then case read_1 c of
             (Some len, c) \<Rightarrow> skip_bytes (unat len) c
           | (None, c) \<Rightarrow> (False, fail c)
      else if maxbytes = 2 then (case read_2 c of (r, c) \<Rightarrow> (r \<noteq> None, c))
      else (case read_4 c of (r, c) \<Rightarrow> (r \<noteq> None, c)))"

text \<open>Octets stored through a pointer to an object of \<open>length old\<close> octets.\<close>

definition overwrite :: "u8 list \<Rightarrow> u8 list \<Rightarrow> u8 list access" where
  "overwrite old bs = (if length bs \<le> length old then Done (bs @ drop (length bs) old) else Out_of_bounds)"

definition read_octets_into :: "u8 list \<Rightarrow> nat \<Rightarrow> icdr \<Rightarrow> (u8 list option \<times> icdr) access" where
  "read_octets_into old len c = (case read_array 0 len 1 1 c of
       (Some bs, c) \<Rightarrow> (case overwrite old bs of Done m \<Rightarrow> Done (Some m, c) | Out_of_bounds \<Rightarrow> Out_of_bounds)
     | (None, c) \<Rightarrow> Done (None, c))"

text \<open>\<open>x\<close> is the character read into, and \<open>old\<close> what the local \<open>sx\<close> or \<open>ox\<close> holds before.\<close>

definition read_wchar :: "nat \<Rightarrow> u32 \<Rightarrow> u8 list \<Rightarrow> icdr \<Rightarrow> (u32 option \<times> icdr) access" where
  "read_wchar maxbytes x old c =
     (if maxbytes = 0 then Done (None, fail c)
      else if maxbytes = 4
      then if giop_1_2 c
           then case read_1 c of
                  (Some len, c) \<Rightarrow>
                    (case read_octets_into (to_mem 4 x) (unat len) c of
                       Done (Some m, c) \<Rightarrow> Done (Some (of_mem m), c)
                     | Done (None, c) \<Rightarrow> Done (None, c)
                     | Out_of_bounds \<Rightarrow> Out_of_bounds)
                | (None, c) \<Rightarrow> Done (None, fail c)
           else Done (read_4 c)
      else if giop_1_2 c
      then case read_1 c of
             (Some len, c) \<Rightarrow>
               (if len = 2
                then case read_octets_into (take 2 old) 2 c of
                       Done (Some m, c) \<Rightarrow> Done (Some (scast (of_mem m :: u16)), c)
                     | Done (None, c) \<Rightarrow> Done (None, fail c)
                     | Out_of_bounds \<Rightarrow> Out_of_bounds
                else case read_octets_into (take 1 old) (unat len) c of
                       Done (Some m, c) \<Rightarrow> Done (Some (ucast (of_mem m :: u8)), c)
                     | Done (None, c) \<Rightarrow> Done (None, fail c)
                     | Out_of_bounds \<Rightarrow> Out_of_bounds)
           | (None, c) \<Rightarrow> Done (None, fail c)
      else if maxbytes = 2
      then case read_2 c of
             (Some sx, c) \<Rightarrow> Done (Some (ucast sx), c)
           | (None, c) \<Rightarrow> Done (None, fail c)
      else case read_1 c of
             (Some ox, c) \<Rightarrow> Done (Some (ucast ox), c)
           | (None, c) \<Rightarrow> Done (None, fail c))"

fun read_wchars :: "bool \<Rightarrow> nat \<Rightarrow> nat \<Rightarrow> u8 list \<Rightarrow> u32 list" where
  "read_wchars swap maxbytes 0 buf = []"
| "read_wchars swap maxbytes (Suc n) buf =
     (if maxbytes = 2
      then ucast (of_mem (if \<not> swap then take 2 buf else swap_2 (take 2 buf)) :: u16) # read_wchars swap maxbytes n (drop 2 buf)
      else ucast (hd buf) # read_wchars swap maxbytes n (drop 1 buf))"

definition read_wchar_array_i :: "nat \<Rightarrow> nat \<Rightarrow> icdr \<Rightarrow> u32 list option \<times> icdr" where
  "read_wchar_array_i maxbytes len c =
     (if len = 0 then (Some [], c)
      else case in_adjust (maxbytes * len) (if maxbytes = 2 then 2 else 1) c of
             (Some buf, c) \<Rightarrow> (if i_good c then Some (read_wchars (swaps c) maxbytes len (load buf (maxbytes * len) c)) else None, c)
           | (None, c) \<Rightarrow> (None, c))"

fun words_of :: "nat \<Rightarrow> u8 list \<Rightarrow> u32 list" where
  "words_of 0 bs = []"
| "words_of (Suc n) bs = of_mem (take 4 bs) # words_of n (drop 4 bs)"

definition read_wchar_array :: "nat \<Rightarrow> nat \<Rightarrow> icdr \<Rightarrow> u32 list option \<times> icdr" where
  "read_wchar_array maxbytes len c =
     (if i_length c < len * maxbytes then (None, fail c)
      else if maxbytes \<noteq> 4 then read_wchar_array_i maxbytes len c
      else case read_array 0 4 4 len c of (r, c) \<Rightarrow> (map_option (words_of len) r, c))"

definition read_wstring :: "nat \<Rightarrow> icdr \<Rightarrow> u32 list option \<times> icdr" where
  "read_wstring maxbytes c =
     (if maxbytes = 0 then (None, fail c)
      else case read_4 c of
        (None, c) \<Rightarrow> (None, c)
      | (Some len, c) \<Rightarrow>
          (let len = unat len
           in if 0 < len \<and> len \<le> i_length c
              then if giop_1_2 c
                   then case read_wchar_array maxbytes (len div maxbytes) c of
                          (Some x, c) \<Rightarrow> (Some (x @ [0]), c)
                        | (None, c) \<Rightarrow> (None, fail c)
                   else case read_wchar_array maxbytes len c of
                          (Some x, c) \<Rightarrow> (Some x, c)
                        | (None, c) \<Rightarrow> (None, fail c)
              else if len = 0 then (Some [0], c)
              else (None, fail c)))"

definition read_std_wstring :: "nat \<Rightarrow> icdr \<Rightarrow> u32 list option \<times> icdr" where
  "read_std_wstring maxbytes c =
     (if maxbytes = 0 then (None, fail c)
      else case read_4 c of
        (None, c) \<Rightarrow> (None, c)
      | (Some len, c) \<Rightarrow>
          (let len = unat len
           in if 0 < len \<and> len \<le> i_length c
              then if giop_1_2 c
                   then case read_wchar_array maxbytes (len div maxbytes) c of
                          (Some x, c) \<Rightarrow> (Some x, c)
                        | (None, c) \<Rightarrow> (None, fail c)
                   else case (if len = 1 then (Some [], c) else read_wchar_array maxbytes (len - 1) c) of
                          (Some x, c) \<Rightarrow> (case skip_wchar maxbytes c of (True, c) \<Rightarrow> (Some x, c) | (False, c) \<Rightarrow> (None, c))
                        | (None, c) \<Rightarrow> (None, fail c)
              else if len = 0 then (Some [], c)
              else (None, fail c)))"

fun skip_wchars :: "nat \<Rightarrow> nat \<Rightarrow> icdr \<Rightarrow> bool \<times> icdr" where
  "skip_wchars maxbytes 0 c = (True, c)"
| "skip_wchars maxbytes (Suc n) c =
     (case skip_wchar maxbytes c of (True, c) \<Rightarrow> skip_wchars maxbytes n c | (False, c) \<Rightarrow> (False, c))"

definition skip_wstring :: "nat \<Rightarrow> icdr \<Rightarrow> bool \<times> icdr" where
  "skip_wstring maxbytes c = (case read_4 c of
       (None, c) \<Rightarrow> (False, c)
     | (Some len, c) \<Rightarrow>
         (if len = 0 then (True, c)
          else if giop_1_2 c then skip_bytes (unat len) c
          else skip_wchars maxbytes (unat len) c))"

end
