(* ===== verification/CDR_Input_Inv.thy ===== *)
theory CDR_Input_Inv
  imports CDR_Input
begin

text \<open>
  Reads stay inside of the octets received: the frame of every read and skip of an input stream,
  and the invariant of any sequence of them.
\<close>

section \<open>Reads stay inside of the stream\<close>

definition in_ok :: "icdr \<Rightarrow> bool" where
  "in_ok c \<longleftrightarrow> blk_ok (i_blk c)"

definition advances :: "icdr \<Rightarrow> icdr \<Rightarrow> bool" where
  "advances c c' \<longleftrightarrow> b_base (i_blk c') = b_base (i_blk c) \<and> b_data (i_blk c') = b_data (i_blk c) \<and>
     b_cur (i_blk c') = b_cur (i_blk c) \<and> i_wr c' = i_wr c \<and>
     i_rd c \<le> i_rd c' \<and> (i_rd c \<le> i_wr c \<longrightarrow> i_rd c' \<le> i_wr c) \<and>
     i_swap c' = i_swap c \<and> i_swap_on_read c' = i_swap_on_read c \<and> i_major c' = i_major c \<and> i_minor c' = i_minor c"

lemma advances_refl [simp]: "advances c c"
  by (simp add: advances_def)

lemma advances_trans [trans]: "advances a b \<Longrightarrow> advances b c \<Longrightarrow> advances a c"
  by (simp add: advances_def)

lemma advances_fail: "advances c c' \<Longrightarrow> advances c (fail c')"
  by (simp add: advances_def fail_def)

lemma advances_good: "advances c c' \<Longrightarrow> advances c (c'\<lparr>i_good := b\<rparr>)"
  by (simp add: advances_def)

lemma advances_ok: "advances c c' \<Longrightarrow> in_ok c \<Longrightarrow> in_ok c'"
  by (simp add: advances_def in_ok_def blk_ok_def blk_end_def)

lemma advances_set_rd: "i_rd c \<le> p \<Longrightarrow> p \<le> i_wr c \<Longrightarrow> advances c (set_rd p c)"
  by (simp add: advances_def set_rd_def)

lemma advances_move: "advances c c1 \<Longrightarrow> i_rd c1 \<le> p \<Longrightarrow> p \<le> i_wr c1 \<Longrightarrow> advances c (set_rd p c1)"
  by (auto intro: advances_trans advances_set_rd)

lemma align_offset:
  assumes "cdr_align a"
  shows "align_binary (b + p) a - b = p + padding (b + p) a"
  using align_binary_bounds(1) [OF assms, of "b + p"] by (simp add: padding_def)

lemma in_adjust_eq:
  assumes "cdr_align a"
  shows "in_adjust sz a c = (let buf = i_rd c + padding (b_base (i_blk c) + i_rd c) a
    in if buf + sz \<le> i_wr c then (Some buf, set_rd (buf + sz) c) else (None, fail c))"
  by (simp add: in_adjust_def align_offset [OF assms] Let_def)

lemma in_adjust_advances: "cdr_align a \<Longrightarrow> in_adjust sz a c = (r, c') \<Longrightarrow> advances c c'"
  by (auto simp: in_adjust_eq Let_def advances_fail intro!: advances_set_rd split: if_splits)

lemma read_1_advances: "read_1 c = (r, c') \<Longrightarrow> advances c c'"
  by (auto simp: read_1_def advances_fail intro!: advances_set_rd split: if_splits)

lemma read_2_advances: "read_2 c = (r, c') \<Longrightarrow> advances c c'"
  by (auto simp: read_2_def dest!: in_adjust_advances [OF cdr_aligns(2)] intro: advances_fail split: prod.splits option.splits)

lemma read_4_advances: "read_4 c = (r, c') \<Longrightarrow> advances c c'"
  by (auto simp: read_4_def dest!: in_adjust_advances [OF cdr_aligns(3)] intro: advances_fail split: prod.splits option.splits)

lemma read_8_advances: "read_8 c = (r, c') \<Longrightarrow> advances c c'"
  by (auto simp: read_8_def dest!: in_adjust_advances [OF cdr_aligns(4)] intro: advances_fail split: prod.splits option.splits)

lemma read_16_advances: "read_16 c = (r, c') \<Longrightarrow> advances c c'"
  by (auto simp: read_16_def dest!: in_adjust_advances [OF cdr_aligns(4)] intro: advances_fail split: prod.splits option.splits)

lemma read_boolean_advances: "read_boolean c = (r, c') \<Longrightarrow> advances c c'"
  by (auto simp: read_boolean_def Let_def dest!: read_1_advances intro: advances_good split: prod.splits option.splits if_splits)

lemma read_array_advances:
  assumes "cdr_align a" and "read_array t sz a n c = (r, c')"
  shows "advances c c'"
proof (cases "n = 0")
  case False
  obtain b c1 where b: "in_adjust (sz * n) a c = (b, c1)" by fastforce
  have "advances c c1" by (rule in_adjust_advances [OF assms(1) b])
  then show ?thesis using assms(2) False b
    by (cases b) (auto simp: read_array_def Let_def intro: advances_fail split: if_splits)
qed (use assms in \<open>simp add: read_array_def\<close>)

lemma read_booleans_advances: "read_booleans n c = (r, c') \<Longrightarrow> advances c c'"
  by (induction n arbitrary: c r)
    (auto dest!: read_boolean_advances split: if_splits prod.splits option.splits, (blast intro: advances_trans)+)

lemma read_char_array_advances: "read_char_array n c = (r, c') \<Longrightarrow> advances c c'"
  by (auto simp: read_char_array_def intro: advances_fail dest: read_array_advances [OF cdr_aligns(1) [simplified]] split: if_splits)

lemmas advances_simple = read_1_advances read_2_advances read_4_advances read_char_array_advances

lemma read_string_advances: "read_string c = (r, c') \<Longrightarrow> advances c c'"
  by (auto simp: read_string_def Let_def dest!: advances_simple intro: advances_fail advances_trans
      split: prod.splits option.splits if_splits)

lemma read_std_string_advances: "read_std_string c = (r, c') \<Longrightarrow> advances c c'"
  by (auto simp: read_std_string_def Let_def dest!: advances_simple intro: advances_fail advances_trans
      split: prod.splits option.splits if_splits)

lemma skip_bytes_advances: "skip_bytes n c = (r, c') \<Longrightarrow> advances c c'"
  by (auto simp: skip_bytes_def advances_fail intro!: advances_set_rd split: if_splits)

lemma skip_string_advances: "skip_string c = (r, c') \<Longrightarrow> advances c c'"
  by (auto simp: skip_string_def dest!: advances_simple intro: advances_fail advances_trans advances_move
      split: prod.splits option.splits if_splits)

lemma skip_wchar_advances: "skip_wchar m c = (r, c') \<Longrightarrow> advances c c'"
  by (auto simp: skip_wchar_def dest!: advances_simple skip_bytes_advances intro: advances_fail advances_trans
      split: prod.splits option.splits if_splits)

lemma read_octets_into_advances: "read_octets_into old n c = Done (r, c') \<Longrightarrow> advances c c'"
  by (auto simp: read_octets_into_def dest!: read_array_advances [OF cdr_aligns(1) [simplified]]
      split: prod.splits option.splits access.splits)

lemma read_wchar_advances: "read_wchar m x old c = Done (r, c') \<Longrightarrow> advances c c'"
  unfolding read_wchar_def
  by (auto dest!: advances_simple read_octets_into_advances intro: advances_fail advances_trans
      split: prod.splits option.splits access.splits if_splits)

lemma read_wchar_array_i_advances: "read_wchar_array_i m n c = (r, c') \<Longrightarrow> advances c c'"
  using in_adjust_advances [of 2 "m * n" c] in_adjust_advances [of 1 "m * n" c] cdr_aligns(1,2)
  by (auto simp: read_wchar_array_i_def split: prod.splits option.splits if_splits)

lemma read_wchar_array_advances: "read_wchar_array m n c = (r, c') \<Longrightarrow> advances c c'"
  by (auto simp: read_wchar_array_def intro: advances_fail read_wchar_array_i_advances
      dest: read_array_advances [OF cdr_aligns(3)] split: prod.splits if_splits)

lemma read_wstring_advances: "read_wstring m c = (r, c') \<Longrightarrow> advances c c'"
  by (auto simp: read_wstring_def Let_def dest!: advances_simple read_wchar_array_advances intro: advances_fail advances_trans
      split: prod.splits option.splits if_splits)

lemma read_std_wstring_advances: "read_std_wstring m c = (r, c') \<Longrightarrow> advances c c'"
  by (auto simp: read_std_wstring_def Let_def dest!: advances_simple read_wchar_array_advances skip_wchar_advances
      intro: advances_fail advances_trans split: prod.splits option.splits if_splits bool.splits)

lemma skip_wchars_advances: "skip_wchars m n c = (r, c') \<Longrightarrow> advances c c'"
  by (induction n arbitrary: c)
    (auto dest!: skip_wchar_advances split: prod.splits bool.splits, (blast intro: advances_trans)+)

lemma skip_wstring_advances: "skip_wstring m c = (r, c') \<Longrightarrow> advances c c'"
  by (auto simp: skip_wstring_def dest!: advances_simple skip_bytes_advances skip_wchars_advances intro: advances_trans
      split: prod.splits option.splits if_splits)

text \<open>One read or skip of a client, and any sequence of them.\<close>

inductive read_step :: "icdr \<Rightarrow> icdr \<Rightarrow> bool" where
  "read_1 c = (r1, c') \<Longrightarrow> read_step c c'"
| "read_2 c = (r2, c') \<Longrightarrow> read_step c c'"
| "read_4 c = (r4, c') \<Longrightarrow> read_step c c'"
| "read_8 c = (r8, c') \<Longrightarrow> read_step c c'"
| "read_16 c = (r16, c') \<Longrightarrow> read_step c c'"
| "read_boolean c = (rb, c') \<Longrightarrow> read_step c c'"
| "read_boolean_array n c = (rbs, c') \<Longrightarrow> read_step c c'"
| "cdr_align a \<Longrightarrow> read_array t sz a n c = (ra, c') \<Longrightarrow> read_step c c'"
| "read_char_array n c = (rc, c') \<Longrightarrow> read_step c c'"
| "read_string c = (rs, c') \<Longrightarrow> read_step c c'"
| "read_std_string c = (rs, c') \<Longrightarrow> read_step c c'"
| "read_wchar m x old c = Done (rw, c') \<Longrightarrow> read_step c c'"
| "read_wchar_array m n c = (rws, c') \<Longrightarrow> read_step c c'"
| "read_wstring m c = (rws, c') \<Longrightarrow> read_step c c'"
| "read_std_wstring m c = (rws, c') \<Longrightarrow> read_step c c'"
| "skip_bytes n c = (b, c') \<Longrightarrow> read_step c c'"
| "skip_string c = (b, c') \<Longrightarrow> read_step c c'"
| "skip_wchar m c = (b, c') \<Longrightarrow> read_step c c'"
| "skip_wstring m c = (b, c') \<Longrightarrow> read_step c c'"

lemma read_step_advances: "read_step c c' \<Longrightarrow> advances c c'"
proof (induction rule: read_step.induct)
  case (7 n c rbs c')
  then show ?case by (auto simp: read_boolean_array_def intro: advances_fail read_booleans_advances split: if_splits)
qed (auto intro: read_1_advances read_2_advances read_4_advances read_8_advances read_16_advances read_boolean_advances
    read_array_advances read_char_array_advances read_string_advances read_std_string_advances read_wchar_advances
    read_wchar_array_advances read_wstring_advances read_std_wstring_advances skip_bytes_advances
    skip_string_advances skip_wchar_advances skip_wstring_advances)


definition test_input :: icdr where
  "test_input = \<lparr>i_blk = \<lparr>b_base = 0, b_data = [255, 0, 0, 0, 7, 0, 0, 0], b_cur = 8, b_rd = 0, b_wr = 8\<rparr>,
     i_swap = False, i_swap_on_read = True, i_good = True, i_major = 1, i_minor = 2\<rparr>"


end
