(* ===== verification/CDR_Roundtrip.thy ===== *)
theory CDR_Roundtrip
  imports CDR_Input_Inv
begin

text \<open>
  The constructor of an input stream from an output stream, the operations that move contents
  between streams, and the round trip: reading gives back the values an output stream wrote,
  across the growth of the output buffers, the padding, the byte order and the copy.
\<close>

section \<open>From output to input\<close>

text \<open>\<open>mem\<close> is the buffer of \<open>total_length () + MAX_ALIGNMENT\<close> octets the constructor allocates.\<close>

definition input_of_output :: "nat \<times> u8 list \<Rightarrow> bool \<Rightarrow> ocdr \<Rightarrow> icdr" where
  "input_of_output mem swap_on_read rhs =
     (let (base, data) = mem;
          start = blk_mb_align \<lparr>b_base = base, b_data = data, b_cur = length data, b_rd = 0, b_wr = 0\<rparr>
      in \<lparr>i_blk = fold (\<lambda>i s. blk_copy (content i) s) (chain rhs) start, i_swap = o_swap rhs,
          i_swap_on_read = swap_on_read, i_good = True, i_major = o_major rhs, i_minor = o_minor rhs\<rparr>)"

lemma blk_copy_fits:
  assumes "b_rd b \<le> b_wr b" and "b_cur b = length (b_data b)" and "b_wr b + length bs \<le> length (b_data b)"
  shows "content (blk_copy bs b) = content b @ bs" "b_rd (blk_copy bs b) = b_rd b" "b_wr (blk_copy bs b) = b_wr b + length bs"
    "b_cur (blk_copy bs b) = b_cur b" "length (b_data (blk_copy bs b)) = length (b_data b)" "b_base (blk_copy bs b) = b_base b"
proof -
  have c: "blk_copy bs b = b\<lparr>b_wr := b_wr b + 0 + length bs,
      b_data := take (b_wr b + 0) (b_data b) @ bs @ drop (b_wr b + 0 + length bs) (b_data b)\<rparr>"
    using assms(2,3) by (simp add: blk_copy_def blk_space_def)
  show "content (blk_copy bs b) = content b @ bs"
    unfolding c by (subst content_append) (use assms in \<open>simp_all add: blk_ok_def blk_end_def\<close>)
  show "b_rd (blk_copy bs b) = b_rd b" "b_wr (blk_copy bs b) = b_wr b + length bs"
    "b_cur (blk_copy bs b) = b_cur b" "length (b_data (blk_copy bs b)) = length (b_data b)" "b_base (blk_copy bs b) = b_base b"
    unfolding c using assms(3) by simp_all
qed

lemma copy_chain:
  assumes "b_rd b \<le> b_wr b" and "b_cur b = length (b_data b)"
    and "b_wr b + length (concat (map content bs)) \<le> length (b_data b)"
  shows "content (fold (\<lambda>i s. blk_copy (content i) s) bs b) = content b @ concat (map content bs) \<and>
    b_rd (fold (\<lambda>i s. blk_copy (content i) s) bs b) = b_rd b \<and>
    b_wr (fold (\<lambda>i s. blk_copy (content i) s) bs b) = b_wr b + length (concat (map content bs)) \<and>
    length (b_data (fold (\<lambda>i s. blk_copy (content i) s) bs b)) = length (b_data b) \<and>
    b_cur (fold (\<lambda>i s. blk_copy (content i) s) bs b) = b_cur b \<and>
    b_base (fold (\<lambda>i s. blk_copy (content i) s) bs b) = b_base b"
  using assms
proof (induction bs arbitrary: b)
  case (Cons i bs)
  note c = blk_copy_fits [of b "content i"]
  have "b_wr b + length (content i) \<le> length (b_data b)" using Cons.prems(3) by simp
  note c = c [OF Cons.prems(1,2) this]
  have "b_rd (blk_copy (content i) b) \<le> b_wr (blk_copy (content i) b)"
    "b_cur (blk_copy (content i) b) = length (b_data (blk_copy (content i) b))"
    "b_wr (blk_copy (content i) b) + length (concat (map content bs)) \<le> length (b_data (blk_copy (content i) b))"
    using c Cons.prems by simp_all
  from Cons.IH [OF this] show ?case using c by (simp add: add.assoc)
qed simp

lemma mb_align_bounds: "align_binary base 8 - base < 8" "(base + (align_binary base 8 - base)) mod 8 = 0"
  using align_binary_bounds [OF cdr_aligns(4), of base] by simp_all

lemma input_of_output_spec:
  assumes "length data = total_length (chain oc) + 8" and "oc_inv oc"
  shows "content (i_blk (input_of_output (base, data) sor oc)) = written oc"
    and "in_ok (input_of_output (base, data) sor oc)"
    and "(b_base (i_blk (input_of_output (base, data) sor oc)) + i_rd (input_of_output (base, data) sor oc)) mod 8 = 0"
    and "swaps (input_of_output (base, data) sor oc) \<longleftrightarrow> sor \<and> o_swap oc"
proof -
  let ?s = "blk_mb_align \<lparr>b_base = base, b_data = data, b_cur = length data, b_rd = 0, b_wr = 0\<rparr>"
  have len: "length data = length (written oc) + 8"
    using assms total_length_written [of oc] by (simp add: oc_inv_def)
  have s: "b_rd ?s = align_binary base 8 - base" "b_wr ?s = align_binary base 8 - base" "b_data ?s = data"
    "b_cur ?s = length data" "b_base ?s = base" by (simp_all add: blk_mb_align_def Let_def)
  have "content ?s = []" using s by (simp add: content_def blk_length_def)
  moreover have "b_wr ?s + length (written oc) \<le> length data" using mb_align_bounds(1) [of base] len s by linarith
  note c = copy_chain [of ?s "chain oc", folded written_def, unfolded s, OF order_refl refl this [unfolded s]]
  ultimately show "content (i_blk (input_of_output (base, data) sor oc)) = written oc"
    "in_ok (input_of_output (base, data) sor oc)"
    "(b_base (i_blk (input_of_output (base, data) sor oc)) + i_rd (input_of_output (base, data) sor oc)) mod 8 = 0"
    "swaps (input_of_output (base, data) sor oc) \<longleftrightarrow> sor \<and> o_swap oc"
    using mb_align_bounds [of base] len
    by (simp_all add: input_of_output_def in_ok_def blk_ok_def blk_end_def swaps_def)
qed

section \<open>Reading back\<close>

datatype item_type =
    TOctet | TBoolean | TShort | TLong | TLongLong | TLongDouble
  | TArray nat nat nat
  | TString

fun type_of :: "cdr_item \<Rightarrow> item_type" where
  "type_of (Octet _) = TOctet"
| "type_of (Boolean _) = TBoolean"
| "type_of (Short _) = TShort"
| "type_of (Long _) = TLong"
| "type_of (LongLong _) = TLongLong"
| "type_of (LongDouble _) = TLongDouble"
| "type_of (Array sz a x) = TArray sz a (length x div sz)"
| "type_of (Cstring _) = TString"

definition as_item :: "('a \<Rightarrow> cdr_item) \<Rightarrow> 'a option \<times> icdr \<Rightarrow> cdr_item option \<times> icdr" where
  "as_item f r = (map_option f (fst r), snd r)"

fun read_item :: "item_type \<Rightarrow> icdr \<Rightarrow> cdr_item option \<times> icdr" where
  "read_item TOctet c = as_item Octet (read_1 c)"
| "read_item TBoolean c = as_item Boolean (read_boolean c)"
| "read_item TShort c = as_item Short (read_2 c)"
| "read_item TLong c = as_item Long (read_4 c)"
| "read_item TLongLong c = as_item LongLong (read_8 c)"
| "read_item TLongDouble c = as_item LongDouble (read_16 c)"
| "read_item (TArray sz a n) c = as_item (Array sz a) (read_array 0 sz a n c)"
| "read_item TString c = as_item Cstring (read_std_string c)"

fun read_items :: "item_type list \<Rightarrow> icdr \<Rightarrow> cdr_item list option \<times> icdr" where
  "read_items [] c = (Some [], c)"
| "read_items (t # ts) c =
     (case read_item t c of
        (Some x, c) \<Rightarrow> (case read_items ts c of (Some xs, c) \<Rightarrow> (Some (x # xs), c) | (None, c) \<Rightarrow> (None, c))
      | (None, c) \<Rightarrow> (None, c))"

definition window :: "icdr \<Rightarrow> u8 list" where
  "window c = content (i_blk c)"

text \<open>The unread octets of the stream hold these parts.\<close>

definition holds :: "(nat \<times> u8 list) list \<Rightarrow> icdr \<Rightarrow> bool" where
  "holds ps c \<longleftrightarrow> in_ok c \<and> i_good c \<and> (\<exists>q. laid_out q ps (window c) \<and> (b_base (i_blk c) + i_rd c) mod 8 = q mod 8)"

lemma window_split:
  assumes "in_ok c" and "window c = pad @ bs @ r"
  shows "i_rd c + length pad + length bs \<le> i_wr c" "load (i_rd c + length pad) (length bs) c = bs"
    "window (set_rd (i_rd c + length pad + length bs) c) = r"
proof -
  have ok: "i_rd c \<le> i_wr c" "i_wr c \<le> length (b_data (i_blk c))"
    using assms(1) by (simp_all add: in_ok_def blk_ok_def blk_end_def)
  have w: "take (i_wr c - i_rd c) (drop (i_rd c) (b_data (i_blk c))) = pad @ bs @ r"
    using assms(2) by (simp add: window_def content_def blk_length_def)
  then have "length (take (i_wr c - i_rd c) (drop (i_rd c) (b_data (i_blk c)))) = length (pad @ bs @ r)" by simp
  then have len: "i_wr c - i_rd c = length pad + length bs + length r" using ok by simp
  then show "i_rd c + length pad + length bs \<le> i_wr c" using ok by linarith
  have "load (i_rd c + length pad) (length bs) c
      = take (length bs) (drop (length pad) (take (i_wr c - i_rd c) (drop (i_rd c) (b_data (i_blk c)))))"
    unfolding load_def len by (simp add: drop_take add.commute)
  then show "load (i_rd c + length pad) (length bs) c = bs" unfolding w by simp
  have "window (set_rd (i_rd c + length pad + length bs) c)
      = drop (length pad + length bs) (take (i_wr c - i_rd c) (drop (i_rd c) (b_data (i_blk c))))"
    by (simp add: window_def content_def blk_length_def set_rd_def drop_take add.commute add.left_commute)
  then show "window (set_rd (i_rd c + length pad + length bs) c) = r" unfolding w by simp
qed

lemma holds_adjust:
  assumes "holds ((a, bs) # ps) c" and "cdr_align a"
  obtains buf c' where "in_adjust (length bs) a c = (Some buf, c')" "load buf (length bs) c' = bs"
    "holds ps c'" "swaps c' = swaps c" "c' = set_rd (buf + length bs) c" "a = 1 \<longrightarrow> buf = i_rd c"
    "i_rd c + length bs \<le> i_wr c"
proof -
  have ok: "in_ok c" "i_good c" using assms(1) by (simp_all add: holds_def)
  obtain q pad r where w: "window c = pad @ bs @ r" and p: "length pad = padding q a"
    and l: "laid_out (q + length pad + length bs) ps r" and q: "(b_base (i_blk c) + i_rd c) mod 8 = q mod 8"
    using assms(1) by (auto simp: holds_def)
  note ws = window_split [OF ok(1) w]
  have pq: "padding (b_base (i_blk c) + i_rd c) a = length pad" using p padding_cong [OF assms(2) q] by simp
  let ?buf = "i_rd c + length pad" and ?c = "set_rd (i_rd c + length pad + length bs) c"
  have "in_adjust (length bs) a c = (Some ?buf, ?c)" using ws(1) by (simp add: in_adjust_eq [OF assms(2)] pq Let_def)
  moreover have "load ?buf (length bs) ?c = bs" using ws(2) by (simp add: load_def set_rd_def)
  moreover have "(b_base (i_blk c) + i_rd c + (length pad + length bs)) mod 8 = (q + (length pad + length bs)) mod 8"
    using q by (rule mod_add_cong) simp
  then have "holds ps ?c" using ok ws l
    by (auto simp: holds_def in_ok_def blk_ok_def blk_end_def set_rd_def add.assoc intro!: exI [of _ "q + (length pad + length bs)"])
  moreover have "swaps ?c = swaps c" by (simp add: swaps_def set_rd_def)
  moreover have "a = 1 \<longrightarrow> ?buf = i_rd c" using p by (auto simp: padding_eq cdr_align_def)
  ultimately show ?thesis using that ws(1) by fastforce
qed

lemma good_holds: "holds ps c \<Longrightarrow> i_good c"
  by (simp add: holds_def)

lemma holds_read_1:
  assumes "holds ((1, [x]) # ps) c"
  obtains c' where "read_1 c = (Some x, c')" "holds ps c'" "swaps c' = swaps c" "c' = set_rd (Suc (i_rd c)) c"
  using assms cdr_aligns(1)
proof (cases rule: holds_adjust)
  case (1 buf c')
  have b: "buf = i_rd c" using 1 by simp
  have "take 1 (drop (i_rd c) (b_data (i_blk c))) = [x]" using 1(2,5) b by (simp add: load_def set_rd_def)
  moreover have "i_rd c < length (b_data (i_blk c))" using 1(7) assms by (auto simp: holds_def in_ok_def blk_ok_def blk_end_def)
  ultimately have "b_data (i_blk c) ! i_rd c = x" by (simp add: take_Suc_conv_app_nth hd_drop_conv_nth flip: numeral_One)
  then have "read_1 c = (Some x, set_rd (Suc (i_rd c)) c)" using 1(7) by (simp add: read_1_def)
  then show ?thesis using that 1(3-5) b by simp
qed

lemma maybe_swap_twice [simp]: "maybe_swap s (maybe_swap s bs) = bs"
  by (simp add: maybe_swap_def)

lemma holds_read_2:
  assumes "holds ((2, maybe_swap (swaps c) (to_mem 2 x)) # ps) c"
  obtains c' where "read_2 c = (Some x, c')" "holds ps c'" "swaps c' = swaps c"
  using assms cdr_aligns(2)
proof (cases rule: holds_adjust)
  case (1 buf c')
  then have "read_2 c = (Some x, c')"
    by (simp add: read_2_def maybe_swap_def swap_2_rev of_to_mem split: if_splits)
  then show ?thesis using that 1(3,4) by blast
qed

lemma holds_read_4:
  assumes "holds ((4, maybe_swap (swaps c) (to_mem 4 x)) # ps) c"
  obtains c' where "read_4 c = (Some x, c')" "holds ps c'" "swaps c' = swaps c"
  using assms cdr_aligns(3)
proof (cases rule: holds_adjust)
  case (1 buf c')
  then have "read_4 c = (Some x, c')"
    by (simp add: read_4_def maybe_swap_def swap_4_rev of_to_mem split: if_splits)
  then show ?thesis using that 1(3,4) by blast
qed

lemma holds_read_8:
  assumes "holds ((8, maybe_swap (swaps c) (to_mem 8 x)) # ps) c"
  obtains c' where "read_8 c = (Some x, c')" "holds ps c'" "swaps c' = swaps c"
  using assms cdr_aligns(4)
proof (cases rule: holds_adjust)
  case (1 buf c')
  then have "read_8 c = (Some x, c')"
    by (simp add: read_8_def maybe_swap_def swap_8_rev of_to_mem split: if_splits)
  then show ?thesis using that 1(3,4) by blast
qed

lemma holds_read_16:
  assumes "holds ((8, maybe_swap (swaps c) x) # ps) c" and "length x = 16"
  obtains c' where "read_16 c = (Some x, c')" "holds ps c'" "swaps c' = swaps c"
  using assms(1) cdr_aligns(4)
proof (cases rule: holds_adjust)
  case (1 buf c')
  then have "read_16 c = (Some x, c')" using assms(2)
    by (simp add: read_16_def maybe_swap_def swap_16_rev split: if_splits)
  then show ?thesis using that 1(3,4) by blast
qed

lemma holds_read_array:
  assumes "holds ((a, swap_elems (swaps c) sz x) # ps) c" and "sz \<in> {1, 2, 4, 8, 16}" and "cdr_align a"
    and "length x = sz * n" and "0 < n"
  obtains c' where "read_array t sz a n c = (Some x, c')" "holds ps c'" "swaps c' = swaps c"
  using assms(1,3)
proof (cases rule: holds_adjust)
  case (1 buf c')
  have d: "sz dvd length x" "length x div sz = n" "n \<noteq> 0" using assms(2,4,5) by auto
  have len: "length (swap_elems (swaps c) sz x) = sz * n" using d assms(4) by (simp add: length_swap_elems)
  have good: "i_good c'" using 1(3) by (rule good_holds)
  have "rev_elems sz n (rev_elems sz n x) = x" by (rule rev_elems_twice [OF assms(4)])
  moreover have "length (rev_elems sz n x) = sz * n" by (rule length_rev_elems [OF assms(4)])
  ultimately have "read_array t sz a n c = (Some x, c')" using 1(1,2,4) len good assms(2,5) d(3)
    by (auto simp: read_array_def Let_def swap_elems_def d(2) swap_2_array_rev swap_4_array_rev swap_8_array_rev swap_16_array_rev
        split: if_splits)
  then show ?thesis using that 1(3,4) by blast
qed

lemma holds_split: "holds ((1, x @ y) # ps) c \<Longrightarrow> holds ((1, x) # (1, y) # ps) c"
proof -
  have p: "padding q 1 = 0" for q by (simp add: padding_eq cdr_align_def)
  have l: "laid_out q ((1, x @ y) # ps) bs \<Longrightarrow> laid_out q ((1, x) # (1, y) # ps) bs" for q bs
    by (auto simp: p [simplified] add.assoc)
  assume "holds ((1, x @ y) # ps) c"
  then show ?thesis unfolding holds_def using l by blast
qed

lemma holds_length: "holds ((a, x) # ps) c \<Longrightarrow> length x \<le> i_length c"
proof -
  assume h: "holds ((a, x) # ps) c"
  then obtain pad r where "window c = pad @ x @ r" by (auto simp: holds_def)
  moreover have "length (window c) = i_length c"
    using h length_content [of "i_blk c"] by (simp add: holds_def in_ok_def window_def i_length_def)
  ultimately show ?thesis by (metis le_add1 le_add2 le_trans length_append)
qed

lemma unat_of_nat_u32: "n < 2 ^ 32 \<Longrightarrow> unat (of_nat n :: u32) = n"
  by (simp add: unat_of_nat take_bit_nat_eq_self)

lemma holds_read_std_string:
  assumes "holds (parts (swaps c) (Cstring x) @ ps) c" and "length x < 2 ^ 32 - 1"
  obtains c' where "read_std_string c = (Some x, c')" "holds ps c'" "swaps c' = swaps c"
proof -
  have "holds ((4, maybe_swap (swaps c) (to_mem 4 (of_nat (length x + 1) :: u32))) # (1, x @ [0]) # ps) c"
    using assms(1) by simp
  then obtain c1 where c1: "read_4 c = (Some (of_nat (length x + 1)), c1)" "holds ((1, x @ [0]) # ps) c1" "swaps c1 = swaps c"
    by (rule holds_read_4)
  have len: "unat (of_nat (length x + 1) :: u32) = length x + 1"
    by (rule unat_of_nat_u32) (use assms(2) in simp)
  have l1: "length x + 1 \<le> i_length c1" using holds_length [OF c1(2)] by simp
  have h: "holds ((1, x) # (1, [0]) # ps) c1" by (rule holds_split [OF c1(2)])
  obtain c2 where c2: "read_char_array (length x) c1 = (Some x, c2)" "holds ((1, [0]) # ps) c2" "swaps c2 = swaps c1"
  proof (cases "x = []")
    case True
    have "holds ((1, [0]) # ps) c1" using c1(2) True by simp
    then show ?thesis using that [of c1] True by (simp add: read_char_array_def read_array_def)
  next
    case False
    have "holds ((1, swap_elems (swaps c1) 1 x) # (1, [0]) # ps) c1" using h by (simp add: swap_elems_def)
    then obtain c2 where "read_array 0 1 1 (length x) c1 = (Some x, c2)" "holds ((1, [0]) # ps) c2" "swaps c2 = swaps c1"
      by (rule holds_read_array [where n = "length x" and t = 0]) (use False in \<open>simp_all add: cdr_align_def\<close>)
    then show ?thesis using that [of c2] l1 by (simp add: read_char_array_def)
  qed
  obtain c3 where c3: "read_1 c2 = (Some 0, c3)" "holds ps c3" "swaps c3 = swaps c2"
    by (rule holds_read_1 [OF c2(2)])
  have "read_std_string c = (Some x, c3)"
    using c1(1) len l1 c2(1) c3(1) by (simp add: read_std_string_def Let_def)
  then show ?thesis using that c3 c2(3) c1(3) by simp
qed

lemma holds_read_boolean:
  assumes "holds ((1, [if x then 1 else 0]) # ps) c"
  obtains c' where "read_boolean c = (Some x, c')" "holds ps c'" "swaps c' = swaps c"
  using assms
proof (cases rule: holds_read_1)
  case (1 c')
  have "i_good c'" using 1(2) by (rule good_holds)
  then have "c'\<lparr>i_good := True\<rparr> = c'" by simp
  then show ?thesis using that [of c'] 1 by (cases x) (simp_all add: read_boolean_def)
qed

lemma holds_read_item:
  assumes "holds (parts (swaps c) it @ ps) c" and "item_ok it"
  obtains c' where "read_item (type_of it) c = (Some it, c')" "holds ps c'" "swaps c' = swaps c"
proof (cases it)
  case (Octet x)
  with assms(1) have "holds ((1, [x]) # ps) c" by simp
  then show ?thesis by (rule holds_read_1) (use that Octet in \<open>simp add: as_item_def\<close>)
next
  case (Boolean x)
  with assms(1) have "holds ((1, [if x then 1 else 0]) # ps) c" by simp
  then show ?thesis by (rule holds_read_boolean) (use that Boolean in \<open>simp add: as_item_def\<close>)
next
  case (Short x)
  with assms(1) have "holds ((2, maybe_swap (swaps c) (to_mem 2 x)) # ps) c" by simp
  then show ?thesis by (rule holds_read_2) (use that Short in \<open>simp add: as_item_def\<close>)
next
  case (Long x)
  with assms(1) have "holds ((4, maybe_swap (swaps c) (to_mem 4 x)) # ps) c" by simp
  then show ?thesis by (rule holds_read_4) (use that Long in \<open>simp add: as_item_def\<close>)
next
  case (LongLong x)
  with assms(1) have "holds ((8, maybe_swap (swaps c) (to_mem 8 x)) # ps) c" by simp
  then show ?thesis by (rule holds_read_8) (use that LongLong in \<open>simp add: as_item_def\<close>)
next
  case (LongDouble x)
  with assms(1) have "holds ((8, maybe_swap (swaps c) x) # ps) c" by simp
  then show ?thesis by (rule holds_read_16) (use that LongDouble assms(2) in \<open>simp_all add: as_item_def\<close>)
next
  case (Array sz a x)
  show ?thesis
  proof (cases "x = []")
    case True
    then show ?thesis using that [of c] assms(1) Array by (simp add: as_item_def read_array_def)
  next
    case False
    have i: "sz \<in> {1, 2, 4, 8, 16}" "cdr_align a" "sz dvd length x" using assms(2) Array by auto
    have sz: "length x = sz * (length x div sz)" using i(3) by simp
    then have n: "0 < length x div sz" using False by (cases "length x div sz") auto
    have h: "holds ((a, swap_elems (swaps c) sz x) # ps) c" using assms(1) Array False by simp
    show ?thesis using h i(1,2) sz n
      by (rule holds_read_array [where t = 0]) (use that Array in \<open>simp add: as_item_def\<close>)
  qed
next
  case (Cstring x)
  with assms(1) have "holds (parts (swaps c) (Cstring x) @ ps) c" by simp
  then show ?thesis by (rule holds_read_std_string) (use that Cstring assms(2) in \<open>simp_all add: as_item_def\<close>)
qed

lemma holds_read_items:
  assumes "holds (all_parts (swaps c) its) c" and "list_all item_ok its"
  shows "\<exists>c'. read_items (map type_of its) c = (Some its, c') \<and> holds [] c'"
  using assms
proof (induction its arbitrary: c)
  case Nil
  then show ?case by (simp add: all_parts_def)
next
  case (Cons it its)
  have "holds (parts (swaps c) it @ all_parts (swaps c) its) c" using Cons.prems(1) by (simp add: all_parts_def)
  then obtain c1 where c1: "read_item (type_of it) c = (Some it, c1)" "holds (all_parts (swaps c) its) c1" "swaps c1 = swaps c"
    using Cons.prems(2) by (elim holds_read_item) simp_all
  then obtain c' where "read_items (map type_of its) c1 = (Some its, c')" "holds [] c'"
    using Cons.IH [of c1] Cons.prems(2) by auto
  then show ?case using c1(1) by auto
qed


lemma test_write:
  "\<exists>oc. write_items test_alloc [Octet 7, Long 258] (ocdr_new 0 (replicate 32 0) True True 1 2) = Some (True, oc) \<and>
    total_length (chain oc) = 8"
  by (simp add: ocdr_new_def blk_mb_align_def align_binary_def write_1_def write_4_def adjust.simps blk_end_def
      store_def do_swap_def swap_4_def to_mem_def of_mem_def chain_def blk_length_def)


end
