(* ===== verification/CDR_Transfer.thy ===== *)
theory CDR_Transfer
  imports CDR_Roundtrip
begin

text \<open>
  Moving contents between streams (consolidation, nested streams, exchange, cloning, growing an
  input buffer), and the places where the readers and writers of text do not do what they should.
\<close>

section \<open>Consolidation\<close>

lemma take_content_resize:
  assumes "b_wr b \<le> b_cur b" and "b_cur b \<le> length (b_data b)"
  shows "content (b\<lparr>b_base := base, b_data := take (b_cur b) (b_data b) @ rest, b_cur := n\<rparr>) = content b"
proof -
  have "take (b_wr b - b_rd b) (drop (b_rd b) (take (b_cur b) (b_data b) @ rest))
      = take (b_wr b - b_rd b) (drop (b_rd b) (take (b_cur b) (b_data b)))"
    using assms by simp
  also have "\<dots> = take (b_wr b - b_rd b) (drop (b_rd b) (b_data b))"
    using assms(1) by (simp add: drop_take)
  finally show ?thesis by (simp add: content_def blk_length_def)
qed

definition start_ok :: "ocdr \<Rightarrow> bool" where
  "start_ok oc \<longleftrightarrow> (let b = hd (chain oc) in b_wr b \<le> b_cur b \<and> b_cur b \<le> blk_end b \<and> b_rd b < 8 \<and> b_rd b \<le> b_wr b)"

lemma chain_cons: "chain oc = hd (chain oc) # tl (chain oc)"
  by (simp add: chain_def)

lemma copy_bounded:
  assumes "b_rd b \<le> b_wr b" and "b_cur b \<le> length (b_data b)" and "b_wr b + length (concat (map content bs)) \<le> b_cur b"
  shows "content (fold (\<lambda>i s. blk_copy (content i) s) bs b) = content b @ concat (map content bs)"
  using assms
proof (induction bs arbitrary: b)
  case (Cons i bs)
  have fits: "length (content i) \<le> blk_space b" "b_wr b + 0 + length (content i) \<le> length (b_data b)"
    using Cons.prems by (simp_all add: blk_space_def)
  have c: "blk_copy (content i) b = b\<lparr>b_wr := b_wr b + 0 + length (content i),
      b_data := take (b_wr b + 0) (b_data b) @ content i @ drop (b_wr b + 0 + length (content i)) (b_data b)\<rparr>"
    using fits(1) by (simp add: blk_copy_def)
  have "content (blk_copy (content i) b) = content b @ content i"
    unfolding c by (subst content_append) (use fits Cons.prems in \<open>simp_all add: blk_ok_def blk_end_def\<close>)
  moreover have "b_rd (blk_copy (content i) b) \<le> b_wr (blk_copy (content i) b)"
    "b_cur (blk_copy (content i) b) \<le> length (b_data (blk_copy (content i) b))"
    "b_wr (blk_copy (content i) b) + length (concat (map content bs)) \<le> b_cur (blk_copy (content i) b)"
    unfolding c using Cons.prems fits by simp_all
  ultimately show ?case using Cons.IH [of "blk_copy (content i) b"] by simp
qed simp

text \<open>
  (C32) Consolidation returns, and when it succeeds the whole chain is one block that holds the
  same octets; when it fails for want of memory the stream is unchanged.
\<close>
theorem consolidate_keeps_content:
  assumes al: "alloc_ok al" and inv: "oc_inv oc" and start: "start_ok oc"
    and small: "length (written oc) + 8 \<le> max_request"
  shows "\<exists>r oc'. consolidate al oc = Some (r, oc') \<and> written oc' = written oc \<and>
    (if r = 0 then o_done oc' = [] \<and> o_conts oc' = [] else o_done oc' = o_done oc \<and> o_cur oc' = o_cur oc)"
proof (cases "o_done oc = []")
  case True
  then show ?thesis using inv by (simp add: consolidate_def oc_inv_def)
next
  case False
  let ?s = "hd (chain oc)"
  have len: "total_length (chain oc) = length (written oc)"
    using inv by (intro total_length_written) (simp add: oc_inv_def)
  obtain n where n: "first_size (length (written oc) + 8) = Some n" "length (written oc) + 8 \<le> n"
    using first_size_ok small by blast
  have s: "b_wr ?s \<le> b_cur ?s" "b_cur ?s \<le> length (b_data ?s)" "b_rd ?s < 8" "b_rd ?s \<le> b_wr ?s"
    using start by (simp_all add: start_ok_def Let_def blk_end_def)
  have all: "tl (all_blocks oc) = tl (chain oc)"
    using inv False by (simp add: all_blocks_def chain_def oc_inv_def)
  have wr: "written oc = content ?s @ concat (map content (tl (chain oc)))"
    using chain_cons [of oc] by (metis concat.simps(2) list.simps(9) written_def)
  have lc: "length (content ?s) = b_wr ?s - b_rd ?s" using s by (simp add: content_def blk_length_def)
  let ?fold = "fold (\<lambda>i s. blk_copy (content i) s) (tl (chain oc))"
  have cons: "consolidate al oc = (case blk_resize al (o_allocs oc) n ?s of
       None \<Rightarrow> Some (-1, oc\<lparr>o_allocs := Suc (o_allocs oc)\<rparr>)
     | Some start \<Rightarrow> Some (0, oc\<lparr>o_done := [], o_cur := ?fold start, o_conts := [], o_writable := True,
         o_allocs := Suc (o_allocs oc)\<rparr>))"
    unfolding consolidate_def len n(1) all Let_def using False by simp
  show ?thesis
  proof (cases "blk_resize al (o_allocs oc) n ?s")
    case None
    then have "consolidate al oc = Some (-1, oc\<lparr>o_allocs := Suc (o_allocs oc)\<rparr>)" by (simp add: cons)
    then show ?thesis by (simp add: written_def chain_def)
  next
    case (Some b)
    have b: "content b = content ?s \<and> b_rd b = b_rd ?s \<and> b_wr b = b_wr ?s \<and> b_cur b = n \<and> n \<le> length (b_data b)"
    proof (cases "n \<le> blk_end ?s")
      case True
      then show ?thesis using Some by (auto simp: blk_resize_def content_def blk_length_def blk_end_def)
    next
      case grow: False
      then obtain base data where d: "al (o_allocs oc) n = Some (base, data)"
        and bd: "b = ?s\<lparr>b_base := base, b_data := take (b_cur ?s) (b_data ?s) @ drop (b_cur ?s) data, b_cur := n\<rparr>"
        using Some by (auto simp: blk_resize_def split: option.splits)
      have "length data = n" using al d unfolding alloc_ok_def by blast
      then show ?thesis using grow s take_content_resize [OF s(1,2), where base = base and rest = "drop (b_cur ?s) data" and n = n]
        unfolding bd by (simp add: blk_end_def)
    qed
    have "b_wr b + length (concat (map content (tl (chain oc)))) \<le> b_cur b"
      using b n(2) wr lc s by simp
    then have f: "content (?fold b) = written oc"
      using copy_bounded [of b "tl (chain oc)"] b s wr by simp
    have "consolidate al oc = Some (0, oc\<lparr>o_done := [], o_cur := ?fold b, o_conts := [], o_writable := True,
         o_allocs := Suc (o_allocs oc)\<rparr>)" by (simp add: cons Some)
    then show ?thesis using f by (intro exI conjI) (assumption, simp_all add: written_cur)
  qed
qed

theorem consolidate_keeps_content_witness:
  "\<exists>r oc'. consolidate test_alloc (ocdr_new 0 (replicate 32 0) False False 1 2) = Some (r, oc')"
proof -
  let ?oc = "ocdr_new 0 (replicate 32 0) False False 1 2"
  have c: "chain ?oc = [\<lparr>b_base = 0, b_data = replicate 32 0, b_cur = 32, b_rd = 0, b_wr = 0\<rparr>]"
    by (simp add: ocdr_new_def chain_def blk_mb_align_def align_binary_def)
  have "oc_inv ?oc" by (rule ocdr_new_inv) simp
  moreover have "start_ok ?oc" unfolding start_ok_def c Let_def blk_end_def by simp
  moreover have "length (written ?oc) + 8 \<le> max_request" unfolding written_def c by (simp add: content_def blk_length_def)
  ultimately show ?thesis using consolidate_keeps_content [OF alloc_ok_test, of ?oc] by blast
qed

section \<open>Nested streams\<close>

text \<open>
  The stream over a part of another one, which shares its buffer: \<open>InputCDR (rhs, size, offset)\<close>,
  and \<open>InputCDR (rhs, size)\<close>, which also reads the byte order. Sums are taken modulo \<open>2 ^ 64\<close>.
\<close>

definition nested :: "nat \<Rightarrow> nat \<Rightarrow> icdr \<Rightarrow> icdr" where
  "nested newpos sz rhs =
     (let start = blk_mb_align (i_blk rhs)
      in if newpos \<le> blk_space start \<and> (newpos + sz) mod 2 ^ 64 \<le> blk_space start
         then rhs\<lparr>i_good := True, i_blk := start\<lparr>b_rd := b_rd start + newpos, b_wr := b_wr start + (newpos + sz) mod 2 ^ 64\<rparr>\<rparr>
         else rhs\<lparr>i_good := False, i_blk := start\<rparr>)"

definition nested_offset :: "nat \<Rightarrow> int \<Rightarrow> icdr \<Rightarrow> icdr" where
  "nested_offset sz offset rhs =
     (let incoming_start = align_binary (b_base (i_blk rhs)) MAX_ALIGNMENT - b_base (i_blk rhs)
      in nested (nat ((int (i_rd rhs) - int incoming_start + offset) mod 2 ^ 64)) sz rhs)"

definition nested_encapsulation :: "nat \<Rightarrow> icdr \<Rightarrow> icdr" where
  "nested_encapsulation sz rhs =
     (let incoming_start = align_binary (b_base (i_blk rhs)) MAX_ALIGNMENT - b_base (i_blk rhs);
          c = nested (nat ((int (i_rd rhs) - int incoming_start) mod 2 ^ 64)) sz rhs
      in if i_good c
         then (case read_1 c of (r, c) \<Rightarrow> c\<lparr>i_swap := (case r of Some byte_order \<Rightarrow> byte_order \<noteq> 1 | None \<Rightarrow> True)\<rparr>)
         else c)"

section \<open>Exchange, clone, grow\<close>

definition set_positions :: "nat \<Rightarrow> nat \<Rightarrow> blk \<Rightarrow> blk" where
  "set_positions rd wr b =
     (let b = b\<lparr>b_rd := 0, b_wr := 0\<rparr>;
          b = (if rd \<le> blk_size b then b\<lparr>b_rd := rd\<rparr> else b)
      in if wr \<le> blk_size b then b\<lparr>b_wr := wr\<rparr> else b)"

definition exchange_data_blocks :: "icdr \<Rightarrow> icdr \<Rightarrow> icdr \<times> icdr" where
  "exchange_data_blocks this cdr =
     (this\<lparr>i_swap := i_swap cdr, i_blk := set_positions (i_rd cdr) (i_wr cdr) (i_blk cdr),
        i_major := i_major cdr, i_minor := i_minor cdr\<rparr>,
      cdr\<lparr>i_swap := i_swap this, i_blk := set_positions (i_rd this) (i_wr this) (i_blk this),
        i_major := i_major this, i_minor := i_minor this\<rparr>)"

text \<open>
  \<open>clone_from\<close>: the argument \<open>mem\<close> is what the allocator gives for the copy when the block of
  this stream is too small; the comparison is one of unsigned numbers. The read position of the
  incoming stream is not before its aligned start. Copying more than the
  block holds is out of bounds.
\<close>

definition clone_from :: "(nat \<times> u8 list) option \<Rightarrow> icdr \<Rightarrow> icdr \<Rightarrow> (icdr \<times> icdr) option access" where
  "clone_from mem this cdr =
     (let this = this\<lparr>i_swap := i_swap cdr\<rparr>;
          aligned = blk_mb_align (i_blk cdr);
          rd_bytes = i_rd cdr - b_rd aligned;
          wr_bytes = i_wr cdr - b_wr aligned;
          src = take wr_bytes (drop (b_rd aligned) (b_data (i_blk cdr)));
          small = (nat ((int (blk_size (i_blk this)) - int MAX_ALIGNMENT) mod 2 ^ 64) < wr_bytes);
          target = (if small then map_option (\<lambda>(base, data). \<lparr>b_base = base, b_data = data, b_cur = length data, b_rd = 0, b_wr = 0\<rparr>) mem
                    else Some (i_blk this))
      in case target of
           None \<Rightarrow> Done None
         | Some b \<Rightarrow>
             (let b = blk_mb_align b
              in if b_wr b + wr_bytes \<le> blk_end b
                 then Done (Some
                   (this\<lparr>i_blk := b\<lparr>b_data := take (b_wr b) (b_data b) @ src @ drop (b_wr b + wr_bytes) (b_data b),
                       b_rd := b_rd b + rd_bytes, b_wr := b_wr b + wr_bytes\<rparr>,
                      i_major := i_major cdr, i_minor := i_minor cdr\<rparr>,
                    cdr\<lparr>i_blk := aligned\<lparr>b_rd := b_rd aligned + rd_bytes, b_wr := b_wr aligned + wr_bytes\<rparr>\<rparr>))
                 else Out_of_bounds))"

text \<open>\<open>ACE_CDR::grow\<close> and \<open>ACE_InputCDR::grow\<close>; \<open>al n\<close> is the call of the allocator.\<close>

definition cdr_grow :: "allocator \<Rightarrow> nat \<Rightarrow> nat \<Rightarrow> blk \<Rightarrow> (int \<times> blk) option" where
  "cdr_grow al n minsize mb = do {
     newsize \<leftarrow> first_size (minsize + MAX_ALIGNMENT);
     (if newsize \<le> blk_size mb then Some (0, mb)
      else case al n newsize of
             None \<Rightarrow> Some (-1, mb)
           | Some (base, data) \<Rightarrow>
               (let mb_len = blk_length mb;
                    start = align_binary base MAX_ALIGNMENT - base
                in Some (0, \<lparr>b_base = base, b_data = take start data @ content mb @ drop (start + mb_len) data,
                     b_cur = length data, b_rd = start, b_wr = start + mb_len\<rparr>))) }"

definition in_grow :: "allocator \<Rightarrow> nat \<Rightarrow> nat \<Rightarrow> icdr \<Rightarrow> (int \<times> icdr) option" where
  "in_grow al n newsize c = do {
     (r, mb) \<leftarrow> cdr_grow al n newsize (i_blk c);
     Some (if r = -1 then (-1, c)
           else let mb = blk_mb_align mb in (0, c\<lparr>i_blk := mb\<lparr>b_wr := b_wr mb + newsize\<rparr>\<rparr>)) }"

text \<open>\<open>ACE_CDR::consolidate\<close> of a chain into a block, with which an input stream starts.\<close>

definition consolidate_into :: "allocator \<Rightarrow> nat \<Rightarrow> blk \<Rightarrow> blk list \<Rightarrow> (int \<times> blk) option" where
  "consolidate_into al n dst src =
     (if src = [] then Some (0, dst)
      else do {
        newsize \<leftarrow> first_size (total_length src + MAX_ALIGNMENT);
        (case blk_resize al n newsize dst of
           None \<Rightarrow> Some (-1, dst)
         | Some dst \<Rightarrow>
             (let srcalign = int ((b_base (hd src) + b_rd (hd src)) mod MAX_ALIGNMENT);
                  dstalign = int ((b_base dst + b_rd dst) mod MAX_ALIGNMENT);
                  offset = srcalign - dstalign;
                  offset = (if offset < 0 then offset + int MAX_ALIGNMENT else offset);
                  dst = dst\<lparr>b_rd := b_rd dst + nat offset\<rparr>;
                  dst = dst\<lparr>b_wr := b_rd dst\<rparr>
              in Some (0, fold (\<lambda>i d. if b_base d + b_wr d \<noteq> b_base i + b_rd i
                                       then blk_copy (content i) d
                                       else d\<lparr>b_wr := b_wr d + blk_length i\<rparr>) src dst))) })"

section \<open>Where the streams do not do what they should\<close>

lemma align_binary_8: "8 dvd b \<Longrightarrow> align_binary b 8 = b"
  using align_binary_eq [of b 3] by (auto elim!: dvdE)

lemma mb_align_8: "8 dvd b_base b \<Longrightarrow> blk_mb_align b = b\<lparr>b_rd := 0, b_wr := 0\<rparr>"
  by (simp add: blk_mb_align_def align_binary_8)

text \<open>
  A nested stream is checked against the size of the buffer and not against what was
  received: a request for more octets than are left in the outer stream succeeds as long as the
  buffer is large enough, and the octets behind the write position are read.
\<close>
theorem nested_ignores_received:
  assumes "in_ok rhs" and "8 dvd b_base (i_blk rhs)" and "i_length rhs < sz"
    and "i_rd rhs + sz \<le> blk_size (i_blk rhs)" and "blk_size (i_blk rhs) < 2 ^ 64"
  shows "i_good (nested_offset sz 0 rhs) \<and>
    window (nested_offset sz 0 rhs) = take sz (drop (i_rd rhs) (b_data (i_blk rhs))) \<and>
    i_wr rhs < i_wr (nested_offset sz 0 rhs)"
proof -
  have al: "align_binary (b_base (i_blk rhs)) MAX_ALIGNMENT - b_base (i_blk rhs) = 0"
    using align_binary_8 [OF assms(2)] by simp
  have lt: "i_rd rhs + sz < 2 ^ 64" using assms(4,5) by linarith
  have "nested_offset sz 0 rhs = rhs\<lparr>i_good := True, i_blk := (i_blk rhs)\<lparr>b_rd := i_rd rhs, b_wr := i_rd rhs + sz\<rparr>\<rparr>"
    using lt assms(4) by (simp add: nested_offset_def nested_def al mb_align_8 [OF assms(2)] blk_space_def blk_size_def Let_def)
  moreover have "i_wr rhs < i_rd rhs + sz" using assms(1,3) by (simp add: in_ok_def blk_ok_def i_length_def blk_length_def)
  ultimately show ?thesis by (simp add: window_def content_def blk_length_def)
qed

theorem nested_ignores_received_witness:
  "window (nested_offset 2 0 (test_input\<lparr>i_blk := (i_blk test_input)\<lparr>b_wr := 0\<rparr>\<rparr>)) = [255, 0]"
proof -
  let ?c = "test_input\<lparr>i_blk := (i_blk test_input)\<lparr>b_wr := 0\<rparr>\<rparr>"
  have "in_ok ?c" "8 dvd b_base (i_blk ?c)" "i_length ?c < 2" "i_rd ?c + 2 \<le> blk_size (i_blk ?c)"
    "blk_size (i_blk ?c) < 2 ^ 64"
    by (simp_all add: test_input_def in_ok_def blk_ok_def blk_end_def i_length_def blk_length_def blk_size_def)
  from nested_ignores_received [OF this] show ?thesis by (simp add: test_input_def)
qed

text \<open>
  \<open>clone_from\<close> subtracts the alignment from the size of the block without looking: for a
  block of fewer than eight octets the difference wraps, no larger block is made, and the copy
  of more octets than the block holds runs past its end.
\<close>
theorem clone_from_overflows:
  assumes "blk_size (i_blk this) < 8" and "8 dvd b_base (i_blk this)" and "8 dvd b_base (i_blk cdr)"
    and "blk_end (i_blk this) < i_wr cdr" and "i_wr cdr \<le> 2 ^ 64 - 8"
  shows "clone_from mem this cdr = Out_of_bounds"
proof -
  have "int (blk_size (i_blk this)) - 8 < 0" using assms(1) by simp
  moreover have "(x - 8) mod 2 ^ 64 = x - 8 + 2 ^ 64" if "0 \<le> x" "x < 8" for x :: int
  proof -
    have "(x - 8) mod 2 ^ 64 = (x - 8 + 2 ^ 64) mod 2 ^ 64" by (rule mod_add_self2 [symmetric])
    also have "\<dots> = x - 8 + 2 ^ 64" by (rule mod_pos_pos_trivial) (use that in simp_all)
    finally show ?thesis .
  qed
  ultimately have "nat ((int (blk_size (i_blk this)) - 8) mod 2 ^ 64) = blk_size (i_blk this) + (2 ^ 64 - 8)"
    using assms(1) by simp
  then have "\<not> nat ((int (blk_size (i_blk this)) - 8) mod 2 ^ 64) < i_wr cdr" using assms(5) by linarith
  then show ?thesis using assms(4) mb_align_8 [OF assms(2)] mb_align_8 [OF assms(3)]
    by (simp add: clone_from_def Let_def blk_size_def blk_end_def)
qed

theorem clone_from_overflows_witness:
  "clone_from None (test_input\<lparr>i_blk := \<lparr>b_base = 0, b_data = [0], b_cur = 1, b_rd = 0, b_wr = 0\<rparr>\<rparr>) test_input = Out_of_bounds"
  by (rule clone_from_overflows) (simp_all add: test_input_def blk_size_def blk_end_def)

text \<open>
  \<open>read_wchar\<close> of a GIOP 1.2 stream trusts the length octet it reads: with a length above
  the four octets of a wide character, as many octets of the stream are stored through the
  pointer to the character. Without the length octet the character is always enough.
\<close>
theorem read_wchar_overflows:
  assumes "in_ok c" and "giop_1_2 c" and "\<not> swaps c" and "i_good c"
    and "i_rd c < i_wr c" and "n = unat (b_data (i_blk c) ! i_rd c)" and "4 < n" and "i_rd c + 1 + n \<le> i_wr c"
  shows "read_wchar 4 x old c = Out_of_bounds"
proof -
  let ?c = "set_rd (i_rd c + 1) c" and ?c' = "set_rd (i_rd c + 1 + n) c"
  have r1: "read_1 c = (Some (b_data (i_blk c) ! i_rd c), ?c)" using assms(5) by (simp add: read_1_def)
  have p: "padding q (Suc 0) = 0" for q by (simp add: padding_eq cdr_align_def)
  have "in_adjust n 1 ?c = (Some (i_rd c + 1), ?c')"
    using assms(8) by (simp add: in_adjust_eq cdr_align_def p set_rd_def Let_def)
  moreover have "n \<le> length (b_data (i_blk c)) - (i_rd c + 1)"
    using assms(1,8) unfolding in_ok_def blk_ok_def blk_end_def by linarith
  then have "length (load (i_rd c + 1) n ?c') = n"
    by (simp add: load_def set_rd_def min_absorb2)
  ultimately have "\<exists>bs. read_array 0 n 1 1 ?c = (Some bs, ?c') \<and> length bs = n"
    using assms(3,4) by (simp add: read_array_def swaps_def set_rd_def Let_def)
  then have "read_octets_into (to_mem 4 x) n ?c = Out_of_bounds"
    using assms(7) by (auto simp: read_octets_into_def overwrite_def)
  moreover have "giop_1_2 c" by (rule assms(2))
  ultimately show ?thesis unfolding read_wchar_def assms(6) [symmetric] r1 using assms(6) by simp
qed

theorem read_wchar_overflows_witness:
  "read_wchar 4 0 [] (test_input\<lparr>i_blk := (i_blk test_input)\<lparr>b_data := [7, 1, 2, 3, 4, 5, 6, 7]\<rparr>\<rparr>) = Out_of_bounds"
  by (rule read_wchar_overflows [where n = 7])
    (simp_all add: test_input_def in_ok_def blk_ok_def blk_end_def giop_1_2_def swaps_def)

text \<open>
  The two readers of strings disagree on a string of length zero, which older
  implementations send for an empty string: the one into an array gives the empty string, the
  one into a \<open>std::string\<close> fails and marks the stream bad.
\<close>
theorem null_string_readers_disagree:
  assumes "read_4 c = (Some 0, c')"
  shows "read_string c = (Some [0], c') \<and> read_std_string c = (None, fail c')"
  using assms by (simp add: read_string_def read_std_string_def)

theorem null_string_readers_disagree_witness:
  "fst (read_string (set_rd 4 (test_input\<lparr>i_blk := (i_blk test_input)\<lparr>b_data := replicate 8 0\<rparr>\<rparr>))) = Some [0] \<and>
   fst (read_std_string (set_rd 4 (test_input\<lparr>i_blk := (i_blk test_input)\<lparr>b_data := replicate 8 0\<rparr>\<rparr>))) = None"
proof -
  let ?c = "set_rd 4 (test_input\<lparr>i_blk := (i_blk test_input)\<lparr>b_data := replicate 8 0\<rparr>\<rparr>)"
  have "read_4 ?c = (Some 0, set_rd 8 ?c)"
    by (simp add: read_4_def in_adjust_def align_binary_def set_rd_def test_input_def swaps_def load_def of_mem_def numeral_eq_Suc)
  then show ?thesis using null_string_readers_disagree [of ?c "set_rd 8 ?c"] by simp
qed

text \<open>
  \<open>write_string_view\<close> writes one octet more than the view has: what follows the view in
  memory goes out as the terminator of the string, a zero only by luck.
\<close>
theorem string_view_terminator:
  assumes "alloc_ok al" and "oc_inv oc" and "x \<noteq> []" and "4 \<le> m" and "length x + 1 \<le> m" and "room m 2 oc"
  shows "write_string_view al (length x) (x @ b # rest) oc
    = put_parts al [(4, maybe_swap (do_swap oc) (to_mem 4 (of_nat (length x + 1) :: u32))), (1, x @ [b])] oc"
  using write_string_mem [OF assms] assms(3) by (simp add: write_string_view_def)

theorem string_view_terminator_witness:
  "write_string_view test_alloc 2 [65, 66, 67, 68] (ocdr_new 0 (replicate 32 0) False False 1 2)
    = put_parts test_alloc [(4, to_mem 4 (3 :: u32)), (1, [65, 66, 67])] (ocdr_new 0 (replicate 32 0) False False 1 2)"
proof -
  let ?oc = "ocdr_new 0 (replicate 32 0) False False 1 2"
  have "oc_inv ?oc" by (rule ocdr_new_inv) simp
  moreover have "room 4 2 ?oc" by (simp add: room_def blk_size_new)
  moreover have "\<not> do_swap ?oc" by (simp add: do_swap_def ocdr_new_def)
  ultimately show ?thesis
    using string_view_terminator [OF alloc_ok_test, of ?oc "[65, 66]" 4 67 "[68]"]
    by (simp add: maybe_swap_def flip: numeral_2_eq_2)
qed

text \<open>
  With one octet per wide character, reading a wide character takes one octet and skipping
  one takes at least four, so a reader that skips the terminator of a wide string loses the
  values behind it.
\<close>
theorem skip_wchar_skips_too_much:
  assumes "in_ok c" and "\<not> giop_1_2 c" and "i_rd c + 7 \<le> i_wr c"
  shows "(\<exists>x' c'. read_wchar 1 x old c = Done (Some x', c') \<and> i_rd c' = i_rd c + 1) \<and>
    (\<exists>c'. skip_wchar 1 c = (True, c') \<and> i_rd c + 4 \<le> i_rd c')"
proof
  show "\<exists>x' c'. read_wchar 1 x old c = Done (Some x', c') \<and> i_rd c' = i_rd c + 1"
    using assms(2,3) by (simp add: read_wchar_def read_1_def set_rd_def)
  have p: "padding q 4 \<le> 3" for q using padding_eq [OF cdr_aligns(3), of q] mod_less_divisor [of 4 "4 - q mod 4"] by simp
  let ?p = "i_rd c + padding (b_base (i_blk c) + i_rd c) 4"
  have "?p + 4 \<le> i_wr c" using p [of "b_base (i_blk c) + i_rd c"] assms(3) by linarith
  then have "in_adjust 4 4 c = (Some ?p, set_rd (?p + 4) c)" by (simp add: in_adjust_eq [OF cdr_aligns(3)] Let_def)
  then show "\<exists>c'. skip_wchar 1 c = (True, c') \<and> i_rd c + 4 \<le> i_rd c'"
    using assms(2) by (simp add: skip_wchar_def read_4_def set_rd_def)
qed

theorem skip_wchar_skips_too_much_witness:
  "\<exists>c'. skip_wchar 1 (test_input\<lparr>i_minor := 1\<rparr>) = (True, c') \<and> 4 \<le> i_rd c'"
  using skip_wchar_skips_too_much [of "test_input\<lparr>i_minor := 1\<rparr>"]
  by (simp add: test_input_def in_ok_def blk_ok_def blk_end_def giop_1_2_def)

lemma read_boolean_clears_failure:
  "i_rd c < i_wr c \<Longrightarrow> b_data (i_blk c) ! i_rd c = 1 \<Longrightarrow> i_good (snd (read_boolean (fail c)))"
  by (simp add: read_boolean_def read_1_def fail_def)

end
