(* ===== verification/RLE_Compressor.thy ===== *)
theory RLE_Compressor
  imports Prelude "HOL-Library.Monad_Syntax"
begin

text \<open>
  The run length compressor (ACE/ace/Compression/rle/RLECompressor.cpp) and the CORBA compressor
  that calls it (TAO/tao/Compression/rle/RLECompressor.cpp). The output buffer is a list of the
  octets it holds, \<open>None\<close> is the return value \<open>ACE_UINT64 (-1)\<close>, output exhausted.
\<close>

unbundle bit_operations_syntax

section \<open>Compression\<close>

record rle_state =
  out_p :: "u8 list"
  out_index :: nat
  out_base :: nat
  run_count :: nat
  run_code :: bool

text \<open>\<open>(out_base = out_index++) >= max_out_len\<close>, and the two stores.\<close>

definition reserve :: "nat \<Rightarrow> rle_state \<Rightarrow> rle_state option" where
  "reserve max_out_len s =
     (if max_out_len \<le> out_index s then None
      else Some (s\<lparr>out_base := out_index s, out_index := out_index s + 1\<rparr>))"

definition put_header :: "u8 \<Rightarrow> rle_state \<Rightarrow> rle_state" where
  "put_header h s = s\<lparr>out_p := (out_p s)[out_base s := h]\<rparr>"

definition emit :: "nat \<Rightarrow> u8 \<Rightarrow> rle_state \<Rightarrow> rle_state option" where
  "emit max_out_len cur_byte s =
     (let s = put_header (of_nat (run_count s) OR (if run_code s then 0x80 else 0)) s;
          s = s\<lparr>run_count := run_count s + 1\<rparr>
      in if max_out_len \<le> out_index s then None
         else Some (s\<lparr>out_p := (out_p s)[out_index s := cur_byte], out_index := out_index s + 1\<rparr>))"

definition compress_step :: "nat \<Rightarrow> u8 \<Rightarrow> u8 list \<Rightarrow> rle_state \<Rightarrow> rle_state option" where
  "compress_step max_out_len cur_byte in_p s = do {
     s \<leftarrow> (if (if out_index s \<noteq> 0 then run_count s else 128) = 128
           then map_option (\<lambda>s. s\<lparr>run_code := False, run_count := 0\<rparr>) (reserve max_out_len s)
           else Some s);
     (if (if in_p \<noteq> [] then cur_byte = hd in_p else run_code s)
      then if run_code s
           then Some (put_header (of_nat (run_count s) OR 0x80) s\<lparr>run_count := run_count s + 1\<rparr>)
           else do {
             s \<leftarrow> (if run_count s \<noteq> 0
                   then map_option (\<lambda>s. s\<lparr>run_count := 0\<rparr>) (reserve max_out_len s)
                   else Some s);
             emit max_out_len cur_byte (s\<lparr>run_code := True\<rparr>) }
      else if run_code s
      then do {
        let s = put_header (of_nat (run_count s) OR 0x80) s;
        s \<leftarrow> (if in_p \<noteq> [] then reserve max_out_len s else Some s);
        Some (s\<lparr>run_code := False, run_count := 0\<rparr>) }
      else emit max_out_len cur_byte s) }"

fun compress_loop :: "nat \<Rightarrow> u8 list \<Rightarrow> rle_state \<Rightarrow> rle_state option" where
  "compress_loop max_out_len [] s = Some s"
| "compress_loop max_out_len (cur_byte # in_p) s = do {
     s \<leftarrow> compress_step max_out_len cur_byte in_p s;
     compress_loop max_out_len in_p s }"

definition compress :: "u8 list \<Rightarrow> u8 list \<Rightarrow> u8 list option" where
  "compress in_p buffer =
     map_option (\<lambda>s. take (out_index s) (out_p s))
       (compress_loop (length buffer) in_p
          \<lparr>out_p = buffer, out_index = 0, out_base = 0, run_count = 0, run_code = False\<rparr>)"

section \<open>Decompression\<close>

function decompress :: "u8 list \<Rightarrow> nat \<Rightarrow> u8 list option" where
  "decompress [] max_out_len = Some []"
| "decompress (cur_byte # in_p) max_out_len =
     (let cpy_len = unat (cur_byte AND 0x7f) + 1
      in if max_out_len < cpy_len then None
         else if cur_byte AND 0x80 \<noteq> 0
         then (case in_p of
                 [] \<Rightarrow> None
               | c # in_p' \<Rightarrow> map_option (\<lambda>out. replicate cpy_len c @ out) (decompress in_p' (max_out_len - cpy_len)))
         else if cpy_len \<le> length in_p
         then map_option (\<lambda>out. take cpy_len in_p @ out) (decompress (drop cpy_len in_p) (max_out_len - cpy_len))
         else None)"
  by pat_completeness auto
termination by (relation "measure (length \<circ> fst)") auto

section \<open>The CORBA compressor\<close>

text \<open>\<open>length * 1.1 + 32\<close>, truncated; the target sequence is fresh.\<close>

definition tao_target_length :: "nat \<Rightarrow> nat" where
  "tao_target_length n = (11 * n) div 10 + 32"

definition tao_compress :: "u8 list \<Rightarrow> u8 list option" where
  "tao_compress source = compress source (replicate (tao_target_length (length source)) 0)"

section \<open>Headers\<close>

lemma bit_0x80: "bit (0x80 :: u8) k \<longleftrightarrow> k = 7"
proof -
  have "bit (push_bit 7 (mask 1) :: u8) k \<longleftrightarrow> k = 7" unfolding bit_push_bit_iff bit_mask_iff by auto
  then show ?thesis by simp
qed

lemma bit_0x7f: "bit (0x7f :: u8) k \<longleftrightarrow> k < 7"
proof -
  have "bit (mask 7 :: u8) k \<longleftrightarrow> k < 7" unfolding bit_mask_iff by auto
  then show ?thesis by (simp add: mask_eq_exp_minus_1)
qed

lemma bit_count:
  assumes "n < 128" and "bit (of_nat n :: u8) k"
  shows "k < 7"
proof -
  have "take_bit 7 n = n" using assms(1) by (simp add: take_bit_nat_eq_self)
  moreover have "bit n k" using assms(2) by (simp add: bit_simps)
  ultimately show "k < 7" by (metis bit_take_bit_iff)
qed

lemma unat_count: "n < 128 \<Longrightarrow> unat (of_nat n :: u8) = n"
  by (simp add: unat_of_nat take_bit_nat_eq_self)

lemma header_and:
  assumes "n < 128"
  shows "(of_nat n OR (0x80 :: u8)) AND 0x7f = of_nat n" "of_nat n AND (0x7f :: u8) = of_nat n"
    "(of_nat n OR (0x80 :: u8)) AND 0x80 = 0x80" "of_nat n AND (0x80 :: u8) = 0"
proof -
  have b: "bit (of_nat n :: u8) k \<Longrightarrow> k < 7" for k using bit_count [OF assms] .
  have "\<not> bit (of_nat n :: u8) 7" using b [of 7] by auto
  show "(of_nat n OR (0x80 :: u8)) AND 0x7f = of_nat n" "of_nat n AND (0x7f :: u8) = of_nat n"
    "(of_nat n OR (0x80 :: u8)) AND 0x80 = 0x80" "of_nat n AND (0x80 :: u8) = 0"
    using b \<open>\<not> bit (of_nat n :: u8) 7\<close>
    by (auto intro!: bit_eqI simp only: bit_and_iff bit_or_iff bit_0x80 bit_0x7f bit_0_eq bot_apply bot_bool_def)
qed

lemmas header_simps = header_and unat_count

section \<open>What complete output decodes to\<close>

text \<open>\<open>decodes bs out\<close>: a complete sequence of blocks.\<close>

inductive decodes :: "u8 list \<Rightarrow> u8 list \<Rightarrow> bool" where
  none: "decodes [] []"
| run: "n < 128 \<Longrightarrow> decodes bs out \<Longrightarrow> decodes (bs @ [of_nat n OR 0x80, c]) (out @ replicate (n + 1) c)"
| literal: "n < 128 \<Longrightarrow> length xs = n + 1 \<Longrightarrow> decodes bs out \<Longrightarrow> decodes (bs @ of_nat n # xs) (out @ xs)"

lemma decompress_decodes:
  "decodes bs out \<Longrightarrow> decompress (bs @ rest) m =
    (if length out \<le> m then map_option (\<lambda>r. out @ r) (decompress rest (m - length out)) else None)"
proof (induction arbitrary: rest m rule: decodes.induct)
  case none
  then show ?case by (simp add: option.map_ident [unfolded id_def] cong: option.map_cong)
next
  case (run n bs out c)
  have d: "decompress ((of_nat n OR 0x80) # c # rest) k =
      (if k < n + 1 then None else map_option (\<lambda>r. replicate (n + 1) c @ r) (decompress rest (k - (n + 1))))" for k
    using run.hyps(1) by (simp add: Let_def header_simps del: replicate_Suc)
  have "decompress ((bs @ [of_nat n OR 0x80, c]) @ rest) m = decompress (bs @ (of_nat n OR 0x80) # c # rest) m" by simp
  then show ?case unfolding run.IH d
    by (auto simp: option.map_comp comp_def simp del: replicate_Suc)
next
  case (literal n xs bs out)
  have d: "decompress (of_nat n # xs @ rest) k =
      (if k < n + 1 then None else map_option (\<lambda>r. xs @ r) (decompress rest (k - (n + 1))))" for k
    using literal.hyps(1,2) by (simp add: Let_def header_simps)
  have "decompress ((bs @ of_nat n # xs) @ rest) m = decompress (bs @ of_nat n # xs @ rest) m" by simp
  then show ?case unfolding literal.IH d using literal.hyps(2)
    by (auto simp: option.map_comp comp_def)
qed

lemma decodes_decompress: "decodes bs out \<Longrightarrow> length out \<le> m \<Longrightarrow> decompress bs m = Some out"
  using decompress_decodes [of bs out "[]" m] by simp

section \<open>The invariant of the compressor\<close>

text \<open>
  \<open>rle_inv max done next s\<close>: the octets \<open>done\<close> are compressed, and the octet to compress next, if
  there is one, is the first of \<open>next\<close>. The last block may be a literal one of \<open>run_count\<close>
  octets, a run of which the next octet is a part, or reserved only.
\<close>

definition filled :: "rle_state \<Rightarrow> u8 list" where
  "filled s = take (out_index s) (out_p s)"

definition filled_ok :: "nat \<Rightarrow> rle_state \<Rightarrow> bool" where
  "filled_ok m s \<longleftrightarrow> length (out_p s) = m \<and> out_index s \<le> m"

inductive open_block :: "nat \<Rightarrow> u8 list \<Rightarrow> u8 \<Rightarrow> rle_state \<Rightarrow> bool" where
  literals: "\<not> run_code s \<Longrightarrow> filled_ok m s \<Longrightarrow> filled s = pre @ of_nat h # xs \<Longrightarrow> out_base s = length pre \<Longrightarrow>
    length xs = Suc h \<Longrightarrow> run_count s = Suc h \<Longrightarrow> h < 128 \<Longrightarrow> decodes pre out \<Longrightarrow> open_block m (out @ xs) nxt s"
| running: "run_code s \<Longrightarrow> filled_ok m s \<Longrightarrow> filled s = pre @ [of_nat h OR 0x80, nxt] \<Longrightarrow> out_base s = length pre \<Longrightarrow>
    run_count s = Suc h \<Longrightarrow> h < 128 \<Longrightarrow> decodes pre out \<Longrightarrow> open_block m (out @ replicate (Suc h) nxt) nxt s"
| reserved: "\<not> run_code s \<Longrightarrow> filled_ok m s \<Longrightarrow> filled s = pre @ [g] \<Longrightarrow> out_base s = length pre \<Longrightarrow>
    run_count s = 0 \<Longrightarrow> decodes pre out \<Longrightarrow> open_block m out nxt s"

definition rle_inv :: "nat \<Rightarrow> u8 list \<Rightarrow> u8 list \<Rightarrow> rle_state \<Rightarrow> bool" where
  "rle_inv m out nxt s \<longleftrightarrow>
     (case nxt of
        [] \<Rightarrow> filled_ok m s \<and> decodes (filled s) out
      | c # _ \<Rightarrow> filled_ok m s \<and> out_index s = 0 \<and> out = [] \<or> open_block m out c s \<and> out_index s \<noteq> 0)"

lemma filled_reserve:
  assumes "filled_ok m s" and "reserve m s = Some s'"
  shows "filled_ok m s'" "filled s' = filled s @ [out_p s ! out_index s]" "out_base s' = length (filled s)"
    "out_index s' = Suc (out_index s)" "run_code s' = run_code s" "run_count s' = run_count s"
  using assms by (auto simp: reserve_def filled_ok_def filled_def take_Suc_conv_app_nth split: if_splits)

lemma filled_put_header:
  assumes "filled_ok m s" and "out_base s < out_index s"
  shows "filled_ok m (put_header h s)" "filled (put_header h s) = (filled s)[out_base s := h]"
    "out_base (put_header h s) = out_base s" "run_code (put_header h s) = run_code s" "run_count (put_header h s) = run_count s"
    "out_index (put_header h s) = out_index s"
  using assms by (auto simp: put_header_def filled_ok_def filled_def take_update_swap)

lemma filled_emit:
  assumes "filled_ok m s" and "out_base s < out_index s" and "emit m c s = Some s'"
  shows "filled_ok m s'" "filled s' = (filled s)[out_base s := of_nat (run_count s) OR (if run_code s then 0x80 else 0)] @ [c]"
    "out_base s' = out_base s" "run_code s' = run_code s" "run_count s' = Suc (run_count s)" "out_index s' = Suc (out_index s)"
  using assms by (auto simp: emit_def put_header_def filled_ok_def filled_def take_update_swap take_Suc_conv_app_nth list_update_append Let_def
      split: if_splits)

lemma filled_length: "filled_ok m s \<Longrightarrow> length (filled s) = out_index s"
  by (simp add: filled_ok_def filled_def)

definition fresh_block :: "nat \<Rightarrow> rle_state \<Rightarrow> rle_state option" where
  "fresh_block m s = (if (if out_index s \<noteq> 0 then run_count s else 128) = 128
     then map_option (\<lambda>s. s\<lparr>run_code := False, run_count := 0\<rparr>) (reserve m s) else Some s)"

lemma open_block_closed:
  assumes "open_block m out c s"
  shows "filled_ok m s \<and> (run_count s \<noteq> 0 \<longrightarrow> decodes (filled s) out)"
  using assms
proof cases
  case (literals pre h xs out')
  then show ?thesis using decodes.literal [of h xs pre out'] by simp
next
  case (running pre h out')
  then show ?thesis using decodes.run [of h pre out' c] by simp
qed simp

lemma filled_update:
  "filled (s\<lparr>run_code := b, run_count := k\<rparr>) = filled s" "filled_ok m (s\<lparr>run_code := b, run_count := k\<rparr>) = filled_ok m s"
  "filled (s\<lparr>run_code := b\<rparr>) = filled s" "filled_ok m (s\<lparr>run_code := b\<rparr>) = filled_ok m s"
  "filled (s\<lparr>run_count := k\<rparr>) = filled s" "filled_ok m (s\<lparr>run_count := k\<rparr>) = filled_ok m s"
  by (simp_all add: filled_def filled_ok_def)

lemma reserve_opens:
  assumes "filled_ok m s" and "decodes (filled s) out" and "reserve m s = Some s'"
  shows "open_block m out c (s'\<lparr>run_code := False, run_count := 0\<rparr>)"
  by (rule open_block.reserved [where pre = "filled s" and g = "out_p s ! out_index s"])
    (use filled_reserve [OF assms(1,3)] assms(2) in \<open>simp_all add: filled_update\<close>)

lemma fresh_block_open:
  assumes "rle_inv m out (c # rest) s" and "fresh_block m s = Some s'"
  shows "open_block m out c s' \<and> run_count s' < 128 \<and> out_index s' \<noteq> 0"
proof (cases "out_index s = 0")
  case True
  then have i: "filled_ok m s" "out = []" using assms(1) by (auto simp: rle_inv_def)
  have "filled s = []" using True by (simp add: filled_def)
  then have d: "decodes (filled s) out" using i(2) decodes.none by simp
  obtain s1 where s1: "reserve m s = Some s1" "s' = s1\<lparr>run_code := False, run_count := 0\<rparr>"
    using assms(2) True by (auto simp: fresh_block_def)
  show ?thesis using reserve_opens [OF i(1) d s1(1)] filled_reserve(4) [OF i(1) s1(1)] s1(2) by simp
next
  case False
  then have o: "open_block m out c s" using assms(1) by (auto simp: rle_inv_def)
  show ?thesis
  proof (cases "run_count s = 128")
    case True
    have i: "filled_ok m s" "decodes (filled s) out" using open_block_closed [OF o] True by auto
    obtain s1 where s1: "reserve m s = Some s1" "s' = s1\<lparr>run_code := False, run_count := 0\<rparr>"
      using assms(2) True False by (auto simp: fresh_block_def)
    show ?thesis using reserve_opens [OF i s1(1)] filled_reserve(4) [OF i(1) s1(1)] s1(2) by simp
  next
    case rc: False
    have "run_count s \<le> 128" using o by cases auto
    then show ?thesis using assms(2) o rc False by (simp add: fresh_block_def)
  qed
qed

text \<open>Emitting an octet opens or extends a block.\<close>

lemma emit_literal:
  assumes "open_block m out c s" and "\<not> run_code s" and "run_count s < 128" and "emit m c s = Some s'"
  shows "open_block m (out @ [c]) d s' \<and> decodes (filled s') (out @ [c]) \<and> filled_ok m s' \<and> out_index s' \<noteq> 0"
  using assms(1)
proof cases
  case (literals pre h xs out')
  have "out_base s < out_index s" using literals filled_length [of m s] by simp
  note e = filled_emit [OF literals(3) this assms(4)]
  have "filled s' = pre @ of_nat (Suc h) # (xs @ [c])" using e(2) literals assms(2) by simp
  then have "open_block m (out' @ (xs @ [c])) d s'"
    using e literals assms(2,3) by (intro open_block.literals [where h = "Suc h"]) simp_all
  then show ?thesis using literals(1) open_block_closed [of m "out' @ (xs @ [c])" d s'] e by simp
next
  case (reserved pre g)
  have "out_base s < out_index s" using reserved filled_length [of m s] by simp
  note e = filled_emit [OF reserved(2) this assms(4)]
  have "filled s' = pre @ of_nat 0 # [c]" using e(2) reserved assms(2) by simp
  then have "open_block m (out @ [c]) d s'"
    using e reserved assms(2) by (intro open_block.literals [where h = 0]) simp_all
  then show ?thesis using open_block_closed [of m "out @ [c]" d s'] e by simp
qed (use assms(2) in simp)

lemma emit_run:
  assumes "open_block m out c s" and "run_count s = 0" and "emit m c (s\<lparr>run_code := True\<rparr>) = Some s'"
  shows "open_block m (out @ [c]) c s' \<and> out_index s' \<noteq> 0"
  using assms(1)
proof cases
  case (reserved pre g)
  have ok: "filled_ok m (s\<lparr>run_code := True\<rparr>)" using reserved(2) by (simp add: filled_update)
  have "out_base (s\<lparr>run_code := True\<rparr>) < out_index (s\<lparr>run_code := True\<rparr>)" using reserved filled_length [of m s] by simp
  note e = filled_emit [OF ok this assms(3)]
  have "filled s' = pre @ [of_nat 0 OR 0x80, c]" using e(2) reserved assms(2) by (simp add: filled_update)
  then have "open_block m (out @ replicate (Suc 0) c) c s'"
    using e reserved assms(2) by (intro open_block.running [where h = 0]) simp_all
  then show ?thesis using e(6) by simp
qed (use assms(2) in simp_all)

lemma compress_step_fresh:
  "compress_step m c rest s = do {
     s \<leftarrow> fresh_block m s;
     (if (if rest \<noteq> [] then c = hd rest else run_code s)
      then if run_code s
           then Some (put_header (of_nat (run_count s) OR 0x80) s\<lparr>run_count := run_count s + 1\<rparr>)
           else do {
             s \<leftarrow> (if run_count s \<noteq> 0
                   then map_option (\<lambda>s. s\<lparr>run_count := 0\<rparr>) (reserve m s)
                   else Some s);
             emit m c (s\<lparr>run_code := True\<rparr>) }
      else if run_code s
      then do {
        let s = put_header (of_nat (run_count s) OR 0x80) s;
        s \<leftarrow> (if rest \<noteq> [] then reserve m s else Some s);
        Some (s\<lparr>run_code := False, run_count := 0\<rparr>) }
      else emit m c s) }"
  unfolding compress_step_def fresh_block_def ..

text \<open>A run that takes one more octet: the header counts it.\<close>

lemma extend_run_aux:
  assumes "open_block m out c s" and "run_code s" and "run_count s < 128"
    and s': "s' = put_header (of_nat (run_count s) OR 0x80) s"
  shows "filled_ok m s' \<and> out_index s' \<noteq> 0 \<and> open_block m (out @ [c]) c (s'\<lparr>run_count := run_count s + 1\<rparr>)"
  using assms(1)
proof cases
  case (running pre h out')
  have lt: "out_base s < out_index s" using running filled_length [of m s] by simp
  note e = filled_put_header [OF running(3) lt, of "of_nat (run_count s) OR 0x80", folded s']
  have f: "filled s' = pre @ [of_nat (Suc h) OR 0x80, c]" using e(2) running by simp
  have out: "out @ [c] = out' @ replicate (Suc (Suc h)) c" using running(1) by (simp add: replicate_append_same)
  have "open_block m (out @ [c]) c (s'\<lparr>run_count := run_count s + 1\<rparr>)" unfolding out
    by (rule open_block.running [where pre = pre and h = "Suc h"])
      (use e f running assms(3) in \<open>simp_all add: filled_update\<close>)
  then show ?thesis using e(1,6) lt by simp
qed (use assms(2) in simp_all)

lemma extend_run:
  assumes "open_block m out c s" and "run_code s" and "run_count s < 128"
  defines "s' \<equiv> put_header (of_nat (run_count s) OR 0x80) s"
  shows "filled_ok m s'" "decodes (filled s') (out @ [c])" "out_index s' \<noteq> 0"
    "open_block m (out @ [c]) c (s'\<lparr>run_count := run_count s + 1\<rparr>)"
  using extend_run_aux [OF assms(1-3) meta_eq_to_obj_eq [OF assms(4)]]
    open_block_closed [of m "out @ [c]" c "s'\<lparr>run_count := run_count s + 1\<rparr>"]
  by (simp_all add: filled_update)

lemma compress_step_inv:
  assumes "rle_inv m out (c # rest) s" and "compress_step m c rest s = Some s'"
  shows "rle_inv m (out @ [c]) rest s'"
proof -
  obtain s1 where s1: "fresh_block m s = Some s1" using assms(2) by (auto simp: compress_step_fresh bind_eq_Some_conv)
  have o: "open_block m out c s1" and rc: "run_count s1 < 128" and oi: "out_index s1 \<noteq> 0"
    using fresh_block_open [OF assms(1) s1] by auto
  note step = assms(2) [unfolded compress_step_fresh s1, simplified]
  show ?thesis
  proof (cases "run_code s1")
    case True
    note run = extend_run [OF o True rc]
    let ?h = "put_header (of_nat (run_count s1) OR 0x80) s1"
    show ?thesis
    proof (cases rest)
      case Nil
      then have "s' = ?h\<lparr>run_count := run_count s1 + 1\<rparr>" using step True by simp
      then show ?thesis using run Nil by (simp add: rle_inv_def filled_update)
    next
      case (Cons d rest')
      show ?thesis
      proof (cases "c = d")
        case True
        then have "s' = ?h\<lparr>run_count := run_count s1 + 1\<rparr>" using step \<open>run_code s1\<close> Cons by simp
        then show ?thesis using run Cons True by (simp add: rle_inv_def)
      next
        case False
        then obtain s2 where s2: "reserve m ?h = Some s2" "s' = s2\<lparr>run_code := False, run_count := 0\<rparr>"
          using step \<open>run_code s1\<close> Cons by (auto simp: bind_eq_Some_conv)
        then show ?thesis using reserve_opens [OF run(1,2) s2(1), of d] filled_reserve(4) [OF run(1) s2(1)] Cons
          by (simp add: rle_inv_def)
      qed
    qed
  next
    case False
    show ?thesis
    proof (cases "rest \<noteq> [] \<and> c = hd rest")
      case True
      then obtain rest' where rest: "rest = c # rest'" by (cases rest) auto
      obtain s2 where s2: "(if run_count s1 \<noteq> 0 then map_option (\<lambda>s. s\<lparr>run_count := 0\<rparr>) (reserve m s1) else Some s1) = Some s2"
        and em: "emit m c (s2\<lparr>run_code := True\<rparr>) = Some s'"
        using step False True by (auto simp: bind_eq_Some_conv)
      have "open_block m out c s2 \<and> run_count s2 = 0"
      proof (cases "run_count s1 = 0")
        case nz: False
        obtain s3 where s3: "reserve m s1 = Some s3" "s2 = s3\<lparr>run_count := 0\<rparr>" using s2 nz by auto
        have i: "filled_ok m s1" "decodes (filled s1) out" using open_block_closed [OF o] nz by auto
        have "s2 = s3\<lparr>run_code := False, run_count := 0\<rparr>"
          using s3 False filled_reserve(5) [OF i(1) s3(1)] by simp
        then show ?thesis using reserve_opens [OF i s3(1), of c] by simp
      qed (use s2 o in simp)
      then have "open_block m (out @ [c]) c s' \<and> out_index s' \<noteq> 0" using emit_run [OF _ _ em] by blast
      then show ?thesis using rest by (simp add: rle_inv_def)
    next
      case neq: False
      then have "emit m c s1 = Some s'" using step False by (cases rest) auto
      from emit_literal [OF o False rc this] show ?thesis by (simp add: rle_inv_def split: list.split)
    qed
  qed
qed

lemma compress_loop_inv:
  "rle_inv m out in_p s \<Longrightarrow> compress_loop m in_p s = Some s' \<Longrightarrow> rle_inv m (out @ in_p) [] s'"
proof (induction in_p arbitrary: out s)
  case (Cons c in_p)
  then show ?case using compress_step_inv [of m out c in_p s] by (auto simp: bind_eq_Some_conv) (metis append_Cons append_Nil append_assoc)
qed simp

section \<open>Enough room\<close>

text \<open>A block never takes more than two octets for each octet of input.\<close>

definition thrifty :: "nat \<Rightarrow> rle_state \<Rightarrow> bool" where
  "thrifty n s \<longleftrightarrow> out_index s \<le> 2 * n + (if \<not> run_code s \<and> run_count s = 0 \<and> out_index s \<noteq> 0 then 1 else 0)"

lemma reserve_room: "out_index s < m \<Longrightarrow> reserve m s = Some (s\<lparr>out_base := out_index s, out_index := out_index s + 1\<rparr>)"
  by (simp add: reserve_def)

lemma emit_room: "out_index s < m \<Longrightarrow> \<exists>s'. emit m c s = Some s' \<and> out_index s' = Suc (out_index s) \<and>
    run_count s' = Suc (run_count s) \<and> run_code s' = run_code s"
  by (simp add: emit_def put_header_def Let_def)

lemma compress_step_room:
  assumes "thrifty n s" and "2 * Suc n \<le> m" and "out_index s = 0 \<longrightarrow> \<not> run_code s"
  shows "\<exists>s'. compress_step m c rest s = Some s' \<and> thrifty (Suc n) s' \<and> out_index s' \<noteq> 0"
proof -
  obtain s1 where s1: "fresh_block m s = Some s1" "thrifty n s1" "out_index s1 \<noteq> 0"
  proof (cases "(if out_index s \<noteq> 0 then run_count s else 128) = 128")
    case True
    then have "out_index s \<le> 2 * n" using assms(1) by (auto simp: thrifty_def split: if_splits)
    then show ?thesis using that True assms(2) by (simp add: fresh_block_def reserve_room thrifty_def)
  qed (use that assms(1) in \<open>simp add: fresh_block_def split: if_splits\<close>)
  have lt: "out_index s1 < m" using s1(2) assms(2) by (auto simp: thrifty_def split: if_splits)
  consider (extend) "run_code s1" "rest \<noteq> [] \<longrightarrow> c = hd rest" | (close) "run_code s1" "rest \<noteq> []" "c \<noteq> hd rest"
    | (run) "\<not> run_code s1" "rest \<noteq> []" "c = hd rest" | (literal) "\<not> run_code s1" "rest \<noteq> [] \<longrightarrow> c \<noteq> hd rest" by blast
  then show ?thesis
  proof cases
    case extend
    then show ?thesis using s1 by (simp add: compress_step_fresh thrifty_def put_header_def)
  next
    case close
    then show ?thesis using s1 lt by (simp add: compress_step_fresh thrifty_def put_header_def reserve_room)
  next
    case run
    show ?thesis
    proof (cases "run_count s1 = 0")
      case True
      then obtain s2 where "emit m c (s1\<lparr>run_code := True\<rparr>) = Some s2" "out_index s2 = Suc (out_index s1)"
        "run_code s2" using emit_room [of "s1\<lparr>run_code := True\<rparr>" m c] lt by auto
      then show ?thesis using s1 run True by (simp add: compress_step_fresh thrifty_def)
    next
      case False
      then have le: "out_index s1 \<le> 2 * n" using s1(2) by (simp add: thrifty_def)
      let ?s = "s1\<lparr>out_base := out_index s1, out_index := Suc (out_index s1), run_count := 0, run_code := True\<rparr>"
      have "out_index ?s < m" using le assms(2) by simp
      then obtain s2 where "emit m c ?s = Some s2" "out_index s2 = Suc (Suc (out_index s1))" "run_code s2"
        using emit_room [of ?s m c] by auto
      then show ?thesis using s1 run False le lt by (simp add: compress_step_fresh thrifty_def reserve_room)
    qed
  next
    case literal
    obtain s2 where "emit m c s1 = Some s2" "out_index s2 = Suc (out_index s1)" "run_count s2 = Suc (run_count s1)"
      using emit_room [OF lt] by blast
    then show ?thesis using s1 literal by (cases rest) (auto simp: compress_step_fresh thrifty_def split: if_splits)
  qed
qed

lemma compress_loop_room:
  "thrifty n s \<Longrightarrow> 2 * (n + length in_p) \<le> m \<Longrightarrow> out_index s = 0 \<longrightarrow> \<not> run_code s \<Longrightarrow> compress_loop m in_p s \<noteq> None"
proof (induction in_p arbitrary: n s)
  case (Cons c in_p)
  obtain s' where "compress_step m c in_p s = Some s'" "thrifty (Suc n) s'" "out_index s' \<noteq> 0"
    using compress_step_room [OF Cons.prems(1) _ Cons.prems(3), of m c in_p] Cons.prems(2) by auto
  then show ?case using Cons.IH [of "Suc n" s'] Cons.prems(2) by simp
qed simp

text \<open>
  (C28) Round trip: into a buffer of twice the length of the input the compressor always
  succeeds; and whatever it gives for any input and any buffer fits into the buffer and
  decompresses, into a buffer large enough, to the input.
\<close>
theorem rle_roundtrip:
  "(2 * length in_p \<le> length buffer \<longrightarrow> compress in_p buffer \<noteq> None) \<and>
   (\<forall>out. compress in_p buffer = Some out \<longrightarrow>
      length out \<le> length buffer \<and> decompress out (length in_p + extra) = Some in_p)"
proof (intro conjI allI impI)
  let ?s = "\<lparr>out_p = buffer, out_index = 0, out_base = 0, run_count = 0, run_code = False\<rparr>"
  show "compress in_p buffer \<noteq> None" if "2 * length in_p \<le> length buffer"
    using compress_loop_room [of 0 ?s in_p "length buffer"] that by (simp add: compress_def thrifty_def)
  fix out assume c: "compress in_p buffer = Some out"
  obtain s where s: "compress_loop (length buffer) in_p ?s = Some s" "out = filled s"
    using c by (auto simp: compress_def filled_def)
  have "rle_inv (length buffer) [] in_p ?s"
    by (simp add: rle_inv_def filled_ok_def filled_def decodes.none split: list.split)
  then have "rle_inv (length buffer) in_p [] s" using compress_loop_inv [OF _ s(1)] by fastforce
  then have "filled_ok (length buffer) s" "decodes out in_p" using s(2) by (simp_all add: rle_inv_def)
  then show "length out \<le> length buffer" "decompress out (length in_p + extra) = Some in_p"
    using decodes_decompress [of out in_p "length in_p + extra"] s(2) by (auto simp: filled_ok_def filled_def)
qed

theorem rle_roundtrip_witness:
  "decompress [0x82, 7, 0, 9] 4 = Some [7, 7, 7, 9]"
proof -
  have "compress [7, 7, 7, 9] (replicate 8 0) = Some [0x82, 7, 0, 9]" by code_simp
  then show ?thesis using rle_roundtrip [of "[7, 7, 7, 9]" "replicate 8 0" 0] by simp
qed

text \<open>
  The CORBA compressor gives the compressor a buffer of 1.1 times the length plus 32
  octets, and a repeated pattern of two equal octets and a different one needs four thirds of
  its length: from 138 octets on such an input is rejected, though it is a valid one.
\<close>
theorem tao_target_too_small:
  "tao_compress (concat (replicate 46 [1, 1, 2])) = None"
  by code_simp

end
