(* ===== verification/Base64_Codec.thy ===== *)
theory Base64_Codec
  imports Prelude "HOL-Library.Monad_Syntax"
begin

text \<open>
  The Base64 codec ACE_Base64 (ACE/ace/Codecs.cpp). Text is the list of its octets; an input of
  \<open>decode\<close> is the memory from its first octet on, with a terminating zero. \<open>bits\<close>, a C++ int, holds at most
  24 bits and is a natural number here. \<open>None\<close> is the null pointer returned for an error.
\<close>

unbundle bit_operations_syntax

section \<open>Tables\<close>

definition alphabet :: "u8 list" where
  "alphabet = map of_char ''ABCDEFGHIJKLMNOPQRSTUVWXYZabcdefghijklmnopqrstuvwxyz0123456789+/'' @ [0]"

definition pad :: u8 where
  "pad = of_char (CHR ''='')"

definition max_columns :: nat where
  "max_columns = 72"

text \<open>\<open>init\<close> fills the tables for every octet of the array, its terminating zero included.\<close>

definition decoder_table :: "u8 list" where
  "decoder_table = fold (\<lambda>i d. d[unat (alphabet ! i) := of_nat i]) [0..<65] (replicate 256 0)"

definition member_table :: "u8 list" where
  "member_table = fold (\<lambda>i d. d[unat (alphabet ! i) := 1]) [0..<65] (replicate 256 0)"

definition decoder :: "u8 \<Rightarrow> nat" where
  "decoder c = unat (decoder_table ! unat c)"

definition is_member :: "u8 \<Rightarrow> bool" where
  "is_member c \<longleftrightarrow> member_table ! unat c = 1"

text \<open>\<open>isspace\<close> of the C locale.\<close>

definition is_space :: "u8 \<Rightarrow> bool" where
  "is_space c \<longleftrightarrow> c \<in> {32, 9, 10, 11, 12, 13}"

section \<open>Encoding\<close>

record enc_state =
  e_count :: nat
  e_bits :: nat
  e_cols :: nat
  e_result :: "u8 list"

definition put_chars :: "u8 list \<Rightarrow> enc_state \<Rightarrow> enc_state" where
  "put_chars cs s = s\<lparr>e_result := e_result s @ cs\<rparr>"

definition encode_step :: "bool \<Rightarrow> u8 \<Rightarrow> enc_state \<Rightarrow> enc_state" where
  "encode_step is_chunked x s =
     (let s = s\<lparr>e_bits := e_bits s + unat x, e_count := e_count s + 1\<rparr>
      in if e_count s = 3
         then let s = put_chars [alphabet ! (drop_bit 18 (e_bits s)), alphabet ! (drop_bit 12 (e_bits s) AND 0x3f),
                     alphabet ! (drop_bit 6 (e_bits s) AND 0x3f), alphabet ! (e_bits s AND 0x3f)] s;
                  s = s\<lparr>e_cols := e_cols s + 4\<rparr>;
                  s = (if e_cols s = max_columns
                       then (if is_chunked then put_chars [10] s else s)\<lparr>e_cols := 0\<rparr>
                       else s)
              in s\<lparr>e_bits := 0, e_count := 0\<rparr>
         else s\<lparr>e_bits := push_bit 8 (e_bits s)\<rparr>)"

definition encode_finish :: "bool \<Rightarrow> enc_state \<Rightarrow> enc_state" where
  "encode_finish is_chunked s =
     (let s = (if e_count s \<noteq> 0
               then let s = s\<lparr>e_bits := push_bit (16 - 8 * e_count s) (e_bits s)\<rparr>;
                        s = put_chars [alphabet ! (drop_bit 18 (e_bits s)), alphabet ! (drop_bit 12 (e_bits s) AND 0x3f)] s;
                        s = s\<lparr>e_cols := e_cols s + 2\<rparr>
                    in (if e_count s = 1 then put_chars [pad, pad] s
                        else put_chars [alphabet ! (drop_bit 6 (e_bits s) AND 0x3f), pad] s)\<lparr>e_cols := e_cols s + 2\<rparr>
               else s)
      in if 0 < e_cols s \<and> is_chunked then put_chars [10] s else s)"

definition encode_length :: "nat \<Rightarrow> nat" where
  "encode_length input_len =
     (let length = ((input_len + 2) div 3) * 4;
          num_lines = length div max_columns + 1
      in length + (num_lines + 1))"

definition encode :: "bool \<Rightarrow> u8 list \<Rightarrow> u8 list" where
  "encode is_chunked input =
     e_result (encode_finish is_chunked (fold (encode_step is_chunked) input
       \<lparr>e_count = 0, e_bits = 0, e_cols = 0, e_result = []\<rparr>))"

section \<open>Decoding\<close>

definition accepted :: "u8 \<Rightarrow> bool" where
  "accepted c \<longleftrightarrow> c \<noteq> 0 \<and> (is_member c \<or> c = pad \<or> is_space c)"

definition decode_length :: "u8 list \<Rightarrow> nat" where
  "decode_length input = (let len = length (takeWhile accepted input) in ((len + 3) div 4) * 3 + 1)"

text \<open>The loop gives whether it stopped at a pad, the count, the bits, and the octets decoded.\<close>

fun decode_loop :: "u8 list \<Rightarrow> nat \<Rightarrow> nat \<Rightarrow> u8 list \<Rightarrow> bool \<times> nat \<times> nat \<times> u8 list" where
  "decode_loop [] char_count bits result = (False, char_count, bits, result)"
| "decode_loop (c # input) char_count bits result =
     (if c = pad then (True, char_count, bits, result)
      else if \<not> is_member c then decode_loop input char_count bits result
      else let bits = bits + decoder c; char_count = char_count + 1
           in if char_count = 4
              then decode_loop input 0 0 (result @ [of_nat (drop_bit 16 bits), of_nat (drop_bit 8 bits AND 0xff), of_nat (bits AND 0xff)])
              else decode_loop input char_count (push_bit 6 bits) result)"

definition decode_finish :: "bool \<times> nat \<times> nat \<times> u8 list \<Rightarrow> u8 list option" where
  "decode_finish = (\<lambda>(padded, char_count, bits, result).
     if \<not> padded
     then (if char_count \<noteq> 0 then None else Some result)
     else if char_count = 1 then None
     else if char_count = 2 then Some (result @ [of_nat (drop_bit 10 bits)])
     else if char_count = 3 then Some (result @ [of_nat (drop_bit 16 bits), of_nat (drop_bit 8 bits AND 0xff)])
     else Some result)"

definition decode :: "u8 list \<Rightarrow> u8 list option" where
  "decode input = decode_finish (decode_loop (takeWhile accepted input) 0 0 [])"

section \<open>The alphabet\<close>

lemma fold_table_length [simp]: "length (fold (\<lambda>i d. d[k i := v i]) is d) = length d"
  by (induction "is" arbitrary: d) simp_all

lemma fold_table_other:
  "c \<notin> k ` set is \<Longrightarrow> fold (\<lambda>i d. d[k i := v i]) is d ! c = d ! c"
  by (induction "is" arbitrary: d) auto

lemma fold_table_entry:
  assumes "distinct (map k is)" and "\<forall>i \<in> set is. k i < length d" and "j \<in> set is"
  shows "fold (\<lambda>i d. d[k i := v i]) is d ! k j = v j"
  using assms
proof (induction "is" arbitrary: d)
  case (Cons i "is")
  show ?case
  proof (cases "j \<in> set is")
    case True
    then show ?thesis using Cons by simp
  next
    case False
    then have "j = i" using Cons.prems by simp
    then show ?thesis using Cons.prems by (simp add: fold_table_other)
  qed
qed simp

lemma alphabet_distinct: "distinct alphabet"
  by code_simp

lemma alphabet_length: "length alphabet = 65"
  by (simp add: alphabet_def)

lemma alphabet_other: "pad \<notin> set alphabet" "10 \<notin> set alphabet"
  by (simp_all add: alphabet_def pad_def)

lemma alphabet_keys: "distinct (map (\<lambda>i. unat (alphabet ! i)) [0..<65])"
proof -
  have "map (\<lambda>i. unat (alphabet ! i)) [0..<65] = map unat alphabet"
    using alphabet_length by (metis (no_types, lifting) map_nth map_map comp_def map_eq_conv)
  then show ?thesis
    by (simp add: distinct_map alphabet_distinct inj_on_def flip: word_unat_eq_iff)
qed

lemma octet_bound: "unat (c :: u8) < 256"
  using unsigned_less [of c] by simp

lemma decoder_alphabet: "i < 64 \<Longrightarrow> decoder (alphabet ! i) = i"
  by (simp add: decoder_def decoder_table_def fold_table_entry [OF alphabet_keys] octet_bound unat_of_nat)

lemma member_alphabet: "i < 65 \<Longrightarrow> is_member (alphabet ! i)"
  by (simp add: is_member_def member_table_def fold_table_entry [OF alphabet_keys] octet_bound)

lemma not_member: "c \<notin> set alphabet \<Longrightarrow> \<not> is_member c"
proof -
  assume "c \<notin> set alphabet"
  then have "unat c \<notin> (\<lambda>i. unat (alphabet ! i)) ` set [0..<65]"
    using alphabet_length by (auto simp: in_set_conv_nth simp flip: word_unat_eq_iff)
  then show ?thesis
    by (simp add: is_member_def member_table_def fold_table_other octet_bound)
qed

lemma alphabet_nonzero: "i < 64 \<Longrightarrow> alphabet ! i \<noteq> 0"
proof
  assume i: "i < 64" and "alphabet ! i = 0"
  moreover have "alphabet ! 64 = 0" by (simp add: alphabet_def)
  ultimately have "alphabet ! i = alphabet ! 64" by simp
  then have "i = 64"
    using alphabet_distinct i by (subst (asm) nth_eq_iff_index_eq) (simp_all add: alphabet_length)
  then show False using i by simp
qed

lemma alphabet_symbol:
  assumes "i < 64"
  shows "accepted (alphabet ! i)" "alphabet ! i \<noteq> pad" "is_member (alphabet ! i)"
proof -
  have "alphabet ! i \<in> set alphabet"
    using assms by (simp add: alphabet_length)
  then show "alphabet ! i \<noteq> pad"
    using alphabet_other by metis
  show "is_member (alphabet ! i)" "accepted (alphabet ! i)"
    using assms alphabet_nonzero [of i] member_alphabet [of i] by (simp_all add: accepted_def)
qed

section \<open>Groups of three octets\<close>

text \<open>The groups of RFC 2045: three octets are four symbols of six bits.\<close>

definition quad :: "u8 \<Rightarrow> u8 \<Rightarrow> u8 \<Rightarrow> nat list" where
  "quad x y z = [unat x div 4, (unat x mod 4) * 16 + unat y div 16, (unat y mod 16) * 4 + unat z div 64, unat z mod 64]"

fun b64 :: "bool \<Rightarrow> nat \<Rightarrow> u8 list \<Rightarrow> u8 list" where
  "b64 ch cols [] = (if 0 < cols \<and> ch then [10] else [])"
| "b64 ch cols [x] = map ((!) alphabet) (take 2 (quad x 0 0)) @ [pad, pad] @ (if ch then [10] else [])"
| "b64 ch cols [x, y] = map ((!) alphabet) (take 3 (quad x y 0)) @ [pad] @ (if ch then [10] else [])"
| "b64 ch cols (x # y # z # input) = map ((!) alphabet) (quad x y z) @
     (if cols + 4 = max_columns then (if ch then [10] else []) @ b64 ch 0 input else b64 ch (cols + 4) input)"

lemma and_masks:
  "n AND 0x3f = n mod 64" "n AND 0xff = n mod 256" for n :: nat
  using take_bit_eq_mask [of 6 n] take_bit_eq_mask [of 8 n] by (simp_all add: take_bit_eq_mod mask_eq_exp_minus_1)

lemma split_group:
  fixes x y z :: nat
  assumes "x < 256" "y < 256" "z < 256"
  obtains a b c d e f where "x = 4 * a + b" "b < 4" "y = 16 * c + d" "d < 16" "c < 16" "z = 64 * e + f" "f < 64" "e < 4"
proof (rule that [of "x div 4" "x mod 4" "y div 16" "y mod 16" "z div 64" "z mod 64"])
qed (use assms in simp_all)

lemma bits_of_group:
  fixes x y z :: nat
  assumes "x < 256" "y < 256" "z < 256"
  shows "((x * 256 + y) * 256 + z) div 262144 = x div 4"
    "((x * 256 + y) * 256 + z) div 4096 mod 64 = (x mod 4) * 16 + y div 16"
    "((x * 256 + y) * 256 + z) div 64 mod 64 = (y mod 16) * 4 + z div 64"
    "((x * 256 + y) * 256 + z) mod 64 = z mod 64"
proof -
  obtain a b c d e f where x: "x = 4 * a + b" "b < 4" and y: "y = 16 * c + d" "d < 16" "c < 16"
    and z: "z = 64 * e + f" "f < 64" "e < 4"
    using split_group [OF assms] .
  have n: "(x * 256 + y) * 256 + z = 64 * (64 * (64 * a + (16 * b + c)) + (4 * d + e)) + f"
    unfolding x(1) y(1) z(1) by (simp add: algebra_simps)
  have 1: "((x * 256 + y) * 256 + z) div 64 = 64 * (64 * a + (16 * b + c)) + (4 * d + e)"
    unfolding n using z by simp
  have "((x * 256 + y) * 256 + z) div 4096 = ((x * 256 + y) * 256 + z) div 64 div 64"
    by (simp flip: div_mult2_eq)
  also have "\<dots> = 64 * a + (16 * b + c)"
    unfolding 1 using y z by simp
  finally have 2: "((x * 256 + y) * 256 + z) div 4096 = 64 * a + (16 * b + c)" .
  have "((x * 256 + y) * 256 + z) div 262144 = ((x * 256 + y) * 256 + z) div 4096 div 64"
    by (simp flip: div_mult2_eq)
  also have "\<dots> = a"
    unfolding 2 using x y by simp
  finally show "((x * 256 + y) * 256 + z) div 262144 = x div 4"
    using x by simp
  show "((x * 256 + y) * 256 + z) div 4096 mod 64 = (x mod 4) * 16 + y div 16"
    unfolding 2 using x y by (simp add: mult.commute)
  show "((x * 256 + y) * 256 + z) div 64 mod 64 = (y mod 16) * 4 + z div 64"
    unfolding 1 mod_mult_self4 using y z by (simp add: mult.commute)
  show "((x * 256 + y) * 256 + z) mod 64 = z mod 64"
    unfolding n mod_mult_self4 using z by simp
qed

lemma group_of_bits:
  fixes x y z :: nat
  assumes "x < 256" "y < 256" "z < 256"
  shows "(((x div 4) * 64 + ((x mod 4) * 16 + y div 16)) * 64 + ((y mod 16) * 4 + z div 64)) * 64 + z mod 64 =
    (x * 256 + y) * 256 + z"
proof -
  obtain a b c d e f where "x = 4 * a + b" "b < 4" and "y = 16 * c + d" "d < 16" "c < 16"
    and "z = 64 * e + f" "f < 64" "e < 4"
    using split_group [OF assms] .
  then show ?thesis by simp
qed

lemma octets_of_bits:
  fixes x y z :: nat
  assumes "x < 256" "y < 256" "z < 256"
  shows "((x * 256 + y) * 256 + z) div 65536 = x" "((x * 256 + y) * 256 + z) div 256 mod 256 = y"
    "((x * 256 + y) * 256 + z) mod 256 = z"
proof -
  have "((x * 256 + y) * 256 + z) div 256 = x * 256 + y"
    using assms by simp
  moreover have "((x * 256 + y) * 256 + z) div 65536 = ((x * 256 + y) * 256 + z) div 256 div 256"
    by (simp flip: div_mult2_eq)
  ultimately show "((x * 256 + y) * 256 + z) div 65536 = x" "((x * 256 + y) * 256 + z) div 256 mod 256 = y"
    using assms by simp_all
  show "((x * 256 + y) * 256 + z) mod 256 = z"
    unfolding mod_mult_self3 using assms by simp
qed

section \<open>The encoder emits the groups\<close>

lemma nat_octet: "unat (x :: u8) < 256"
  by (rule octet_bound)

lemmas group_bits = bits_of_group [OF nat_octet nat_octet nat_octet]

text \<open>What the encoder holds between two groups.\<close>

definition between :: "nat \<Rightarrow> u8 list \<Rightarrow> enc_state" where
  "between cols res = \<lparr>e_count = 0, e_bits = 0, e_cols = cols, e_result = res\<rparr>"

lemmas enc_defs = between_def encode_step_def encode_finish_def put_chars_def and_masks drop_bit_eq_div push_bit_eq_mult
  quad_def Let_def

lemma encode_group:
  "fold (encode_step ch) [x, y, z] (between cols res) =
    between (if cols + 4 = max_columns then 0 else cols + 4)
      (res @ map ((!) alphabet) (quad x y z) @ (if cols + 4 = max_columns \<and> ch then [10] else []))"
  using group_bits [of x y z] by (simp add: enc_defs)

lemma encode_tail_1:
  "e_result (encode_finish ch (encode_step ch x (between cols res))) = res @ b64 ch cols [x]"
  using group_bits [of x 0 0] by (simp add: enc_defs)

lemma encode_tail_2:
  "e_result (encode_finish ch (encode_step ch y (encode_step ch x (between cols res)))) = res @ b64 ch cols [x, y]"
  using group_bits [of x y 0] by (simp add: enc_defs)

lemma encode_emits:
  "e_result (encode_finish ch (fold (encode_step ch) input (between cols res))) = res @ b64 ch cols input"
proof (induction ch cols input arbitrary: res rule: b64.induct)
  case (1 ch cols)
  show ?case by (simp add: enc_defs)
next
  case (2 ch cols x)
  show ?case using encode_tail_1 by simp
next
  case (3 ch cols x y)
  show ?case using encode_tail_2 by simp
next
  case (4 ch cols x y z input)
  have "fold (encode_step ch) (x # y # z # input) (between cols res) =
    fold (encode_step ch) input (fold (encode_step ch) [x, y, z] (between cols res))"
    by simp
  then show ?case
    unfolding encode_group using 4 by (simp del: fold_simps)
qed

text \<open>\<open>encode\<close> is the Base64 encoding of RFC 2045: each three octets give four symbols of the alphabet, one or
  two octets at the end are padded, and with \<open>is_chunked\<close> every 72 columns and a last shorter line end in a newline.\<close>

theorem encode_is_base64: "encode ch input = b64 ch 0 input"
  using encode_emits [of ch input 0 "[]"] by (simp add: encode_def between_def)

section \<open>The decoder reads the groups back\<close>

lemma quad_bound: "\<forall>i \<in> set (quad x y z). i < 64"
  using octet_bound [of x] octet_bound [of y] octet_bound [of z]
  by (auto simp: quad_def less_mult_imp_div_less) 

declare decode_loop.simps(2) [simp del]

lemma decode_symbol:
  assumes "i < 64"
  shows "decode_loop (alphabet ! i # input) n bits r =
    (if n + 1 = 4
     then decode_loop input 0 0 (r @ [of_nat ((bits + i) div 65536), of_nat ((bits + i) div 256 mod 256), of_nat ((bits + i) mod 256)])
     else decode_loop input (n + 1) ((bits + i) * 64) r)"
  using alphabet_symbol [OF assms] decoder_alphabet [OF assms]
  by (simp add: decode_loop.simps and_masks drop_bit_eq_div push_bit_eq_mult Let_def)

lemma decode_newline: "decode_loop (10 # input) n bits r = decode_loop input n bits r"
proof -
  have "(10 :: u8) \<noteq> pad"
    by (simp add: pad_def)
  then show ?thesis
    using not_member [OF alphabet_other(2)] by (simp add: decode_loop.simps)
qed

lemma decode_pad: "decode_loop (pad # input) n bits r = (True, n, bits, r)"
  by (simp add: decode_loop.simps)

lemmas octets = octets_of_bits [OF nat_octet nat_octet nat_octet]

lemma decode_symbols:
  assumes "i < 64" "j < 64" "k < 64" "l < 64" "((i * 64 + j) * 64 + k) * 64 + l = n"
  shows "decode_loop (alphabet ! i # alphabet ! j # alphabet ! k # alphabet ! l # input) 0 0 r =
      decode_loop input 0 0 (r @ [of_nat (n div 65536), of_nat (n div 256 mod 256), of_nat (n mod 256)])"
    "decode_loop (alphabet ! i # alphabet ! j # alphabet ! k # pad # input) 0 0 r =
      (True, 3, ((i * 64 + j) * 64 + k) * 64, r)"
  unfolding assms(5) [symmetric] using assms(1-4) by (simp_all add: decode_symbol decode_pad)

lemma decode_group:
  "decode_loop (map ((!) alphabet) (quad x y z) @ input) 0 0 r = decode_loop input 0 0 (r @ [x, y, z])"
proof -
  have "decode_loop (map ((!) alphabet) (quad x y z) @ input) 0 0 r = decode_loop input 0 0
    (r @ [of_nat (((unat x * 256 + unat y) * 256 + unat z) div 65536),
      of_nat (((unat x * 256 + unat y) * 256 + unat z) div 256 mod 256), of_nat (((unat x * 256 + unat y) * 256 + unat z) mod 256)])"
    unfolding quad_def list.map append.simps
    by (rule decode_symbols) (use quad_bound [of x y z] group_of_bits [OF nat_octet nat_octet nat_octet] in \<open>simp_all only: quad_def list.set_intros ball_simps list.simps\<close>)
  then show ?thesis
    unfolding octets by simp
qed

lemma decode_tail_1:
  "decode_finish (decode_loop (map ((!) alphabet) (take 2 (quad x 0 0)) @ pad # input) 0 0 r) = Some (r @ [x])"
proof -
  have "\<forall>i \<in> set (quad x 0 0). i < 64"
    by (rule quad_bound)
  moreover have "(unat x div 4 * 64 + unat x mod 4 * 16) * 64 = (unat x div 4 * 4 + unat x mod 4) * 1024"
    by (simp only: algebra_simps)
  then have "(unat x div 4 * 64 + unat x mod 4 * 16) * 64 = unat x * 1024"
    unfolding div_mult_mod_eq .
  ultimately show ?thesis
    by (simp add: quad_def decode_symbol decode_pad decode_finish_def drop_bit_eq_div)
qed

lemma decode_tail_2:
  "decode_finish (decode_loop (map ((!) alphabet) (take 3 (quad x y 0)) @ pad # input) 0 0 r) = Some (r @ [x, y])"
proof -
  have n: "((unat x div 4 * 64 + (unat x mod 4 * 16 + unat y div 16)) * 64 + unat y mod 16 * 4) * 64 =
      (unat x * 256 + unat y) * 256 + unat (0 :: u8)"
    using group_of_bits [OF nat_octet nat_octet nat_octet, of x y 0] by simp
  have "decode_loop (map ((!) alphabet) (take 3 (quad x y 0)) @ pad # input) 0 0 r =
      (True, 3, (unat x * 256 + unat y) * 256 + unat (0 :: u8), r)"
    using quad_bound [of x y 0] unfolding n [symmetric] by (simp add: quad_def decode_symbols(2) [OF _ _ _ _ refl, of _ _ _ 0])
  then show ?thesis
    by (simp only: decode_finish_def case_prod_conv drop_bit_eq_div and_masks power_numeral) (simp add: octets [of x y 0, simplified])
qed

lemma decode_b64: "decode_finish (decode_loop (b64 ch cols input) 0 0 r) = Some (r @ input)"
proof (induction ch cols input arbitrary: r rule: b64.induct)
  case (1 ch cols)
  show ?case by (simp add: decode_newline decode_finish_def)
next
  case (2 ch cols x)
  show ?case using decode_tail_1 by simp
next
  case (3 ch cols x y)
  show ?case using decode_tail_2 by simp
next
  case (4 ch cols x y z input)
  then show ?case
    by (cases ch; cases "cols + 4 = max_columns") (simp_all add: decode_group decode_newline)
qed

lemma accepted_newline: "accepted 10" "accepted pad" "\<not> accepted 0"
  by (simp_all add: accepted_def is_space_def pad_def)

lemma accepted_symbols: "c \<in> set (map ((!) alphabet) (take n (quad x y z))) \<Longrightarrow> accepted c"
  using quad_bound [of x y z] alphabet_symbol(1) by (auto dest: in_set_takeD)

lemma accepted_b64: "c \<in> set (b64 ch cols input) \<Longrightarrow> accepted c"
proof (induction ch cols input rule: b64.induct)
  case (4 ch cols x y z input)
  then show ?case
    using accepted_symbols [of c 4 x y z] accepted_newline by (auto simp: quad_def split: if_splits)
qed (use accepted_symbols [of c] accepted_newline in \<open>auto simp del: set_map split: if_splits\<close>)

text \<open>(C29) Decoding what \<open>encode\<close> returned gives the octets it was given, whatever their number, chunked or not,
  and whatever the memory holds after the terminating zero.\<close>

theorem base64_roundtrip: "decode (encode ch input @ 0 # rest) = Some input"
proof -
  have "takeWhile accepted (b64 ch 0 input @ 0 # rest) = b64 ch 0 input"
    using accepted_b64 accepted_newline by (simp add: takeWhile_append2)
  then show ?thesis
    using encode_emits [of ch input 0 "[]"] decode_b64 [of ch 0 input "[]"]
    by (simp add: decode_def encode_def between_def)
qed

section \<open>Bounds of the buffers\<close>

lemma b64_length:
  "cols mod 4 = 0 \<Longrightarrow> cols < max_columns \<Longrightarrow>
   length (b64 ch cols input) \<le> 4 * ((length input + 2) div 3) + (cols + 4 * ((length input + 2) div 3)) div max_columns + 1"
proof (induction ch cols input rule: b64.induct)
  case (4 ch cols x y z input)
  have [simp]: "length (quad x y z) = 4"
    by (simp add: quad_def)
  define q where "q = (length input + 2) div 3"
  have q: "(length (x # y # z # input) + 2) div 3 = q + 1"
    by (simp add: q_def)
  have q' [simp]: "Suc (Suc (length input)) div 3 = q"
    by (simp add: q_def)
  show ?case
  proof (cases "cols + 4 = max_columns")
    case True
    then have "(cols + 4 * (q + 1)) div max_columns = 4 * q div max_columns + 1"
      by (simp add: max_columns_def)
    then show ?thesis
      using 4(1) True unfolding q by (cases ch) (simp_all add: max_columns_def flip: q_def)
  next
    case False
    then have "cols + 4 < max_columns" "(cols + 4) mod 4 = 0"
      using 4(3,4) False by (simp_all add: max_columns_def) presburger+
    then show ?thesis
      using 4(2) False unfolding q by (simp add: ac_simps flip: q_def)
  qed
qed (simp_all add: quad_def)

lemma decode_loop_length:
  "decode_loop input n bits r = (padded, n', bits', r') \<Longrightarrow> n < 4 \<Longrightarrow>
   n' < 4 \<and> 4 * length r' + 3 * n' + (if padded then 3 else 0) \<le> 4 * length r + 3 * (length input + n)"
proof (induction input n bits r rule: decode_loop.induct)
  case (2 c input n bits r)
  then show ?case
    by (cases padded; force simp: decode_loop.simps Let_def split: if_splits)
qed simp

lemma decode_finish_length:
  assumes "decode_finish (padded, n, bits, r) = Some r'" "n < 4"
  shows "length r' \<le> length r + (n - 1)"
  using assms by (auto simp: decode_finish_def split: if_splits)

text \<open>Neither routine writes past the array it allocates: the octets \<open>encode\<close> emits leave room for the zero
  in the length it computes, and what \<open>decode\<close> returns for any text leaves room in the length \<open>length\<close> computes.\<close>

theorem base64_within_buffers:
  "length (encode ch input) < encode_length (length input) \<and> (case decode text of None \<Rightarrow> True | Some r \<Rightarrow> length r < decode_length text)"
proof
  have "encode ch input = b64 ch 0 input"
    using encode_emits [of ch input 0 "[]"] by (simp add: encode_def between_def)
  then show "length (encode ch input) < encode_length (length input)"
    using b64_length [of 0 ch input] by (simp add: encode_length_def max_columns_def Let_def mult.commute)
  obtain padded n bits r where l: "decode_loop (takeWhile accepted text) 0 0 [] = (padded, n, bits, r)"
    by (metis prod_cases4)
  show "case decode text of None \<Rightarrow> True | Some r \<Rightarrow> length r < decode_length text"
  proof (cases "decode text")
    case (Some r')
    then have "length r' \<le> length r + (n - 1)"
      using decode_finish_length l decode_loop_length [OF l] by (simp add: decode_def)
    moreover have "n = 0 \<or> padded"
      using Some l by (auto simp: decode_def decode_finish_def split: if_splits)
    ultimately show ?thesis
      using decode_loop_length [OF l] Some by (auto simp: decode_length_def Let_def)
  qed simp
qed

end
