(* ===== verification/Token.thy ===== *)
theory Token
  imports Prelude
begin

text \<open>
  The recursive readers/writer token ACE_Token (ACE/ace/Token.cpp, Token.inl). Every operation holds the mutex
  \<open>lock_\<close> except while it sleeps in the wait of its queue entry, so the state changes between two sleeps are one
  step. A queue is the list of its entries from \<open>head_\<close> to \<open>tail_\<close>. An entry lies on the stack of the sleeping
  thread, \<open>te_frame\<close>. \<open>sem\<close> tells if the entries sleep on a semaphore (ACE_TOKEN_USES_SEMAPHORE) or on a condition
  variable: a condition variable loses a signal when nobody waits, a semaphore counts it.
\<close>

section \<open>State\<close>

type_synonym tid = nat

datatype op_type = READ_TOKEN | WRITE_TOKEN

record entry =
  te_frame :: tid
  te_thread :: "tid option"
  te_runable :: bool
  te_waiting :: bool
  te_posts :: nat

text \<open>\<open>in_use\<close> is \<open>None\<close> for the value 0, \<open>owner\<close> is \<open>None\<close> for the null thread.\<close>

record token =
  writers :: "entry list"
  readers :: "entry list"
  owner :: "tid option"
  in_use :: "op_type option"
  waiters :: int
  nesting_level :: int
  strategy :: int

text \<open>A call that sleeps: what it does when it wakes depends on its locals.\<close>

datatype call = Acquiring op_type int | Renewing op_type int

text \<open>What a call does: return a value, sleep, or fail an assertion.\<close>

datatype outcome = Returns int | Sleeps | Aborts

datatype wait_result = W_OK | W_EINTR | W_ETIME | W_ERROR

definition new_entry :: "tid \<Rightarrow> tid option \<Rightarrow> entry" where
  "new_entry frame t_id = \<lparr>te_frame = frame, te_thread = t_id, te_runable = False, te_waiting = False, te_posts = 0\<rparr>"

definition new_token :: token where
  "new_token = \<lparr>writers = [], readers = [], owner = None, in_use = None, waiters = 0, nesting_level = 0, strategy = -1\<rparr>"

definition set_strategy :: "int \<Rightarrow> token \<Rightarrow> token" where
  "set_strategy n tk = tk\<lparr>strategy := if n = -1 then -1 else 0\<rparr>"

section \<open>Queues\<close>

fun remove_entry :: "tid \<Rightarrow> entry list \<Rightarrow> entry list" where
  "remove_entry frame [] = []"
| "remove_entry frame (e # q) = (if te_frame e = frame then q else e # remove_entry frame q)"

text \<open>The loop that looks for the entry to insert behind.\<close>

fun insert_middle :: "int \<Rightarrow> entry \<Rightarrow> entry list \<Rightarrow> entry list" where
  "insert_middle pos entry [] = [entry]"
| "insert_middle pos entry (e # q) = (if pos = 0 \<or> q = [] then e # entry # q else e # insert_middle (pos - 1) entry q)"

definition insert_entry :: "entry \<Rightarrow> int \<Rightarrow> entry list \<Rightarrow> entry list" where
  "insert_entry entry requeue_position q =
     (if q = [] then [entry]
      else if requeue_position = -1 then q @ [entry]
      else if requeue_position = 0 then entry # q
      else insert_middle requeue_position entry q)"

definition queue_of :: "op_type \<Rightarrow> token \<Rightarrow> entry list" where
  "queue_of op tk = (case op of READ_TOKEN \<Rightarrow> readers tk | WRITE_TOKEN \<Rightarrow> writers tk)"

definition set_queue :: "op_type \<Rightarrow> entry list \<Rightarrow> token \<Rightarrow> token" where
  "set_queue op q tk = (case op of READ_TOKEN \<Rightarrow> tk\<lparr>readers := q\<rparr> | WRITE_TOKEN \<Rightarrow> tk\<lparr>writers := q\<rparr>)"

section \<open>Sleeping and waking\<close>

definition signal :: "bool \<Rightarrow> entry \<Rightarrow> entry" where
  "signal sem e = (if sem \<or> te_waiting e then e\<lparr>te_posts := te_posts e + 1\<rparr> else e)"

text \<open>\<open>wait\<close>: a signal that was counted is taken by a return of 0.\<close>

definition begin_wait :: "tid \<Rightarrow> entry list \<Rightarrow> entry list" where
  "begin_wait frame = map (\<lambda>e. if te_frame e = frame then e\<lparr>te_waiting := True\<rparr> else e)"

definition end_wait :: "tid \<Rightarrow> wait_result \<Rightarrow> entry list \<Rightarrow> entry list" where
  "end_wait frame r = map (\<lambda>e. if te_frame e = frame
     then e\<lparr>te_waiting := False, te_posts := if r = W_OK then te_posts e - 1 else te_posts e\<rparr> else e)"

text \<open>The queue the next owner is taken from: writers have priority.\<close>

definition next_op :: "token \<Rightarrow> op_type" where
  "next_op tk = (if writers tk \<noteq> [] then WRITE_TOKEN else READ_TOKEN)"

definition wakeup_next_waiter :: "bool \<Rightarrow> token \<Rightarrow> token" where
  "wakeup_next_waiter sem tk =
     (let tk = tk\<lparr>owner := None, in_use := None\<rparr>
      in if writers tk = [] \<and> readers tk = [] then tk
         else let op = next_op tk;
                  tk = tk\<lparr>in_use := Some op\<rparr>;
                  e = signal sem ((hd (queue_of op tk))\<lparr>te_runable := True\<rparr>);
                  tk = set_queue op (e # tl (queue_of op tk)) tk
              in tk\<lparr>owner := te_thread e\<rparr>)"

section \<open>Operations\<close>

text \<open>\<open>poll\<close>: the timeout is the zero time. The result 1 counts the sleep hook.\<close>

definition shared_acquire :: "tid \<Rightarrow> bool \<Rightarrow> op_type \<Rightarrow> token \<Rightarrow> token \<times> outcome \<times> call option" where
  "shared_acquire thr_id poll op tk =
     (if in_use tk = None then (tk\<lparr>in_use := Some op, owner := Some thr_id\<rparr>, Returns 0, None)
      else if Some thr_id = owner tk then (tk\<lparr>nesting_level := nesting_level tk + 1\<rparr>, Returns 0, None)
      else if poll then (tk, Returns (-1), None)
      else let tk = set_queue op (insert_entry (new_entry thr_id (Some thr_id)) (strategy tk) (queue_of op tk)) tk;
               tk = tk\<lparr>waiters := waiters tk + 1\<rparr>
           in (set_queue op (begin_wait thr_id (queue_of op tk)) tk, Sleeps, Some (Acquiring op 1)))"

definition renew :: "bool \<Rightarrow> tid \<Rightarrow> int \<Rightarrow> token \<Rightarrow> token \<times> outcome \<times> call option" where
  "renew sem thr_id requeue_position tk =
     (if writers tk = [] \<and> (in_use tk = Some WRITE_TOKEN \<or> readers tk = []) then (tk, Returns 0, None)
      else let op = (if in_use tk = Some READ_TOKEN then READ_TOKEN else WRITE_TOKEN);
               tk = set_queue op (insert_entry (new_entry thr_id (owner tk))
                      (if requeue_position = 0 then 0 else strategy tk) (queue_of op tk)) tk;
               tk = tk\<lparr>waiters := waiters tk + 1\<rparr>;
               save_nesting_level = nesting_level tk;
               tk = wakeup_next_waiter sem (tk\<lparr>nesting_level := 0\<rparr>)
           in (set_queue op (begin_wait thr_id (queue_of op tk)) tk, Sleeps, Some (Renewing op save_nesting_level)))"

definition release :: "bool \<Rightarrow> token \<Rightarrow> token" where
  "release sem tk =
     (if 0 < nesting_level tk then tk\<lparr>nesting_level := nesting_level tk - 1\<rparr> else wakeup_next_waiter sem tk)"

definition my_entry :: "tid \<Rightarrow> entry list \<Rightarrow> entry" where
  "my_entry frame q = hd (filter (\<lambda>e. te_frame e = frame) q)"

text \<open>\<open>wait\<close> returned \<open>r\<close>: the loop of \<open>shared_acquire\<close> and \<open>renew\<close>, and what follows it.\<close>

definition queue_of_call :: "call \<Rightarrow> op_type" where
  "queue_of_call c = (case c of Acquiring op ret \<Rightarrow> op | Renewing op nesting \<Rightarrow> op)"

definition resume :: "bool \<Rightarrow> tid \<Rightarrow> call \<Rightarrow> wait_result \<Rightarrow> token \<Rightarrow> token \<times> outcome" where
  "resume sem thr_id c r tk =
     (let op = queue_of_call c;
          tk = set_queue op (end_wait thr_id r (queue_of op tk)) tk;
          e = my_entry thr_id (queue_of op tk)
      in if r \<in> {W_OK, W_EINTR} \<and> te_thread e \<noteq> owner tk
         then (set_queue op (begin_wait thr_id (queue_of op tk)) tk, Sleeps)
         else let tk = tk\<lparr>waiters := waiters tk - 1\<rparr>;
                  tk = set_queue op (remove_entry thr_id (queue_of op tk)) tk
              in if r = W_ETIME then (if te_runable e then wakeup_next_waiter sem tk else tk, Returns (-1))
                 else if r = W_ERROR then (tk, Returns (-1))
                 else if \<not> te_runable e then (tk, Aborts)
                 else case c of Acquiring op ret \<Rightarrow> (tk, Returns ret)
                      | Renewing op save_nesting_level \<Rightarrow> (tk\<lparr>nesting_level := save_nesting_level\<rparr>, Returns 0))"

section \<open>Threads\<close>

text \<open>
  The threads of a program: which of them sleep in a call, and how many acquires each has to release. A thread
  releases and renews only a token it acquired, as the comments of the operations ask for.
\<close>

record system =
  tok :: token
  blocked :: "tid \<Rightarrow> call option"
  holds :: "tid \<Rightarrow> nat"

datatype event = Acquire tid bool op_type | Release tid | Renew tid int | Wake tid wait_result | Strategy int

definition initial :: system where
  "initial = \<lparr>tok = new_token, blocked = (\<lambda>_. None), holds = (\<lambda>_. 0)\<rparr>"

definition sleeps_in :: "tid \<Rightarrow> call option \<Rightarrow> (tid \<Rightarrow> call option) \<Rightarrow> tid \<Rightarrow> call option" where
  "sleeps_in t c b = (if c = None then b else b(t := c))"

definition apply_event :: "bool \<Rightarrow> event \<Rightarrow> system \<Rightarrow> system \<times> outcome" where
  "apply_event sem ev s = (case ev of
     Acquire t poll op \<Rightarrow> (let (tk, oc, c) = shared_acquire t poll op (tok s) in
       (s\<lparr>tok := tk, blocked := sleeps_in t c (blocked s),
          holds := (if oc = Returns 0 then (holds s)(t := holds s t + 1) else holds s)\<rparr>, oc))
   | Release t \<Rightarrow> (s\<lparr>tok := release sem (tok s), holds := (holds s)(t := holds s t - 1)\<rparr>, Returns 0)
   | Renew t pos \<Rightarrow> (let (tk, oc, c) = renew sem t pos (tok s) in
       (s\<lparr>tok := tk, blocked := sleeps_in t c (blocked s)\<rparr>, oc))
   | Wake t r \<Rightarrow> (case blocked s t of
       None \<Rightarrow> (s, Returns 0)
     | Some c \<Rightarrow> (let (tk, oc) = resume sem t c r (tok s) in
         (case oc of
            Returns n \<Rightarrow> s\<lparr>tok := tk, blocked := (blocked s)(t := None),
              holds := (holds s)(t := if n = -1 then 0 else case c of Acquiring _ _ \<Rightarrow> 1 | Renewing _ _ \<Rightarrow> holds s t)\<rparr>
          | _ \<Rightarrow> s\<lparr>tok := tk\<rparr>, oc)))
   | Strategy n \<Rightarrow> (s\<lparr>tok := set_strategy n (tok s)\<rparr>, Returns 0))"

text \<open>
  When an event may happen. A wait returns 0 when it was signalled, and with a condition variable at any time; it
  returns an error other than \<open>EINTR\<close> and \<open>ETIME\<close> to the waiter chosen to run only when \<open>faulty\<close>.
\<close>

definition enabled :: "bool \<Rightarrow> bool \<Rightarrow> system \<Rightarrow> event \<Rightarrow> bool" where
  "enabled faulty sem s ev = (case ev of
     Acquire t poll op \<Rightarrow> blocked s t = None
   | Release t \<Rightarrow> blocked s t = None \<and> 0 < holds s t
   | Renew t pos \<Rightarrow> blocked s t = None \<and> 0 < holds s t
   | Wake t r \<Rightarrow> (case blocked s t of None \<Rightarrow> False
       | Some c \<Rightarrow> (r = W_OK \<longrightarrow> \<not> sem \<or> 0 < te_posts (my_entry t (queue_of (queue_of_call c) (tok s)))) \<and> 
         (r = W_ERROR \<longrightarrow> faulty \<or> \<not> te_runable (my_entry t (queue_of (queue_of_call c) (tok s)))))
   | Strategy n \<Rightarrow> True)"

inductive token_step :: "bool \<Rightarrow> bool \<Rightarrow> system \<Rightarrow> event \<Rightarrow> outcome \<Rightarrow> system \<Rightarrow> bool" for faulty sem where
  step: "enabled faulty sem s ev \<Longrightarrow> apply_event sem ev s = (s', oc) \<Longrightarrow> token_step faulty sem s ev oc s'"

inductive reachable :: "bool \<Rightarrow> bool \<Rightarrow> system \<Rightarrow> bool" for faulty sem where
  start: "reachable faulty sem initial"
| more: "reachable faulty sem s \<Longrightarrow> token_step faulty sem s ev oc s' \<Longrightarrow> reachable faulty sem s'"

definition has_token :: "system \<Rightarrow> tid \<Rightarrow> bool" where
  "has_token s t \<longleftrightarrow> blocked s t = None \<and> 0 < holds s t"

text \<open>Runs as lists of events, and how often the token was handed over in one.\<close>

fun run :: "bool \<Rightarrow> event list \<Rightarrow> system \<Rightarrow> system" where
  "run sem [] s = s"
| "run sem (ev # evs) s = run sem evs (fst (apply_event sem ev s))"

fun run_enabled :: "bool \<Rightarrow> bool \<Rightarrow> event list \<Rightarrow> system \<Rightarrow> bool" where
  "run_enabled faulty sem [] s \<longleftrightarrow> True"
| "run_enabled faulty sem (ev # evs) s \<longleftrightarrow> enabled faulty sem s ev \<and> run_enabled faulty sem evs (fst (apply_event sem ev s))"

definition hands_over :: "system \<Rightarrow> event \<Rightarrow> bool" where
  "hands_over s ev = (case ev of
     Release t \<Rightarrow> nesting_level (tok s) \<le> 0
   | Renew t pos \<Rightarrow> writers (tok s) \<noteq> [] \<or> in_use (tok s) \<noteq> Some WRITE_TOKEN \<and> readers (tok s) \<noteq> []
   | Wake t r \<Rightarrow> r = W_ETIME \<and> owner (tok s) = Some t
   | _ \<Rightarrow> False)"

fun hand_overs :: "bool \<Rightarrow> event list \<Rightarrow> system \<Rightarrow> nat" where
  "hand_overs sem [] s = 0"
| "hand_overs sem (ev # evs) s = (if hands_over s ev then 1 else 0) + hand_overs sem evs (fst (apply_event sem ev s))"

section \<open>Queues\<close>

lemma queue_of_set_queue [simp]: "queue_of op (set_queue op' q tk) = (if op = op' then q else queue_of op tk)"
  by (cases op; cases op') (simp_all add: queue_of_def set_queue_def)

lemma set_queue_fields [simp]:
  "owner (set_queue op q tk) = owner tk" "in_use (set_queue op q tk) = in_use tk" "waiters (set_queue op q tk) = waiters tk"
  "nesting_level (set_queue op q tk) = nesting_level tk" "strategy (set_queue op q tk) = strategy tk"
  by (simp_all add: set_queue_def split: op_type.split)

lemma queue_of_fields [simp]:
  "queue_of op (tk\<lparr>owner := x\<rparr>) = queue_of op tk" "queue_of op (tk\<lparr>in_use := u\<rparr>) = queue_of op tk"
  "queue_of op (tk\<lparr>waiters := w\<rparr>) = queue_of op tk" "queue_of op (tk\<lparr>nesting_level := n\<rparr>) = queue_of op tk"
  "queue_of op (tk\<lparr>strategy := k\<rparr>) = queue_of op tk"
  by (simp_all add: queue_of_def split: op_type.split)

lemma queues_empty: "writers tk = [] \<and> readers tk = [] \<longleftrightarrow> (\<forall>op. queue_of op tk = [])"
  by (auto simp: queue_of_def split: op_type.splits)

lemma insert_middle_split: "\<exists>a b. q = a @ b \<and> insert_middle p e q = a @ e # b"
proof (induction p e q rule: insert_middle.induct)
  case (2 p e x q)
  show ?case
  proof (cases "p = 0 \<or> q = []")
    case True
    then show ?thesis by (intro exI [of _ "[x]"] exI [of _ q]) simp
  next
    case False
    then obtain a b where "q = a @ b" "insert_middle (p - 1) e q = a @ e # b" using 2 by blast
    then show ?thesis using False by (intro exI [of _ "x # a"] exI [of _ b]) simp
  qed
qed simp

lemma insert_entry_split: obtains a b where "q = a @ b" "insert_entry e p q = a @ e # b"
proof -
  have "\<exists>a b. q = a @ b \<and> insert_entry e p q = a @ e # b"
    using insert_middle_split [of q p e] by (auto simp: insert_entry_def)
  then show ?thesis using that by blast
qed

lemma remove_entry_split: "t \<notin> te_frame ` set a \<Longrightarrow> te_frame e = t \<Longrightarrow> remove_entry t (a @ e # b) = a @ b"
  by (induction a) auto

lemma my_entry_split: "t \<notin> te_frame ` set a \<Longrightarrow> te_frame e = t \<Longrightarrow> my_entry t (a @ e # b) = e"
  by (induction a) (auto simp: my_entry_def)

lemma entry_split:
  assumes "distinct (map te_frame q)" and "t \<in> te_frame ` set q"
  obtains a e b where "q = a @ e # b" "te_frame e = t" "t \<notin> te_frame ` set a" "t \<notin> te_frame ` set b"
proof -
  obtain e where "e \<in> set q" "te_frame e = t" using assms(2) by auto
  then obtain a b where "q = a @ e # b" by (meson split_list)
  then show ?thesis using that [of a e b] assms(1) \<open>te_frame e = t\<close> by auto
qed

text \<open>The queues as far as the sleeping threads decide them.\<close>

definition queue_inv :: "token \<Rightarrow> (tid \<Rightarrow> call option) \<Rightarrow> bool" where
  "queue_inv tk b \<longleftrightarrow>
     (\<forall>op. distinct (map te_frame (queue_of op tk)) \<and> (\<forall>e \<in> set (queue_of op tk). te_thread e = Some (te_frame e)) \<and>
       te_frame ` set (queue_of op tk) = {t. \<exists>c. b t = Some c \<and> queue_of_call c = op}) \<and>
     waiters tk = int (length (queue_of WRITE_TOKEN tk)) + int (length (queue_of READ_TOKEN tk))"

lemma queue_inv_cong:
  assumes "\<And>op. map te_frame (queue_of op tk') = map te_frame (queue_of op tk)"
    and "\<And>op. map te_thread (queue_of op tk') = map te_thread (queue_of op tk)" and "waiters tk' = waiters tk"
  shows "queue_inv tk' b = queue_inv tk b"
proof -
  have 1: "(\<forall>e \<in> set q. te_thread e = Some (te_frame e)) \<longleftrightarrow> map te_thread q = map Some (map te_frame q)" for q
    by (induction q) auto
  have 2: "te_frame ` set q = set (map te_frame q)" for q by simp
  have 3: "length (queue_of op tk') = length (queue_of op tk)" for op
    using assms(1) [of op] by (metis length_map)
  show ?thesis unfolding queue_inv_def by (simp only: 1 2 3 assms)
qed

lemma queue_frame:
  assumes "queue_inv tk b" and "e \<in> set (queue_of op tk)"
  obtains c where "b (te_frame e) = Some c" "queue_of_call c = op"
proof -
  have "te_frame e \<in> te_frame ` set (queue_of op tk)"
    using assms(2) by (rule imageI)
  then show ?thesis
    using assms(1) that by (auto simp: queue_inv_def)
qed

lemma queue_inv_insert:
  assumes "queue_inv tk b" and "b t = None" and "queue_of_call c = op"
  shows "queue_inv (set_queue op (insert_entry (new_entry t (Some t)) p (queue_of op tk)) tk\<lparr>waiters := waiters tk + 1\<rparr>) (b(t \<mapsto> c))"
proof -
  obtain x y where xy: "queue_of op tk = x @ y" "insert_entry (new_entry t (Some t)) p (queue_of op tk) = x @ new_entry t (Some t) # y"
    by (rule insert_entry_split)
  have q: "distinct (map te_frame (queue_of op' tk))" "te_frame ` set (queue_of op' tk) = {t. \<exists>c. b t = Some c \<and> queue_of_call c = op'}"
    "\<forall>e \<in> set (queue_of op' tk). te_thread e = Some (te_frame e)" for op'
    using assms(1) by (simp_all add: queue_inv_def)
  have t: "t \<notin> te_frame ` set (x @ y)"
    using q(2) [of op] xy(1) assms(2) by auto
  have "te_frame ` set (if op' = op then x @ new_entry t (Some t) # y else queue_of op' tk) =
      {u. \<exists>d. (b(t \<mapsto> c)) u = Some d \<and> queue_of_call d = op'}" for op'
    using q(2) [of op'] xy(1) assms(2,3) by (auto simp: new_entry_def)
  moreover have "distinct (map te_frame (if op' = op then x @ new_entry t (Some t) # y else queue_of op' tk))" for op'
    using q(1) [of op'] q(1) [of op] t xy(1) by (auto simp: new_entry_def)
  moreover have "\<forall>e \<in> set (if op' = op then x @ new_entry t (Some t) # y else queue_of op' tk). te_thread e = Some (te_frame e)" for op'
    using q(3) [of op'] q(3) [of op] xy(1) by (simp add: new_entry_def)
  moreover have "waiters tk = int (length (queue_of WRITE_TOKEN tk)) + int (length (queue_of READ_TOKEN tk))"
    using assms(1) by (simp add: queue_inv_def)
  ultimately show ?thesis
    unfolding queue_inv_def using xy by (cases op) simp_all
qed

lemma queue_inv_remove:
  assumes "queue_inv tk b" and "b t = Some c" and "queue_of_call c = op"
  shows "queue_inv (set_queue op (remove_entry t (queue_of op tk)) tk\<lparr>waiters := waiters tk - 1\<rparr>) (b(t := None))"
proof -
  have q: "distinct (map te_frame (queue_of op' tk))" "te_frame ` set (queue_of op' tk) = {t. \<exists>c. b t = Some c \<and> queue_of_call c = op'}"
    "\<forall>e \<in> set (queue_of op' tk). te_thread e = Some (te_frame e)" for op'
    using assms(1) by (simp_all add: queue_inv_def)
  have "t \<in> te_frame ` set (queue_of op tk)"
    using q(2) assms(2,3) by auto
  then obtain x e y where xy: "queue_of op tk = x @ e # y" "te_frame e = t" "t \<notin> te_frame ` set x" "t \<notin> te_frame ` set y"
    using entry_split [OF q(1)] by metis
  have r: "remove_entry t (queue_of op tk) = x @ y"
    using remove_entry_split [OF xy(3,2)] xy(1) by simp
  have "te_frame ` set (if op' = op then x @ y else queue_of op' tk) =
      {u. \<exists>d. (b(t := None)) u = Some d \<and> queue_of_call d = op'}" for op'
  proof (cases "op' = op")
    case True
    have "te_frame ` set (x @ y) = te_frame ` set (queue_of op tk) - {t}"
      using xy by (auto simp: image_iff)
    then show ?thesis using True q(2) [of op] by auto
  next
    case False
    then have "t \<notin> te_frame ` set (queue_of op' tk)" using q(2) [of op'] assms(2,3) by auto
    then show ?thesis using False q(2) [of op'] by auto
  qed
  moreover have "distinct (map te_frame (if op' = op then x @ y else queue_of op' tk))" for op'
    using q(1) [of op'] q(1) [of op] xy(1) by auto
  moreover have "\<forall>e \<in> set (if op' = op then x @ y else queue_of op' tk). te_thread e = Some (te_frame e)" for op'
    using q(3) [of op'] q(3) [of op] xy(1) by simp
  moreover have "waiters tk = int (length (queue_of WRITE_TOKEN tk)) + int (length (queue_of READ_TOKEN tk))"
    using assms(1) by (simp add: queue_inv_def)
  ultimately show ?thesis
    unfolding queue_inv_def r using xy by (cases op) simp_all
qed

section \<open>The invariant\<close>

text \<open>What a sleeping or running thread has to release, against the owner and the nesting level of the token.\<close>

definition thread_ok :: "token \<Rightarrow> call option \<Rightarrow> nat \<Rightarrow> tid \<Rightarrow> bool" where
  "thread_ok tk c n t = (case c of
     None \<Rightarrow> (if owner tk = Some t then 0 < n \<and> nesting_level tk = int n - 1 else n = 0)
   | Some (Acquiring op r) \<Rightarrow> n = 0 \<and> r = 1 \<and> (owner tk = Some t \<longrightarrow> nesting_level tk = 0)
   | Some (Renewing op m) \<Rightarrow> 0 < n \<and> m = int n - 1 \<and> (owner tk = Some t \<longrightarrow> nesting_level tk = 0))"

definition token_inv :: "token \<Rightarrow> (tid \<Rightarrow> call option) \<Rightarrow> (tid \<Rightarrow> nat) \<Rightarrow> bool" where
  "token_inv tk b h \<longleftrightarrow> queue_inv tk b \<and>
     (\<forall>op. \<forall>e \<in> set (queue_of op tk). te_runable e \<longleftrightarrow> owner tk = Some (te_frame e)) \<and>
     (in_use tk = None \<longleftrightarrow> owner tk = None) \<and>
     (owner tk = None \<longrightarrow> (\<forall>op. queue_of op tk = []) \<and> nesting_level tk = 0) \<and>
     (\<forall>t. thread_ok tk (b t) (h t) t)"

lemma token_invD:
  assumes "token_inv tk b h"
  shows "queue_inv tk b" "e \<in> set (queue_of op tk) \<Longrightarrow> te_runable e \<longleftrightarrow> owner tk = Some (te_frame e)"
    "in_use tk = None \<longleftrightarrow> owner tk = None" "owner tk = None \<Longrightarrow> queue_of op tk = []"
    "owner tk = None \<Longrightarrow> nesting_level tk = 0" "thread_ok tk (b t) (h t) t"
  using assms unfolding token_inv_def by blast+

lemma token_invI:
  assumes "queue_inv tk b" and "\<And>op e. e \<in> set (queue_of op tk) \<Longrightarrow> te_runable e \<longleftrightarrow> owner tk = Some (te_frame e)"
    and "owner tk \<noteq> None" "in_use tk \<noteq> None" "\<And>t. thread_ok tk (b t) (h t) t"
  shows "token_inv tk b h"
  using assms unfolding token_inv_def by blast

text \<open>What holds when the owner has given the token up and the next one is to be chosen.\<close>

definition idle_inv :: "token \<Rightarrow> (tid \<Rightarrow> call option) \<Rightarrow> (tid \<Rightarrow> nat) \<Rightarrow> bool" where
  "idle_inv tk b h \<longleftrightarrow> queue_inv tk b \<and> (\<forall>op. \<forall>e \<in> set (queue_of op tk). \<not> te_runable e) \<and> nesting_level tk = 0 \<and>
     (\<forall>t. thread_ok (tk\<lparr>owner := None\<rparr>) (b t) (h t) t)"

lemma signal_fields [simp]:
  "te_frame (signal sem e) = te_frame e" "te_thread (signal sem e) = te_thread e"
  "te_runable (signal sem e) = te_runable e" "te_waiting (signal sem e) = te_waiting e"
  by (simp_all add: signal_def)

lemma wakeup_fields [simp]:
  "waiters (wakeup_next_waiter sem tk) = waiters tk" "nesting_level (wakeup_next_waiter sem tk) = nesting_level tk"
  "strategy (wakeup_next_waiter sem tk) = strategy tk"
  by (simp_all add: wakeup_next_waiter_def Let_def)

lemma wakeup_empty:
  "\<forall>op. queue_of op tk = [] \<Longrightarrow> wakeup_next_waiter sem tk = tk\<lparr>owner := None, in_use := None\<rparr>"
  using queues_empty [of tk] by (simp add: wakeup_next_waiter_def Let_def)

lemma wakeup_some:
  assumes "queue_of op tk \<noteq> []"
  obtains e q where "queue_of (next_op tk) tk = e # q"
    "owner (wakeup_next_waiter sem tk) = te_thread e" "in_use (wakeup_next_waiter sem tk) = Some (next_op tk)"
    "\<And>op. queue_of op (wakeup_next_waiter sem tk) =
      (if op = next_op tk then signal sem (e\<lparr>te_runable := True\<rparr>) # q else queue_of op tk)"
proof -
  have ne: "\<not> (writers tk = [] \<and> readers tk = [])"
    using assms queues_empty [of tk] by metis
  then obtain e q where eq: "queue_of (next_op tk) tk = e # q"
    by (cases "queue_of (next_op tk) tk") (auto simp: next_op_def queue_of_def split: if_splits)
  have "next_op (tk\<lparr>owner := None, in_use := None\<rparr>) = next_op tk"
    by (simp add: next_op_def)
  then have "wakeup_next_waiter sem tk =
      set_queue (next_op tk) (signal sem (e\<lparr>te_runable := True\<rparr>) # q) (tk\<lparr>owner := None, in_use := Some (next_op tk)\<rparr>)
        \<lparr>owner := te_thread e\<rparr>"
    using ne eq by (cases "writers tk") (simp_all add: wakeup_next_waiter_def Let_def)
  then show ?thesis
    using that [OF eq] by simp
qed

lemma wakeup_shape:
  "map te_frame (queue_of op (wakeup_next_waiter sem tk)) = map te_frame (queue_of op tk)"
  "map te_thread (queue_of op (wakeup_next_waiter sem tk)) = map te_thread (queue_of op tk)"
  "map te_waiting (queue_of op (wakeup_next_waiter sem tk)) = map te_waiting (queue_of op tk)"
proof -
  have "map te_frame (queue_of op (wakeup_next_waiter sem tk)) = map te_frame (queue_of op tk) \<and>
    map te_thread (queue_of op (wakeup_next_waiter sem tk)) = map te_thread (queue_of op tk) \<and>
    map te_waiting (queue_of op (wakeup_next_waiter sem tk)) = map te_waiting (queue_of op tk)"
  proof (cases "\<forall>op. queue_of op tk = []")
    case True
    then show ?thesis by (simp add: wakeup_empty)
  next
    case False
    then obtain op' where "queue_of op' tk \<noteq> []" by blast
    then obtain e q where "queue_of (next_op tk) tk = e # q"
      "\<And>op. queue_of op (wakeup_next_waiter sem tk) = (if op = next_op tk then signal sem (e\<lparr>te_runable := True\<rparr>) # q else queue_of op tk)"
      by (rule wakeup_some) blast
    then show ?thesis by simp
  qed
  then show "map te_frame (queue_of op (wakeup_next_waiter sem tk)) = map te_frame (queue_of op tk)"
    "map te_thread (queue_of op (wakeup_next_waiter sem tk)) = map te_thread (queue_of op tk)"
    "map te_waiting (queue_of op (wakeup_next_waiter sem tk)) = map te_waiting (queue_of op tk)"
    by simp_all
qed

lemma queue_inv_wakeup [simp]: "queue_inv (wakeup_next_waiter sem tk) b = queue_inv tk b"
  by (rule queue_inv_cong) (simp_all add: wakeup_shape)

lemma thread_ok_idle:
  assumes "thread_ok (tk\<lparr>owner := None\<rparr>) c n t" and "nesting_level tk' = 0" and "owner tk' = Some t \<longrightarrow> c \<noteq> None"
  shows "thread_ok tk' c n t"
  using assms by (auto simp: thread_ok_def split: option.splits call.splits)

lemma wakeup_inv:
  assumes "idle_inv tk b h"
  shows "token_inv (wakeup_next_waiter sem tk) b h"
proof (cases "\<forall>op. queue_of op tk = []")
  case True
  have "queue_inv (wakeup_next_waiter sem tk) b"
    using assms by (simp add: idle_inv_def)
  moreover have "thread_ok (wakeup_next_waiter sem tk) (b t) (h t) t" for t
    by (rule thread_ok_idle [of tk]) (use assms True in \<open>simp_all add: idle_inv_def wakeup_empty\<close>)
  ultimately show ?thesis
    using assms True by (simp add: token_inv_def idle_inv_def wakeup_empty)
next
  case False
  then obtain op' where "queue_of op' tk \<noteq> []" by blast
  then obtain e q where e: "queue_of (next_op tk) tk = e # q"
    "owner (wakeup_next_waiter sem tk) = te_thread e" "in_use (wakeup_next_waiter sem tk) = Some (next_op tk)"
    and w: "\<And>op. queue_of op (wakeup_next_waiter sem tk) = (if op = next_op tk then signal sem (e\<lparr>te_runable := True\<rparr>) # q else queue_of op tk)"
    by (rule wakeup_some) blast
  have q: "distinct (map te_frame (queue_of op tk))" "te_frame ` set (queue_of op tk) = {t. \<exists>c. b t = Some c \<and> queue_of_call c = op}"
    "\<forall>e \<in> set (queue_of op tk). te_thread e = Some (te_frame e)" for op
    using assms by (simp_all add: idle_inv_def queue_inv_def)
  have own: "owner (wakeup_next_waiter sem tk) = Some (te_frame e)"
    using q(3) [of "next_op tk"] e by simp
  obtain c where c: "b (te_frame e) = Some c" "queue_of_call c = next_op tk"
    using q(2) [of "next_op tk"] e(1) by auto
  have "te_runable f \<longleftrightarrow> owner (wakeup_next_waiter sem tk) = Some (te_frame f)" if f: "f \<in> set (queue_of op (wakeup_next_waiter sem tk))" for op f
  proof (cases "op = next_op tk")
    case True
    have d: "te_frame e \<notin> te_frame ` set q"
      using q(1) [of "next_op tk"] e(1) by simp
    have n: "\<forall>f \<in> set q. \<not> te_runable f"
      using assms e(1) unfolding idle_inv_def by (metis list.set_intros(2))
    consider "f = signal sem (e\<lparr>te_runable := True\<rparr>)" | "f \<in> set q"
      using f w [of op] True by auto
    then show ?thesis
    proof cases
      case 2
      then have "te_frame f \<noteq> te_frame e" using d by (metis image_eqI)
      then show ?thesis using own n 2 by simp
    qed (simp add: own)
  next
    case False
    then have f': "f \<in> set (queue_of op tk)" using f w [of op] by simp
    then have "te_frame f \<noteq> te_frame e"
      using assms queue_frame [of tk b f op] c False by (metis idle_inv_def option.inject)
    then show ?thesis using own f' assms by (auto simp: idle_inv_def)
  qed
  moreover have "thread_ok (wakeup_next_waiter sem tk) (b t) (h t) t" for t
  proof (rule thread_ok_idle [of tk])
    show "thread_ok (tk\<lparr>owner := None\<rparr>) (b t) (h t) t" "nesting_level (wakeup_next_waiter sem tk) = 0"
      using assms by (simp_all add: idle_inv_def)
    show "owner (wakeup_next_waiter sem tk) = Some t \<longrightarrow> b t \<noteq> None"
      using own c by auto
  qed
  ultimately show ?thesis
    using assms own e(3) by (simp add: token_inv_def idle_inv_def)
qed

section \<open>Every event keeps the invariant\<close>

lemma begin_wait_shape [simp]:
  "map te_frame (begin_wait t q) = map te_frame q" "map te_thread (begin_wait t q) = map te_thread q"
  "map te_runable (begin_wait t q) = map te_runable q"
  by (simp_all add: begin_wait_def)

lemma end_wait_shape [simp]:
  "map te_frame (end_wait t r q) = map te_frame q" "map te_thread (end_wait t r q) = map te_thread q"
  "map te_runable (end_wait t r q) = map te_runable q"
  by (simp_all add: end_wait_def)

lemma runable_by_map:
  "(\<forall>e \<in> set q. te_runable e \<longleftrightarrow> p = Some (te_frame e)) \<longleftrightarrow> map te_runable q = map (\<lambda>t. p = Some t) (map te_frame q)"
  by (induction q) auto

lemma thread_ok_cong:
  "owner tk' = owner tk \<Longrightarrow> nesting_level tk' = nesting_level tk \<Longrightarrow> thread_ok tk' = thread_ok tk"
  by (intro ext) (simp only: thread_ok_def)

lemma token_inv_cong:
  assumes "\<And>op. map te_frame (queue_of op tk') = map te_frame (queue_of op tk)"
    and "\<And>op. map te_thread (queue_of op tk') = map te_thread (queue_of op tk)"
    and "\<And>op. map te_runable (queue_of op tk') = map te_runable (queue_of op tk)"
    and "waiters tk' = waiters tk" "owner tk' = owner tk" "in_use tk' = in_use tk" "nesting_level tk' = nesting_level tk"
  shows "token_inv tk' b h = token_inv tk b h"
proof -
  have "queue_of op tk' = [] \<longleftrightarrow> queue_of op tk = []" for op
    using assms(1) [of op] by (metis map_is_Nil_conv)
  moreover have "thread_ok tk' c n t = thread_ok tk c n t" for c n t
    by (simp only: thread_ok_def assms)
  moreover have "queue_inv tk' b = queue_inv tk b"
    by (rule queue_inv_cong) (rule assms)+
  ultimately show ?thesis
    unfolding token_inv_def runable_by_map by (simp only: assms)
qed

lemma inv_begin_wait: "token_inv (set_queue op (begin_wait t (queue_of op tk)) tk) b h = token_inv tk b h"
  by (rule token_inv_cong) auto

lemma inv_end_wait: "token_inv (set_queue op (end_wait t r (queue_of op tk)) tk) b h = token_inv tk b h"
  by (rule token_inv_cong) auto

lemma inv_strategy: "token_inv (set_strategy n tk) b h = token_inv tk b h"
  by (rule token_inv_cong) (simp_all add: set_strategy_def)

lemma thread_ok_other:
  assumes "thread_ok tk c n u" and "owner tk' = owner tk" and "owner tk = Some u \<longrightarrow> nesting_level tk' = nesting_level tk"
  shows "thread_ok tk' c n u"
  using assms by (auto simp: thread_ok_def split: option.splits call.splits)

lemma holder:
  assumes "token_inv tk b h" and "b t = None" and "0 < h t"
  shows "owner tk = Some t" "nesting_level tk = int (h t) - 1" "e \<in> set (queue_of op tk) \<Longrightarrow> \<not> te_runable e"
proof -
  have "thread_ok tk None (h t) t"
    using assms by (metis token_inv_def)
  then show o: "owner tk = Some t" "nesting_level tk = int (h t) - 1"
    using assms(3) by (auto simp: thread_ok_def split: if_splits)
  assume "e \<in> set (queue_of op tk)"
  moreover from this have "te_frame e \<noteq> t"
    using assms(1,2) queue_frame [of tk b e op] by (metis token_inv_def option.distinct(1))
  ultimately show "\<not> te_runable e"
    using assms(1) o by (auto simp: token_inv_def)
qed

lemma idle_threads:
  assumes "token_inv tk b h" and "owner tk = Some t" and "u \<noteq> t"
  shows "thread_ok (tk'\<lparr>owner := None\<rparr>) (b u) (h u) u"
proof -
  have "thread_ok tk (b u) (h u) u"
    using assms(1) by (simp add: token_inv_def)
  then show ?thesis
    using assms(2,3) by (auto simp: thread_ok_def split: option.splits call.splits)
qed

lemma insert_inv:
  assumes inv: "token_inv tk b h" and t: "b t = None" "owner tk \<noteq> Some t" "owner tk \<noteq> None"
  shows "token_inv (set_queue op (insert_entry (new_entry t (Some t)) p (queue_of op tk)) tk\<lparr>waiters := waiters tk + 1\<rparr>)
    (b(t \<mapsto> Acquiring op 1)) h"
proof -
  obtain x y where xy: "queue_of op tk = x @ y" "insert_entry (new_entry t (Some t)) p (queue_of op tk) = x @ new_entry t (Some t) # y"
    by (rule insert_entry_split)
  have r: "\<forall>e \<in> set (queue_of op' tk). te_runable e \<longleftrightarrow> owner tk = Some (te_frame e)" for op'
    using inv by (simp add: token_inv_def)
  have "queue_inv (set_queue op (insert_entry (new_entry t (Some t)) p (queue_of op tk)) tk\<lparr>waiters := waiters tk + 1\<rparr>)
    (b(t \<mapsto> Acquiring op 1))"
    by (rule queue_inv_insert) (use inv t in \<open>simp_all add: token_inv_def queue_of_call_def\<close>)
  moreover have "h t = 0"
    using inv t by (auto simp: token_inv_def thread_ok_def dest: spec [of _ t])
  then have "\<forall>u. thread_ok tk ((b(t \<mapsto> Acquiring op 1)) u) (h u) u"
    using inv t by (simp add: token_inv_def) (simp add: thread_ok_def)
  moreover have "thread_ok (set_queue op q tk\<lparr>waiters := w\<rparr>) = thread_ok tk" for q w
    by (rule thread_ok_cong) simp_all
  moreover have "\<forall>e \<in> set (if op' = op then x @ new_entry t (Some t) # y else queue_of op' tk). te_runable e \<longleftrightarrow> owner tk = Some (te_frame e)" for op'
    using r [of op'] r [of op] t xy(1) by (auto simp: new_entry_def)
  ultimately show ?thesis
    using inv t(3) xy(2) unfolding token_inv_def by (cases "owner tk") simp_all
qed

lemma acquire_inv:
  assumes inv: "token_inv tk b h" and t: "b t = None" and "shared_acquire t poll op tk = (tk', oc, c)"
  shows "token_inv tk' (sleeps_in t c b) (if oc = Returns 0 then h(t := h t + 1) else h)"
proof -
  consider (free) "in_use tk = None" | (nested) "in_use tk \<noteq> None" "owner tk = Some t"
    | (poll) "in_use tk \<noteq> None" "owner tk \<noteq> Some t" "poll" | (sleep) "in_use tk \<noteq> None" "owner tk \<noteq> Some t" "\<not> poll"
    by blast
  then show ?thesis
  proof cases
    case free
    have ok: "thread_ok tk (b u) (h u) u" for u
      using inv by (simp add: token_inv_def)
    have o: "owner tk = None" "nesting_level tk = 0" "\<forall>op. queue_of op tk = []"
      using inv free by (simp_all add: token_inv_def)
    have "queue_inv (tk\<lparr>in_use := Some op, owner := Some t\<rparr>) b = queue_inv tk b"
      by (rule queue_inv_cong) simp_all
    moreover have "thread_ok (tk\<lparr>in_use := Some op, owner := Some t\<rparr>) (b u) ((h(t := h t + 1)) u) u" for u
      using ok [of u] o t by (auto simp: thread_ok_def split: option.splits call.splits)
    ultimately show ?thesis
      using assms free o by (auto simp: shared_acquire_def sleeps_in_def token_inv_def)
  next
    case nested
    have ok: "thread_ok tk (b u) (h u) u" for u
      using inv by (simp add: token_inv_def)
    have "queue_inv (tk\<lparr>nesting_level := nesting_level tk + 1\<rparr>) b = queue_inv tk b"
      by (rule queue_inv_cong) simp_all
    moreover have "thread_ok (tk\<lparr>nesting_level := nesting_level tk + 1\<rparr>) (b u) ((h(t := h t + 1)) u) u" for u
      using ok [of u] nested t by (auto simp: thread_ok_def split: option.splits call.splits)
    ultimately show ?thesis
      using assms nested by (auto simp: shared_acquire_def sleeps_in_def token_inv_def)
  next
    case poll
    then show ?thesis using assms by (auto simp: shared_acquire_def sleeps_in_def)
  next
    case sleep
    then have "owner tk \<noteq> None" using inv by (metis token_inv_def)
    then show ?thesis
      using assms sleep insert_inv [OF inv t sleep(2), of op "strategy tk"]
        inv_begin_wait [of op t "set_queue op (insert_entry (new_entry t (Some t)) (strategy tk) (queue_of op tk)) tk\<lparr>waiters := waiters tk + 1\<rparr>"]
      by (auto simp: shared_acquire_def sleeps_in_def Let_def)
  qed
qed

lemma release_idle:
  assumes inv: "token_inv tk b h" and t: "b t = None" "0 < h t" and last: "\<not> 0 < nesting_level tk"
  shows "idle_inv tk b (h(t := h t - 1))"
proof -
  have n: "nesting_level tk = 0" "h t = 1"
    using last holder(2) [OF inv t] t(2) by simp_all
  have "thread_ok (tk\<lparr>owner := None\<rparr>) (b u) ((h(t := h t - 1)) u) u" for u
    using idle_threads [OF inv holder(1) [OF inv t], of u tk] n t by (cases "u = t") (simp_all add: thread_ok_def)
  then show ?thesis
    using inv holder(3) [OF inv t] n unfolding idle_inv_def token_inv_def by blast
qed

lemma release_inv:
  assumes inv: "token_inv tk b h" and t: "b t = None" "0 < h t"
  shows "token_inv (release sem tk) b (h(t := h t - 1))"
proof (cases "0 < nesting_level tk")
  case True
  have "queue_inv (tk\<lparr>nesting_level := nesting_level tk - 1\<rparr>) b = queue_inv tk b"
    by (rule queue_inv_cong) simp_all
  moreover have "thread_ok (tk\<lparr>nesting_level := nesting_level tk - 1\<rparr>) (b u) ((h(t := h t - 1)) u) u" for u
  proof (cases "u = t")
    case False
    then show ?thesis
      using inv holder(1) [OF inv t] thread_ok_other [of tk "b u" "h u" u] by (simp add: token_inv_def)
  qed (use holder [OF inv t] t True in \<open>auto simp: thread_ok_def\<close>)
  ultimately show ?thesis
    using inv True holder(1) [OF inv t] by (simp add: release_def token_inv_def)
next
  case False
  then show ?thesis
    using wakeup_inv [OF release_idle [OF inv t]] by (simp add: release_def)
qed

text \<open>The token as \<open>renew\<close> hands it over, its own entry queued.\<close>

definition renew_queued :: "tid \<Rightarrow> int \<Rightarrow> token \<Rightarrow> token" where
  "renew_queued t pos tk =
     (let op = (if in_use tk = Some READ_TOKEN then READ_TOKEN else WRITE_TOKEN)
      in set_queue op (insert_entry (new_entry t (Some t)) (if pos = 0 then 0 else strategy tk) (queue_of op tk)) tk
           \<lparr>waiters := waiters tk + 1, nesting_level := 0\<rparr>)"

lemma renew_eq:
  fixes sem :: bool and pos :: int
  assumes "owner tk = Some t" and "\<not> (writers tk = [] \<and> (in_use tk = Some WRITE_TOKEN \<or> readers tk = []))"
  defines "op \<equiv> if in_use tk = Some READ_TOKEN then READ_TOKEN else WRITE_TOKEN"
  defines "tk' \<equiv> wakeup_next_waiter sem (renew_queued t pos tk)"
  shows "renew sem t pos tk = (set_queue op (begin_wait t (queue_of op tk')) tk', Sleeps, Some (Renewing op (nesting_level tk)))"
  using assms(2) unfolding renew_def by (simp only: if_not_P) (simp add: Let_def assms(1) op_def tk'_def renew_queued_def)

lemma renew_idle:
  assumes inv: "token_inv tk b h" and t: "b t = None" "0 < h t"
  defines "op \<equiv> if in_use tk = Some READ_TOKEN then READ_TOKEN else WRITE_TOKEN"
  shows "idle_inv (renew_queued t pos tk) (b(t \<mapsto> Renewing op (nesting_level tk))) h"
proof -
  define p where "p = (if pos = 0 then 0 else strategy tk)"
  define tk1 where "tk1 = set_queue op (insert_entry (new_entry t (Some t)) p (queue_of op tk)) tk\<lparr>waiters := waiters tk + 1\<rparr>"
  let ?c = "Renewing op (nesting_level tk)"
  have tk2: "renew_queued t pos tk = tk1\<lparr>nesting_level := 0\<rparr>"
    by (simp add: renew_queued_def tk1_def p_def op_def Let_def)
  have o: "owner tk = Some t" "nesting_level tk = int (h t) - 1" using holder [OF inv t] by simp_all
  have "queue_inv tk1 (b(t \<mapsto> ?c))"
    unfolding tk1_def by (rule queue_inv_insert) (use inv t in \<open>simp_all add: token_inv_def queue_of_call_def\<close>)
  moreover have "queue_inv (renew_queued t pos tk) (b(t \<mapsto> ?c)) = queue_inv tk1 (b(t \<mapsto> ?c))"
    unfolding tk2 by (rule queue_inv_cong) simp_all
  moreover have "\<not> te_runable e" if "e \<in> set (queue_of op' (renew_queued t pos tk))" for op' e
  proof -
    obtain x y where "queue_of op tk = x @ y" "insert_entry (new_entry t (Some t)) p (queue_of op tk) = x @ new_entry t (Some t) # y"
      by (rule insert_entry_split)
    then have "e = new_entry t (Some t) \<or> e \<in> set (queue_of op' tk)"
      using that by (auto simp: tk2 tk1_def split: if_splits)
    then show ?thesis using holder(3) [OF inv t] by (auto simp: new_entry_def)
  qed
  moreover have "thread_ok (renew_queued t pos tk\<lparr>owner := None\<rparr>) ((b(t \<mapsto> ?c)) u) (h u) u" for u
    using idle_threads [OF inv o(1), of u "renew_queued t pos tk"] t(2) o(2) by (cases "u = t") (simp_all add: thread_ok_def)
  ultimately show ?thesis
    by (simp add: idle_inv_def) (simp add: tk2)
qed

lemma renew_inv:
  assumes inv: "token_inv tk b h" and t: "b t = None" "0 < h t" and r: "renew sem t pos tk = (tk', oc, c)"
  shows "token_inv tk' (sleeps_in t c b) h"
proof (cases "writers tk = [] \<and> (in_use tk = Some WRITE_TOKEN \<or> readers tk = [])")
  case True
  then show ?thesis using inv r by (auto simp: renew_def sleeps_in_def)
next
  case False
  show ?thesis
    using r renew_eq [OF holder(1) [OF inv t] False, of sem pos] wakeup_inv [OF renew_idle [OF inv t, of pos], of sem]
    by (auto simp: sleeps_in_def inv_begin_wait)
qed

lemma my_entry_in:
  assumes "queue_inv tk b" and "b t = Some c"
  shows "my_entry t (queue_of (queue_of_call c) tk) \<in> set (queue_of (queue_of_call c) tk)"
    "te_frame (my_entry t (queue_of (queue_of_call c) tk)) = t" "te_thread (my_entry t (queue_of (queue_of_call c) tk)) = Some t"
proof -
  let ?q = "queue_of (queue_of_call c) tk"
  have q: "distinct (map te_frame ?q)" "te_frame ` set ?q = {t. \<exists>d. b t = Some d \<and> queue_of_call d = queue_of_call c}"
    "\<forall>e \<in> set ?q. te_thread e = Some (te_frame e)"
    using assms(1) unfolding queue_inv_def by blast+
  have "t \<in> te_frame ` set ?q" using q(2) assms(2) by auto
  then obtain x e y where xy: "?q = x @ e # y" "te_frame e = t" "t \<notin> te_frame ` set x" "t \<notin> te_frame ` set y"
    by (rule entry_split [OF q(1)])
  then show "my_entry t ?q \<in> set ?q" "te_frame (my_entry t ?q) = t" "te_thread (my_entry t ?q) = Some t"
    using my_entry_split [OF xy(3,2), of y] q(3) by simp_all
qed

lemma remove_entry_in:
  "distinct (map te_frame q) \<Longrightarrow> e \<in> set (remove_entry t q) \<Longrightarrow> e \<in> set q \<and> te_frame e \<noteq> t"
proof (induction q)
  case (Cons x q)
  then have "\<forall>e \<in> set q. te_frame e \<noteq> te_frame x" by (auto simp: image_iff)
  then show ?case using Cons by (auto split: if_splits)
qed simp

lemma my_entry_end_wait:
  assumes "t \<in> te_frame ` set q"
  shows "te_runable (my_entry t (end_wait t r q)) = te_runable (my_entry t q)" "te_thread (my_entry t (end_wait t r q)) = te_thread (my_entry t q)"
  using assms by (induction q) (auto simp: my_entry_def end_wait_def)

lemma removed_inv:
  assumes inv: "token_inv tk b h" and c: "b t = Some c"
  defines "tk' \<equiv> set_queue (queue_of_call c) (remove_entry t (queue_of (queue_of_call c) tk)) tk\<lparr>waiters := waiters tk - 1\<rparr>"
  shows "queue_inv tk' (b(t := None))" "e \<in> set (queue_of op tk') \<Longrightarrow> te_runable e \<longleftrightarrow> owner tk = Some (te_frame e)"
    "e \<in> set (queue_of op tk') \<Longrightarrow> te_frame e \<noteq> t" "owner tk \<noteq> None"
proof -
  show "queue_inv tk' (b(t := None))"
    unfolding tk'_def by (rule queue_inv_remove) (use inv c in \<open>simp_all add: token_inv_def\<close>)
  show "te_frame e \<noteq> t" "te_runable e \<longleftrightarrow> owner tk = Some (te_frame e)" if e: "e \<in> set (queue_of op tk')"
  proof -
    have d: "distinct (map te_frame (queue_of (queue_of_call c) tk))"
      using inv by (simp add: token_inv_def queue_inv_def)
    have "e \<in> set (queue_of op tk) \<and> te_frame e \<noteq> t"
    proof (cases "op = queue_of_call c")
      case True
      then show ?thesis using e remove_entry_in [OF d] by (simp add: tk'_def)
    next
      case False
      then have "e \<in> set (queue_of op tk)" using e by (simp add: tk'_def)
      moreover from this obtain d where "b (te_frame e) = Some d" "queue_of_call d = op"
        using inv queue_frame unfolding token_inv_def by metis
      ultimately show ?thesis using c False by auto
    qed
    then show "te_frame e \<noteq> t" "te_runable e \<longleftrightarrow> owner tk = Some (te_frame e)"
      using token_invD(2) [OF inv] by blast+
  qed
  have "my_entry t (queue_of (queue_of_call c) tk) \<in> set (queue_of (queue_of_call c) tk)"
    using my_entry_in(1) [OF token_invD(1) [OF inv] c] .
  then have "queue_of (queue_of_call c) tk \<noteq> []"
    by (metis empty_iff list.set(1))
  then show "owner tk \<noteq> None"
    using inv unfolding token_inv_def by blast
qed

text \<open>The two ways out of a wait: without the token, and as its owner.\<close>

lemma leave_idle:
  assumes inv: "token_inv tk b h" and c: "b t = Some c" and o: "owner tk = Some t"
  defines "tk' \<equiv> set_queue (queue_of_call c) (remove_entry t (queue_of (queue_of_call c) tk)) tk\<lparr>waiters := waiters tk - 1\<rparr>"
  shows "idle_inv tk' (b(t := None)) (h(t := 0))"
proof -
  note removed = removed_inv [OF inv c, folded tk'_def]
  have "nesting_level tk' = 0"
    using token_invD(6) [OF inv, of t] c o by (auto simp: thread_ok_def tk'_def split: call.splits)
  moreover have "thread_ok (tk'\<lparr>owner := None\<rparr>) ((b(t := None)) u) ((h(t := 0)) u) u" for u
    using idle_threads [OF inv, of t u tk'] o by (cases "u = t") (simp_all add: thread_ok_def)
  moreover have "\<not> te_runable e" if "e \<in> set (queue_of op tk')" for e op
    using removed(2,3) [OF that] o by simp
  ultimately show ?thesis
    using removed(1) by (simp add: idle_inv_def)
qed

lemma leave_inv:
  assumes inv: "token_inv tk b h" and c: "b t = Some c"
    and e: "te_runable (my_entry t (queue_of (queue_of_call c) tk)) = r"
  defines "tk' \<equiv> set_queue (queue_of_call c) (remove_entry t (queue_of (queue_of_call c) tk)) tk\<lparr>waiters := waiters tk - 1\<rparr>"
  shows "token_inv (if r then wakeup_next_waiter sem tk' else tk') (b(t := None)) (h(t := 0))"
proof -
  note removed = removed_inv [OF inv c, folded tk'_def]
  have r: "r \<longleftrightarrow> owner tk = Some t"
    using inv e my_entry_in [of tk b t c] c by (auto simp: token_inv_def)
  show ?thesis
  proof (cases r)
    case True
    then show ?thesis
      using wakeup_inv [OF leave_idle [OF inv c]] r by (simp add: tk'_def)
  next
    case False
    have "thread_ok tk' = thread_ok tk"
      by (rule thread_ok_cong) (simp_all add: tk'_def)
    then have "thread_ok tk' ((b(t := None)) u) ((h(t := 0)) u) u" for u
      using token_invD(6) [OF inv, of u] False r by (cases "u = t") (simp_all add: thread_ok_def)
    moreover have "owner tk' = owner tk" "in_use tk' = in_use tk" by (simp_all add: tk'_def)
    moreover have "in_use tk \<noteq> None"
      using inv removed(4) by (metis token_inv_def)
    ultimately have "token_inv tk' (b(t := None)) (h(t := 0))"
      by (intro token_invI) (use removed in simp_all)
    then show ?thesis
      using False by simp
  qed
qed

lemma own_inv:
  assumes inv: "token_inv tk b h" and c: "b t = Some c" and o: "owner tk = Some t"
  defines "tk' \<equiv> set_queue (queue_of_call c) (remove_entry t (queue_of (queue_of_call c) tk)) tk\<lparr>waiters := waiters tk - 1\<rparr>"
  shows "token_inv (case c of Acquiring op ret \<Rightarrow> tk' | Renewing op n \<Rightarrow> tk'\<lparr>nesting_level := n\<rparr>) (b(t := None))
    (h(t := case c of Acquiring _ _ \<Rightarrow> 1 | Renewing _ _ \<Rightarrow> h t))"
proof -
  let ?tk = "case c of Acquiring op ret \<Rightarrow> tk' | Renewing op n \<Rightarrow> tk'\<lparr>nesting_level := n\<rparr>"
  let ?h = "h(t := case c of Acquiring _ _ \<Rightarrow> 1 | Renewing _ _ \<Rightarrow> h t)"
  note removed = removed_inv [OF inv c, folded tk'_def]
  have f: "queue_of op ?tk = queue_of op tk'" "owner ?tk = owner tk" "in_use ?tk = in_use tk" "waiters ?tk = waiters tk'" for op
    by (simp_all add: tk'_def split: call.split)
  have "thread_ok ?tk ((b(t := None)) u) (?h u) u" for u
  proof (cases "u = t")
    case True
    have "thread_ok tk (Some c) (h t) t"
      using inv c unfolding token_inv_def by metis
    then show ?thesis using True o f(2) by (auto simp: thread_ok_def tk'_def split: call.splits)
  next
    case False
    then show ?thesis
      using inv o f(2) thread_ok_other [of tk "b u" "h u" u ?tk] by (simp add: token_inv_def)
  qed
  moreover have "queue_inv ?tk (b(t := None)) = queue_inv tk' (b(t := None))"
    by (rule queue_inv_cong) (simp_all only: f)
  moreover have "in_use tk \<noteq> None"
    using inv o by (metis token_inv_def option.distinct(1))
  moreover have "te_runable e \<longleftrightarrow> owner tk = Some (te_frame e)" if "e \<in> set (queue_of op tk')" for op e
    using removed(2) [OF that] .
  ultimately show ?thesis
    by (intro token_invI) (use removed(1) o f in simp_all)
qed

lemma resume_eq:
  fixes r :: wait_result
  assumes inv: "token_inv tk b h" and c: "b t = Some c"
  defines "op \<equiv> queue_of_call c"
  defines "tk1 \<equiv> set_queue op (end_wait t r (queue_of op tk)) tk"
  defines "tk2 \<equiv> set_queue op (remove_entry t (queue_of op tk1)) tk1\<lparr>waiters := waiters tk1 - 1\<rparr>"
  shows "token_inv tk1 b h"
    "resume sem t c r tk =
      (if r \<in> {W_OK, W_EINTR} \<and> owner tk \<noteq> Some t then (set_queue op (begin_wait t (queue_of op tk1)) tk1, Sleeps)
       else if r = W_ETIME then (if owner tk = Some t then wakeup_next_waiter sem tk2 else tk2, Returns (-1))
       else if r = W_ERROR then (tk2, Returns (-1))
       else case c of Acquiring op ret \<Rightarrow> (tk2, Returns ret) | Renewing op m \<Rightarrow> (tk2\<lparr>nesting_level := m\<rparr>, Returns 0))"
    "te_runable (my_entry t (queue_of op tk1)) \<longleftrightarrow> owner tk = Some t"
proof -
  show 1: "token_inv tk1 b h"
    using inv by (simp add: tk1_def inv_end_wait)
  have o: "owner tk1 = owner tk" by (simp add: tk1_def)
  note e = my_entry_in [OF token_invD(1) [OF 1] c, folded op_def]
  have r: "te_runable (my_entry t (queue_of op tk1)) \<longleftrightarrow> owner tk = Some t"
    using token_invD(2) [OF 1 e(1)] e(2) o by simp
  then show "te_runable (my_entry t (queue_of op tk1)) \<longleftrightarrow> owner tk = Some t" .
  have tk2: "set_queue op (remove_entry t (queue_of op (tk1\<lparr>waiters := waiters tk1 - 1\<rparr>))) (tk1\<lparr>waiters := waiters tk1 - 1\<rparr>) = tk2"
    by (simp add: tk2_def set_queue_def queue_of_def split: op_type.split)
  show "resume sem t c r tk =
      (if r \<in> {W_OK, W_EINTR} \<and> owner tk \<noteq> Some t then (set_queue op (begin_wait t (queue_of op tk1)) tk1, Sleeps)
       else if r = W_ETIME then (if owner tk = Some t then wakeup_next_waiter sem tk2 else tk2, Returns (-1))
       else if r = W_ERROR then (tk2, Returns (-1))
       else case c of Acquiring op ret \<Rightarrow> (tk2, Returns ret) | Renewing op m \<Rightarrow> (tk2\<lparr>nesting_level := m\<rparr>, Returns 0))"
    unfolding resume_def Let_def op_def [symmetric] tk1_def [symmetric] tk2 r e(3) o
    by (cases r) (auto split: call.split)
qed

lemma not_runable_frame:
  assumes "token_inv tk b h" and "b t = Some c"
  shows "te_runable (my_entry t (queue_of (queue_of_call c) tk)) \<longleftrightarrow> owner tk = Some t"
  using my_entry_in [OF token_invD(1) [OF assms(1)] assms(2)] token_invD(2) [OF assms(1)] by auto

lemma wake_inv:
  assumes inv: "token_inv tk b h" and c: "b t = Some c" and r: "r = W_ERROR \<longrightarrow> owner tk \<noteq> Some t"
    and s: "resume sem t c r tk = (tk', oc)"
  shows "(oc = Sleeps \<and> token_inv tk' b h) \<or>
    (\<exists>n. oc = Returns n \<and> token_inv tk' (b(t := None)) (h(t := if n = -1 then 0 else case c of Acquiring _ _ \<Rightarrow> 1 | Renewing _ _ \<Rightarrow> h t)))"
proof -
  let ?op = "queue_of_call c"
  let ?tk1 = "set_queue ?op (end_wait t r (queue_of ?op tk)) tk"
  let ?tk2 = "set_queue ?op (remove_entry t (queue_of ?op ?tk1)) ?tk1\<lparr>waiters := waiters ?tk1 - 1\<rparr>"
  note eq = resume_eq [where r = r, OF inv c]
  note leave = leave_inv [OF eq(1) c eq(3)]
  have o1: "owner ?tk1 = owner tk" by simp
  consider (again) "r \<in> {W_OK, W_EINTR}" "owner tk \<noteq> Some t" | (fail) "r \<in> {W_ETIME, W_ERROR}"
    | (own) "r \<in> {W_OK, W_EINTR}" "owner tk = Some t"
    by (cases r) auto
  then show ?thesis
  proof cases
    case again
    have "tk' = set_queue ?op (begin_wait t (queue_of ?op ?tk1)) ?tk1" "oc = Sleeps"
      using s eq(2) [where sem = sem] again by auto
    then show ?thesis
      using eq(1) by (simp only: inv_begin_wait) simp
  next
    case fail
    then have "tk' = (if owner tk = Some t then wakeup_next_waiter sem ?tk2 else ?tk2)" "oc = Returns (-1)"
      using s r eq(2) [where sem = sem] by auto
    then show ?thesis
      using leave [of sem] by simp
  next
    case own
    have own1: "owner ?tk1 = Some t" using own(2) by simp
    have ret: "c = Acquiring op ret \<Longrightarrow> ret = 1" for op ret
      using token_invD(6) [OF inv, of t] c by (simp add: thread_ok_def)
    have "(tk', oc) = (case c of Acquiring op ret \<Rightarrow> (?tk2, Returns ret) | Renewing op m \<Rightarrow> (?tk2\<lparr>nesting_level := m\<rparr>, Returns 0))"
      using s own eq(2) [where sem = sem] by auto
    then show ?thesis
      using own_inv [OF eq(1) c own1] ret by (cases c) simp_all
  qed
qed

definition system_inv :: "system \<Rightarrow> bool" where
  "system_inv s \<longleftrightarrow> token_inv (tok s) (blocked s) (holds s)"

lemma apply_event_inv:
  assumes "system_inv s" and "enabled False sem s ev" and "apply_event sem ev s = (s', oc)"
  shows "system_inv s'" "oc \<noteq> Aborts"
proof -
  have inv: "token_inv (tok s) (blocked s) (holds s)" using assms(1) by (simp add: system_inv_def)
  have "system_inv s' \<and> oc \<noteq> Aborts"
  proof (cases ev)
    case (Acquire t poll op)
    obtain tk oc' c where a: "shared_acquire t poll op (tok s) = (tk, oc', c)" by (metis prod_cases3)
    have "oc' \<noteq> Aborts" using a by (auto simp: shared_acquire_def Let_def split: if_splits)
    then show ?thesis
      using Acquire assms(2,3) a acquire_inv [OF inv _ a] by (auto simp: enabled_def apply_event_def system_inv_def)
  next
    case (Release t)
    then show ?thesis
      using assms(2,3) release_inv [OF inv, of t sem] by (auto simp: enabled_def apply_event_def system_inv_def)
  next
    case (Renew t pos)
    obtain tk oc' c where a: "renew sem t pos (tok s) = (tk, oc', c)" by (metis prod_cases3)
    have "oc' \<noteq> Aborts" using a by (auto simp: renew_def Let_def split: if_splits)
    then show ?thesis
      using Renew assms(2,3) a renew_inv [OF inv _ _ a] by (auto simp: enabled_def apply_event_def system_inv_def)
  next
    case (Wake t r)
    then obtain c where c: "blocked s t = Some c" using assms(2) by (auto simp: enabled_def split: option.splits)
    obtain tk oc' where a: "resume sem t c r (tok s) = (tk, oc')" by fastforce
    have "r = W_ERROR \<longrightarrow> owner (tok s) \<noteq> Some t"
      using assms(2) Wake c not_runable_frame [OF inv c] by (auto simp: enabled_def)
    then show ?thesis
      using wake_inv [OF inv c _ a] assms(3) Wake c a by (auto simp: apply_event_def system_inv_def)
  next
    case (Strategy n)
    then show ?thesis using assms(3) inv by (auto simp: apply_event_def system_inv_def inv_strategy)
  qed
  then show "system_inv s'" "oc \<noteq> Aborts" by simp_all
qed

lemma initial_inv: "system_inv initial"
  by (simp add: system_inv_def initial_def new_token_def token_inv_def queue_inv_def thread_ok_def queue_of_def split: op_type.split)

lemma reachable_inv: "reachable False sem s \<Longrightarrow> system_inv s"
proof (induction rule: reachable.induct)
  case (more s ev oc s')
  then show ?case by (auto elim!: token_step.cases dest: apply_event_inv(1))
qed (rule initial_inv)

lemma run_reachable:
  "reachable faulty sem s \<Longrightarrow> run_enabled faulty sem evs s \<Longrightarrow> reachable faulty sem (run sem evs s)"
proof (induction evs arbitrary: s)
  case (Cons ev evs)
  have "token_step faulty sem s ev (snd (apply_event sem ev s)) (fst (apply_event sem ev s))"
    using Cons.prems by (auto intro: token_step.step)
  then have "reachable faulty sem (fst (apply_event sem ev s))"
    using Cons.prems reachable.more by metis
  then show ?case using Cons by simp
qed simp

section \<open>Mutual exclusion\<close>

lemmas reach_inv = reachable_inv [unfolded system_inv_def]

text \<open>(C15) Whatever the threads do, with a condition variable or a semaphore, spurious wake-ups, signals, timeouts
  and changes of the strategy: at most one thread has the token, it is the recorded owner, and the nesting level is
  the number of its acquires but one.\<close>

theorem token_mutual_exclusion:
  assumes "reachable False sem s" and "has_token s t"
  shows "owner (tok s) = Some t \<and> in_use (tok s) \<noteq> None \<and> nesting_level (tok s) = int (holds s t) - 1 \<and>
    (\<forall>u. has_token s u \<longrightarrow> u = t)"
proof -
  have inv: "token_inv (tok s) (blocked s) (holds s)" using reach_inv [OF assms(1)] .
  have own: "owner (tok s) = Some u" if "has_token s u" for u
    using holder(1) [OF inv] that by (simp add: has_token_def)
  have t: "owner (tok s) = Some t" by (rule own [OF assms(2)])
  have "u = t" if "has_token s u" for u
    using own [OF that] t by simp
  moreover have "nesting_level (tok s) = int (holds s t) - 1"
    by (rule holder(2) [OF inv]) (use assms(2) in \<open>simp_all add: has_token_def\<close>)
  moreover have "in_use (tok s) \<noteq> None"
    using token_invD(3) [OF inv] t by simp
  ultimately show ?thesis
    using t by blast
qed

text \<open>Thread 1 has the token, 2 and 3 wait to write, event by event.\<close>

definition waiting_entry :: "tid \<Rightarrow> entry" where
  "waiting_entry t = \<lparr>te_frame = t, te_thread = Some t, te_runable = False, te_waiting = True, te_posts = 0\<rparr>"

definition contended :: "nat \<Rightarrow> system" where
  "contended n = \<lparr>tok = \<lparr>writers = map (\<lambda>i. waiting_entry (i + 2)) [0..<n], readers = [], owner = Some 1, in_use = Some WRITE_TOKEN,
      waiters = int n, nesting_level = 0, strategy = -1\<rparr>,
    blocked = (\<lambda>t. if t \<in> {2..<n + 2} then Some (Acquiring WRITE_TOKEN 1) else None), holds = (\<lambda>t. if t = 1 then 1 else 0)\<rparr>"

lemma contended_0: "apply_event sem (Acquire 1 False WRITE_TOKEN) initial = (contended 0, Returns 0)"
  by (simp add: apply_event_def initial_def shared_acquire_def new_token_def contended_def sleeps_in_def fun_eq_iff)

lemma begin_wait_others: "(\<forall>e \<in> set q. te_frame e \<noteq> t) \<Longrightarrow> begin_wait t q = q"
  by (simp add: begin_wait_def map_idI)

lemma contended_Suc: "apply_event sem (Acquire (n + 2) False WRITE_TOKEN) (contended n) = (contended (n + 1), Sleeps)"
proof -
  have i: "insert_entry e (-1) q = q @ [e]" for e q
    by (simp add: insert_entry_def)
  let ?q = "map (\<lambda>i. waiting_entry (i + 2)) [0..<n]"
  have "begin_wait (n + 2) (?q @ [new_entry (n + 2) (Some (n + 2))]) = ?q @ [waiting_entry (n + 2)]"
    using begin_wait_others [of ?q "n + 2"] by (simp add: waiting_entry_def new_entry_def begin_wait_def)
  then show ?thesis
    by (auto simp: apply_event_def shared_acquire_def contended_def sleeps_in_def queue_of_def set_queue_def i fun_eq_iff)
qed

lemma contended_reachable: "reachable False sem (contended n)"
proof (induction n)
  case 0
  show ?case
    by (rule reachable.more [OF reachable.start token_step.step [OF _ contended_0]]) (simp add: enabled_def initial_def)
next
  case (Suc n)
  show ?case
    using reachable.more [OF Suc token_step.step [OF _ contended_Suc [of sem n]]] by (simp add: enabled_def contended_def)
qed

theorem token_mutual_exclusion_witness: "owner (tok (contended 2)) = Some 1 \<and> \<not> has_token (contended 2) 2"
proof -
  have "has_token (contended 2) 1" by (simp add: has_token_def contended_def)
  then have "owner (tok (contended 2)) = Some 1" "\<forall>u. has_token (contended 2) u \<longrightarrow> u = 1"
    using token_mutual_exclusion [OF contended_reachable [of True 2], of 1] by blast+
  moreover have "(2 :: nat) \<noteq> 1" by simp
  ultimately show ?thesis by blast
qed

text \<open>(C24) In every reachable state the token is well formed: the sleeping threads are those with an entry in the
  queue of their operation, once each, the number of waiters counts them, a token out of use has no owner, no waiter
  and no nesting, the entry marked runable is that of the owner, and no event violates an assertion of the code.\<close>

theorem token_well_formed:
  assumes "reachable False sem s"
  shows "distinct (map te_frame (writers (tok s) @ readers (tok s))) \<and>
    set (map te_frame (writers (tok s))) = {t. \<exists>c. blocked s t = Some c \<and> queue_of_call c = WRITE_TOKEN} \<and>
    set (map te_frame (readers (tok s))) = {t. \<exists>c. blocked s t = Some c \<and> queue_of_call c = READ_TOKEN} \<and>
    waiters (tok s) = int (length (writers (tok s) @ readers (tok s))) \<and>
    (in_use (tok s) = None \<longleftrightarrow> owner (tok s) = None) \<and>
    (in_use (tok s) = None \<longrightarrow> writers (tok s) @ readers (tok s) = [] \<and> nesting_level (tok s) = 0) \<and>
    (\<forall>e \<in> set (writers (tok s) @ readers (tok s)). te_runable e \<longleftrightarrow> owner (tok s) = Some (te_frame e)) \<and>
    (\<forall>ev. enabled False sem s ev \<longrightarrow> snd (apply_event sem ev s) \<noteq> Aborts)"
proof -
  have inv: "token_inv (tok s) (blocked s) (holds s)" using reach_inv [OF assms] .
  have w: "queue_of WRITE_TOKEN (tok s) = writers (tok s)" "queue_of READ_TOKEN (tok s) = readers (tok s)"
    by (simp_all add: queue_of_def)
  have q: "distinct (map te_frame (queue_of op (tok s)))"
    "set (map te_frame (queue_of op (tok s))) = {t. \<exists>c. blocked s t = Some c \<and> queue_of_call c = op}" for op
    using token_invD(1) [OF inv] by (simp_all add: queue_inv_def)
  have "distinct (map te_frame (writers (tok s) @ readers (tok s)))"
    using q [of WRITE_TOKEN] q [of READ_TOKEN] unfolding w map_append distinct_append by auto
  moreover have "waiters (tok s) = int (length (writers (tok s) @ readers (tok s)))"
    using token_invD(1) [OF inv] by (simp add: queue_inv_def w)
  moreover have "\<forall>e \<in> set (writers (tok s) @ readers (tok s)). te_runable e \<longleftrightarrow> owner (tok s) = Some (te_frame e)"
    using token_invD(2) [OF inv, of _ WRITE_TOKEN] token_invD(2) [OF inv, of _ READ_TOKEN] unfolding w by auto
  moreover have "in_use (tok s) = None \<longrightarrow> writers (tok s) @ readers (tok s) = [] \<and> nesting_level (tok s) = 0"
    using token_invD(3,5) [OF inv] token_invD(4) [OF inv, of WRITE_TOKEN] token_invD(4) [OF inv, of READ_TOKEN] unfolding w by simp
  moreover have "\<forall>ev. enabled False sem s ev \<longrightarrow> snd (apply_event sem ev s) \<noteq> Aborts"
    using apply_event_inv(2) [of s sem] reachable_inv [OF assms] by (metis prod.collapse)
  ultimately show ?thesis
    using q(2) [of WRITE_TOKEN] q(2) [of READ_TOKEN] token_invD(3) [OF inv] unfolding w by blast
qed

theorem token_well_formed_witness: "waiters (tok (contended 2)) = 2"
proof -
  have "length (writers (tok (contended 2)) @ readers (tok (contended 2))) = 2"
    by (simp add: contended_def)
  moreover have "waiters (tok (contended 2)) = int (length (writers (tok (contended 2)) @ readers (tok (contended 2))))"
    using token_well_formed [OF contended_reachable, of 2] by blast
  ultimately show ?thesis by simp
qed

end
