(* ===== verification/Token_Progress.thy ===== *)
theory Token_Progress
  imports Token
begin

text \<open>
  Progress of the token: a waiting writer is overtaken by nobody but those ahead of it, a hand-over is always taken
  up, and the two ways to lose the token.
\<close>

section \<open>Bounded waiting\<close>

text \<open>The waiters ahead of a thread that have not been chosen yet.\<close>

definition ahead :: "tid \<Rightarrow> entry list \<Rightarrow> nat" where
  "ahead t q = length (filter (\<lambda>e. \<not> te_runable e) (takeWhile (\<lambda>e. te_frame e \<noteq> t) q))"

definition waits_to_write :: "system \<Rightarrow> tid \<Rightarrow> bool" where
  "waits_to_write s t \<longleftrightarrow> (case blocked s t of None \<Rightarrow> False | Some c \<Rightarrow> queue_of_call c = WRITE_TOKEN)"

lemma ahead_cong:
  "map te_frame q' = map te_frame q \<Longrightarrow> map te_runable q' = map te_runable q \<Longrightarrow> ahead t q' = ahead t q"
proof (induction q arbitrary: q')
  case (Cons e q)
  then obtain e' r where q': "q' = e' # r" by (cases q') auto
  have "ahead t r = ahead t q"
    by (rule Cons.IH) (use Cons.prems q' in simp_all)
  moreover have "te_frame e' = te_frame e" "te_runable e' = te_runable e"
    using Cons.prems q' by simp_all
  ultimately show ?case unfolding q' by (simp add: ahead_def)
qed simp

lemma ahead_append: "t \<in> te_frame ` set q \<Longrightarrow> ahead t (q @ r) = ahead t q"
  by (induction q) (auto simp: ahead_def)

lemma ahead_remove: "u \<noteq> t \<Longrightarrow> ahead t (remove_entry u q) \<le> ahead t q"
  by (induction q) (auto simp: ahead_def)

lemma writers_queue [simp]: "queue_of WRITE_TOKEN tk = writers tk"
  by (simp add: queue_of_def)

text \<open>A hand-over either chooses the waiting writer or takes one of those ahead of it.\<close>

lemma wakeup_ahead:
  assumes inv: "idle_inv tk b h" and t: "t \<in> te_frame ` set (writers tk)"
  shows "owner (wakeup_next_waiter sem tk) = Some t \<or>
    ahead t (writers (wakeup_next_waiter sem tk)) + 1 \<le> ahead t (writers tk)"
proof -
  have ne: "queue_of WRITE_TOKEN tk \<noteq> []" using t by auto
  have op: "next_op tk = WRITE_TOKEN" using ne by (simp add: next_op_def)
  obtain e q where e: "queue_of (next_op tk) tk = e # q" "owner (wakeup_next_waiter sem tk) = te_thread e"
    and w: "\<And>op. queue_of op (wakeup_next_waiter sem tk) = (if op = next_op tk then signal sem (e\<lparr>te_runable := True\<rparr>) # q else queue_of op tk)"
    by (rule wakeup_some [OF ne]) blast
  have wr: "writers (wakeup_next_waiter sem tk) = signal sem (e\<lparr>te_runable := True\<rparr>) # q" "writers tk = e # q"
    using w [of WRITE_TOKEN] e(1) op by simp_all
  have "te_thread e = Some (te_frame e)" "\<not> te_runable e"
    using inv e(1) unfolding idle_inv_def queue_inv_def by (metis list.set_intros(1))+
  then show ?thesis
    using wr e(2) by (cases "te_frame e = t") (simp_all add: ahead_def)
qed

lemma writers_set_queue: "writers (set_queue op q tk) = (if op = WRITE_TOKEN then q else writers tk)"
  by (simp add: set_queue_def split: op_type.split)

lemma ahead_wait:
  "ahead t (writers (set_queue op (begin_wait u (queue_of op tk)) tk)) = ahead t (writers tk)"
  "ahead t (writers (set_queue op (end_wait u r (queue_of op tk)) tk)) = ahead t (writers tk)"
  by (simp_all add: writers_set_queue ahead_cong [OF begin_wait_shape(1,3)] ahead_cong [OF end_wait_shape(1,3)])

lemma waits_frame:
  assumes "token_inv (tok s) (blocked s) (holds s)" and "waits_to_write s t"
  obtains c where "blocked s t = Some c" "queue_of_call c = WRITE_TOKEN" "t \<in> te_frame ` set (writers (tok s))"
proof -
  obtain c where c: "blocked s t = Some c" "queue_of_call c = WRITE_TOKEN"
    using assms(2) by (auto simp: waits_to_write_def split: option.splits)
  have "my_entry t (writers (tok s)) \<in> set (writers (tok s))" "te_frame (my_entry t (writers (tok s))) = t"
    using my_entry_in(1,2) [OF token_invD(1) [OF assms(1)] c(1)] c(2) by simp_all
  then have "t \<in> te_frame ` set (writers (tok s))"
    by (metis imageI)
  then show ?thesis
    using that c by blast
qed

lemma acquire_advances:
  assumes "strategy tk = -1" and "t \<in> te_frame ` set (writers tk)" and "shared_acquire u poll op tk = (tk', oc, c)"
  shows "ahead t (writers tk') = ahead t (writers tk)"
proof -
  have "insert_entry e (-1) q = q @ [e]" for e q by (simp add: insert_entry_def)
  then have i: "ahead t (writers (set_queue op (insert_entry e (-1) (queue_of op tk)) tk)) = ahead t (writers tk)" for e
    using assms(2) by (cases op) (simp_all add: writers_set_queue ahead_append)
  have w: "ahead t (begin_wait u q) = ahead t q" for q
    by (rule ahead_cong) simp_all
  consider "tk' = tk" | x y where "tk' = tk\<lparr>in_use := x, owner := y\<rparr>" | x where "tk' = tk\<lparr>nesting_level := x\<rparr>"
    | e where "tk' = set_queue op (begin_wait u (insert_entry e (-1) (queue_of op tk)))
        (set_queue op (insert_entry e (-1) (queue_of op tk)) tk\<lparr>waiters := waiters tk + 1\<rparr>)"
    using assms(1,3) by (auto simp: shared_acquire_def Let_def split: if_splits)
  then show ?thesis
  proof cases
    case 4
    then show ?thesis using i [of e] w by (cases op) (simp_all add: writers_set_queue)
  qed simp_all
qed

lemma release_advances:
  assumes inv: "token_inv tk b h" and u: "b u = None" "0 < h u" and t: "t \<in> te_frame ` set (writers tk)"
  shows "owner (release sem tk) = Some t \<or>
    ahead t (writers (release sem tk)) + (if nesting_level tk \<le> 0 then 1 else 0) \<le> ahead t (writers tk)"
  using wakeup_ahead [OF release_idle [OF inv u] t, of sem] by (auto simp: release_def)

lemma renew_advances:
  assumes inv: "token_inv tk b h" and u: "b u = None" "0 < h u" and t: "t \<in> te_frame ` set (writers tk)"
    and pos: "pos \<noteq> 0" "strategy tk = -1" and r: "renew sem u pos tk = (tk', oc, c)"
  shows "owner tk' = Some t \<or> ahead t (writers tk') + 1 \<le> ahead t (writers tk)"
proof -
  have ne: "\<not> (writers tk = [] \<and> (in_use tk = Some WRITE_TOKEN \<or> readers tk = []))" using t by auto
  let ?q = "renew_queued u pos tk"
  have "writers ?q = writers tk \<or> writers ?q = writers tk @ [new_entry u (Some u)]"
    using pos by (cases "in_use tk = Some READ_TOKEN") (simp_all add: renew_queued_def writers_set_queue insert_entry_def)
  then have q: "ahead t (writers ?q) = ahead t (writers tk)" "t \<in> te_frame ` set (writers ?q)"
    using t ahead_append [OF t] by auto
  show ?thesis
    using r renew_eq [OF holder(1) [OF inv u] ne, of sem pos] wakeup_ahead [OF renew_idle [OF inv u, of pos] q(2), of sem] q(1)
    by (auto simp: ahead_wait simp del: queue_of_set_queue)
qed

lemma wake_advances:
  assumes inv: "token_inv tk b h" and c: "b u = Some c" and u: "u \<noteq> t" and t: "t \<in> te_frame ` set (writers tk)" "owner tk \<noteq> Some t"
    and s: "resume sem u c r tk = (tk', oc)"
  shows "owner tk' = Some t \<or> ahead t (writers tk') + (if r = W_ETIME \<and> owner tk = Some u then 1 else 0) \<le> ahead t (writers tk)"
proof -
  let ?op = "queue_of_call c"
  let ?tk1 = "set_queue ?op (end_wait u r (queue_of ?op tk)) tk"
  let ?tk2 = "set_queue ?op (remove_entry u (queue_of ?op ?tk1)) ?tk1\<lparr>waiters := waiters ?tk1 - 1\<rparr>"
  note eq = resume_eq [where r = r, OF inv c]
  have a1: "ahead t (writers ?tk1) = ahead t (writers tk)" by (rule ahead_wait)
  have "ahead t (writers ?tk2) \<le> ahead t (writers ?tk1)"
    using ahead_remove [OF u] by (simp add: writers_set_queue)
  then have a2: "ahead t (writers ?tk2) \<le> ahead t (writers tk)" using a1 by simp
  show ?thesis
  proof (cases "r = W_ETIME \<and> owner tk = Some u")
    case True
    have idle: "idle_inv ?tk2 (b(u := None)) (h(u := 0))"
      by (rule leave_idle [OF eq(1) c]) (use True in simp)
    obtain d where d: "b t = Some d" "queue_of_call d = WRITE_TOKEN"
      using t(1) queue_frame [OF token_invD(1) [OF inv], of _ WRITE_TOKEN] by auto
    then have "t \<in> te_frame ` set (writers ?tk2)"
      using idle u unfolding idle_inv_def queue_inv_def writers_queue [symmetric] by auto
    then show ?thesis
      using wakeup_ahead [OF idle, of t sem] a2 s eq(2) [where sem = sem] True by auto
  next
    case False
    then have "tk' = set_queue ?op (begin_wait u (queue_of ?op ?tk1)) ?tk1 \<or> tk' = ?tk2 \<or> (\<exists>m. tk' = ?tk2\<lparr>nesting_level := m\<rparr>)"
      using s eq(2) [where sem = sem] by (cases c) (auto split: if_splits)
    moreover have "writers (tk\<lparr>nesting_level := m\<rparr>) = writers tk" for m and tk :: token by simp
    ultimately have "ahead t (writers tk') \<le> ahead t (writers tk)"
      using a1 a2 ahead_wait(1) by (metis order_refl)
    then show ?thesis using False by auto
  qed
qed

text \<open>The events of a run in which nobody jumps the queue and \<open>t\<close> does not give up.\<close>

definition in_order :: "tid \<Rightarrow> event \<Rightarrow> bool" where
  "in_order t ev = (case ev of Strategy n \<Rightarrow> False | Renew u pos \<Rightarrow> pos \<noteq> 0 | Wake u r \<Rightarrow> u = t \<longrightarrow> r \<in> {W_OK, W_EINTR} | _ \<Rightarrow> True)"

lemma resume_strategy: "strategy (fst (resume sem u c r tk)) = strategy tk"
  by (simp add: resume_def Let_def split: call.split)

lemma apply_strategy:
  assumes "in_order t ev"
  shows "strategy (tok (fst (apply_event sem ev s))) = strategy (tok s)"
proof (cases ev)
  case (Wake u r)
  show ?thesis
    using resume_strategy [of sem u _ r "tok s"]
    by (auto simp: Wake apply_event_def split: option.splits outcome.splits prod.splits) (metis fst_conv)+
qed (use assms in \<open>auto simp: in_order_def apply_event_def shared_acquire_def release_def renew_def Let_def\<close>)

lemma apply_waits:
  assumes inv: "token_inv (tok s) (blocked s) (holds s)" and en: "enabled False sem s ev" and ord: "in_order t ev"
    and t: "waits_to_write s t" "owner (tok s) \<noteq> Some t"
  shows "waits_to_write (fst (apply_event sem ev s)) t"
proof -
  have n: "blocked s t \<noteq> None" using t(1) by (cases "blocked s t") (simp_all add: waits_to_write_def)
  have "blocked (fst (apply_event sem ev s)) t = blocked s t"
  proof (cases ev)
    case (Wake u r)
    obtain c where c: "blocked s u = Some c" using en by (auto simp: Wake enabled_def split: option.splits)
    have "u = t \<Longrightarrow> snd (resume sem u c r (tok s)) = Sleeps"
      using resume_eq(2) [OF inv c, of sem r] ord t(2) by (auto simp: Wake in_order_def)
    then show ?thesis
      using c by (auto simp: Wake apply_event_def split: outcome.splits prod.splits)
  qed (use n en in \<open>auto simp: enabled_def apply_event_def sleeps_in_def Let_def split: prod.splits\<close>)
  then show ?thesis using t(1) by (simp add: waits_to_write_def)
qed

lemma apply_advances:
  assumes inv: "token_inv (tok s) (blocked s) (holds s)" and en: "enabled False sem s ev" and ord: "in_order t ev"
    and t: "waits_to_write s t" "owner (tok s) \<noteq> Some t" and st: "strategy (tok s) = -1"
  shows "owner (tok (fst (apply_event sem ev s))) = Some t \<or>
    ahead t (writers (tok (fst (apply_event sem ev s)))) + (if hands_over s ev then 1 else 0) \<le> ahead t (writers (tok s))"
proof -
  obtain d where d: "blocked s t = Some d" "queue_of_call d = WRITE_TOKEN" "t \<in> te_frame ` set (writers (tok s))"
    using waits_frame [OF inv t(1)] .
  show ?thesis
  proof (cases ev)
    case (Acquire u poll op)
    obtain tk oc c where a: "shared_acquire u poll op (tok s) = (tk, oc, c)" by (metis prod_cases3)
    show ?thesis
      using acquire_advances [OF st d(3) a] a by (simp add: Acquire apply_event_def hands_over_def)
  next
    case (Release u)
    then show ?thesis
      using release_advances [OF inv _ _ d(3), of u sem] en by (simp add: apply_event_def hands_over_def enabled_def)
  next
    case (Renew u pos)
    obtain tk oc c where a: "renew sem u pos (tok s) = (tk, oc, c)" by (metis prod_cases3)
    have "hands_over s ev" using d(3) by (auto simp: Renew hands_over_def)
    then show ?thesis
      using renew_advances [OF inv _ _ d(3) _ st a] a ord en by (simp add: Renew apply_event_def enabled_def in_order_def)
  next
    case (Wake u r)
    obtain c where c: "blocked s u = Some c" using en by (auto simp: Wake enabled_def split: option.splits)
    obtain tk oc where a: "resume sem u c r (tok s) = (tk, oc)" by fastforce
    have tk: "tok (fst (apply_event sem ev s)) = tk"
      using c a by (simp add: Wake apply_event_def split: outcome.split)
    have h: "hands_over s ev \<longleftrightarrow> r = W_ETIME \<and> owner (tok s) = Some u"
      by (simp add: Wake hands_over_def)
    show ?thesis
    proof (cases "u = t")
      case False
      then show ?thesis using wake_advances [OF inv c False d(3) t(2) a] tk h by simp
    next
      case True
      then have r: "r \<in> {W_OK, W_EINTR}" using ord by (simp add: Wake in_order_def)
      have "tk = set_queue (queue_of_call c) (begin_wait u (queue_of (queue_of_call c) (set_queue (queue_of_call c)
          (end_wait u r (queue_of (queue_of_call c) (tok s))) (tok s))))
          (set_queue (queue_of_call c) (end_wait u r (queue_of (queue_of_call c) (tok s))) (tok s))"
        using resume_eq(2) [OF inv c, of sem r] a r t(2) True by simp
      then have "ahead t (writers tk) = ahead t (writers (tok s))"
        by (simp only: ahead_wait)
      then show ?thesis using tk h t(2) True r by auto
    qed
  next
    case (Strategy n)
    then show ?thesis using ord by (simp add: in_order_def)
  qed
qed

lemma bounded_waiting:
  assumes "system_inv s" and "run_enabled False sem evs s" and "\<forall>ev \<in> set evs. in_order t ev"
    and "waits_to_write s t" and "strategy (tok s) = -1" and "ahead t (writers (tok s)) < hand_overs sem evs s"
  shows "\<exists>n \<le> length evs. owner (tok (run sem (take n evs) s)) = Some t \<and> waits_to_write (run sem (take n evs) s) t"
  using assms
proof (induction evs arbitrary: s)
  case (Cons ev evs)
  let ?s = "fst (apply_event sem ev s)"
  have inv: "token_inv (tok s) (blocked s) (holds s)" using Cons.prems(1) by (simp add: system_inv_def)
  have en: "enabled False sem s ev" and ord: "in_order t ev" using Cons.prems(2,3) by simp_all
  show ?case
  proof (cases "owner (tok s) = Some t")
    case True
    then show ?thesis using Cons.prems(4) by (intro exI [of _ 0]) simp
  next
    case False
    have w: "waits_to_write ?s t" by (rule apply_waits [OF inv en ord Cons.prems(4) False])
    show ?thesis
    proof (cases "owner (tok ?s) = Some t")
      case True
      then show ?thesis using w by (intro exI [of _ 1]) simp
    next
      case o: False
      then have "ahead t (writers (tok ?s)) < hand_overs sem evs ?s"
        using apply_advances [OF inv en ord Cons.prems(4) False Cons.prems(5)] Cons.prems(6) by auto
      moreover have "system_inv ?s"
        using apply_event_inv(1) [OF Cons.prems(1) en] by (metis prod.collapse)
      moreover have "strategy (tok ?s) = -1" using apply_strategy [OF ord] Cons.prems(5) by simp
      ultimately obtain n where "n \<le> length evs" "owner (tok (run sem (take n evs) ?s)) = Some t" "waits_to_write (run sem (take n evs) ?s) t"
        using Cons.IH [of ?s] Cons.prems(2,3) w by auto
      then show ?thesis by (intro exI [of _ "Suc n"]) simp
    qed
  qed
qed simp

lemma chosen_takes:
  assumes inv: "token_inv (tok s) (blocked s) (holds s)" and c: "blocked s t = Some c" and o: "owner (tok s) = Some t"
  shows "has_token (fst (apply_event sem (Wake t W_OK) s)) t"
proof -
  have "thread_ok (tok s) (Some c) (holds s t) t"
    using token_invD(6) [OF inv, of t] c by simp
  then show ?thesis
    using resume_eq(2) [OF inv c, of sem W_OK] o c
    by (cases c) (auto simp: apply_event_def has_token_def thread_ok_def)
qed

text \<open>(C16) With the strategy FIFO a waiting writer is overtaken by nobody: in every run in which it does not give up,
  and nobody asks to be queued in front, once the token has been handed over more often than there are waiters ahead
  of it, it has been chosen, and its wait returns with the token.\<close>

theorem writer_waits_bounded:
  assumes "reachable False sem s" and "run_enabled False sem evs s" and "\<forall>ev \<in> set evs. in_order t ev"
    and "waits_to_write s t" and "strategy (tok s) = -1" and "ahead t (writers (tok s)) < hand_overs sem evs s"
  shows "\<exists>n \<le> length evs. owner (tok (run sem (take n evs) s)) = Some t \<and>
    has_token (fst (apply_event sem (Wake t W_OK) (run sem (take n evs) s))) t"
proof -
  obtain n where n: "n \<le> length evs" "owner (tok (run sem (take n evs) s)) = Some t" "waits_to_write (run sem (take n evs) s) t"
    using bounded_waiting [OF reachable_inv [OF assms(1)] assms(2-6)] by blast
  have en: "run_enabled False sem (take n evs) s"
    using assms(2) by (induction evs arbitrary: n s) (auto simp: take_Cons split: nat.split)
  have inv: "token_inv (tok s') (blocked s') (holds s')" if "s' = run sem (take n evs) s" for s'
    using reach_inv [OF run_reachable [OF assms(1) en]] that by simp
  obtain c where "blocked (run sem (take n evs) s) t = Some c"
    using n(3) by (auto simp: waits_to_write_def split: option.splits)
  then show ?thesis
    using chosen_takes [OF inv [OF refl] _ n(2)] n(1,2) by blast
qed

theorem writer_waits_bounded_witness:
  "\<exists>n \<le> 3. owner (tok (run True (take n [Release 1, Wake 2 W_OK, Release 2]) (contended 2))) = Some 3"
proof -
  let ?evs = "[Release 1, Wake 2 W_OK, Release 2]"
  have "run_enabled False True ?evs (contended 2)" by code_simp
  moreover have "\<forall>ev \<in> set ?evs. in_order 3 ev" by (simp add: in_order_def)
  moreover have "waits_to_write (contended 2) 3" by code_simp
  moreover have "strategy (tok (contended 2)) = -1" by (simp add: contended_def)
  moreover have "ahead 3 (writers (tok (contended 2))) < hand_overs True ?evs (contended 2)" by code_simp
  ultimately have "\<exists>n \<le> length ?evs. owner (tok (run True (take n ?evs) (contended 2))) = Some 3"
    using writer_waits_bounded [OF contended_reachable] by blast
  then show ?thesis by (simp only: list.size One_nat_def add_Suc add_0 numeral_3_eq_3)
qed

section \<open>No lost wake-up\<close>

text \<open>Every entry sleeps, and the one chosen has been signalled.\<close>

definition entry_ok :: "entry \<Rightarrow> bool" where
  "entry_ok e \<longleftrightarrow> te_waiting e \<and> (te_runable e \<longrightarrow> 0 < te_posts e)"

definition posts_ok :: "token \<Rightarrow> bool" where
  "posts_ok tk \<longleftrightarrow> (\<forall>op. \<forall>e \<in> set (queue_of op tk). entry_ok e)"

lemma posts_ok_set_queue:
  assumes "\<And>e. e \<in> set q \<Longrightarrow> entry_ok e" and "\<And>op' e. op' \<noteq> op \<Longrightarrow> e \<in> set (queue_of op' tk) \<Longrightarrow> entry_ok e"
  shows "posts_ok (set_queue op q tk)"
  using assms by (simp add: posts_ok_def)

lemma wakeup_entries:
  assumes "e \<in> set (queue_of op (wakeup_next_waiter sem tk))"
  shows "e \<in> set (queue_of op tk) \<or> (\<exists>f \<in> set (queue_of op tk). e = signal sem (f\<lparr>te_runable := True\<rparr>))"
proof (cases "\<forall>op. queue_of op tk = []")
  case True
  then show ?thesis using assms by (simp add: wakeup_empty)
next
  case False
  then obtain op' where "queue_of op' tk \<noteq> []" by blast
  then obtain f q where "queue_of (next_op tk) tk = f # q"
    "\<And>op. queue_of op (wakeup_next_waiter sem tk) = (if op = next_op tk then signal sem (f\<lparr>te_runable := True\<rparr>) # q else queue_of op tk)"
    by (rule wakeup_some) blast
  then show ?thesis using assms by (cases "op = next_op tk") auto
qed

lemma wakeup_posts: "posts_ok tk \<Longrightarrow> posts_ok (wakeup_next_waiter sem tk)"
  using wakeup_entries unfolding posts_ok_def by (fastforce simp: entry_ok_def signal_def)

lemma release_posts: "posts_ok tk \<Longrightarrow> posts_ok (release sem tk)"
  using wakeup_posts [of tk sem] by (simp add: release_def posts_ok_def)

lemma begin_wait_in:
  "e \<in> set (begin_wait t q) \<Longrightarrow> \<exists>f \<in> set q. e = (if te_frame f = t then f\<lparr>te_waiting := True\<rparr> else f)"
  by (auto simp: begin_wait_def)

lemma insert_entry_in: "e \<in> set (insert_entry x p q) \<Longrightarrow> e = x \<or> e \<in> set q"
proof -
  obtain a b where "q = a @ b" "insert_entry x p q = a @ x # b" by (rule insert_entry_split)
  then show "e \<in> set (insert_entry x p q) \<Longrightarrow> e = x \<or> e \<in> set q" by auto
qed

lemma acquire_posts:
  assumes "posts_ok tk" and "shared_acquire u poll op tk = (tk', oc, c)"
  shows "posts_ok tk'"
proof -
  have "entry_ok e" if "e \<in> set (begin_wait u (insert_entry (new_entry u (Some u)) p (queue_of op tk)))" for e p
    using begin_wait_in [OF that] assms(1) by (auto simp: posts_ok_def entry_ok_def new_entry_def dest!: insert_entry_in split: if_splits)
  then show ?thesis
    using assms by (auto simp: shared_acquire_def Let_def posts_ok_def split: if_splits)
qed

lemma renew_posts:
  assumes "posts_ok tk" and "owner tk = Some u" and "renew True u pos tk = (tk', oc, c)"
  shows "posts_ok tk'"
proof (cases "writers tk = [] \<and> (in_use tk = Some WRITE_TOKEN \<or> readers tk = [])")
  case True
  then show ?thesis using assms by (auto simp: renew_def)
next
  case False
  let ?q = "renew_queued u pos tk"
  let ?op = "if in_use tk = Some READ_TOKEN then READ_TOKEN else WRITE_TOKEN"
  have q: "entry_ok f \<or> (op = ?op \<and> f = new_entry u (Some u))" if "f \<in> set (queue_of op ?q)" for op f
    using that assms(1) unfolding renew_queued_def Let_def
    by (cases "op = ?op") (auto simp: posts_ok_def dest!: insert_entry_in)
  have w: "(te_waiting f \<or> (op = ?op \<and> te_frame f = u)) \<and> (te_runable f \<longrightarrow> 0 < te_posts f)"
    if "f \<in> set (queue_of op (wakeup_next_waiter True ?q))" for op f
    using wakeup_entries [OF that] q [of _ op] by (fastforce simp: entry_ok_def new_entry_def signal_def)
  have "tk' = set_queue ?op (begin_wait u (queue_of ?op (wakeup_next_waiter True ?q))) (wakeup_next_waiter True ?q)"
    using renew_eq [OF assms(2) False, of True pos] assms(3) by simp
  moreover have "entry_ok e" if e: "e \<in> set (begin_wait u (queue_of ?op (wakeup_next_waiter True ?q)))" for e
  proof -
    obtain f where f: "f \<in> set (queue_of ?op (wakeup_next_waiter True ?q))" "e = (if te_frame f = u then f\<lparr>te_waiting := True\<rparr> else f)"
      using begin_wait_in [OF e] by blast
    then show ?thesis
      using w [OF f(1)] by (cases "te_frame f = u") (simp_all add: entry_ok_def)
  qed
  moreover have "entry_ok e" if "op \<noteq> ?op" "e \<in> set (queue_of op (wakeup_next_waiter True ?q))" for op e
    using w [OF that(2)] that(1) by (simp add: entry_ok_def)
  ultimately show ?thesis
    by (simp only:) (rule posts_ok_set_queue)
qed

lemma end_wait_in:
  "e \<in> set (end_wait t r q) \<Longrightarrow> te_frame e \<noteq> t \<Longrightarrow> e \<in> set q"
  by (auto simp: end_wait_def split: if_splits)

lemma wake_posts:
  assumes inv: "token_inv tk b h" and c: "b u = Some c" and p: "posts_ok tk" and s: "resume sem u c r tk = (tk', oc)"
  shows "posts_ok tk'"
proof -
  let ?op = "queue_of_call c"
  let ?tk1 = "set_queue ?op (end_wait u r (queue_of ?op tk)) tk"
  let ?tk2 = "set_queue ?op (remove_entry u (queue_of ?op ?tk1)) ?tk1\<lparr>waiters := waiters ?tk1 - 1\<rparr>"
  note eq = resume_eq [where r = r, OF inv c]
  have other: "entry_ok e" if "e \<in> set (queue_of op ?tk1)" "te_frame e \<noteq> u" for op e
    using that p end_wait_in [of e u r "queue_of ?op tk"] by (cases "op = ?op") (simp_all add: posts_ok_def)
  have "distinct (map te_frame (queue_of ?op ?tk1))"
    using token_invD(1) [OF eq(1)] by (simp only: queue_inv_def)
  moreover have "te_frame e \<noteq> u" if op: "op \<noteq> ?op" and e: "e \<in> set (queue_of op tk)" for op e
  proof
    assume "te_frame e = u"
    moreover obtain d where "b (te_frame e) = Some d" "queue_of_call d = op"
      by (rule queue_frame [OF token_invD(1) [OF inv] e])
    ultimately show False using op c by simp
  qed
  moreover have "queue_of op ?tk2 = (if op = ?op then remove_entry u (queue_of ?op ?tk1) else queue_of op tk)" for op
    by simp
  ultimately have "entry_ok e" if "e \<in> set (queue_of op ?tk2)" for op e
    using that other [of e op] remove_entry_in [of "queue_of ?op ?tk1" e u] by (cases "op = ?op") simp_all
  then have p2: "posts_ok ?tk2"
    by (simp add: posts_ok_def)
  show ?thesis
  proof (cases "r \<in> {W_OK, W_EINTR} \<and> owner tk \<noteq> Some u")
    case True
    have tk': "tk' = set_queue ?op (begin_wait u (queue_of ?op ?tk1)) ?tk1"
      using s eq(2) [where sem = sem] True by auto
    have "entry_ok e" if e: "e \<in> set (begin_wait u (queue_of ?op ?tk1))" for e
    proof -
      obtain f where f: "f \<in> set (queue_of ?op ?tk1)" "e = (if te_frame f = u then f\<lparr>te_waiting := True\<rparr> else f)"
        using begin_wait_in [OF e] by blast
      then show ?thesis
        using other [OF f(1)] token_invD(2) [OF eq(1) f(1)] True by (auto simp: entry_ok_def)
    qed
    moreover have "entry_ok e" if "op \<noteq> ?op" "e \<in> set (queue_of op ?tk1)" for op e
      using p that by (simp add: posts_ok_def)
    ultimately show ?thesis
      unfolding tk' by (rule posts_ok_set_queue)
  next
    case False
    then have "tk' = ?tk2 \<or> tk' = wakeup_next_waiter sem ?tk2 \<or> (\<exists>m. tk' = ?tk2\<lparr>nesting_level := m\<rparr>)"
      using s eq(2) [where sem = sem] by (cases c) (auto split: if_splits)
    moreover have "posts_ok (tk\<lparr>nesting_level := m\<rparr>) = posts_ok tk" for m and tk :: token
      by (simp add: posts_ok_def)
    ultimately show ?thesis
      using p2 wakeup_posts by metis
  qed
qed

lemma apply_posts:
  assumes inv: "token_inv (tok s) (blocked s) (holds s)" and p: "posts_ok (tok s)" and en: "enabled False sem s ev"
    and r: "sem \<or> (\<forall>t pos. ev \<noteq> Renew t pos)"
  shows "posts_ok (tok (fst (apply_event sem ev s)))"
proof (cases ev)
  case (Acquire u poll op)
  obtain tk oc c where a: "shared_acquire u poll op (tok s) = (tk, oc, c)" by (metis prod_cases3)
  then show ?thesis using acquire_posts [OF p a] by (simp add: Acquire apply_event_def)
next
  case (Release u)
  then show ?thesis using release_posts [OF p] by (simp add: apply_event_def)
next
  case (Renew u pos)
  obtain tk oc c where a: "renew sem u pos (tok s) = (tk, oc, c)" by (metis prod_cases3)
  have "owner (tok s) = Some u" using holder(1) [OF inv] en by (simp add: Renew enabled_def)
  then show ?thesis using renew_posts [OF p] a r by (simp add: Renew apply_event_def)
next
  case (Wake u r)
  obtain c where c: "blocked s u = Some c" using en by (auto simp: Wake enabled_def split: option.splits)
  obtain tk oc where a: "resume sem u c r (tok s) = (tk, oc)" by fastforce
  show ?thesis
    using wake_posts [OF inv c p a] c a by (simp add: Wake apply_event_def split: outcome.split)
next
  case (Strategy n)
  then show ?thesis using p by (simp add: apply_event_def set_strategy_def posts_ok_def)
qed

lemma run_posts:
  assumes "system_inv s" and "posts_ok (tok s)" and "run_enabled False sem evs s" and "sem \<or> (\<forall>t pos. Renew t pos \<notin> set evs)"
  shows "posts_ok (tok (run sem evs s)) \<and> system_inv (run sem evs s)"
  using assms
proof (induction evs arbitrary: s)
  case (Cons ev evs)
  have "posts_ok (tok (fst (apply_event sem ev s)))"
    by (rule apply_posts) (use Cons.prems in \<open>auto simp: system_inv_def\<close>)
  moreover have "system_inv (fst (apply_event sem ev s))"
    using apply_event_inv(1) [OF Cons.prems(1)] Cons.prems(3) by (metis prod.collapse run_enabled.simps(2))
  ultimately show ?case using Cons.IH Cons.prems(3,4) by auto
qed simp



section \<open>Two ways to lose the token\<close>

text \<open>A thread was chosen, sleeps on a condition variable, and the signal is gone.\<close>

definition stuck :: "tid \<Rightarrow> system \<Rightarrow> bool" where
  "stuck t s \<longleftrightarrow> owner (tok s) = Some t \<and>
     (case blocked s t of None \<Rightarrow> False | Some c \<Rightarrow> te_posts (my_entry t (queue_of (queue_of_call c) (tok s))) = 0)"

lemma my_entry_insert: "te_frame x \<noteq> t \<Longrightarrow> my_entry t (insert_entry x p q) = my_entry t q"
proof -
  obtain a b where "q = a @ b" "insert_entry x p q = a @ x # b" by (rule insert_entry_split)
  then show "te_frame x \<noteq> t \<Longrightarrow> my_entry t (insert_entry x p q) = my_entry t q"
    by (simp add: my_entry_def)
qed

lemma my_entry_remove: "u \<noteq> t \<Longrightarrow> my_entry t (remove_entry u q) = my_entry t q"
  by (induction q) (auto simp: my_entry_def)

lemma my_entry_begin: "u \<noteq> t \<Longrightarrow> my_entry t (begin_wait u q) = my_entry t q"
  by (induction q) (auto simp: my_entry_def begin_wait_def)

lemma my_entry_end: "u \<noteq> t \<Longrightarrow> my_entry t (end_wait u r q) = my_entry t q"
  by (induction q) (auto simp: my_entry_def end_wait_def)

lemma my_entry_queue:
  assumes "u \<noteq> t"
  shows "my_entry t (queue_of op (set_queue op' (begin_wait u (queue_of op' tk)) tk)) = my_entry t (queue_of op tk)"
    "my_entry t (queue_of op (set_queue op' (end_wait u r (queue_of op' tk)) tk)) = my_entry t (queue_of op tk)"
    "my_entry t (queue_of op (set_queue op' (remove_entry u (queue_of op' tk)) tk)) = my_entry t (queue_of op tk)"
    "my_entry t (queue_of op (set_queue op' (insert_entry (new_entry u x) p (queue_of op' tk)) tk)) = my_entry t (queue_of op tk)"
  using assms by (simp_all add: my_entry_begin my_entry_end my_entry_remove my_entry_insert new_entry_def)

lemma stuckD:
  assumes "stuck t s"
  obtains c where "owner (tok s) = Some t" "blocked s t = Some c" "te_posts (my_entry t (queue_of (queue_of_call c) (tok s))) = 0"
  using assms by (auto simp: stuck_def split: option.splits)

lemma stuck_nobody:
  assumes "system_inv s" and "stuck t s"
  shows "\<not> has_token s u"
proof
  assume "has_token s u"
  then have "owner (tok s) = Some u" "blocked s u = None"
    using holder(1) [of "tok s" "blocked s" "holds s" u] assms(1) by (simp_all add: has_token_def system_inv_def)
  moreover obtain c where "owner (tok s) = Some t" "blocked s t = Some c"
    by (rule stuckD [OF assms(2)])
  ultimately show False by simp
qed

lemma stuck_step:
  assumes inv: "system_inv s" and st: "stuck t s" and en: "enabled False sem s ev" and ev: "\<forall>r. ev \<noteq> Wake t r"
  shows "stuck t (fst (apply_event sem ev s))"
proof -
  obtain c where c: "owner (tok s) = Some t" "blocked s t = Some c" "te_posts (my_entry t (queue_of (queue_of_call c) (tok s))) = 0"
    by (rule stuckD [OF st])
  have tinv: "token_inv (tok s) (blocked s) (holds s)" using inv by (simp add: system_inv_def)
  show ?thesis
  proof (cases ev)
    case (Acquire u poll op)
    then have u: "u \<noteq> t" "blocked s u = None" using en c(2) by (auto simp: enabled_def)
    have "in_use (tok s) \<noteq> None" using token_invD(3) [OF tinv] c(1) by simp
    then show ?thesis
      using c u my_entry_queue [OF u(1)] my_entry_begin [OF u(1)] my_entry_insert [of "new_entry u (Some u)" t]
      by (auto simp: Acquire apply_event_def shared_acquire_def stuck_def sleeps_in_def Let_def new_entry_def)
  next
    case (Release u)
    then show ?thesis using stuck_nobody [OF inv st, of u] en by (simp add: enabled_def has_token_def)
  next
    case (Renew u pos)
    then show ?thesis using stuck_nobody [OF inv st, of u] en by (simp add: enabled_def has_token_def)
  next
    case (Wake u r)
    then have u: "u \<noteq> t" using ev by auto
    obtain d where d: "blocked s u = Some d" using en by (auto simp: Wake enabled_def split: option.splits)
    let ?op = "queue_of_call d"
    let ?tk1 = "set_queue ?op (end_wait u r (queue_of ?op (tok s))) (tok s)"
    let ?tk2 = "set_queue ?op (remove_entry u (queue_of ?op ?tk1)) ?tk1\<lparr>waiters := waiters ?tk1 - 1\<rparr>"
    have "fst (resume sem u d r (tok s)) = set_queue ?op (begin_wait u (queue_of ?op ?tk1)) ?tk1 \<or> fst (resume sem u d r (tok s)) = ?tk2"
      using resume_eq(2) [OF tinv d, of sem r] c(1) u by (cases r) auto
    then have "my_entry t (queue_of op (fst (resume sem u d r (tok s)))) = my_entry t (queue_of op (tok s)) \<and>
      owner (fst (resume sem u d r (tok s))) = owner (tok s)" for op
    proof
      assume "fst (resume sem u d r (tok s)) = set_queue ?op (begin_wait u (queue_of ?op ?tk1)) ?tk1"
      then show ?thesis by (simp only: my_entry_queue [OF u] set_queue_fields simp_thms)
    next
      assume "fst (resume sem u d r (tok s)) = ?tk2"
      then show ?thesis by (simp only: my_entry_queue [OF u] queue_of_fields) simp
    qed
    then show ?thesis
      using c d u by (auto simp: Wake apply_event_def stuck_def split: outcome.splits prod.splits)
  next
    case (Strategy n)
    then show ?thesis using st by (simp add: apply_event_def stuck_def set_strategy_def split: option.splits)
  qed
qed

lemma renew_front_stuck:
  assumes inv: "token_inv (tok s) (blocked s) (holds s)" and t: "has_token s t"
    and w: "in_use (tok s) = Some WRITE_TOKEN" "writers (tok s) \<noteq> []"
  shows "stuck t (fst (apply_event False (Renew t 0) s))"
proof -
  have o: "owner (tok s) = Some t" using holder(1) [OF inv] t by (simp add: has_token_def)
  let ?q = "renew_queued t 0 (tok s)"
  have q: "writers ?q = new_entry t (Some t) # writers (tok s)"
    using w by (simp add: renew_queued_def writers_set_queue insert_entry_def)
  then have op: "next_op ?q = WRITE_TOKEN" by (simp add: next_op_def)
  have ne: "queue_of WRITE_TOKEN ?q \<noteq> []" using q by simp
  obtain e r where "queue_of (next_op ?q) ?q = e # r" "owner (wakeup_next_waiter False ?q) = te_thread e"
    "\<And>op. queue_of op (wakeup_next_waiter False ?q) =
      (if op = next_op ?q then signal False (e\<lparr>te_runable := True\<rparr>) # r else queue_of op ?q)"
    by (rule wakeup_some [OF ne, of False]) blast
  then have k: "owner (wakeup_next_waiter False ?q) = Some t"
    "queue_of WRITE_TOKEN (wakeup_next_waiter False ?q) = (new_entry t (Some t))\<lparr>te_runable := True\<rparr> # writers (tok s)"
    using q op by (simp_all add: new_entry_def signal_def del: writers_queue) (auto simp: queue_of_def)
  have "renew False t 0 (tok s) = (set_queue WRITE_TOKEN (begin_wait t (queue_of WRITE_TOKEN (wakeup_next_waiter False ?q)))
      (wakeup_next_waiter False ?q), Sleeps, Some (Renewing WRITE_TOKEN (nesting_level (tok s))))"
    using renew_eq [OF o, of False 0] w by simp
  then show ?thesis
    using k by (simp add: apply_event_def stuck_def sleeps_in_def queue_of_call_def my_entry_def begin_wait_def new_entry_def)
qed

text \<open>(C36) With a condition variable \<open>renew\<close> with the position 0, its default, can sleep for ever: while a writer
  waits, the holder queues itself in front, chooses itself, and signals its own entry before it waits on it. From
  then on no event of other threads signals it, it is the owner, and nobody has the token.\<close>

theorem renew_front_loses_signal:
  assumes "reachable False False s" and "has_token s t"
    and "in_use (tok s) = Some WRITE_TOKEN" and "writers (tok s) \<noteq> []"
    and "run_enabled False False evs (fst (apply_event False (Renew t 0) s))" and "\<forall>r. Wake t r \<notin> set evs"
  shows "stuck t (run False evs (fst (apply_event False (Renew t 0) s))) \<and>
    (\<forall>u. \<not> has_token (run False evs (fst (apply_event False (Renew t 0) s))) u)"
proof -
  have run: "system_inv (run False evs s) \<and> stuck t (run False evs s)"
    if "system_inv s" "stuck t s" "run_enabled False False evs s" "\<forall>r. Wake t r \<notin> set evs" for s evs
    using that
  proof (induction evs arbitrary: s)
    case (Cons ev evs)
    have "system_inv (fst (apply_event False ev s))"
      using apply_event_inv(1) [OF Cons.prems(1)] Cons.prems(3) by (metis prod.collapse run_enabled.simps(2))
    moreover have "stuck t (fst (apply_event False ev s))"
      by (rule stuck_step [OF Cons.prems(1,2)]) (use Cons.prems in auto)
    ultimately show ?case using Cons by simp
  qed simp
  have inv: "system_inv s" by (rule reachable_inv [OF assms(1)])
  have "enabled False False s (Renew t 0)" using assms(2) by (simp add: enabled_def has_token_def)
  then have "system_inv (fst (apply_event False (Renew t 0) s))"
    using apply_event_inv(1) [OF inv] by (metis prod.collapse)
  moreover have "stuck t (fst (apply_event False (Renew t 0) s))"
    using renew_front_stuck [OF _ assms(2-4)] inv by (simp add: system_inv_def)
  ultimately show ?thesis
    using run [OF _ _ assms(5,6)] stuck_nobody by blast
qed

theorem renew_front_loses_signal_witness:
  "\<not> has_token (run False [Acquire 4 False WRITE_TOKEN, Wake 2 W_EINTR] (fst (apply_event False (Renew 1 0) (contended 2)))) 1"
proof -
  let ?evs = "[Acquire 4 False WRITE_TOKEN, Wake 2 W_EINTR]"
  have "has_token (contended 2) 1" "in_use (tok (contended 2)) = Some WRITE_TOKEN" "writers (tok (contended 2)) \<noteq> []"
    by (simp_all add: contended_def has_token_def)
  moreover have "run_enabled False False ?evs (fst (apply_event False (Renew 1 0) (contended 2)))" by code_simp
  moreover have "\<forall>r. Wake 1 r \<notin> set ?evs" by simp
  ultimately show ?thesis
    using renew_front_loses_signal [OF contended_reachable] by blast
qed

text \<open>A chosen waiter whose wait fails with an error other than a timeout keeps the token without having it.\<close>

lemma wait_error_loses_token:
  assumes "reachable False sem s" and "blocked s t = Some c" and "owner (tok s) = Some t"
  defines "s' \<equiv> fst (apply_event sem (Wake t W_ERROR) s)"
  shows "owner (tok s') = Some t \<and> blocked s' t = None \<and> (\<forall>u. \<not> has_token s' u)"
proof -
  have inv: "token_inv (tok s) (blocked s) (holds s)" using reach_inv [OF assms(1)] .
  have "\<not> (blocked s u = None \<and> 0 < holds s u)" if "u \<noteq> t" for u
    using holder(1) [OF inv, of u] assms(3) that by auto
  then show ?thesis
    using resume_eq(2) [OF inv assms(2), of sem W_ERROR] assms(2,3)
    by (auto simp: s'_def apply_event_def has_token_def)
qed

end
