(* ===== verification/GIOP_Message.thy ===== *)
theory GIOP_Message
  imports CDR_Transfer
begin

text \<open>
  GIOP messages in the ORB (TAO/tao): the header that is written and formatted
  (GIOP_Message_Base.cpp), the state a received header is parsed into (GIOP_Message_State.cpp), the
  queued data around a received message (Queued_Data.cpp), and the stack of the fragments, their
  reassembly and their cancellation. The machine is little-endian; a message type is the octet the
  code casts to the enumeration.
\<close>

section \<open>Constants\<close>

abbreviation HEADER_LEN :: nat where "HEADER_LEN \<equiv> 12"
abbreviation MISSING_DATA_UNDEFINED :: nat where "MISSING_DATA_UNDEFINED \<equiv> 2 ^ 64 - 1"

abbreviation Request :: u8 where "Request \<equiv> 0"
abbreviation Reply :: u8 where "Reply \<equiv> 1"
abbreviation CancelRequest :: u8 where "CancelRequest \<equiv> 2"
abbreviation LocateRequest :: u8 where "LocateRequest \<equiv> 3"
abbreviation LocateReply :: u8 where "LocateReply \<equiv> 4"
abbreviation CloseConnection :: u8 where "CloseConnection \<equiv> 5"
abbreviation MessageError :: u8 where "MessageError \<equiv> 6"
abbreviation Fragment :: u8 where "Fragment \<equiv> 7"

section \<open>The state of a message\<close>

record giop_state =
  gs_major :: u8
  gs_minor :: u8
  gs_byte_order :: u8
  gs_type :: u8
  gs_payload :: u32
  gs_more :: bool
  gs_compressed :: bool

definition giop_state_new :: giop_state where
  "giop_state_new = \<lparr>gs_major = 1, gs_minor = 2, gs_byte_order = 0, gs_type = Request, gs_payload = 0,
     gs_more = False, gs_compressed = False\<rparr>"

text \<open>The sum is a \<open>size_t\<close>, the result a 32-bit number.\<close>

definition message_size :: "giop_state \<Rightarrow> u32" where
  "message_size st = of_nat (unat (gs_payload st) + HEADER_LEN)"

definition check_revision :: "u8 \<Rightarrow> u8 \<Rightarrow> bool" where
  "check_revision incoming_major incoming_minor =
     (let version_as_whole_num = unat incoming_major * 256 + unat incoming_minor
      in if version_as_whole_num > 0x0102 then False
         else version_as_whole_num \<in> {0x0100, 0x0101, 0x0102})"

definition parse_magic_bytes :: "u8 list \<Rightarrow> bool" where
  "parse_magic_bytes buf \<longleftrightarrow> (buf ! 0 = 0x5a \<or> buf ! 0 = 0x47) \<and> buf ! 1 = 0x49 \<and> buf ! 2 = 0x4f \<and> buf ! 3 = 0x50"

definition get_version_info :: "u8 list \<Rightarrow> giop_state \<Rightarrow> giop_state option" where
  "get_version_info buf st =
     (if \<not> check_revision (buf ! 4) (buf ! 5) then None
      else Some (st\<lparr>gs_minor := buf ! 5, gs_major := buf ! 4\<rparr>))"

definition get_byte_order_info :: "u8 list \<Rightarrow> giop_state \<Rightarrow> giop_state option" where
  "get_byte_order_info buf st =
     (if gs_minor st = 0 \<and> gs_major st = 1
      then let st = st\<lparr>gs_byte_order := buf ! 6\<rparr>
           in if gs_byte_order st \<noteq> 0 \<and> gs_byte_order st \<noteq> 1 then None else Some st
      else Some (st\<lparr>gs_byte_order := buf ! 6 AND 1, gs_more := (buf ! 6 AND 2 = 2), gs_compressed := (buf ! 0 = 0x5a)\<rparr>))"

definition read_ulong :: "giop_state \<Rightarrow> u8 list \<Rightarrow> u32" where
  "read_ulong st bs = (if \<not> gs_byte_order st \<noteq> 1 then of_mem (take 4 bs) else of_mem (swap_4 (take 4 bs)))"

text \<open>\<open>None\<close> where the code returns -1.\<close>

definition parse_message_header_i :: "u8 list \<Rightarrow> giop_state \<Rightarrow> giop_state option" where
  "parse_message_header_i buf st =
     (if \<not> parse_magic_bytes buf then None
      else do {
        st \<leftarrow> get_version_info buf st;
        st \<leftarrow> get_byte_order_info buf st;
        st \<leftarrow> Some (st\<lparr>gs_type := buf ! 7\<rparr>);
        st \<leftarrow> Some (st\<lparr>gs_payload := read_ulong st (drop 8 buf)\<rparr>);
        if gs_payload st = 0 \<and> gs_type st \<noteq> MessageError \<and> gs_type st \<noteq> CloseConnection then None
        else Some st })"

text \<open>The result 1 (too few octets) leaves the state as it is.\<close>

definition parse_message_header :: "u8 list \<Rightarrow> giop_state \<Rightarrow> (int \<times> giop_state)" where
  "parse_message_header incoming st =
     (if HEADER_LEN \<le> length incoming
      then case parse_message_header_i incoming st of None \<Rightarrow> (-1, st) | Some st \<Rightarrow> (0, st)
      else (1, st))"

section \<open>Writing a header\<close>

definition protocol_header :: "u8 \<Rightarrow> u8 \<Rightarrow> u8 \<Rightarrow> u8 list" where
  "protocol_header type major minor = [0x47, 0x49, 0x4f, 0x50, major, minor, 0, type, 0, 0, 0, 0]"

definition write_protocol_header :: "allocator \<Rightarrow> u8 \<Rightarrow> u8 \<Rightarrow> u8 \<Rightarrow> ocdr \<Rightarrow> (bool \<times> ocdr) option" where
  "write_protocol_header al type major minor msg = do {
     (_, msg) \<leftarrow> write_array al 0 (protocol_header type major minor) 1 1 HEADER_LEN (reset msg);
     Some (o_good msg, msg) }"

text \<open>A store into the first block of the stream, at an offset from its first octet.\<close>

definition poke :: "nat \<Rightarrow> u8 list \<Rightarrow> ocdr \<Rightarrow> ocdr" where
  "poke i bs oc =
     (let f = (\<lambda>b. b\<lparr>b_data := take (b_rd b + i) (b_data b) @ bs @ drop (b_rd b + i + length bs) (b_data b)\<rparr>)
      in if o_done oc = [] then oc\<lparr>o_cur := f (o_cur oc)\<rparr> else oc\<lparr>o_done := f (hd (o_done oc)) # tl (o_done oc)\<rparr>)"

definition peek :: "nat \<Rightarrow> ocdr \<Rightarrow> u8" where
  "peek i oc = (let b = hd (chain oc) in b_data b ! (b_rd b + i))"

definition set_giop_flags :: "bool \<Rightarrow> ocdr \<Rightarrow> ocdr" where
  "set_giop_flags more_fragments msg =
     (let major = peek 4 msg; minor = peek 5 msg;
          flags = peek 6 msg OR (1 XOR (if o_swap msg then 1 else 0));
          flags = (if \<not> (major \<le> 1 \<and> minor = 0) then flags OR push_bit 1 (if more_fragments then 1 else 0) else flags)
      in poke 6 [flags] msg)"

definition format_message :: "bool \<Rightarrow> ocdr \<Rightarrow> ocdr" where
  "format_message more_fragments stream =
     (let stream = set_giop_flags more_fragments stream;
          total_len = total_length (chain stream);
          bodylen = (of_int (int total_len - int HEADER_LEN) :: u32)
      in if \<not> o_swap_on_write stream then poke 8 (to_mem 4 bodylen) stream
         else if \<not> o_swap stream then poke 8 (to_mem 4 bodylen) stream
         else poke 8 (swap_4 (to_mem 4 bodylen)) stream)"

section \<open>Received messages\<close>

text \<open>\<open>qd_msg\<close> is the chain of message blocks; the link to the next node is the list it is in.\<close>

record queued_data =
  qd_msg :: "blk list"
  qd_missing :: nat
  qd_state :: giop_state

definition qd_block :: "queued_data \<Rightarrow> blk" where
  "qd_block qd = hd (qd_msg qd)"

abbreviation qd_type :: "queued_data \<Rightarrow> u8" where "qd_type qd \<equiv> gs_type (qd_state qd)"

text \<open>The octets of the message.\<close>

definition qd_octets :: "queued_data \<Rightarrow> u8 list" where
  "qd_octets qd = concat (map content (qd_msg qd))"

text \<open>
  \<open>clone_mb_nocopy_size\<close> followed by \<open>ACE_CDR::consolidate\<close>; the call of the allocator that fails is
  the one for the new block. The result of the consolidation is not looked at.
\<close>

definition qd_consolidate :: "allocator \<Rightarrow> nat \<Rightarrow> queued_data \<Rightarrow> (int \<times> queued_data) option" where
  "qd_consolidate al n qd =
     (if gs_more (qd_state qd) \<and> tl (qd_msg qd) \<noteq> []
      then do {
        aligned_size \<leftarrow> first_size (total_length (qd_msg qd) + MAX_ALIGNMENT);
        case al n aligned_size of
          None \<Rightarrow> Some (-1, qd)
        | Some (base, data) \<Rightarrow> do {
            dest \<leftarrow> Some (blk_mb_align \<lparr>b_base = base, b_data = data, b_cur = length data, b_rd = 0, b_wr = 0\<rparr>);
            (_, dest) \<leftarrow> consolidate_into al (Suc n) dest (qd_msg qd);
            Some (0, qd\<lparr>qd_msg := [dest], qd_state := (qd_state qd)\<lparr>gs_more := False\<rparr>\<rparr>) } }
      else Some (0, qd))"

section \<open>Fragments\<close>

text \<open>
  The request id of a message: \<open>contexts\<close> reads a list of service contexts (the operator is
  generated from the IDL of the ORB). The stream looks at the first block of the message.
\<close>

definition message_cdr :: "queued_data \<Rightarrow> icdr" where
  "message_cdr qd =
     (let b = qd_block qd
      in \<lparr>i_blk = b\<lparr>b_rd := b_rd b + HEADER_LEN\<rparr>, i_swap = (gs_byte_order (qd_state qd) \<noteq> 1), i_swap_on_read = True,
          i_good = True, i_major = unat (gs_major (qd_state qd)), i_minor = unat (gs_minor (qd_state qd))\<rparr>)"

definition parse_request_id :: "(icdr \<Rightarrow> bool \<times> icdr) \<Rightarrow> queued_data \<Rightarrow> u32 option" where
  "parse_request_id contexts qd =
     (let input_cdr = message_cdr qd
      in if gs_major (qd_state qd) = 1 \<and> (gs_minor (qd_state qd) = 0 \<or> gs_minor (qd_state qd) = 1)
         then if qd_type qd \<in> {Request, Reply}
              then case contexts input_cdr of (ok, input_cdr) \<Rightarrow> if ok then fst (read_4 input_cdr) else None
              else if qd_type qd \<in> {CancelRequest, LocateRequest, LocateReply} then fst (read_4 input_cdr)
              else None
         else if qd_type qd \<in> {Request, Reply, Fragment, CancelRequest, LocateRequest, LocateReply}
              then fst (read_4 input_cdr)
              else None)"

text \<open>The parsers of GIOP 1.0 and 1.1 give 0, the parser of 1.2 gives 4; other versions throw.\<close>

definition fragment_header_length :: "u8 \<Rightarrow> u8 \<Rightarrow> nat option" where
  "fragment_header_length major minor =
     (if major = 1 then if minor = 0 \<or> minor = 1 then Some 0 else if minor = 2 then Some 4 else None else None)"

text \<open>The tail is appended to the message in front of it, without its headers.\<close>

definition join :: "nat \<Rightarrow> queued_data \<Rightarrow> queued_data \<Rightarrow> queued_data" where
  "join header_adjustment head tail =
     head\<lparr>qd_msg := qd_block head # (qd_block tail)\<lparr>b_rd := b_rd (qd_block tail) + header_adjustment\<rparr> # tl (qd_msg tail)\<rparr>"

fun join_11 :: "nat \<Rightarrow> queued_data \<Rightarrow> queued_data list \<Rightarrow> queued_data list \<Rightarrow> queued_data \<times> queued_data list" where
  "join_11 adj tail reverse_stack [] = (tail, reverse_stack)"
| "join_11 adj tail reverse_stack (head # fragments) =
     (if gs_more (qd_state head) \<and> gs_major (qd_state head) = 1 \<and> gs_minor (qd_state head) = 1 \<and> adj \<le> blk_length (qd_block head)
      then join_11 adj (join adj head tail) reverse_stack fragments
      else join_11 adj tail (head # reverse_stack) fragments)"

text \<open>A fragment whose request id cannot be read ends the loop with an error: \<open>Inl\<close> the fragments not
  popped yet (those on the reverse stack are released).\<close>

fun join_12 :: "(icdr \<Rightarrow> bool \<times> icdr) \<Rightarrow> nat \<Rightarrow> u32 \<Rightarrow> queued_data \<Rightarrow> queued_data list \<Rightarrow> queued_data list \<Rightarrow>
    queued_data list + queued_data \<times> queued_data list" where
  "join_12 contexts adj request_id tail reverse_stack [] = Inr (tail, reverse_stack)"
| "join_12 contexts adj request_id tail reverse_stack (head # fragments) =
     (if gs_more (qd_state head) \<and> 1 \<le> gs_major (qd_state head) \<and> 2 \<le> gs_minor (qd_state head) \<and> adj \<le> blk_length (qd_block head)
      then case parse_request_id contexts head of
             None \<Rightarrow> Inl fragments
           | Some head_request_id \<Rightarrow>
               if request_id = head_request_id
               then join_12 contexts adj request_id (join adj head tail) reverse_stack fragments
               else join_12 contexts adj request_id tail (head # reverse_stack) fragments
      else join_12 contexts adj request_id tail (head # reverse_stack) fragments)"

text \<open>
  The fragment stack has its top in front. The result is -1 (error), 0 (the message) or 1 (stored);
  the version handed to \<open>fragment_header_length\<close> is the number of the major version, from which C++
  makes a version with the default minor number 2.
\<close>

definition consolidate_fragmented_message ::
  "allocator \<Rightarrow> nat \<Rightarrow> (icdr \<Rightarrow> bool \<times> icdr) \<Rightarrow> queued_data \<Rightarrow> queued_data list \<Rightarrow>
    (int \<times> queued_data option \<times> queued_data list) option" where
  "consolidate_fragmented_message al n contexts qd fragments =
     (let major = gs_major (qd_state qd); minor = gs_minor (qd_state qd)
      in if major = 1 \<and> minor = 0 then Some (-1, None, fragments)
         else if gs_more (qd_state qd) then Some (1, None, qd # fragments)
         else do {
           fragment_header \<leftarrow> fragment_header_length major 2;
           header_adjustment \<leftarrow> Some (HEADER_LEN + fragment_header);
           if blk_length (qd_block qd) < header_adjustment then Some (-1, None, fragments)
           else case
               (if major = 1 \<and> minor = 1 then Inr (join_11 header_adjustment qd [] fragments)
                else case parse_request_id contexts qd of
                       None \<Rightarrow> Inl fragments
                     | Some request_id \<Rightarrow> join_12 contexts header_adjustment request_id qd [] fragments) of
             Inl fragments \<Rightarrow> Some (-1, None, fragments)
           | Inr (tail, reverse_stack) \<Rightarrow> do {
               (r, msg) \<leftarrow> qd_consolidate al n tail;
               if r = -1 then Some (-1, None, rev reverse_stack)
               else Some (0, Some msg, rev reverse_stack) } })"

text \<open>\<open>discard_fragmented_message\<close> walks the fragments in the order of their arrival.\<close>

fun discard :: "(icdr \<Rightarrow> bool \<times> icdr) \<Rightarrow> u32 \<Rightarrow> bool \<Rightarrow> queued_data list \<Rightarrow> queued_data list \<Rightarrow> queued_data list" where
  "discard contexts cancel_id discard_all [] fragments = fragments"
| "discard contexts cancel_id discard_all (head # reverse_stack) fragments =
     (let giop11 = (gs_major (qd_state head) = 1 \<and> gs_minor (qd_state head) \<le> 1);
          id_matches = (parse_request_id contexts head = Some cancel_id)
      in if giop11 \<and> qd_type head \<noteq> Fragment \<and> id_matches then discard contexts cancel_id True reverse_stack fragments
         else if giop11 \<and> discard_all then discard contexts cancel_id discard_all reverse_stack fragments
         else if 1 \<le> gs_major (qd_state head) \<and> 2 \<le> gs_minor (qd_state head) \<and> id_matches
         then discard contexts cancel_id discard_all reverse_stack fragments
         else discard contexts cancel_id discard_all reverse_stack (head # fragments))"

definition discard_fragmented_message :: "(icdr \<Rightarrow> bool \<times> icdr) \<Rightarrow> queued_data \<Rightarrow> queued_data list \<Rightarrow> int \<times> queued_data list" where
  "discard_fragmented_message contexts cancel_request fragments =
     (case parse_request_id contexts cancel_request of
        None \<Rightarrow> (-1, fragments)
      | Some cancel_id \<Rightarrow> (0, discard contexts cancel_id False (rev fragments) []))"

end
