(* ===== verification/GIOP_Fragments.thy ===== *)
theory GIOP_Fragments
  imports GIOP_Message
begin

text \<open>
  The reassembly of fragmented messages: what the chain of blocks that \<open>join\<close> builds holds, its
  consolidation into one block, and which fragments are taken from the stack.
\<close>

section \<open>Chains of blocks\<close>

lemma content_skip: "content (b\<lparr>b_rd := b_rd b + k\<rparr>) = drop k (content b)"
  by (simp add: content_def blk_length_def drop_take add.commute diff_diff_left)

lemma length_content_min: "length (content b) = min (blk_length b) (length (b_data b) - b_rd b)"
  by (simp add: content_def)

definition chain_ok :: "blk list \<Rightarrow> bool" where
  "chain_ok bs \<longleftrightarrow> bs \<noteq> [] \<and> list_all blk_ok bs"

lemma total_length_content: "list_all blk_ok bs \<Longrightarrow> total_length bs = length (concat (map content bs))"
  by (induction bs) (simp_all add: length_content)

text \<open>The memory of a block, from its base to the last address a pointer into it can have.\<close>

definition extent :: "blk \<Rightarrow> nat \<times> nat" where
  "extent b = (b_base b, b_base b + blk_end b)"

definition apart :: "nat \<Rightarrow> nat \<Rightarrow> blk \<Rightarrow> bool" where
  "apart base sz b \<longleftrightarrow> base + sz \<le> fst (extent b) \<or> snd (extent b) \<le> base"

lemma extent_rd [simp]: "extent (b\<lparr>b_rd := k\<rparr>) = extent b"
  by (simp add: extent_def blk_end_def)

lemma consolidate_copies:
  assumes "b_rd d \<le> b_wr d" "b_cur d \<le> length (b_data d)" "b_wr d + length (concat (map content bs)) \<le> b_cur d"
    and "list_all blk_ok bs" "\<forall>b \<in> set bs. apart (b_base d) (b_cur d) b"
  shows "content (fold (\<lambda>i d. if b_base d + b_wr d \<noteq> b_base i + b_rd i then blk_copy (content i) d
      else d\<lparr>b_wr := b_wr d + blk_length i\<rparr>) bs d) = content d @ concat (map content bs)
    \<and> blk_ok (fold (\<lambda>i d. if b_base d + b_wr d \<noteq> b_base i + b_rd i then blk_copy (content i) d
      else d\<lparr>b_wr := b_wr d + blk_length i\<rparr>) bs d)"
  using assms
proof (induction bs arbitrary: d)
  case Nil
  then show ?case by (simp add: blk_ok_def blk_end_def)
next
  case (Cons i bs)
  let ?c = "content i"
  have ok: "blk_ok i" using Cons.prems(4) by simp
  have fits: "length ?c \<le> blk_space d" "b_wr d + 0 + length ?c \<le> length (b_data d)"
    using Cons.prems(2,3) by (simp_all add: blk_space_def)
  have c: "blk_copy ?c d = d\<lparr>b_wr := b_wr d + 0 + length ?c,
      b_data := take (b_wr d + 0) (b_data d) @ ?c @ drop (b_wr d + 0 + length ?c) (b_data d)\<rparr>"
    using fits(1) by (simp add: blk_copy_def)
  have step: "(if b_base d + b_wr d \<noteq> b_base i + b_rd i then blk_copy ?c d else d\<lparr>b_wr := b_wr d + blk_length i\<rparr>) = blk_copy ?c d"
  proof (cases "b_base d + b_wr d = b_base i + b_rd i")
    case True
    have "b_base d + b_cur d \<le> b_base i \<or> b_base i + blk_end i \<le> b_base d" using Cons.prems(5) by (simp add: apart_def extent_def)
    then have "length ?c = 0"
    proof
      assume "b_base d + b_cur d \<le> b_base i"
      then have "b_cur d \<le> b_wr d" using True by simp
      then show "length ?c = 0" using Cons.prems(3) by (simp del: length_0_conv)
    next
      assume "b_base i + blk_end i \<le> b_base d"
      then have "blk_end i \<le> b_rd i" using True by simp
      then show "length ?c = 0" using ok by (simp add: length_content blk_ok_def blk_length_def)
    qed
    moreover from this have "blk_length i = 0" using ok by (simp only: length_content)
    ultimately have "?c = []" "blk_length i = 0" by simp_all
    then show ?thesis by (simp add: blk_copy_def)
  qed simp
  have "content (blk_copy ?c d) = content d @ ?c"
    unfolding c by (subst content_append) (use fits Cons.prems in \<open>simp_all add: blk_ok_def blk_end_def\<close>)
  moreover have "b_rd (blk_copy ?c d) \<le> b_wr (blk_copy ?c d)" "b_cur (blk_copy ?c d) \<le> length (b_data (blk_copy ?c d))"
    "b_wr (blk_copy ?c d) + length (concat (map content bs)) \<le> b_cur (blk_copy ?c d)"
    "\<forall>b \<in> set bs. apart (b_base (blk_copy ?c d)) (b_cur (blk_copy ?c d)) b"
    unfolding c using Cons.prems fits by simp_all
  ultimately show ?case
    using Cons.IH [of "blk_copy ?c d"] Cons.prems(4) step by simp
qed

lemma consolidate_into_content:
  assumes bs: "chain_ok bs" and apart: "\<forall>b \<in> set bs. apart base sz b" and base: "8 dvd base"
    and sz: "first_size (total_length bs + MAX_ALIGNMENT) = Some sz" and d: "length data = sz"
  obtains dest where "consolidate_into al n (blk_mb_align \<lparr>b_base = base, b_data = data, b_cur = length data, b_rd = 0, b_wr = 0\<rparr>) bs
      = Some (0, dest)" "content dest = concat (map content bs)" "blk_ok dest"
proof -
  let ?off = "(b_base (hd bs) + b_rd (hd bs)) mod 8"
  let ?d = "\<lparr>b_base = base, b_data = data, b_cur = sz, b_rd = ?off, b_wr = ?off\<rparr>"
  have le: "total_length bs + MAX_ALIGNMENT \<le> sz" using first_size_sound [OF sz] by simp
  have start: "blk_mb_align \<lparr>b_base = base, b_data = data, b_cur = length data, b_rd = 0, b_wr = 0\<rparr>
      = \<lparr>b_base = base, b_data = data, b_cur = sz, b_rd = 0, b_wr = 0\<rparr>"
    using base d by (simp add: mb_align_8)
  let ?f = "\<lambda>i d. if b_base d + b_wr d \<noteq> b_base i + b_rd i then blk_copy (content i) d else d\<lparr>b_wr := b_wr d + blk_length i\<rparr>"
  have "consolidate_into al n \<lparr>b_base = base, b_data = data, b_cur = sz, b_rd = 0, b_wr = 0\<rparr> bs = Some (0, fold ?f bs ?d)"
    using bs sz d base by (simp add: consolidate_into_def chain_ok_def blk_resize_def blk_end_def Let_def dvd_eq_mod_eq_0)
  moreover have off: "?off < 8" by simp
  then have "b_wr ?d + length (concat (map content bs)) \<le> b_cur ?d"
    using le total_length_content [of bs] bs by (simp add: chain_ok_def)
  then have "content (fold ?f bs ?d) = content ?d @ concat (map content bs) \<and> blk_ok (fold ?f bs ?d)"
    by (intro consolidate_copies) (use bs apart d in \<open>simp_all add: chain_ok_def\<close>)
  moreover have "content ?d = []" by (simp add: content_def blk_length_def)
  ultimately show ?thesis using that start by simp
qed

section \<open>Joining fragments\<close>

text \<open>The octets of the first message and those of the others behind their headers.\<close>

fun assemble :: "nat \<Rightarrow> u8 list list \<Rightarrow> u8 list" where
  "assemble adj [] = []"
| "assemble adj (f # fs) = f @ concat (map (drop adj) fs)"

lemma assemble_snoc: "fs \<noteq> [] \<Longrightarrow> assemble adj (fs @ [g]) = assemble adj fs @ drop adj g"
  by (cases fs) simp_all

lemma assemble_nested:
  assumes "adj \<le> length f"
  shows "assemble adj (fs @ [assemble adj (f # gs)]) = assemble adj (fs @ f # gs)"
  using assms by (cases fs) simp_all

definition frag_ok :: "nat \<Rightarrow> queued_data \<Rightarrow> bool" where
  "frag_ok adj q \<longleftrightarrow> (\<exists>b. qd_msg q = [b] \<and> blk_ok b \<and> adj \<le> blk_length b)"

lemma frag_okD:
  assumes "frag_ok adj q"
  shows "qd_octets q = content (qd_block q)" "blk_ok (qd_block q)" "adj \<le> blk_length (qd_block q)" "qd_msg q = [qd_block q]"
    "adj \<le> length (qd_octets q)" "chain_ok (qd_msg q)"
  using assms by (auto simp: frag_ok_def qd_octets_def qd_block_def length_content chain_ok_def)

lemma join_octets:
  assumes h: "frag_ok adj h" and t: "chain_ok (qd_msg t)" "adj \<le> blk_length (qd_block t)"
  shows "qd_octets (join adj h t) = assemble adj [qd_octets h, qd_octets t]" "chain_ok (qd_msg (join adj h t))"
    "adj \<le> blk_length (qd_block (join adj h t))" "qd_state (join adj h t) = qd_state h" "tl (qd_msg (join adj h t)) \<noteq> []"
    "extent ` set (qd_msg (join adj h t)) \<subseteq> extent ` set (qd_msg h @ qd_msg t)"
proof -
  obtain b bs where b: "qd_msg t = b # bs" "blk_ok b" "list_all blk_ok bs" using t(1) by (cases "qd_msg t") (auto simp: chain_ok_def)
  have adj: "adj \<le> blk_length b" using t(2) b(1) by (simp add: qd_block_def)
  then have "blk_ok (b\<lparr>b_rd := b_rd b + adj\<rparr>)" using b(2) by (auto simp: blk_ok_def blk_length_def blk_end_def)
  then show "chain_ok (qd_msg (join adj h t))" using frag_okD(2) [OF h] b by (simp add: join_def chain_ok_def qd_block_def)
  show "qd_octets (join adj h t) = assemble adj [qd_octets h, qd_octets t]"
    using frag_okD(1) [OF h] b adj by (simp add: join_def qd_octets_def qd_block_def content_skip length_content)
  show "extent ` set (qd_msg (join adj h t)) \<subseteq> extent ` set (qd_msg h @ qd_msg t)"
  proof -
    have "extent ` set (qd_msg h) = {extent (qd_block h)}" by (subst frag_okD(4) [OF h]) simp
    then show ?thesis using b(1) by (auto simp: join_def qd_block_def image_Un)
  qed
  show "adj \<le> blk_length (qd_block (join adj h t))" using frag_okD(3) [OF h] by (simp add: join_def qd_block_def)
qed (simp_all add: join_def)

definition frag_12 :: "(icdr \<Rightarrow> bool \<times> icdr) \<Rightarrow> queued_data \<Rightarrow> bool" where
  "frag_12 contexts h \<longleftrightarrow> frag_ok 16 h \<and> gs_more (qd_state h) \<and> gs_major (qd_state h) = 1 \<and> gs_minor (qd_state h) = 2
     \<and> parse_request_id contexts h \<noteq> None"

text \<open>The fragments of a request, those that came last in front.\<close>

abbreviation of_request :: "(icdr \<Rightarrow> bool \<times> icdr) \<Rightarrow> u32 \<Rightarrow> queued_data list \<Rightarrow> queued_data list" where
  "of_request contexts rid fs \<equiv> filter (\<lambda>h. parse_request_id contexts h = Some rid) fs"

abbreviation of_others :: "(icdr \<Rightarrow> bool \<times> icdr) \<Rightarrow> u32 \<Rightarrow> queued_data list \<Rightarrow> queued_data list" where
  "of_others contexts rid fs \<equiv> filter (\<lambda>h. parse_request_id contexts h \<noteq> Some rid) fs"

lemma join_12_result:
  assumes "list_all (frag_12 contexts) fs" and "chain_ok (qd_msg tail)" and "16 \<le> blk_length (qd_block tail)"
  shows "\<exists>t. join_12 contexts 16 rid tail rs fs = Inr (t, rev (of_others contexts rid fs) @ rs)
    \<and> qd_octets t = assemble 16 (rev (map qd_octets (of_request contexts rid fs)) @ [qd_octets tail]) \<and> chain_ok (qd_msg t)
    \<and> (if of_request contexts rid fs = [] then t = tail
       else qd_state t = qd_state (last (of_request contexts rid fs)) \<and> tl (qd_msg t) \<noteq> [])
    \<and> extent ` set (qd_msg t) \<subseteq> extent ` set (concat (map qd_msg (tail # fs)))"
  using assms
proof (induction fs arbitrary: tail rs)
  case (Cons h fs)
  have h: "frag_12 contexts h" and fs: "list_all (frag_12 contexts) fs" using Cons.prems(1) by simp_all
  have f: "frag_ok 16 h" using h by (simp add: frag_12_def)
  have cond: "gs_more (qd_state h) \<and> 1 \<le> gs_major (qd_state h) \<and> 2 \<le> gs_minor (qd_state h) \<and> 16 \<le> blk_length (qd_block h)"
    using h frag_okD(3) [OF f] by (simp add: frag_12_def)
  obtain k where k: "parse_request_id contexts h = Some k" using h by (auto simp: frag_12_def)
  show ?case
  proof (cases "k = rid")
    case True
    note j = join_octets [OF f Cons.prems(2,3)]
    obtain t where t: "join_12 contexts 16 rid (join 16 h tail) rs fs = Inr (t, rev (of_others contexts rid fs) @ rs)"
      "qd_octets t = assemble 16 (rev (map qd_octets (of_request contexts rid fs)) @ [qd_octets (join 16 h tail)])" "chain_ok (qd_msg t)"
      "if of_request contexts rid fs = [] then t = join 16 h tail
       else qd_state t = qd_state (last (of_request contexts rid fs)) \<and> tl (qd_msg t) \<noteq> []"
      "extent ` set (qd_msg t) \<subseteq> extent ` set (concat (map qd_msg (join 16 h tail # fs)))"
      using Cons.IH [OF fs j(2,3)] by blast
    have e: "extent ` set (qd_msg t) \<subseteq> extent ` set (concat (map qd_msg (tail # h # fs)))"
      using t(5) j(6) unfolding list.map concat.simps set_append image_Un by blast
    have "qd_octets t = assemble 16 (rev (map qd_octets (of_request contexts rid fs)) @ [qd_octets h, qd_octets tail])"
      unfolding t(2) j(1) by (rule assemble_nested [OF frag_okD(5) [OF f]])
    moreover have "join_12 contexts 16 rid tail rs (h # fs) = join_12 contexts 16 rid (join 16 h tail) rs fs"
      using cond k True by simp
    moreover have "qd_state t = qd_state (last (h # of_request contexts rid fs)) \<and> tl (qd_msg t) \<noteq> []"
      using t(4) j(4,5) by (cases "of_request contexts rid fs = []") auto
    ultimately show ?thesis using t(1,3) e k True by (intro exI [of _ t]) simp
  next
    case False
    obtain t where t: "join_12 contexts 16 rid tail (h # rs) fs = Inr (t, rev (of_others contexts rid fs) @ h # rs)"
      "qd_octets t = assemble 16 (rev (map qd_octets (of_request contexts rid fs)) @ [qd_octets tail])" "chain_ok (qd_msg t)"
      "if of_request contexts rid fs = [] then t = tail
       else qd_state t = qd_state (last (of_request contexts rid fs)) \<and> tl (qd_msg t) \<noteq> []"
      "extent ` set (qd_msg t) \<subseteq> extent ` set (concat (map qd_msg (tail # fs)))"
      using Cons.IH [OF fs Cons.prems(2,3)] by blast
    have e: "extent ` set (qd_msg t) \<subseteq> extent ` set (concat (map qd_msg (tail # h # fs)))"
      using t(5) unfolding list.map concat.simps set_append image_Un by blast
    moreover have "join_12 contexts 16 rid tail rs (h # fs) = join_12 contexts 16 rid tail (h # rs) fs"
      using cond k False by simp
    ultimately show ?thesis using t(1-4) k False by (intro exI [of _ t]) simp
  qed
qed simp

text \<open>In GIOP 1.1 every fragment on the stack belongs to the message.\<close>

definition frag_11 :: "queued_data \<Rightarrow> bool" where
  "frag_11 h \<longleftrightarrow> frag_ok 16 h \<and> gs_more (qd_state h) \<and> gs_major (qd_state h) = 1 \<and> gs_minor (qd_state h) = 1"

lemma join_11_result:
  assumes "list_all frag_11 fs" and "chain_ok (qd_msg tail)" and "16 \<le> blk_length (qd_block tail)"
  shows "\<exists>t. join_11 16 tail rs fs = (t, rs) \<and> qd_octets t = assemble 16 (rev (map qd_octets fs) @ [qd_octets tail]) \<and> chain_ok (qd_msg t)
    \<and> (if fs = [] then t = tail else qd_state t = qd_state (last fs) \<and> tl (qd_msg t) \<noteq> [])
    \<and> extent ` set (qd_msg t) \<subseteq> extent ` set (concat (map qd_msg (tail # fs)))"
  using assms
proof (induction fs arbitrary: tail)
  case (Cons h fs)
  have h: "frag_11 h" and fs: "list_all frag_11 fs" using Cons.prems(1) by simp_all
  have f: "frag_ok 16 h" using h by (simp add: frag_11_def)
  have cond: "gs_more (qd_state h) \<and> gs_major (qd_state h) = 1 \<and> gs_minor (qd_state h) = 1 \<and> 16 \<le> blk_length (qd_block h)"
    using h frag_okD(3) [OF f] by (simp add: frag_11_def)
  note j = join_octets [OF f Cons.prems(2,3)]
  obtain t where t: "join_11 16 (join 16 h tail) rs fs = (t, rs)"
    "qd_octets t = assemble 16 (rev (map qd_octets fs) @ [qd_octets (join 16 h tail)])" "chain_ok (qd_msg t)"
    "if fs = [] then t = join 16 h tail else qd_state t = qd_state (last fs) \<and> tl (qd_msg t) \<noteq> []"
    "extent ` set (qd_msg t) \<subseteq> extent ` set (concat (map qd_msg (join 16 h tail # fs)))"
    using Cons.IH [OF fs j(2,3)] by blast
  have "qd_octets t = assemble 16 (rev (map qd_octets fs) @ [qd_octets h, qd_octets tail])"
    unfolding t(2) j(1) by (rule assemble_nested [OF frag_okD(5) [OF f]])
  moreover have "extent ` set (qd_msg t) \<subseteq> extent ` set (concat (map qd_msg (tail # h # fs)))"
    using t(5) j(6) unfolding list.map concat.simps set_append image_Un by blast
  moreover have "qd_state t = qd_state (last (h # fs)) \<and> tl (qd_msg t) \<noteq> []"
    using t(4) j(4,5) by (cases "fs = []") auto
  ultimately show ?case using t(1,3) cond by (intro exI [of _ t]) simp
qed simp

section \<open>Consolidation of a message\<close>

text \<open>What is asked of memory: it is granted, and new memory lies apart from the blocks in use.\<close>

definition grants :: "allocator \<Rightarrow> nat \<Rightarrow> queued_data list \<Rightarrow> bool" where
  "grants al n qs \<longleftrightarrow> (\<forall>sz. \<exists>base data. al n sz = Some (base, data) \<and> length data = sz \<and> 8 dvd base
     \<and> (\<forall>b \<in> set (concat (map qd_msg qs)). apart base sz b))"

lemma apart_extent: "extent ` set bs \<subseteq> extent ` set cs \<Longrightarrow> \<forall>b \<in> set cs. apart base sz b \<Longrightarrow> \<forall>b \<in> set bs. apart base sz b"
proof
  fix b assume e: "extent ` set bs \<subseteq> extent ` set cs" and c: "\<forall>b \<in> set cs. apart base sz b" and b: "b \<in> set bs"
  obtain c where "c \<in> set cs" "extent c = extent b" using e b by (metis imageE image_eqI subsetD)
  then show "apart base sz b" using c by (metis apart_def)
qed

lemma qd_consolidate_octets:
  assumes ok: "chain_ok (qd_msg t)" and more: "gs_more (qd_state t)" and two: "tl (qd_msg t) \<noteq> []" and al: "grants al n qs"
    and e: "extent ` set (qd_msg t) \<subseteq> extent ` set (concat (map qd_msg qs))"
    and small: "length (qd_octets t) + 8 \<le> 2 ^ 64 - LINEAR_GROWTH_CHUNK"
  obtains b where "qd_consolidate al n t = Some (0, t\<lparr>qd_msg := [b], qd_state := (qd_state t)\<lparr>gs_more := False\<rparr>\<rparr>)"
    "content b = qd_octets t" "blk_ok b"
proof -
  have "total_length (qd_msg t) = length (qd_octets t)"
    using total_length_content ok by (simp add: chain_ok_def qd_octets_def)
  then obtain sz where sz: "first_size (total_length (qd_msg t) + MAX_ALIGNMENT) = Some sz"
    using first_size_ok [of "total_length (qd_msg t) + MAX_ALIGNMENT"] small by auto
  obtain base data where m: "al n sz = Some (base, data)" "length data = sz" "8 dvd base" "\<forall>b \<in> set (concat (map qd_msg qs)). apart base sz b"
    using al unfolding grants_def by blast
  obtain dest where "consolidate_into al (Suc n) (blk_mb_align \<lparr>b_base = base, b_data = data, b_cur = length data, b_rd = 0, b_wr = 0\<rparr>) (qd_msg t)
      = Some (0, dest)" "content dest = concat (map content (qd_msg t))" "blk_ok dest"
    by (rule consolidate_into_content [OF ok apart_extent [OF e m(4)] m(3) sz m(2)])
  then show ?thesis using that [of dest] more two sz m(1) by (simp add: qd_consolidate_def qd_octets_def)
qed

lemma last_12: "of_request contexts rid fs \<noteq> [] \<Longrightarrow> list_all (frag_12 contexts) fs \<Longrightarrow>
  gs_more (qd_state (last (of_request contexts rid fs)))"
  using last_in_set [of "of_request contexts rid fs"] by (auto simp: list_all_iff frag_12_def)

lemma length_assemble_le: "length (assemble adj fs) \<le> sum_list (map length fs)"
proof (cases fs)
  case (Cons f gs)
  have "length (concat (map (drop adj) gs)) \<le> sum_list (map length gs)" by (induction gs) auto
  then show ?thesis using Cons by simp
qed simp

section \<open>Properties\<close>

text \<open>
  (C12) When the last fragment of a GIOP 1.2 message arrives, the message handed on consists of its
  first part, headers included, followed by the bodies of its other fragments in the order of their
  arrival, in one block; fragments of other requests stay on the stack, in their order.
\<close>
theorem fragments_reassembled:
  assumes "list_all (frag_12 contexts) fragments" and "frag_ok 16 qd" and "\<not> gs_more (qd_state qd)"
    and "gs_major (qd_state qd) = 1" and "gs_minor (qd_state qd) = 2" and "parse_request_id contexts qd = Some rid"
    and "grants al n (qd # fragments)"
    and "sum_list (map (\<lambda>q. length (qd_octets q)) (qd # fragments)) + 8 \<le> 2 ^ 64 - LINEAR_GROWTH_CHUNK"
  shows "\<exists>msg b. consolidate_fragmented_message al n contexts qd fragments
      = Some (0, Some msg, filter (\<lambda>h. parse_request_id contexts h \<noteq> Some rid) fragments)
    \<and> qd_msg msg = [b] \<and> blk_ok b \<and> \<not> gs_more (qd_state msg)
    \<and> content b = assemble 16 (rev (map qd_octets (filter (\<lambda>h. parse_request_id contexts h = Some rid) fragments)) @ [qd_octets qd])"
proof -
  note q = frag_okD [OF assms(2)]
  let ?ms = "of_request contexts rid fragments"
  obtain t where t: "join_12 contexts 16 rid qd [] fragments = Inr (t, rev (of_others contexts rid fragments) @ [])"
    "qd_octets t = assemble 16 (rev (map qd_octets ?ms) @ [qd_octets qd])" "chain_ok (qd_msg t)"
    "if ?ms = [] then t = qd else qd_state t = qd_state (last ?ms) \<and> tl (qd_msg t) \<noteq> []"
    "extent ` set (qd_msg t) \<subseteq> extent ` set (concat (map qd_msg (qd # fragments)))"
    using join_12_result [OF assms(1) q(6,3), of rid "[]"] by blast
  have len: "\<not> blk_length (qd_block qd) < HEADER_LEN + 4" using q(3) by simp
  have run: "consolidate_fragmented_message al n contexts qd fragments = do {
      (r, msg) \<leftarrow> qd_consolidate al n t;
      if r = -1 then Some (-1, None, rev (rev (of_others contexts rid fragments) @ []))
      else Some (0, Some msg, rev (rev (of_others contexts rid fragments) @ [])) }"
    using assms(3-6) len t(1) by (simp add: consolidate_fragmented_message_def fragment_header_length_def Let_def del: append_Nil2 rev_append)
  have small: "length (qd_octets t) + 8 \<le> 2 ^ 64 - LINEAR_GROWTH_CHUNK"
  proof -
    have "length (qd_octets t) \<le> sum_list (map length (rev (map qd_octets ?ms) @ [qd_octets qd]))"
      unfolding t(2) by (rule length_assemble_le)
    moreover have "sum_list (map length (rev (map qd_octets ?ms))) \<le> sum_list (map (\<lambda>q. length (qd_octets q)) fragments)"
      unfolding rev_map [symmetric] sum_list_rev map_map comp_def by (induction fragments) auto
    ultimately show ?thesis using assms(8) by simp
  qed
  show ?thesis
  proof (cases "?ms = []")
    case True
    then have "t = qd" using t(4) by simp
    then have "qd_consolidate al n t = Some (0, qd)" using assms(3) by (simp add: qd_consolidate_def)
    then show ?thesis using run t(2) q True assms(3) \<open>t = qd\<close> by (intro exI [of _ qd] exI [of _ "qd_block qd"]) simp
  next
    case False
    have more: "gs_more (qd_state t)" using t(4) False last_12 [OF False assms(1)] by simp
    have two: "tl (qd_msg t) \<noteq> []" using t(4) False by simp
    obtain b where "qd_consolidate al n t = Some (0, t\<lparr>qd_msg := [b], qd_state := (qd_state t)\<lparr>gs_more := False\<rparr>\<rparr>)"
      "content b = qd_octets t" "blk_ok b"
      by (rule qd_consolidate_octets [OF t(3) more two assms(7) t(5) small])
    then show ?thesis using run t(2) by (intro exI [of _ "t\<lparr>qd_msg := [b], qd_state := (qd_state t)\<lparr>gs_more := False\<rparr>\<rparr>"] exI [of _ b]) simp
  qed
qed

text \<open>Two fragments of request 5, one of request 6 between them, for the witnesses.\<close>

definition test_frag :: "u8 \<Rightarrow> bool \<Rightarrow> nat \<Rightarrow> u8 list \<Rightarrow> queued_data" where
  "test_frag minor mf base body =
     \<lparr>qd_msg = [\<lparr>b_base = base, b_data = replicate 12 0 @ body, b_cur = 12 + length body, b_rd = 0, b_wr = 12 + length body\<rparr>],
      qd_missing = 0,
      qd_state = \<lparr>gs_major = 1, gs_minor = minor, gs_byte_order = 1, gs_type = Fragment, gs_payload = of_nat (length body),
        gs_more = mf, gs_compressed = False\<rparr>\<rparr>"

definition test_memory :: allocator where
  "test_memory n sz = Some (1048576, replicate sz 0)"

lemma test_frag_ok: "k \<le> 12 + length body \<Longrightarrow> frag_ok k (test_frag minor mf base body)"
  by (simp add: frag_ok_def test_frag_def blk_ok_def blk_end_def blk_length_def)

lemma test_frag_octets: "qd_octets (test_frag minor mf base body) = replicate 12 0 @ body"
  by (simp add: qd_octets_def test_frag_def content_def blk_length_def)

lemma test_grants: "\<forall>q \<in> set qs. \<exists>minor mf base body. q = test_frag minor mf base body \<and> base + 12 + length body \<le> 1048576 \<Longrightarrow>
  grants test_memory n qs"
  by (force simp: grants_def test_memory_def apart_def extent_def blk_end_def test_frag_def)

theorem fragments_reassembled_witness:
  "\<exists>msg b. consolidate_fragmented_message test_memory 0 (\<lambda>c. (True, c)) (test_frag 2 False 64 [5, 0, 0, 0, 99])
      [test_frag 2 True 128 [6, 0, 0, 0, 55], test_frag 2 True 0 [5, 0, 0, 0, 77, 88]]
    = Some (0, Some msg, [test_frag 2 True 128 [6, 0, 0, 0, 55]])
    \<and> qd_msg msg = [b] \<and> content b = replicate 12 0 @ [5, 0, 0, 0, 77, 88, 99]"
proof -
  let ?c = "\<lambda>c :: icdr. (True, c)" and ?q = "test_frag 2 False 64 [5, 0, 0, 0, 99]"
  let ?o = "test_frag 2 True 128 [6, 0, 0, 0, 55]" and ?f = "test_frag 2 True 0 [5, 0, 0, 0, 77, 88]"
  have ids: "parse_request_id ?c ?q = Some 5" "parse_request_id ?c ?o = Some 6" "parse_request_id ?c ?f = Some 5"
    by code_simp+
  have fr: "list_all (frag_12 ?c) [?o, ?f]"
    using ids test_frag_ok by (simp add: frag_12_def) (simp add: test_frag_def)
  have st: "\<not> gs_more (qd_state ?q)" "gs_major (qd_state ?q) = 1" "gs_minor (qd_state ?q) = 2" by (simp_all add: test_frag_def)
  have al: "grants test_memory 0 [?q, ?o, ?f]" by (rule test_grants) force
  have small: "sum_list (map (\<lambda>q. length (qd_octets q)) [?q, ?o, ?f]) + 8 \<le> 2 ^ 64 - LINEAR_GROWTH_CHUNK"
    by (simp add: test_frag_octets)
  have q: "frag_ok 16 ?q" by (rule test_frag_ok) simp
  show ?thesis
    using fragments_reassembled [OF fr q st ids(1) al small] ids
    by (auto simp: test_frag_octets numeral_eq_Suc)
qed



text \<open>
  (C38) A GIOP 1.1 message loses octets: its fragments have no header of their own behind the GIOP
  header, but the length that is skipped is the one of GIOP 1.2, so four octets of the body of every
  fragment behind the first are missing from the message.
\<close>
theorem giop11_fragments_lose_octets:
  assumes "list_all frag_11 fragments" and "fragments \<noteq> []" and "frag_ok 16 qd" and "\<not> gs_more (qd_state qd)"
    and "gs_major (qd_state qd) = 1" and "gs_minor (qd_state qd) = 1" and "grants al n (qd # fragments)"
    and "sum_list (map (\<lambda>q. length (qd_octets q)) (qd # fragments)) + 8 \<le> 2 ^ 64 - LINEAR_GROWTH_CHUNK"
  shows "fragment_header_length 1 1 = Some 0
    \<and> (\<exists>msg b. consolidate_fragmented_message al n contexts qd fragments = Some (0, Some msg, []) \<and> qd_msg msg = [b]
      \<and> content b = assemble 16 (rev (map qd_octets fragments) @ [qd_octets qd])
      \<and> length (content b) + 4 * length fragments = length (assemble 12 (rev (map qd_octets fragments) @ [qd_octets qd])))"
proof -
  note q = frag_okD [OF assms(3)]
  obtain t where t: "join_11 16 qd [] fragments = (t, [])"
    "qd_octets t = assemble 16 (rev (map qd_octets fragments) @ [qd_octets qd])" "chain_ok (qd_msg t)"
    "qd_state t = qd_state (last fragments)" "tl (qd_msg t) \<noteq> []"
    "extent ` set (qd_msg t) \<subseteq> extent ` set (concat (map qd_msg (qd # fragments)))"
    using join_11_result [OF assms(1) q(6,3), of "[]"] assms(2) by auto
  have len: "\<not> blk_length (qd_block qd) < HEADER_LEN + 4" using q(3) by simp
  have run: "consolidate_fragmented_message al n contexts qd fragments = do {
      (r, msg) \<leftarrow> qd_consolidate al n t;
      if r = -1 then Some (-1, None, rev []) else Some (0, Some msg, rev []) }"
    using assms(4-6) len t(1) by (simp add: consolidate_fragmented_message_def fragment_header_length_def Let_def del: rev.simps)
  have "length (qd_octets t) \<le> sum_list (map length (rev (map qd_octets fragments) @ [qd_octets qd]))"
    unfolding t(2) by (rule length_assemble_le)
  then have small: "length (qd_octets t) + 8 \<le> 2 ^ 64 - LINEAR_GROWTH_CHUNK"
    using assms(8) by (simp add: rev_map [symmetric] sum_list_rev comp_def)
  have more: "gs_more (qd_state t)" using t(4) assms(1,2) by (simp add: list_all_iff frag_11_def)
  obtain b where b: "qd_consolidate al n t = Some (0, t\<lparr>qd_msg := [b], qd_state := (qd_state t)\<lparr>gs_more := False\<rparr>\<rparr>)"
    "content b = qd_octets t"
    by (rule qd_consolidate_octets [OF t(3) more t(5) assms(7) t(6) small])
  have lens: "length (concat (map (drop 16) fs)) + 4 * length fs = length (concat (map (drop 12) fs))"
    if "list_all (\<lambda>f. 16 \<le> length f) fs" for fs :: "u8 list list"
    using that by (induction fs) auto
  have "list_all (\<lambda>f. 16 \<le> length f) (rev (map qd_octets fragments) @ [qd_octets qd])"
    using assms(1) q(5) frag_okD(5) by (auto simp: list_all_iff frag_11_def)
  then have "length (assemble 16 (rev (map qd_octets fragments) @ [qd_octets qd])) + 4 * length fragments
      = length (assemble 12 (rev (map qd_octets fragments) @ [qd_octets qd]))"
  proof (cases "rev (map qd_octets fragments)")
    case (Cons f fs)
    moreover from this have "length fragments = Suc (length fs)" by (metis length_Cons length_map length_rev)
    moreover assume "list_all (\<lambda>f. 16 \<le> length f) (rev (map qd_octets fragments) @ [qd_octets qd])"
    ultimately show ?thesis using lens [of "fs @ [qd_octets qd]"] by simp linarith
  qed (use assms(2) in simp)
  then show ?thesis
    using run b t(2) by (simp add: fragment_header_length_def)
qed

theorem giop11_fragments_lose_octets_witness:
  "\<exists>msg b. consolidate_fragmented_message test_memory 0 (\<lambda>c. (True, c)) (test_frag 1 False 64 [5, 6, 7, 8, 99])
      [test_frag 1 True 0 [1, 2, 3, 4]] = Some (0, Some msg, [])
    \<and> qd_msg msg = [b] \<and> content b = replicate 12 0 @ [1, 2, 3, 4, 99]"
proof -
  let ?q = "test_frag 1 False 64 [5, 6, 7, 8, 99]" and ?f = "test_frag 1 True 0 [1, 2, 3, 4]"
  have fr: "list_all frag_11 [?f]" using test_frag_ok by (simp add: frag_11_def) (simp add: test_frag_def)
  have st: "\<not> gs_more (qd_state ?q)" "gs_major (qd_state ?q) = 1" "gs_minor (qd_state ?q) = 1" by (simp_all add: test_frag_def)
  have al: "grants test_memory 0 [?q, ?f]" by (rule test_grants) force
  have q: "frag_ok 16 ?q" by (rule test_frag_ok) simp
  have "sum_list (map (\<lambda>q. length (qd_octets q)) [?q, ?f]) + 8 \<le> 2 ^ 64 - LINEAR_GROWTH_CHUNK"
    by (simp add: test_frag_octets)
  from giop11_fragments_lose_octets [OF fr _ q st al this, of "\<lambda>c. (True, c)"] show ?thesis
    by (auto simp: test_frag_octets numeral_eq_Suc)
qed

end
