(* ===== verification/GIOP_Header.thy ===== *)
theory GIOP_Header
  imports GIOP_Message
begin

text \<open>
  The header of a GIOP message, from the stream that writes it to the state it is parsed into, and
  what the 32-bit size of a message does for the largest bodies.
\<close>

section \<open>Stores into the first block\<close>

lemma content_poke:
  assumes "blk_ok b" and "i + length bs \<le> blk_length b"
  shows "content (b\<lparr>b_data := take (b_rd b + i) (b_data b) @ bs @ drop (b_rd b + i + length bs) (b_data b)\<rparr>)
    = take i (content b) @ bs @ drop (i + length bs) (content b)"
proof -
  let ?d = "b_data b" and ?r = "b_rd b" and ?n = "b_wr b - b_rd b"
  have len: "?r + i + length bs \<le> length ?d" "i + length bs \<le> ?n" using assms by (auto simp: blk_ok_def blk_end_def blk_length_def)
  let ?x = "drop ?r ?d" and ?b = "b\<lparr>b_data := take (?r + i) ?d @ bs @ drop (?r + i + length bs) ?d\<rparr>"
  have store: "drop ?r (take (?r + i) ?d @ bs @ drop (?r + i + length bs) ?d) = take i ?x @ bs @ drop (i + length bs) ?x"
    using len by (simp add: take_drop add.commute add.left_commute)
  have "content ?b = take ?n (take i ?x @ bs @ drop (i + length bs) ?x)"
    unfolding store [symmetric] by (simp add: content_def blk_length_def)
  also have "\<dots> = take i (take ?n ?x) @ bs @ drop (i + length bs) (take ?n ?x)"
  proof -
    have "i \<le> length ?x" "length (take i ?x) = i" using len by simp_all
    then have "take ?n (take i ?x @ bs @ drop (i + length bs) ?x) = take i ?x @ bs @ take (?n - (i + length bs)) (drop (i + length bs) ?x)"
      using len(2) by (simp add: add.assoc)
    then show ?thesis using len(2) by (simp add: min_def drop_take)
  qed
  finally show ?thesis by (simp add: content_def blk_length_def)
qed

lemma chain_poke: "chain (poke i bs oc) = (hd (chain oc))\<lparr>b_data := take (b_rd (hd (chain oc)) + i) (b_data (hd (chain oc))) @ bs @
    drop (b_rd (hd (chain oc)) + i + length bs) (b_data (hd (chain oc)))\<rparr> # tl (chain oc)"
  by (cases "o_done oc") (simp_all add: chain_def poke_def Let_def)

lemma written_cons: "written oc = content (hd (chain oc)) @ concat (map content (tl (chain oc)))"
  by (cases "chain oc") (simp_all add: written_def chain_def)

text \<open>The header of a stream whose first block holds it.\<close>

definition has_header :: "u8 list \<Rightarrow> u8 list \<Rightarrow> ocdr \<Rightarrow> bool" where
  "has_header hs body oc \<longleftrightarrow> length hs = 12 \<and> list_all blk_ok (chain oc) \<and> 12 \<le> blk_length (hd (chain oc)) \<and> written oc = hs @ body"

lemma has_header_first:
  assumes "has_header hs body oc"
  shows "take 12 (content (hd (chain oc))) = hs" "drop 12 (content (hd (chain oc))) @ concat (map content (tl (chain oc))) = body"
    "blk_ok (hd (chain oc))"
proof -
  have "chain oc \<noteq> []" by (simp add: chain_def)
  then show ok: "blk_ok (hd (chain oc))" using assms by (simp add: has_header_def list_all_iff)
  have "12 \<le> length (content (hd (chain oc)))" using assms ok by (simp add: has_header_def length_content)
  moreover have "content (hd (chain oc)) @ concat (map content (tl (chain oc))) = hs @ body"
    using assms written_cons [of oc] by (simp add: has_header_def)
  moreover have "length hs = 12" using assms by (simp add: has_header_def)
  ultimately show "take 12 (content (hd (chain oc))) = hs" "drop 12 (content (hd (chain oc))) @ concat (map content (tl (chain oc))) = body"
    by (metis append_eq_append_conv_if append_eq_conv_conj take_append)+
qed

lemma has_header_poke:
  assumes h: "has_header hs body oc" and i: "i + length bs \<le> 12"
  shows "has_header (take i hs @ bs @ drop (i + length bs) hs) body (poke i bs oc)"
proof -
  let ?b = "hd (chain oc)"
  let ?b' = "?b\<lparr>b_data := take (b_rd ?b + i) (b_data ?b) @ bs @ drop (b_rd ?b + i + length bs) (b_data ?b)\<rparr>"
  note f = has_header_first [OF h]
  have len: "length hs = 12" "12 \<le> blk_length ?b" using h by (simp_all add: has_header_def)
  have c: "content ?b' = take i (content ?b) @ bs @ drop (i + length bs) (content ?b)"
    by (rule content_poke [OF f(3)]) (use len i in simp)
  have split: "content ?b = hs @ drop 12 (content ?b)" using f(1) by (metis append_take_drop_id)
  have "content ?b' = (take i hs @ bs @ drop (i + length bs) hs) @ drop 12 (content ?b)"
    unfolding c by (subst (1 2) split) (use i len in simp)
  then have "written (poke i bs oc) = (take i hs @ bs @ drop (i + length bs) hs) @ body"
    using f(2) by (simp add: written_cons chain_poke)
  moreover have "b_rd ?b + i + length bs \<le> length (b_data ?b)"
    using f(3) i len unfolding blk_ok_def blk_end_def blk_length_def by linarith
  then have "length (b_data ?b') = length (b_data ?b)" by simp
  then have "blk_ok ?b'" using f(3) unfolding blk_ok_def blk_end_def by simp
  moreover have "list_all blk_ok (tl (chain oc))" using h by (cases "chain oc") (auto simp: has_header_def)
  moreover have "12 \<le> blk_length ?b'" using len(2) by (simp add: blk_length_def)
  ultimately show ?thesis using i len(1) by (simp add: has_header_def chain_poke)
qed

lemma has_header_peek:
  assumes h: "has_header hs body oc" and i: "i < 12"
  shows "peek i oc = hs ! i"
proof -
  let ?b = "hd (chain oc)"
  have "12 \<le> blk_length ?b" using h by (simp add: has_header_def)
  then have "hs ! i = content ?b ! i" using has_header_first(1) [OF h] i by (metis nth_take)
  also have "\<dots> = b_data ?b ! (b_rd ?b + i)"
    using \<open>12 \<le> blk_length ?b\<close> has_header_first(3) [OF h] i by (simp add: content_def blk_ok_def blk_end_def blk_length_def)
  finally show ?thesis by (simp add: peek_def Let_def)
qed

lemma poke_fields [simp]: "o_swap (poke i bs oc) = o_swap oc" "o_swap_on_write (poke i bs oc) = o_swap_on_write oc"
  by (simp_all add: poke_def Let_def)

definition header_flags :: "bool \<Rightarrow> bool \<Rightarrow> u8 \<Rightarrow> u8" where
  "header_flags swap more_fragments minor = (if swap then 0 else 1) OR (if more_fragments \<and> minor \<noteq> 0 then 2 else 0)"

lemma revision_cases: "check_revision major minor \<longleftrightarrow> major = 1 \<and> minor \<in> {0, 1, 2}"
proof -
  have m: "unat major < 256" "unat minor < 256" using unsigned_less [of major] unsigned_less [of minor] by simp_all
  have "check_revision major minor \<longleftrightarrow> unat major * 256 + unat minor \<in> {256, 257, 258}"
    by (auto simp: check_revision_def Let_def)
  also have "\<dots> \<longleftrightarrow> unat major = 1 \<and> unat minor \<in> {0, 1, 2}"
  proof -
    consider "unat major = 0" | "unat major = 1" | "2 \<le> unat major" by linarith
    then show ?thesis by cases (use m in auto)
  qed
  also have "\<dots> \<longleftrightarrow> major = 1 \<and> minor \<in> {0, 1, 2}" by (auto simp: word_unat_eq_iff)
  finally show ?thesis .
qed

lemma format_message_header:
  assumes h: "has_header (protocol_header type major minor) body oc" and rev: "check_revision major minor"
  shows "has_header ([0x47, 0x49, 0x4f, 0x50, major, minor, header_flags (o_swap oc) more_fragments minor, type]
      @ (if o_swap_on_write oc \<and> o_swap oc then swap_4 (to_mem 4 (of_nat (length body) :: u32)) else to_mem 4 (of_nat (length body) :: u32)))
    body (format_message more_fragments oc)"
proof -
  have peeks: "peek 4 oc = major" "peek 5 oc = minor" "peek 6 oc = 0"
    using has_header_peek [OF h] by (simp_all add: protocol_header_def numeral_eq_Suc)
  have maj: "major = 1" using rev by (simp add: revision_cases)
  have flags: "set_giop_flags more_fragments oc = poke 6 [header_flags (o_swap oc) more_fragments minor] oc"
    by (simp add: set_giop_flags_def peeks maj header_flags_def push_bit_eq_mult Let_def)
  let ?o = "set_giop_flags more_fragments oc"
  have o: "has_header [0x47, 0x49, 0x4f, 0x50, major, minor, header_flags (o_swap oc) more_fragments minor, type, 0, 0, 0, 0] body ?o"
    unfolding flags using has_header_poke [OF h, of 6 "[header_flags (o_swap oc) more_fragments minor]"]
    by (simp add: protocol_header_def numeral_eq_Suc)
  have "total_length (chain ?o) = length (written ?o)" using o by (intro total_length_written) (simp add: has_header_def)
  then have total: "total_length (chain ?o) = 12 + length body" using o by (simp add: has_header_def)
  have s: "o_swap ?o = o_swap oc" "o_swap_on_write ?o = o_swap_on_write oc" by (simp_all add: flags)
  have len: "length (to_mem 4 (of_nat (length body) :: u32)) = 4" "length (swap_4 (to_mem 4 (of_nat (length body) :: u32))) = 4"
    by (simp_all add: swap_4_def Let_def)
  have put: "has_header ([0x47, 0x49, 0x4f, 0x50, major, minor, header_flags (o_swap oc) more_fragments minor, type] @ w) body (poke 8 w ?o)"
    if "length w = 4" for w
    using has_header_poke [OF o, of 8 w] that by simp
  show ?thesis
    using put [OF len(1)] put [OF len(2)]
    by (cases "o_swap oc"; cases "o_swap_on_write oc"; simp add: format_message_def total s Let_def)
qed

lemma write_protocol_header_first:
  assumes "blk_ok b" and b: "b = hd (chain msg)" and start: "b_wr (blk_mb_align b) + 12 \<le> blk_end b"
  obtains oc where "write_protocol_header al type major minor msg = Some (o_good msg, oc)"
    "has_header (protocol_header type major minor) [] oc" "o_swap oc = o_swap msg" "o_swap_on_write oc = o_swap_on_write msg"
proof -
  let ?h = "protocol_header type major minor" and ?b = "blk_mb_align b"
  let ?r = "reset msg" and ?w = "b_wr ?b"
  have len: "length ?h = 12" by (simp add: protocol_header_def)
  have r: "o_cur ?r = ?b" "o_align ?r = 0" "o_writable ?r" "o_done ?r = []" "o_conts ?r = []" "o_good ?r = o_good msg"
    "o_swap ?r = o_swap msg" "o_swap_on_write ?r = o_swap_on_write msg"
    by (simp_all add: reset_def b)
  have al: "align_binary 0 1 = 0" by (simp add: align_binary_def)
  have f: "b_rd ?b = ?w" "b_data ?b = b_data b" "b_cur ?b = b_cur b" "b_base ?b = b_base b" "blk_end ?b = blk_end b"
    by (simp_all add: blk_mb_align_def blk_end_def Let_def)
  let ?oc = "store ?w ?h (?r\<lparr>o_align := 12, o_cur := ?b\<lparr>b_wr := ?w + 12\<rparr>\<rparr>)"
  have "adjust al 12 1 ?r = Some (Some ?w, ?r\<lparr>o_align := 12, o_cur := ?b\<lparr>b_wr := ?w + 12\<rparr>\<rparr>)"
    using r f start al by (subst adjust.simps) (simp add: Let_def)
  then have "write_protocol_header al type major minor msg = Some (o_good msg, ?oc)"
    using len r by (simp add: write_protocol_header_def write_array_def store_def Let_def)
  moreover have "has_header ?h [] ?oc"
  proof -
    have "chain ?oc = [?b\<lparr>b_wr := ?w + 12, b_data := take ?w (b_data b) @ ?h @ drop (?w + 12) (b_data b)\<rparr>]"
      using r f len by (simp add: chain_def store_def)
    moreover have "content (?b\<lparr>b_wr := ?w + 12, b_data := take ?w (b_data b) @ ?h @ drop (?w + 12) (b_data b)\<rparr>) = ?h"
      using f start len by (simp add: content_def blk_length_def blk_end_def)
    moreover have "blk_ok (?b\<lparr>b_wr := ?w + 12, b_data := take ?w (b_data b) @ ?h @ drop (?w + 12) (b_data b)\<rparr>)"
      using f start len assms(1) by (simp add: blk_ok_def blk_end_def)
    ultimately show ?thesis using f len by (simp add: has_header_def written_def blk_length_def)
  qed
  moreover have "o_swap ?oc = o_swap msg" "o_swap_on_write ?oc = o_swap_on_write msg" using r by (simp_all add: store_def)
  ultimately show ?thesis using that by blast
qed

lemma parse_octets:
  assumes s: "length s = 4" and rev: "major = 1" "minor = 0 \<or> minor = 1 \<or> minor = 2" and f: "minor = 0 \<Longrightarrow> f = 0 \<or> f = 1"
    and p: "p = (if f AND 1 = 1 then of_mem s else of_mem (swap_4 s))" "p \<noteq> 0 \<or> type = MessageError \<or> type = CloseConnection"
  shows "parse_message_header ([0x47, 0x49, 0x4f, 0x50, major, minor, f, type] @ s @ body) giop_state_new
    = (0, \<lparr>gs_major = major, gs_minor = minor, gs_byte_order = f AND 1, gs_type = type, gs_payload = p,
         gs_more = (minor \<noteq> 0 \<and> f AND 2 = 2), gs_compressed = False\<rparr>)"
proof -
  let ?b = "[0x47, 0x49, 0x4f, 0x50, major, minor, f, type] @ s @ body"
  have n: "?b ! 0 = 0x47" "?b ! 1 = 0x49" "?b ! 2 = 0x4f" "?b ! 3 = 0x50" "?b ! 4 = major" "?b ! 5 = minor" "?b ! 6 = f" "?b ! 7 = type"
    "drop 8 ?b = s @ body" "12 \<le> length ?b"
    using s by simp_all
  have magic: "parse_magic_bytes ?b" using n by (simp only: parse_magic_bytes_def) simp
  have rv: "check_revision major minor" using rev by (simp add: revision_cases)
  let ?v = "giop_state_new\<lparr>gs_minor := minor, gs_major := major\<rparr>"
  have ver: "get_version_info ?b giop_state_new = Some ?v" using rv by (simp only: get_version_info_def n) simp
  let ?o = "\<lparr>gs_major = major, gs_minor = minor, gs_byte_order = f AND 1, gs_type = Request, gs_payload = 0,
         gs_more = (minor \<noteq> 0 \<and> f AND 2 = 2), gs_compressed = False\<rparr>"
  have ord: "get_byte_order_info ?b ?v = Some ?o"
  proof (cases "minor = 0")
    case True
    then have "f AND 1 = f" "\<not> (f \<noteq> 0 \<and> f \<noteq> 1)" using f by auto
    then show ?thesis using True rev(1) by (simp only: get_byte_order_info_def n) (simp add: giop_state_new_def)
  next
    case False
    then show ?thesis using n(1) by (simp only: get_byte_order_info_def n) (simp add: giop_state_new_def)
  qed
  have "f AND 1 = 0 \<or> f AND 1 = 1" by (simp add: and_one_eq mod2_eq_if)
  then have pay: "read_ulong (?o\<lparr>gs_type := type\<rparr>) (s @ body) = p" using s p(1) by (auto simp: read_ulong_def)
  have "parse_message_header_i ?b giop_state_new = Some (?o\<lparr>gs_type := type, gs_payload := p\<rparr>)"
    using magic p(2) by (simp only: parse_message_header_i_def ver ord n pay bind.bind_lunit) auto
  then show ?thesis using n(10) by (simp only: parse_message_header_def) simp
qed

section \<open>Properties\<close>

text \<open>
  (C20) A message that is written with a protocol header and formatted is parsed back to its type,
  version, byte order, size and fragment flag, whatever the byte order of the stream.
\<close>
theorem giop_header_roundtrip:
  assumes "has_header (protocol_header type major minor) body oc" and "check_revision major minor"
    and "length body < 2 ^ 32" and "body \<noteq> [] \<or> type = MessageError \<or> type = CloseConnection"
    and "o_swap oc \<longrightarrow> o_swap_on_write oc"
  shows "parse_message_header (written (format_message more_fragments oc)) giop_state_new
    = (0, \<lparr>gs_major = major, gs_minor = minor, gs_byte_order = (if o_swap oc then 0 else 1), gs_type = type,
         gs_payload = of_nat (length body), gs_more = (more_fragments \<and> minor \<noteq> 0), gs_compressed = False\<rparr>)"
proof -
  let ?n = "of_nat (length body) :: u32"
  let ?f = "header_flags (o_swap oc) more_fragments minor"
  let ?s = "if o_swap_on_write oc \<and> o_swap oc then swap_4 (to_mem 4 ?n) else to_mem 4 ?n"
  have w: "written (format_message more_fragments oc) = [0x47, 0x49, 0x4f, 0x50, major, minor, ?f, type] @ ?s @ body"
    using format_message_header [OF assms(1,2), of more_fragments] by (simp add: has_header_def)
  have n: "?n = 0 \<longleftrightarrow> body = []"
    using assms(3) by (simp add: word_unat_eq_iff unat_of_nat)
  have len: "length ?s = 4" by (simp add: swap_4_def Let_def)
  have val: "of_mem (if o_swap oc then swap_4 ?s else ?s) = ?n"
    using assms(5) by (simp add: swap_4_rev of_to_mem)
  have fl: "?f AND 1 = (if o_swap oc then 0 else 1)" "?f AND 2 = 2 \<longleftrightarrow> more_fragments \<and> minor \<noteq> 0"
    "minor = 0 \<Longrightarrow> ?f = 0 \<or> ?f = 1"
    by (simp_all add: header_flags_def)
  have rev: "major = 1" "minor = 0 \<or> minor = 1 \<or> minor = 2" using assms(2) by (auto simp: revision_cases)
  have p: "?n = (if ?f AND 1 = 1 then of_mem ?s else of_mem (swap_4 ?s))" using val unfolding fl(1) by (cases "o_swap oc") simp_all
  have z: "?n \<noteq> 0 \<or> type = MessageError \<or> type = CloseConnection" using n assms(4) by blast
  have "parse_message_header (written (format_message more_fragments oc)) giop_state_new
    = (0, \<lparr>gs_major = major, gs_minor = minor, gs_byte_order = ?f AND 1, gs_type = type,
         gs_payload = ?n, gs_more = (minor \<noteq> 0 \<and> ?f AND 2 = 2), gs_compressed = False\<rparr>)"
    unfolding w by (rule parse_octets [OF len rev fl(3) p z])
  then show ?thesis unfolding fl(1,2) by auto
qed

theorem giop_header_roundtrip_witness:
  "\<exists>oc. write_protocol_header (\<lambda>_ _. None) CloseConnection 1 2 (ocdr_new 0 (replicate 16 7) False False 1 2) = Some (True, oc)
    \<and> fst (parse_message_header (written (format_message False oc)) giop_state_new) = 0"
proof -
  let ?m = "ocdr_new 0 (replicate 16 7) False False 1 2"
  have b: "blk_ok (hd (chain ?m))" "b_wr (blk_mb_align (hd (chain ?m))) + 12 \<le> blk_end (hd (chain ?m))"
    by (simp_all add: ocdr_new_def chain_def blk_ok_def blk_end_def blk_mb_align_def align_binary_def)
  obtain oc where oc: "write_protocol_header (\<lambda>_ _. None) CloseConnection 1 2 ?m = Some (o_good ?m, oc)"
    "has_header (protocol_header CloseConnection 1 2) [] oc" "o_swap oc = o_swap ?m" "o_swap_on_write oc = o_swap_on_write ?m"
    by (rule write_protocol_header_first [OF b(1) refl b(2)])
  have "o_good ?m" "\<not> o_swap ?m" by (simp_all add: ocdr_new_def)
  then show ?thesis using giop_header_roundtrip [OF oc(2), of False] oc(1,3) by (auto simp: revision_cases)
qed

end
