(* ===== verification/LF_Event.thy ===== *)
theory LF_Event
  imports Prelude
begin

text \<open>
  The events of the Leader/Followers loop (TAO/tao/LF_Event.h, LF_Event.cpp, LF_Event.inl): the state
  machine of an invocation or a queued message (LF_Invocation_Event.cpp) and the one of a
  connection handler (LF_CH_Event.cpp).
\<close>

datatype lfs_state = LFS_IDLE | LFS_ACTIVE | LFS_CONNECTION_WAIT | LFS_SUCCESS | LFS_FAILURE | LFS_TIMEOUT | LFS_CONNECTION_CLOSED

section \<open>Invocations and queued messages\<close>

text \<open>The state after a change to \<open>new\<close> was asked for.\<close>

definition invocation_state_changed_i :: "lfs_state \<Rightarrow> lfs_state \<Rightarrow> lfs_state" where
  "invocation_state_changed_i s new =
     (if s = new then s
      else if s = LFS_IDLE then if new = LFS_ACTIVE \<or> new = LFS_CONNECTION_CLOSED then new else s
      else if s = LFS_ACTIVE then if new \<noteq> LFS_IDLE then if new = LFS_CONNECTION_CLOSED then LFS_FAILURE else new else s
      else if s = LFS_SUCCESS \<or> s = LFS_CONNECTION_CLOSED then if new = LFS_ACTIVE then new else s
      else s)"

definition invocation_successful_i :: "lfs_state \<Rightarrow> bool" where
  "invocation_successful_i s \<longleftrightarrow> s = LFS_SUCCESS"

definition invocation_error_detected_i :: "lfs_state \<Rightarrow> bool" where
  "invocation_error_detected_i s \<longleftrightarrow> s = LFS_FAILURE \<or> s = LFS_TIMEOUT \<or> s = LFS_CONNECTION_CLOSED"

definition invocation_is_state_final :: "lfs_state \<Rightarrow> bool" where
  "invocation_is_state_final s \<longleftrightarrow> s = LFS_TIMEOUT \<or> s = LFS_FAILURE"

definition keep_waiting_i :: "lfs_state \<Rightarrow> bool" where
  "keep_waiting_i s \<longleftrightarrow> \<not> invocation_successful_i s \<and> \<not> invocation_error_detected_i s"

definition invocation_state_changed :: "lfs_state \<Rightarrow> lfs_state \<Rightarrow> lfs_state" where
  "invocation_state_changed s new = (if \<not> invocation_is_state_final s then invocation_state_changed_i s new else s)"

text \<open>The first test is redundant: the final states are those that \<open>state_changed_i\<close> keeps.\<close>

lemma state_changed_i_final: "invocation_state_changed s new = invocation_state_changed_i s new"
  by (auto simp: invocation_state_changed_def invocation_is_state_final_def invocation_state_changed_i_def)

lemma keep_waiting_iff: "keep_waiting_i s \<longleftrightarrow> s = LFS_IDLE \<or> s = LFS_ACTIVE \<or> s = LFS_CONNECTION_WAIT"
  by (cases s) (simp_all add: keep_waiting_i_def invocation_successful_i_def invocation_error_detected_i_def)

lemma invocation_excl: "\<not> (invocation_successful_i s \<and> invocation_error_detected_i s)"
  by (auto simp: invocation_successful_i_def invocation_error_detected_i_def)

section \<open>Connection handlers\<close>

record ch_event =
  ch_state :: lfs_state
  ch_prev_state :: lfs_state

definition ch_event_new :: ch_event where
  "ch_event_new = \<lparr>ch_state = LFS_IDLE, ch_prev_state = LFS_IDLE\<rparr>"

definition validate_state_change :: "lfs_state \<Rightarrow> ch_event \<Rightarrow> ch_event" where
  "validate_state_change new e =
     (if ch_state e = LFS_IDLE then
        if new = LFS_CONNECTION_WAIT then e\<lparr>ch_prev_state := ch_state e, ch_state := new\<rparr> else e
      else if ch_state e = LFS_CONNECTION_WAIT then
        if new = LFS_CONNECTION_CLOSED \<or> new = LFS_SUCCESS then e\<lparr>ch_prev_state := ch_state e, ch_state := new\<rparr> else e
      else if ch_state e = LFS_SUCCESS then
        if new = LFS_CONNECTION_CLOSED then e\<lparr>ch_prev_state := ch_state e, ch_state := new\<rparr> else e
      else if ch_state e = LFS_TIMEOUT then
        if new = LFS_CONNECTION_CLOSED then e\<lparr>ch_state := new\<rparr> else e
      else e)"

definition ch_is_state_final :: "ch_event \<Rightarrow> bool" where
  "ch_is_state_final e \<longleftrightarrow> ch_state e = LFS_CONNECTION_CLOSED"

definition ch_state_changed :: "lfs_state \<Rightarrow> ch_event \<Rightarrow> ch_event" where
  "ch_state_changed new e =
     (if \<not> ch_is_state_final e then if ch_state e \<noteq> new then validate_state_change new e else e else e)"

definition ch_set_state :: "lfs_state \<Rightarrow> ch_event \<Rightarrow> ch_event" where
  "ch_set_state new e = (if \<not> ch_is_state_final e \<and> new = LFS_TIMEOUT then e\<lparr>ch_state := new\<rparr> else e)"

definition ch_successful_i :: "ch_event \<Rightarrow> bool" where
  "ch_successful_i e \<longleftrightarrow>
     (if ch_prev_state e = LFS_CONNECTION_WAIT then ch_state e = LFS_SUCCESS else ch_state e = LFS_CONNECTION_CLOSED)"

definition ch_error_detected_i :: "ch_event \<Rightarrow> bool" where
  "ch_error_detected_i e \<longleftrightarrow>
     (if ch_prev_state e = LFS_CONNECTION_WAIT then ch_state e = LFS_CONNECTION_CLOSED else ch_state e = LFS_TIMEOUT)"

datatype ch_change = State_changed lfs_state | Set_state lfs_state

fun ch_apply :: "ch_change \<Rightarrow> ch_event \<Rightarrow> ch_event" where
  "ch_apply (State_changed s) e = ch_state_changed s e"
| "ch_apply (Set_state s) e = ch_set_state s e"

text \<open>What the states of a connection mean, as the history of the changes.\<close>

definition ch_ok :: "ch_event \<Rightarrow> bool" where
  "ch_ok e \<longleftrightarrow> (ch_state e, ch_prev_state e) \<in>
     {(LFS_IDLE, LFS_IDLE), (LFS_CONNECTION_WAIT, LFS_IDLE), (LFS_SUCCESS, LFS_CONNECTION_WAIT),
      (LFS_CONNECTION_CLOSED, LFS_CONNECTION_WAIT), (LFS_CONNECTION_CLOSED, LFS_SUCCESS),
      (LFS_TIMEOUT, LFS_IDLE), (LFS_TIMEOUT, LFS_CONNECTION_WAIT), (LFS_CONNECTION_CLOSED, LFS_IDLE)}"

lemma ch_ok_apply: "ch_ok e \<Longrightarrow> ch_ok (ch_apply c e)"
  by (cases c; cases e) (auto simp: ch_ok_def ch_state_changed_def validate_state_change_def ch_set_state_def ch_is_state_final_def)

lemma ch_ok_fold: "ch_ok e \<Longrightarrow> ch_ok (fold ch_apply cs e)"
  by (induction cs arbitrary: e) (simp_all add: ch_ok_apply)

lemma ch_final_apply: "ch_state e = LFS_CONNECTION_CLOSED \<Longrightarrow> ch_apply c e = e"
  by (cases c) (simp_all add: ch_state_changed_def ch_set_state_def ch_is_state_final_def)

lemma ch_final_fold: "ch_state e = LFS_CONNECTION_CLOSED \<Longrightarrow> fold ch_apply cs e = e"
  by (induction cs) (simp_all add: ch_final_apply)

text \<open>
  (C39) A connection that timed out while it was established, and is closed afterwards, counts
  as successful from then on: a second thread that waits for it is told that it was
  established.
\<close>
theorem timed_out_connection_succeeds:
  assumes "ch_state e = LFS_CONNECTION_WAIT" and "ch_ok e"
  shows "ch_error_detected_i (fold ch_apply [Set_state LFS_TIMEOUT] e) \<and>
    (let e' = fold ch_apply ([Set_state LFS_TIMEOUT, State_changed LFS_CONNECTION_CLOSED] @ cs) e
     in ch_successful_i e' \<and> \<not> ch_error_detected_i e')"
proof -
  have p: "ch_prev_state e = LFS_IDLE" using assms by (auto simp: ch_ok_def)
  let ?e = "fold ch_apply [Set_state LFS_TIMEOUT, State_changed LFS_CONNECTION_CLOSED] e"
  have c: "ch_state ?e = LFS_CONNECTION_CLOSED" "ch_prev_state ?e = LFS_IDLE"
    using assms(1) p by (simp_all add: ch_set_state_def ch_state_changed_def validate_state_change_def ch_is_state_final_def)
  have "ch_error_detected_i (fold ch_apply [Set_state LFS_TIMEOUT] e)"
    using assms(1) p by (simp add: ch_set_state_def ch_error_detected_i_def ch_is_state_final_def)
  moreover have "fold ch_apply ([Set_state LFS_TIMEOUT, State_changed LFS_CONNECTION_CLOSED] @ cs) e = ?e"
    using ch_final_fold [OF c(1), of cs] by simp
  ultimately show ?thesis using c unfolding Let_def by (simp only:) (simp add: ch_successful_i_def ch_error_detected_i_def)
qed

theorem timed_out_connection_succeeds_witness:
  "ch_successful_i (fold ch_apply [State_changed LFS_CONNECTION_WAIT, Set_state LFS_TIMEOUT, State_changed LFS_CONNECTION_CLOSED] ch_event_new)"
proof -
  have "ch_state (ch_apply (State_changed LFS_CONNECTION_WAIT) ch_event_new) = LFS_CONNECTION_WAIT"
    "ch_ok (ch_apply (State_changed LFS_CONNECTION_WAIT) ch_event_new)"
    by (simp_all add: ch_event_new_def ch_state_changed_def validate_state_change_def ch_is_state_final_def ch_ok_def)
  from timed_out_connection_succeeds [OF this, of "[]"] show ?thesis unfolding Let_def by simp
qed

end
