(* ===== verification/Transport_Output.thy ===== *)
theory Transport_Output
  imports Linked_List Time_Value LF_Event "HOL-Library.Monad_Syntax"
begin

text \<open>
  The outgoing data path of a connection: the queue of outgoing messages
  (TAO/tao/Queued_Message.cpp, Synch_Queued_Message.cpp, Asynch_Queued_Message.cpp) and the
  functions of TAO/tao/Transport.cpp that fill and drain it. The queue is an intrusive doubly linked
  list, at the level of its pointers; message blocks are a store, because a queued message shares the
  blocks of its sender until it copies them. \<open>None\<close> is an access to something freed, a failed
  assertion, or a loop that does not end.
\<close>

section \<open>State\<close>

datatype send_errno = E_AGAIN | E_TIME | E_OTHER

text \<open>
  What a call of \<open>send\<close> does: it takes at most some number of octets, and then it is a certain time,
  or it fails.
\<close>

datatype outcome = Sent nat time_value | Failed send_errno

datatype drain_result = DR_ERROR | DR_OK | DR_QUEUE_EMPTY | DR_WOULDBLOCK

text \<open>
  \<open>contents_\<close>, the chain from \<open>current_block_\<close> on and \<open>own_contents_\<close> of a synchronous message;
  \<open>buffer_\<close> (as long as \<open>size_\<close>), \<open>offset_\<close> and \<open>abs_timeout_\<close> of an asynchronous one.
\<close>

datatype qmsg =
    Synch "addr list" "addr list" bool
  | Asynch "u8 list" nat time_value

text \<open>
  \<open>ot_blocks\<close> are the octets between the read and the write pointer of each message block,
  \<open>ot_msgs\<close> the queued messages with \<open>is_heap_created_\<close>, \<open>ot_chain\<close> the blocks of \<open>out_stream_\<close>.
  \<open>ot_state\<close> is the state of a message as an event of the
  Leader/Followers loop, \<open>ot_socket\<close> is what the calls of \<open>send\<close> will do, and \<open>ot_wire\<close> what was sent.
\<close>

record out_transport =
  ot_blocks :: "addr \<Rightarrow> u8 list option"
  ot_msgs :: "addr \<Rightarrow> (qmsg \<times> bool) option"
  ot_next :: "addr \<Rightarrow> ptr"
  ot_prev :: "addr \<Rightarrow> ptr"
  ot_head :: ptr
  ot_tail :: ptr
  ot_chain :: "addr list"
  ot_fresh :: addr
  ot_clock :: time_value
  ot_socket :: "outcome list"
  ot_errno :: send_errno
  ot_wire :: "u8 list"
  ot_sent :: nat
  ot_state :: "addr \<Rightarrow> lfs_state"

definition state_changed :: "addr \<Rightarrow> lfs_state \<Rightarrow> out_transport \<Rightarrow> out_transport" where
  "state_changed a s t = t\<lparr>ot_state := (ot_state t)(a := invocation_state_changed (ot_state t a) s)\<rparr>"

definition state_changed_i :: "addr \<Rightarrow> lfs_state \<Rightarrow> out_transport \<Rightarrow> out_transport" where
  "state_changed_i a s t = t\<lparr>ot_state := (ot_state t)(a := invocation_state_changed_i (ot_state t a) s)\<rparr>"

lemma state_changed_i_eq [simp]: "state_changed_i a s t = state_changed a s t"
  by (simp add: state_changed_i_def state_changed_def state_changed_i_final)

section \<open>The list of messages\<close>

definition om_set_next :: "addr \<Rightarrow> ptr \<Rightarrow> out_transport \<Rightarrow> out_transport" where
  "om_set_next a p t = t\<lparr>ot_next := (ot_next t)(a := p)\<rparr>"

definition om_set_prev :: "addr \<Rightarrow> ptr \<Rightarrow> out_transport \<Rightarrow> out_transport" where
  "om_set_prev a p t = t\<lparr>ot_prev := (ot_prev t)(a := p)\<rparr>"

definition remove_from_list :: "addr \<Rightarrow> out_transport \<Rightarrow> out_transport" where
  "remove_from_list a t =
     (let t = (case ot_prev t a of
            Some p \<Rightarrow> om_set_next p (ot_next t a) t
          | None \<Rightarrow> if ot_head t = Some a then t\<lparr>ot_head := ot_next t a\<rparr> else t);
          t = (case ot_next t a of
            Some n \<Rightarrow> om_set_prev n (ot_prev t a) t
          | None \<Rightarrow> if ot_tail t = Some a then t\<lparr>ot_tail := ot_prev t a\<rparr> else t)
      in om_set_prev a None (om_set_next a None t))"

definition push_back :: "addr \<Rightarrow> out_transport \<Rightarrow> out_transport" where
  "push_back a t = (case ot_tail t of
       None \<Rightarrow> om_set_prev a None (om_set_next a None (t\<lparr>ot_tail := Some a, ot_head := Some a\<rparr>))
     | Some l \<Rightarrow> (om_set_next a None (om_set_prev a (Some l) (om_set_next l (Some a) t)))\<lparr>ot_tail := Some a\<rparr>)"

definition push_front :: "addr \<Rightarrow> out_transport \<Rightarrow> out_transport" where
  "push_front a t = (case ot_head t of
       None \<Rightarrow> om_set_prev a None (om_set_next a None (t\<lparr>ot_tail := Some a, ot_head := Some a\<rparr>))
     | Some h \<Rightarrow> (om_set_prev a None (om_set_next a (Some h) (om_set_prev h (Some a) t)))\<lparr>ot_head := Some a\<rparr>)"

section \<open>One message\<close>

text \<open>\<open>total_length\<close> of a chain.\<close>

fun chain_octets :: "(addr \<Rightarrow> u8 list option) \<Rightarrow> addr list \<Rightarrow> u8 list option" where
  "chain_octets bl [] = Some []"
| "chain_octets bl (b # bs) = do { o1 \<leftarrow> bl b; o2 \<leftarrow> chain_octets bl bs; Some (o1 @ o2) }"

fun message_length :: "out_transport \<Rightarrow> qmsg \<Rightarrow> nat option" where
  "message_length t (Synch contents current own) = map_option length (chain_octets (ot_blocks t) current)"
| "message_length t (Asynch buffer offset timeout) = Some (length buffer - offset)"

fun all_data_sent :: "qmsg \<Rightarrow> bool" where
  "all_data_sent (Synch contents current own) \<longleftrightarrow> current = []"
| "all_data_sent (Asynch buffer offset timeout) \<longleftrightarrow> length buffer = offset"

fun is_expired :: "qmsg \<Rightarrow> time_value \<Rightarrow> bool" where
  "is_expired (Synch contents current own) now \<longleftrightarrow> False"
| "is_expired (Asynch buffer offset timeout) now \<longleftrightarrow>
     (if tv_gt timeout (Time_Value 0 0) then if offset > 0 then False else timeout < now else False)"

fun fill_chain :: "(addr \<Rightarrow> u8 list option) \<Rightarrow> nat \<Rightarrow> u8 list list \<Rightarrow> addr list \<Rightarrow> u8 list list option" where
  "fill_chain bl m iov [] = Some iov"
| "fill_chain bl m iov (b # bs) =
     (if length iov < m
      then do { oc \<leftarrow> bl b; fill_chain bl m (if oc \<noteq> [] then iov @ [oc] else iov) bs }
      else Some iov)"

text \<open>A full vector on entry fails the assertion.\<close>

fun fill_iov :: "out_transport \<Rightarrow> nat \<Rightarrow> u8 list list \<Rightarrow> qmsg \<Rightarrow> u8 list list option" where
  "fill_iov t m iov (Synch contents current own) =
     (if m > length iov then fill_chain (ot_blocks t) m iov current else None)"
| "fill_iov t m iov (Asynch buffer offset timeout) =
     (if m > length iov then Some (iov @ [drop offset buffer]) else None)"

text \<open>
  The loop over the blocks that were sent; \<open>skip\<close> is the inner loop, over blocks without octets,
  which runs whenever a block has been sent.
\<close>

fun transfer :: "(addr \<Rightarrow> u8 list option) \<Rightarrow> bool \<Rightarrow> addr list \<Rightarrow> nat \<Rightarrow> ((addr \<Rightarrow> u8 list option) \<times> addr list \<times> nat) option" where
  "transfer bl skip [] n = Some (bl, [], n)"
| "transfer bl skip (b # bs) n =
     (if n = 0 \<and> \<not> skip then Some (bl, b # bs, 0)
      else do {
        oc \<leftarrow> bl b;
        if skip \<and> oc = [] then transfer bl skip bs n
        else if n = 0 then Some (bl, b # bs, 0)
        else if n < length oc then Some (bl(b \<mapsto> drop n oc), b # bs, 0)
        else transfer (bl(b \<mapsto> [])) True bs (n - length oc) })"

definition bytes_transferred :: "addr \<Rightarrow> nat \<Rightarrow> out_transport \<Rightarrow> (nat \<times> out_transport) option" where
  "bytes_transferred a n t = do {
     (m, heap) \<leftarrow> ot_msgs t a;
     t \<leftarrow> Some (state_changed_i a LFS_ACTIVE t);
     case m of
       Synch contents current own \<Rightarrow> do {
         (bl, current, n') \<leftarrow> transfer (ot_blocks t) False current n;
         t \<leftarrow> Some (t\<lparr>ot_blocks := bl, ot_msgs := (ot_msgs t)(a \<mapsto> (Synch contents current own, heap))\<rparr>);
         Some (n', if current = [] then state_changed a LFS_SUCCESS t else t) }
     | Asynch buffer offset timeout \<Rightarrow>
         if n > length buffer - offset
         then Some (n - (length buffer - offset), t\<lparr>ot_msgs := (ot_msgs t)(a \<mapsto> (Asynch buffer (length buffer) timeout, heap))\<rparr>)
         else do {
           t \<leftarrow> Some (t\<lparr>ot_msgs := (ot_msgs t)(a \<mapsto> (Asynch buffer (offset + n) timeout, heap))\<rparr>);
           Some (0, if length buffer = offset + n then state_changed a LFS_SUCCESS t else t) } }"

text \<open>\<open>release\<close> of a chain whose blocks have no other reference.\<close>

fun release_chain :: "addr list \<Rightarrow> (addr \<Rightarrow> u8 list option) \<Rightarrow> (addr \<Rightarrow> u8 list option) option" where
  "release_chain [] bl = Some bl"
| "release_chain (b # bs) bl = do { _ \<leftarrow> bl b; release_chain bs (bl(b := None)) }"

definition destroy :: "addr \<Rightarrow> out_transport \<Rightarrow> out_transport option" where
  "destroy a t = do {
     (m, heap) \<leftarrow> ot_msgs t a;
     (m, bl) \<leftarrow> (case m of
         Synch contents current own \<Rightarrow>
           if own then do { bl \<leftarrow> release_chain contents (ot_blocks t); Some (Synch [] [] own, bl) } else Some (m, ot_blocks t)
       | Asynch buffer offset timeout \<Rightarrow> Some (m, ot_blocks t));
     Some (t\<lparr>ot_blocks := bl, ot_msgs := (ot_msgs t)(a := (if heap then None else Some (m, heap)))\<rparr>) }"

text \<open>\<open>clone\<close> of a chain: blocks of its own with the same octets.\<close>

fun clone_chain :: "addr list \<Rightarrow> addr \<Rightarrow> (addr \<Rightarrow> u8 list option) \<Rightarrow> (addr list \<times> addr \<times> (addr \<Rightarrow> u8 list option)) option" where
  "clone_chain [] fresh bl = Some ([], fresh, bl)"
| "clone_chain (b # bs) fresh bl = do {
     oc \<leftarrow> bl b;
     (cs, fresh', bl) \<leftarrow> clone_chain bs (Suc fresh) (bl(fresh \<mapsto> oc));
     Some (fresh # cs, fresh', bl) }"

definition copy_if_necessary :: "addr \<Rightarrow> out_transport \<Rightarrow> out_transport option" where
  "copy_if_necessary a t = do {
     (m, heap) \<leftarrow> ot_msgs t a;
     case m of
       Synch contents current own \<Rightarrow>
         if \<not> own \<and> current \<noteq> [] \<and> hd current \<in> set (ot_chain t)
         then do {
           (cs, fresh, bl) \<leftarrow> clone_chain current (ot_fresh t) (ot_blocks t);
           Some (t\<lparr>ot_blocks := bl, ot_fresh := fresh, ot_msgs := (ot_msgs t)(a \<mapsto> (Synch cs cs True, heap))\<rparr>) }
         else Some t
     | Asynch buffer offset timeout \<Rightarrow> Some t }"

section \<open>Draining the queue\<close>

partial_function (option) cleanup_queue :: "nat \<Rightarrow> out_transport \<Rightarrow> out_transport option" where
  "cleanup_queue byte_count t = (case ot_head t of
       None \<Rightarrow> Some t
     | Some i \<Rightarrow>
         if byte_count > 0
         then do {
           (byte_count, t) \<leftarrow> bytes_transferred i byte_count t;
           (m, heap) \<leftarrow> ot_msgs t i;
           if all_data_sent m
           then do { t \<leftarrow> destroy i (remove_from_list i t); cleanup_queue byte_count t }
           else if byte_count = 0
           then do { t \<leftarrow> copy_if_necessary i t; cleanup_queue byte_count t }
           else cleanup_queue byte_count t }
         else Some t)"

text \<open>Where the outcomes end, the socket takes no more octets.\<close>

definition drain_queue_helper :: "u8 list list \<Rightarrow> out_transport \<Rightarrow> (drain_result \<times> out_transport) option" where
  "drain_queue_helper iov t = (case ot_socket t of
       [] \<Rightarrow> Some (DR_WOULDBLOCK, t\<lparr>ot_errno := E_AGAIN\<rparr>)
     | Failed e # os \<Rightarrow> Some (if e = E_AGAIN then DR_WOULDBLOCK else DR_ERROR, t\<lparr>ot_socket := os, ot_errno := e\<rparr>)
     | Sent k now # os \<Rightarrow>
         (let n = min k (length (concat iov)); t = t\<lparr>ot_socket := os, ot_clock := now\<rparr>
          in if n = 0 then Some (DR_ERROR, t)
             else do {
               t \<leftarrow> cleanup_queue n (t\<lparr>ot_wire := ot_wire t @ take n (concat iov)\<rparr>);
               Some (DR_QUEUE_EMPTY, t\<lparr>ot_sent := ot_sent t + n\<rparr>) }))"

text \<open>
  The loop over the queue: the result of a helper that ends it, or the vector that is left to send.
  \<open>m\<close> is \<open>ACE_IOV_MAX\<close>.
\<close>

partial_function (option) drain_loop ::
  "nat \<Rightarrow> ptr \<Rightarrow> time_value \<Rightarrow> u8 list list \<Rightarrow> out_transport \<Rightarrow> (drain_result option \<times> u8 list list \<times> out_transport) option" where
  "drain_loop m i now iov t = (case i of
       None \<Rightarrow> Some (None, iov, t)
     | Some a \<Rightarrow> do {
         (msg, heap) \<leftarrow> ot_msgs t a;
         if is_expired msg now
         then do {
           t' \<leftarrow> destroy a (remove_from_list a (state_changed a LFS_TIMEOUT t));
           drain_loop m (ot_next t a) now iov t' }
         else do {
           iov \<leftarrow> fill_iov t m iov msg;
           if length iov = m
           then do {
             (r, t) \<leftarrow> drain_queue_helper iov t;
             if r \<noteq> DR_QUEUE_EMPTY then Some (Some r, iov, t)
             else drain_loop m (ot_head t) (ot_clock t) [] t }
           else drain_loop m (ot_next t a) now iov t } })"

text \<open>What is left in the vector is sent when the loop has reached the end of the queue.\<close>

definition drain_finish :: "drain_result option \<times> u8 list list \<times> out_transport \<Rightarrow> (drain_result \<times> out_transport) option" where
  "drain_finish l = (case l of (r, iov, t) \<Rightarrow> (case r of
       Some r \<Rightarrow> Some (r, t)
     | None \<Rightarrow> do {
         (r, t) \<leftarrow> (if iov \<noteq> [] then drain_queue_helper iov t else Some (DR_QUEUE_EMPTY, t));
         if r \<noteq> DR_QUEUE_EMPTY then Some (r, t)
         else Some (if ot_head t = None then DR_QUEUE_EMPTY else DR_OK, t) }))"

definition drain_queue_i :: "nat \<Rightarrow> out_transport \<Rightarrow> (drain_result \<times> out_transport) option" where
  "drain_queue_i m t = do {
     l \<leftarrow> drain_loop m (ot_head t) (ot_clock t) [] (t\<lparr>ot_sent := 0\<rparr>);
     drain_finish l }"

text \<open>The queue of a connection that was closed.\<close>

partial_function (option) cleanup_queue_i :: "out_transport \<Rightarrow> out_transport option" where
  "cleanup_queue_i t = (case ot_head t of
       None \<Rightarrow> Some t
     | Some i \<Rightarrow> do {
         t \<leftarrow> destroy i (remove_from_list i (state_changed i LFS_CONNECTION_CLOSED t));
         cleanup_queue_i t })"

end
