(* ===== verification/Transport_Output_Inv.thy ===== *)
theory Transport_Output_Inv
  imports Transport_Output
begin

text \<open>
  The invariant of the queue of outgoing messages, its links and the blocks its messages own, and
  what each operation on a message and on the queue does to the octets that are left to send.
\<close>

section \<open>The list\<close>

definition links :: "out_transport \<Rightarrow> addr list \<Rightarrow> bool" where
  "links t xs \<longleftrightarrow> distinct xs \<and> dll (ot_next t) (ot_prev t) None xs None
     \<and> ot_head t = first_ptr xs None \<and> ot_tail t = last_ptr None xs"

lemma set_links [simp]:
  "ot_next (om_set_next a p t) = (ot_next t)(a := p)" "ot_prev (om_set_next a p t) = ot_prev t"
  "ot_next (om_set_prev a p t) = ot_next t" "ot_prev (om_set_prev a p t) = (ot_prev t)(a := p)"
  "ot_head (om_set_next a p t) = ot_head t" "ot_tail (om_set_next a p t) = ot_tail t"
  "ot_head (om_set_prev a p t) = ot_head t" "ot_tail (om_set_prev a p t) = ot_tail t"
  by (simp_all add: om_set_next_def om_set_prev_def)

text \<open>All that is no link.\<close>

definition stuff :: "out_transport \<Rightarrow> (addr \<Rightarrow> u8 list option) \<times> (addr \<Rightarrow> (qmsg \<times> bool) option) \<times> addr list \<times> addr \<times> time_value
    \<times> outcome list \<times> u8 list" where
  "stuff t = (ot_blocks t, ot_msgs t, ot_chain t, ot_fresh t, ot_clock t, ot_socket t, ot_wire t)"

lemma stuff_links [simp]: "stuff (om_set_next a p t) = stuff t" "stuff (om_set_prev a p t) = stuff t"
  "stuff (t\<lparr>ot_head := h\<rparr>) = stuff t" "stuff (t\<lparr>ot_tail := h\<rparr>) = stuff t" "stuff (state_changed a s t) = stuff t"
  by (simp_all add: stuff_def om_set_next_def om_set_prev_def state_changed_def)

lemma stuff_fields: "stuff t' = stuff t \<Longrightarrow> ot_blocks t' = ot_blocks t \<and> ot_msgs t' = ot_msgs t \<and> ot_chain t' = ot_chain t
    \<and> ot_fresh t' = ot_fresh t \<and> ot_clock t' = ot_clock t \<and> ot_socket t' = ot_socket t \<and> ot_wire t' = ot_wire t"
  by (simp add: stuff_def)

lemma stuff_remove [simp]: "stuff (remove_from_list a t) = stuff t"
  by (simp add: remove_from_list_def Let_def split: option.split)

lemma stuff_push [simp]: "stuff (push_back a t) = stuff t" "stuff (push_front a t) = stuff t"
  by (simp_all add: push_back_def push_front_def split: option.split)

lemma remove_links:
  assumes "links t (ys @ a # zs)"
  shows "links (remove_from_list a t) (ys @ zs)"
proof -
  have d: "distinct (ys @ a # zs)" "dll (ot_next t) (ot_prev t) None ys (Some a)" "dll (ot_next t) (ot_prev t) (Some a) zs None"
    and a: "ot_prev t a = last_ptr None ys" "ot_next t a = first_ptr zs None"
    and ends: "ot_head t = first_ptr ys (Some a)" "ot_tail t = last_ptr (Some a) zs"
    using assms by (simp_all add: links_def)
  define nx where "nx = (case last_ptr None ys of Some p \<Rightarrow> (ot_next t)(p := first_ptr zs None) | None \<Rightarrow> ot_next t)"
  define pv where "pv = (case first_ptr zs None of Some n \<Rightarrow> (ot_prev t)(n := last_ptr None ys) | None \<Rightarrow> ot_prev t)"
  have nxa: "nx a = first_ptr zs None"
    using a(2) d(1) by (cases ys rule: rev_cases) (auto simp: nx_def)
  have pva: "pv a = last_ptr None ys"
    using a(1) d(1) by (cases zs) (auto simp: pv_def)
  have f: "ot_next (remove_from_list a t) = nx(a := None)" "ot_prev (remove_from_list a t) = pv(a := None)"
    "ot_head (remove_from_list a t) = first_ptr (ys @ zs) None" "ot_tail (remove_from_list a t) = last_ptr None (ys @ zs)"
  proof -
    show "ot_next (remove_from_list a t) = nx(a := None)"
      using a d(1) by (cases ys rule: rev_cases; cases zs) (auto simp: remove_from_list_def nx_def Let_def)
    show "ot_prev (remove_from_list a t) = pv(a := None)"
      using a d(1) by (cases ys rule: rev_cases; cases zs) (auto simp: remove_from_list_def pv_def Let_def)
    show "ot_head (remove_from_list a t) = first_ptr (ys @ zs) None"
      using a ends d(1) by (cases ys rule: rev_cases; cases zs) (auto simp: remove_from_list_def Let_def)
    show "ot_tail (remove_from_list a t) = last_ptr None (ys @ zs)"
      using a ends d(1) by (cases ys rule: rev_cases; cases zs) (auto simp: remove_from_list_def Let_def last_ptr_def)
  qed
  have out: "a \<notin> set ys" "a \<notin> set zs" using d(1) by auto
  have "dll nx pv None ys (first_ptr zs None)"
  proof (cases ys rule: rev_cases)
    case (snoc us p)
    have "dll nx (ot_prev t) None (us @ [p]) (first_ptr zs None)"
      using dll_redirect_next [of "ot_next t" "ot_prev t" None us p "Some a" "first_ptr zs None"] d(1,2) snoc by (simp add: nx_def)
    then show ?thesis using d(1) snoc by (cases zs) (simp_all add: pv_def del: dll.simps dll_append)
  qed simp
  moreover have "dll nx pv (last_ptr None ys) zs None"
  proof (cases zs)
    case (Cons n ws)
    have "dll (ot_next t) pv (last_ptr None ys) (n # ws) None"
      using dll_redirect_prev [of "ot_next t" "ot_prev t" "Some a" n ws None "last_ptr None ys"] d(1,3) Cons by (simp add: pv_def)
    then show ?thesis using d(1) Cons by (cases ys rule: rev_cases) (simp_all add: nx_def del: dll.simps)
  qed simp
  ultimately have "dll (ot_next (remove_from_list a t)) (ot_prev (remove_from_list a t)) None (ys @ zs) None"
    unfolding f(1,2) using out by (simp del: dll.simps)
  then show ?thesis using f(3,4) d(1) by (simp add: links_def)
qed

lemma push_back_links:
  assumes "links t xs" and "a \<notin> set xs"
  shows "links (push_back a t) (xs @ [a])"
  using assms
proof (cases xs rule: rev_cases)
  case Nil
  then show ?thesis using assms by (simp add: links_def push_back_def)
next
  case (snoc ys l)
  have l: "ot_tail t = Some l" "a \<noteq> l" "a \<notin> set ys" using assms snoc by (auto simp: links_def)
  have "dll ((ot_next t)(l := Some a)) (ot_prev t) None (ys @ [l]) (Some a)"
    by (rule dll_redirect_next [of _ _ _ _ _ None]) (use assms snoc in \<open>auto simp: links_def\<close>)
  then have "dll (ot_next (push_back a t)) (ot_prev (push_back a t)) None (ys @ [l]) (Some a)"
    using l by (simp add: push_back_def del: dll.simps)
  moreover have "ot_head (push_back a t) = first_ptr (xs @ [a]) None" "ot_tail (push_back a t) = Some a"
    "ot_prev (push_back a t) a = Some l" "ot_next (push_back a t) a = None"
    using assms(1) snoc l by (auto simp: links_def push_back_def)
  ultimately show ?thesis using assms snoc l by (simp add: links_def)
qed

lemma push_front_links:
  assumes "links t xs" and "a \<notin> set xs"
  shows "links (push_front a t) (a # xs)"
proof (cases xs)
  case Nil
  then show ?thesis using assms by (simp add: links_def push_front_def)
next
  case (Cons h ys)
  have h: "ot_head t = Some h" "a \<noteq> h" "a \<notin> set ys" using assms Cons by (auto simp: links_def)
  have "dll (ot_next t) ((ot_prev t)(h := Some a)) (Some a) (h # ys) None"
    by (rule dll_redirect_prev [of _ _ None]) (use assms Cons in \<open>auto simp: links_def\<close>)
  then have "dll (ot_next (push_front a t)) (ot_prev (push_front a t)) (Some a) (h # ys) None"
    using h by (simp add: push_front_def del: dll.simps)
  moreover have "ot_head (push_front a t) = Some a" "ot_tail (push_front a t) = last_ptr None xs"
    "ot_prev (push_front a t) a = None" "ot_next (push_front a t) a = Some h"
    using assms(1) Cons h by (auto simp: links_def push_front_def)
  ultimately show ?thesis using assms Cons h by (simp add: links_def)
qed

section \<open>Chains of blocks\<close>

definition chain_data :: "(addr \<Rightarrow> u8 list option) \<Rightarrow> addr list \<Rightarrow> u8 list" where
  "chain_data bl bs = concat (map (\<lambda>b. the (bl b)) bs)"

lemma chain_data_simps [simp]: "chain_data bl [] = []" "chain_data bl (b # bs) = the (bl b) @ chain_data bl bs"
  "chain_data bl (bs @ cs) = chain_data bl bs @ chain_data bl cs"
  by (simp_all add: chain_data_def)

lemma chain_data_cong: "(\<And>b. b \<in> set bs \<Longrightarrow> bl' b = bl b) \<Longrightarrow> chain_data bl' bs = chain_data bl bs"
  by (induction bs) auto

lemma chain_octets_data: "(\<forall>b\<in>set bs. bl b \<noteq> None) \<Longrightarrow> chain_octets bl bs = Some (chain_data bl bs)"
  by (induction bs) auto

lemma transfer_spec:
  "distinct bs \<Longrightarrow> (\<forall>b\<in>set bs. bl b \<noteq> None) \<Longrightarrow> \<exists>bl' bs' us. transfer bl skip bs n = Some (bl', bs', n - length (chain_data bl bs))
    \<and> bs = us @ bs' \<and> (\<forall>b. b \<notin> set bs \<longrightarrow> bl' b = bl b) \<and> (\<forall>b\<in>set bs. bl' b \<noteq> None)
    \<and> chain_data bl' bs' = drop n (chain_data bl bs) \<and> (0 < n \<or> skip \<longrightarrow> (bs' = []) = (length (chain_data bl bs) \<le> n))"
proof (induction bs arbitrary: bl skip n)
  case Nil
  then show ?case by simp
next
  case (Cons b bs)
  obtain oc where oc: "bl b = Some oc" using Cons.prems(2) by auto
  have d: "distinct bs" "b \<notin> set bs" "\<forall>c\<in>set bs. bl c \<noteq> None" using Cons.prems by auto
  consider "n = 0" "\<not> skip" | "skip" "oc = []" | "n = 0" "skip" "oc \<noteq> []" | "0 < n" "n < length oc" | "0 < n" "length oc \<le> n" "\<not> (skip \<and> oc = [])"
    by fastforce
  then show ?case
  proof cases
    case 1
    then show ?thesis using Cons.prems by (intro exI [of _ bl] exI [of _ "b # bs"] exI [of _ "[]"]) simp
  next
    case 2
    obtain bl' bs' us where i: "transfer bl skip bs n = Some (bl', bs', n - length (chain_data bl bs))" "bs = us @ bs'"
      "\<forall>c. c \<notin> set bs \<longrightarrow> bl' c = bl c" "\<forall>c\<in>set bs. bl' c \<noteq> None" "chain_data bl' bs' = drop n (chain_data bl bs)"
      "0 < n \<or> skip \<longrightarrow> (bs' = []) = (length (chain_data bl bs) \<le> n)"
      using Cons.IH [OF d(1,3), of skip n] by blast
    have "bl' b = Some oc" using i(3) d(2) oc by simp
    then show ?thesis using 2 i oc d(2) by (intro exI [of _ bl'] exI [of _ bs'] exI [of _ "b # us"]) auto
  next
    case 3
    then show ?thesis using Cons.prems oc by (intro exI [of _ bl] exI [of _ "b # bs"] exI [of _ "[]"]) simp
  next
    case 4
    let ?bl = "bl(b \<mapsto> drop n oc)"
    have same: "chain_data ?bl bs = chain_data bl bs" using d(2) by (intro chain_data_cong) auto
    have "n \<noteq> 0" "oc \<noteq> []" "n - length oc = 0" using 4 by auto
    then have "transfer bl skip (b # bs) n = Some (?bl, b # bs, n - length (chain_data bl (b # bs)))" using 4(2) oc by simp
    moreover have "b # bs = [] @ b # bs" "\<forall>c. c \<notin> set (b # bs) \<longrightarrow> ?bl c = bl c" "\<forall>c\<in>set (b # bs). ?bl c \<noteq> None"
      using Cons.prems(2) by auto
    moreover have "chain_data ?bl (b # bs) = drop n (chain_data bl (b # bs))" using 4(2) oc same by simp
    moreover have "(b # bs = []) = (length (chain_data bl (b # bs)) \<le> n)" using 4(2) oc by simp
    ultimately show ?thesis by blast
  next
    case 5
    let ?bl = "bl(b \<mapsto> [])"
    have p: "\<forall>c\<in>set bs. ?bl c \<noteq> None" using d by auto
    have same: "chain_data ?bl bs = chain_data bl bs" using d(2) by (intro chain_data_cong) auto
    obtain bl' bs' us where i: "transfer ?bl True bs (n - length oc) = Some (bl', bs', n - length oc - length (chain_data ?bl bs))" "bs = us @ bs'"
      "\<forall>c. c \<notin> set bs \<longrightarrow> bl' c = ?bl c" "\<forall>c\<in>set bs. bl' c \<noteq> None" "chain_data bl' bs' = drop (n - length oc) (chain_data ?bl bs)"
      "(bs' = []) = (length (chain_data ?bl bs) \<le> n - length oc)"
      using Cons.IH [OF d(1) p, of True "n - length oc"] by blast
    have b: "bl' b = Some []" using i(3) d(2) by simp
    have run: "transfer bl skip (b # bs) n = Some (bl', bs', n - length (chain_data bl (b # bs)))"
      using 5 oc i(1) same by (auto simp: fun_upd_def)
    have "(bs' = []) = (length (chain_data bl (b # bs)) \<le> n)" using i(6) same 5(2) oc by auto
    moreover have "chain_data bl' bs' = drop n (chain_data bl (b # bs))" using i(5) same 5(2) oc by simp
    moreover have "\<forall>c. c \<notin> set (b # bs) \<longrightarrow> bl' c = bl c" using i(3) by auto
    ultimately show ?thesis using run i(2,4) b by (intro exI [of _ bl'] exI [of _ bs'] exI [of _ "b # us"]) simp
  qed
qed

lemma release_spec:
  "distinct bs \<Longrightarrow> (\<forall>b\<in>set bs. bl b \<noteq> None) \<Longrightarrow> \<exists>bl'. release_chain bs bl = Some bl' \<and> (\<forall>c. c \<notin> set bs \<longrightarrow> bl' c = bl c)"
proof (induction bs arbitrary: bl)
  case (Cons b bs)
  have "\<exists>bl'. release_chain bs (bl(b := None)) = Some bl' \<and> (\<forall>c. c \<notin> set bs \<longrightarrow> bl' c = (bl(b := None)) c)"
    by (rule Cons.IH) (use Cons.prems in auto)
  then obtain bl' where r: "release_chain bs (bl(b := None)) = Some bl'" "\<forall>c. c \<notin> set bs \<longrightarrow> bl' c = (bl(b := None)) c" by blast
  obtain oc where "bl b = Some oc" using Cons.prems by auto
  then show ?case using r by auto
qed simp

lemma clone_spec:
  "(\<forall>b\<in>set bs. bl b \<noteq> None \<and> b < fresh) \<Longrightarrow> \<exists>bl'. clone_chain bs fresh bl = Some ([fresh..<fresh + length bs], fresh + length bs, bl')
    \<and> (\<forall>c<fresh. bl' c = bl c) \<and> (\<forall>c\<in>{fresh..<fresh + length bs}. bl' c \<noteq> None)
    \<and> chain_data bl' [fresh..<fresh + length bs] = chain_data bl bs"
proof (induction bs arbitrary: bl fresh)
  case (Cons b bs)
  obtain oc where oc: "bl b = Some oc" using Cons.prems by auto
  let ?bl = "bl(fresh \<mapsto> oc)"
  have "\<forall>c\<in>set bs. ?bl c \<noteq> None \<and> c < Suc fresh" using Cons.prems by auto
  then obtain bl' where r: "clone_chain bs (Suc fresh) ?bl = Some ([Suc fresh..<Suc fresh + length bs], Suc fresh + length bs, bl')"
    "\<forall>c<Suc fresh. bl' c = ?bl c" "\<forall>c\<in>{Suc fresh..<Suc fresh + length bs}. bl' c \<noteq> None"
    "chain_data bl' [Suc fresh..<Suc fresh + length bs] = chain_data ?bl bs"
    using Cons.IH by blast
  have same: "chain_data ?bl bs = chain_data bl bs" using Cons.prems by (intro chain_data_cong) auto
  have up: "[fresh..<fresh + length (b # bs)] = fresh # [Suc fresh..<Suc fresh + length bs]"
    using upt_conv_Cons [of fresh "fresh + length (b # bs)"] by simp
  have f: "bl' fresh = Some oc" using r(2) by simp
  have "\<forall>c<fresh. bl' c = bl c" using r(2) by auto
  moreover have "\<forall>c\<in>{fresh..<fresh + length (b # bs)}. bl' c \<noteq> None"
  proof
    fix c assume "c \<in> {fresh..<fresh + length (b # bs)}"
    then show "bl' c \<noteq> None" using r(3) f by (cases "c = fresh") auto
  qed
  moreover have "chain_data bl' [fresh..<fresh + length (b # bs)] = chain_data bl (b # bs)"
    unfolding up using f r(4) same oc by simp
  moreover have "clone_chain (b # bs) fresh bl = Some ([fresh..<fresh + length (b # bs)], fresh + length (b # bs), bl')"
    unfolding up using r(1) oc by simp
  ultimately show ?case by blast
qed simp

lemma fill_chain_spec:
  "(\<forall>b\<in>set bs. bl b \<noteq> None) \<Longrightarrow> length iov \<le> m \<Longrightarrow> \<exists>ps. fill_chain bl m iov bs = Some (iov @ ps) \<and> length iov + length ps \<le> m
    \<and> (\<exists>rest. chain_data bl bs = concat ps @ rest \<and> (length iov + length ps < m \<longrightarrow> rest = [])) \<and> (\<forall>p\<in>set ps. p \<noteq> [])"
proof (induction bs arbitrary: iov)
  case (Cons b bs)
  obtain oc where oc: "bl b = Some oc" using Cons.prems by auto
  have p: "\<forall>c\<in>set bs. bl c \<noteq> None" using Cons.prems by simp
  show ?case
  proof (cases "length iov < m")
    case True
    show ?thesis
    proof (cases "oc = []")
      case e: True
      then show ?thesis using Cons.IH [OF p Cons.prems(2)] True oc by simp
    next
      case False
      have "length (iov @ [oc]) \<le> m" using True by simp
      then obtain ps rest where i: "fill_chain bl m (iov @ [oc]) bs = Some ((iov @ [oc]) @ ps)" "length (iov @ [oc]) + length ps \<le> m"
        "chain_data bl bs = concat ps @ rest" "length (iov @ [oc]) + length ps < m \<longrightarrow> rest = []" "\<forall>p\<in>set ps. p \<noteq> []"
        using Cons.IH [OF p] by blast
      then show ?thesis using True oc False by (intro exI [of _ "oc # ps"]) auto
    qed
  next
    case False
    then show ?thesis using Cons.prems by (intro exI [of _ "[]"]) auto
  qed
qed simp

section \<open>The messages of the queue\<close>

definition octets :: "out_transport \<Rightarrow> addr \<Rightarrow> u8 list" where
  "octets t a = (case ot_msgs t a of
       Some (Synch contents current own, heap) \<Rightarrow> chain_data (ot_blocks t) current
     | Some (Asynch buffer offset timeout, heap) \<Rightarrow> drop offset buffer
     | None \<Rightarrow> [])"

text \<open>The blocks a message may touch.\<close>

definition foot :: "out_transport \<Rightarrow> addr \<Rightarrow> addr list" where
  "foot t a = (case ot_msgs t a of
       Some (Synch contents current own, heap) \<Rightarrow> if own then contents else current
     | _ \<Rightarrow> [])"

fun msg_ok :: "qmsg \<Rightarrow> bool" where
  "msg_ok (Synch contents current own) \<longleftrightarrow> (own \<longrightarrow> (\<exists>ys. contents = ys @ current))"
| "msg_ok (Asynch buffer offset timeout) \<longleftrightarrow> offset \<le> length buffer"

definition msgs_ok :: "out_transport \<Rightarrow> addr list \<Rightarrow> bool" where
  "msgs_ok t xs \<longleftrightarrow> (\<forall>a\<in>set xs. \<exists>m h. ot_msgs t a = Some (m, h) \<and> msg_ok m) \<and> distinct (concat (map (foot t) xs))
     \<and> (\<forall>a\<in>set xs. \<forall>b\<in>set (foot t a). ot_blocks t b \<noteq> None \<and> b < ot_fresh t)"

lemma msgs_okD:
  assumes "msgs_ok t xs" and "c \<in> set xs"
  shows "\<exists>m h. ot_msgs t c = Some (m, h) \<and> msg_ok m" "\<forall>b\<in>set (foot t c). ot_blocks t b \<noteq> None \<and> b < ot_fresh t"
    "distinct (foot t c)"
  using assms by (simp_all add: msgs_ok_def distinct_concat_iff)

definition q_ok :: "out_transport \<Rightarrow> addr list \<Rightarrow> bool" where
  "q_ok t xs \<longleftrightarrow> links t xs \<and> msgs_ok t xs \<and> (\<forall>a\<in>set xs. octets t a \<noteq> [])"

definition q_octets :: "out_transport \<Rightarrow> addr list \<Rightarrow> u8 list" where
  "q_octets t xs = concat (map (octets t) xs)"

lemma q_octets_simps [simp]: "q_octets t [] = []" "q_octets t (a # xs) = octets t a @ q_octets t xs"
  "q_octets t (xs @ ys) = q_octets t xs @ q_octets t ys"
  by (simp_all add: q_octets_def)

lemma stuff_same:
  assumes "stuff t' = stuff t"
  shows "foot t' = foot t" "octets t' = octets t" "msgs_ok t' xs = msgs_ok t xs"
proof -
  have f: "ot_msgs t' = ot_msgs t" "ot_blocks t' = ot_blocks t" "ot_fresh t' = ot_fresh t"
    using stuff_fields [OF assms] by simp_all
  show foot: "foot t' = foot t" and "octets t' = octets t" by (rule ext, simp only: foot_def octets_def f)+
  show "msgs_ok t' xs = msgs_ok t xs" by (simp only: msgs_ok_def f foot)
qed

lemma q_octets_cong: "(\<And>a. a \<in> set xs \<Longrightarrow> octets t' a = octets t a) \<Longrightarrow> q_octets t' xs = q_octets t xs"
  by (induction xs) auto

text \<open>An asynchronous message of which nothing has been sent.\<close>

definition unsent :: "out_transport \<Rightarrow> addr \<Rightarrow> bool" where
  "unsent t a \<longleftrightarrow> (\<exists>buffer timeout h. ot_msgs t a = Some (Asynch buffer 0 timeout, h))"

text \<open>What an operation on the message \<open>a\<close> leaves of the others.\<close>

definition frame :: "addr \<Rightarrow> out_transport \<Rightarrow> out_transport \<Rightarrow> bool" where
  "frame a t t' \<longleftrightarrow> (\<forall>c. c \<noteq> a \<longrightarrow> ot_msgs t' c = ot_msgs t c)
     \<and> (\<forall>b. b \<notin> set (foot t a) \<and> b < ot_fresh t \<longrightarrow> ot_blocks t' b = ot_blocks t b) \<and> ot_fresh t \<le> ot_fresh t'"

lemma frame_other:
  assumes "frame a t t'" and "msgs_ok t (ys @ a # zs)" and "c \<in> set (ys @ zs)" and "c \<noteq> a"
  shows "ot_msgs t' c = ot_msgs t c" "foot t' c = foot t c" "octets t' c = octets t c" "\<forall>b\<in>set (foot t c). ot_blocks t' b = ot_blocks t b"
    "set (foot t c) \<inter> set (foot t a) = {}"
proof -
  show m: "ot_msgs t' c = ot_msgs t c" using assms(1,4) by (simp add: frame_def)
  then show f: "foot t' c = foot t c" by (simp add: foot_def)
  have "distinct (concat (map (foot t) (ys @ a # zs)))" using assms(2) by (simp add: msgs_ok_def)
  then show dj: "set (foot t c) \<inter> set (foot t a) = {}" using assms(3) by auto
  show b: "\<forall>b\<in>set (foot t c). ot_blocks t' b = ot_blocks t b"
  proof
    fix b assume b: "b \<in> set (foot t c)"
    then have "b < ot_fresh t" "b \<notin> set (foot t a)" using assms(2,3) dj by (auto simp: msgs_ok_def)
    then show "ot_blocks t' b = ot_blocks t b" using assms(1) by (simp add: frame_def)
  qed
  obtain m h where mh: "ot_msgs t c = Some (m, h)" "msg_ok m" using msgs_okD(1) [OF assms(2), of c] assms(3) by auto
  show "octets t' c = octets t c"
  proof (cases m)
    case (Synch contents current own)
    then have "set current \<subseteq> set (foot t c)" using mh by (auto simp: foot_def)
    then have "chain_data (ot_blocks t') current = chain_data (ot_blocks t) current" using b by (intro chain_data_cong) auto
    then show ?thesis using mh Synch f assms(1,4) by (simp add: octets_def frame_def)
  next
    case (Asynch buffer offset timeout)
    then show ?thesis using mh assms(1,4) by (simp add: octets_def frame_def)
  qed
qed

text \<open>The invariant after an operation on one message: it is left to look at that message.\<close>

lemma frame_ok:
  assumes f: "frame a t t'" and ok: "msgs_ok t (ys @ a # zs)" and d: "distinct (ys @ a # zs)"
    and a: "\<exists>m h. ot_msgs t' a = Some (m, h) \<and> msg_ok m" "distinct (foot t' a)"
      "\<forall>b\<in>set (foot t' a). ot_blocks t' b \<noteq> None \<and> b < ot_fresh t' \<and> (b \<in> set (foot t a) \<or> ot_fresh t \<le> b)"
  shows "msgs_ok t' (ys @ a # zs)"
proof -
  have o: "c \<noteq> a" if "c \<in> set (ys @ zs)" for c using that d by auto
  note other = frame_other [OF f ok]
  have same: "map (foot t') ys = map (foot t) ys" "map (foot t') zs = map (foot t) zs" using other(2) o by auto
  have new: "set (foot t c) \<inter> set (foot t' a) = {}" if c: "c \<in> set (ys @ zs)" for c
  proof -
    have "b < ot_fresh t" "b \<notin> set (foot t a)" if "b \<in> set (foot t c)" for b
      using ok c that other(5) [OF c o [OF c]] by (auto simp: msgs_ok_def)
    then show ?thesis using a(3) by fastforce
  qed
  have "distinct (concat (map (foot t) (ys @ a # zs)))" using ok by (simp add: msgs_ok_def)
  then have "distinct (concat (map (foot t') (ys @ a # zs)))"
    using a(2) new by (simp add: same) blast
  moreover have "\<exists>m h. ot_msgs t' c = Some (m, h) \<and> msg_ok m" if "c \<in> set (ys @ a # zs)" for c
    using that a(1) ok other(1) [of c] o [of c] by (cases "c = a") (auto simp: msgs_ok_def)
  moreover have "ot_blocks t' b \<noteq> None \<and> b < ot_fresh t'" if "c \<in> set (ys @ a # zs)" "b \<in> set (foot t' c)" for b c
  proof (cases "c = a")
    case True
    then show ?thesis using that a(3) by blast
  next
    case False
    then have c: "c \<in> set (ys @ zs)" using that by auto
    have "ot_fresh t \<le> ot_fresh t'" using f by (simp add: frame_def)
    then show ?thesis using ok c that other(2,4) [OF c False] by (auto simp: msgs_ok_def) force+
  qed
  ultimately show ?thesis unfolding msgs_ok_def by blast
qed

text \<open>
  What an operation on the message \<open>a\<close> does at most: it touches blocks of that message or new
  ones, and a synchronous message of the stack stays one.
\<close>

definition acts :: "addr \<Rightarrow> out_transport \<Rightarrow> out_transport \<Rightarrow> bool" where
  "acts a t t' \<longleftrightarrow> frame a t t' \<and> (\<forall>b\<in>set (foot t' a). b \<in> set (foot t a) \<or> ot_fresh t \<le> b)
     \<and> (\<forall>x y z. ot_msgs t a = Some (Synch x y z, False) \<longrightarrow> (\<exists>x' y' z'. ot_msgs t' a = Some (Synch x' y' z', False) \<and> (y = [] \<longrightarrow> y' = [])))"

lemma acts_frame: "acts a t t' \<Longrightarrow> frame a t t'"
  by (simp add: acts_def)

definition same_links :: "out_transport \<Rightarrow> out_transport \<Rightarrow> bool" where
  "same_links t t' \<longleftrightarrow> ot_next t' = ot_next t \<and> ot_prev t' = ot_prev t \<and> ot_head t' = ot_head t \<and> ot_tail t' = ot_tail t"

definition same_io :: "out_transport \<Rightarrow> out_transport \<Rightarrow> bool" where
  "same_io t t' \<longleftrightarrow> ot_wire t' = ot_wire t \<and> ot_socket t' = ot_socket t \<and> ot_clock t' = ot_clock t \<and> ot_chain t' = ot_chain t"

lemma same_links_links: "same_links t t' \<Longrightarrow> links t' xs = links t xs"
  by (simp add: same_links_def links_def)

lemma same_io_trans: "same_io t t' \<Longrightarrow> same_io t' t'' \<Longrightarrow> same_io t t''"
  by (simp add: same_io_def)

lemma same_io_stuff: "stuff t' = stuff t \<Longrightarrow> same_io t t'"
  using stuff_fields [of t' t] by (simp add: same_io_def)

lemma bytes_spec:
  assumes ok: "msgs_ok t (a # xs)" and d: "distinct (a # xs)" and n: "0 < n" and ne: "octets t a \<noteq> []"
  shows "\<exists>t'. bytes_transferred a n t = Some (n - length (octets t a), t') \<and> msgs_ok t' (a # xs) \<and> acts a t t'
    \<and> octets t' a = drop n (octets t a) \<and> same_links t t' \<and> same_io t t'
    \<and> (\<exists>m' h. ot_msgs t' a = Some (m', h) \<and> all_data_sent m' = (length (octets t a) \<le> n)) \<and> \<not> unsent t' a"
proof -
  obtain m h where m: "ot_msgs t a = Some (m, h)" "msg_ok m" using msgs_okD(1) [OF ok, of a] by auto
  have fa: "\<forall>b\<in>set (foot t a). ot_blocks t b \<noteq> None \<and> b < ot_fresh t" "distinct (foot t a)"
    using msgs_okD(2,3) [OF ok, of a] by auto
  show ?thesis
  proof (cases m)
    case (Synch contents current own)
    have foot: "foot t a = (if own then contents else current)" using m(1) Synch by (simp add: foot_def)
    obtain zs where zs: "own \<longrightarrow> contents = zs @ current" using m(2) Synch by auto
    have cur: "distinct current" "\<forall>b\<in>set current. ot_blocks t b \<noteq> None" "set current \<subseteq> set (foot t a)"
      using fa foot zs by (auto split: if_splits)
    have oct: "octets t a = chain_data (ot_blocks t) current" using m(1) Synch by (simp add: octets_def)
    obtain bl' bs' us where tr: "transfer (ot_blocks t) False current n = Some (bl', bs', n - length (octets t a))" "current = us @ bs'"
      "\<forall>b. b \<notin> set current \<longrightarrow> bl' b = ot_blocks t b" "\<forall>b\<in>set current. bl' b \<noteq> None"
      "chain_data bl' bs' = drop n (octets t a)" "(bs' = []) = (length (octets t a) \<le> n)"
      using transfer_spec [OF cur(1,2), of False n] n unfolding oct by blast
    let ?m = "Synch contents bs' own"
    let ?t1 = "(state_changed a LFS_ACTIVE t)\<lparr>ot_blocks := bl', ot_msgs := (ot_msgs t)(a \<mapsto> (?m, h))\<rparr>"
    let ?t = "if bs' = [] then state_changed a LFS_SUCCESS ?t1 else ?t1"
    have run: "bytes_transferred a n t = Some (n - length (octets t a), ?t)"
      using m(1) Synch tr(1) by (simp add: bytes_transferred_def state_changed_def)
    have f: "ot_msgs ?t = (ot_msgs t)(a \<mapsto> (?m, h))" "ot_blocks ?t = bl'" "ot_fresh ?t = ot_fresh t" "same_links t ?t" "same_io t ?t"
      by (simp_all add: state_changed_def same_links_def same_io_def)
    have fr: "frame a t ?t" using f(1-3) tr(3) cur(3) unfolding frame_def by auto
    have foot': "foot ?t a = (if own then contents else bs')" using f(1) by (simp add: foot_def)
    have "msgs_ok ?t ([] @ a # xs)"
    proof (rule frame_ok [OF fr])
      have "msg_ok ?m" using zs tr(2) by auto
      then show "\<exists>m h. ot_msgs ?t a = Some (m, h) \<and> msg_ok m" using f(1) by simp
      show "distinct (foot ?t a)" using foot' fa(2) foot tr(2) by (auto split: if_splits)
      have sub: "set (foot ?t a) \<subseteq> set (foot t a)" using foot' foot tr(2) by (auto split: if_splits)
      have "bl' b \<noteq> None" if "b \<in> set (foot t a)" for b using that tr(3,4) fa(1) by (cases "b \<in> set current") auto
      then show "\<forall>b\<in>set (foot ?t a). ot_blocks ?t b \<noteq> None \<and> b < ot_fresh ?t \<and> (b \<in> set (foot t a) \<or> ot_fresh t \<le> b)"
        unfolding f(2,3) using sub fa(1) by blast
    qed (use ok d in simp_all)
    then have mok: "msgs_ok ?t (a # xs)" by simp
    have "set (foot ?t a) \<subseteq> set (foot t a)" using foot' foot tr(2) by (auto split: if_splits)
    moreover have "current = [] \<longrightarrow> bs' = []" using tr(2) by simp
    ultimately have ac: "acts a t ?t" using fr f(1) m(1) Synch unfolding acts_def by auto
    have o: "octets ?t a = drop n (octets t a)" using f(1,2) tr(5) by (simp add: octets_def)
    have "ot_msgs ?t a = Some (?m, h) \<and> all_data_sent ?m = (length (octets t a) \<le> n)" using f(1) tr(6) by simp
    moreover have "\<not> unsent ?t a" using f(1) by (simp add: unsent_def)
    ultimately show ?thesis using run ac mok o f(4,5) by blast
  next
    case (Asynch buffer offset timeout)
    have oct: "octets t a = drop offset buffer" using m(1) Asynch by (simp add: octets_def)
    let ?off = "if n > length buffer - offset then length buffer else offset + n"
    let ?m = "Asynch buffer ?off timeout"
    let ?t1 = "(state_changed a LFS_ACTIVE t)\<lparr>ot_msgs := (ot_msgs t)(a \<mapsto> (?m, h))\<rparr>"
    let ?t = "if n \<le> length buffer - offset \<and> length buffer = offset + n then state_changed a LFS_SUCCESS ?t1 else ?t1"
    have le: "offset < length buffer" using oct ne by simp
    have run: "bytes_transferred a n t = Some (n - length (octets t a), ?t)"
      using m(1) Asynch oct by (auto simp: bytes_transferred_def state_changed_def not_less)
    have f: "ot_msgs ?t = (ot_msgs t)(a \<mapsto> (?m, h))" "ot_blocks ?t = ot_blocks t" "ot_fresh ?t = ot_fresh t" "same_links t ?t" "same_io t ?t"
      by (simp_all add: state_changed_def same_links_def same_io_def)
    have fr: "frame a t ?t" using f(1-3) unfolding frame_def by auto
    have foot': "foot ?t a = []" using f(1) by (simp add: foot_def)
    have "msgs_ok ?t ([] @ a # xs)"
    proof (rule frame_ok [OF fr])
      have "msg_ok ?m" using le by auto
      then show "\<exists>m h. ot_msgs ?t a = Some (m, h) \<and> msg_ok m" using f(1) by simp
    qed (use ok d foot' in simp_all)
    then have mok: "msgs_ok ?t (a # xs)" by simp
    have ac: "acts a t ?t" using fr foot' m(1) Asynch unfolding acts_def by simp
    have o: "octets ?t a = drop n (octets t a)" using f(1) oct le by (auto simp: octets_def add.commute)
    have "ot_msgs ?t a = Some (?m, h) \<and> all_data_sent ?m = (length (octets t a) \<le> n)" using f(1) oct le by auto
    moreover have "\<not> unsent ?t a" using f(1) le n by (auto simp: unsent_def split: if_splits)
    ultimately show ?thesis using run ac mok o f(4,5) by blast
  qed
qed

lemma copy_spec:
  assumes ok: "msgs_ok t (a # xs)" and d: "distinct (a # xs)"
  shows "\<exists>t'. copy_if_necessary a t = Some t' \<and> msgs_ok t' (a # xs) \<and> acts a t t' \<and> octets t' a = octets t a
    \<and> same_links t t' \<and> same_io t t' \<and> unsent t' a = unsent t a"
proof -
  obtain m h where m: "ot_msgs t a = Some (m, h)" "msg_ok m" using msgs_okD(1) [OF ok, of a] by auto
  have fa: "\<forall>b\<in>set (foot t a). ot_blocks t b \<noteq> None \<and> b < ot_fresh t" using msgs_okD(2) [OF ok, of a] by auto
  have same: ?thesis if "copy_if_necessary a t = Some t"
    using that ok by (intro exI [of _ t]) (simp add: acts_def frame_def same_links_def same_io_def)
  show ?thesis
  proof (cases m)
    case (Synch contents current own)
    show ?thesis
    proof (cases "\<not> own \<and> current \<noteq> [] \<and> hd current \<in> set (ot_chain t)")
      case True
      have cur: "\<forall>b\<in>set current. ot_blocks t b \<noteq> None \<and> b < ot_fresh t" using fa m(1) Synch True by (simp add: foot_def)
      obtain bl' where cl: "clone_chain current (ot_fresh t) (ot_blocks t)
          = Some ([ot_fresh t..<ot_fresh t + length current], ot_fresh t + length current, bl')"
        "\<forall>c<ot_fresh t. bl' c = ot_blocks t c" "\<forall>c\<in>{ot_fresh t..<ot_fresh t + length current}. bl' c \<noteq> None"
        "chain_data bl' [ot_fresh t..<ot_fresh t + length current] = chain_data (ot_blocks t) current"
        using clone_spec [OF cur] by blast
      let ?cs = "[ot_fresh t..<ot_fresh t + length current]"
      let ?t = "t\<lparr>ot_blocks := bl', ot_fresh := ot_fresh t + length current, ot_msgs := (ot_msgs t)(a \<mapsto> (Synch ?cs ?cs True, h))\<rparr>"
      have run: "copy_if_necessary a t = Some ?t" using m(1) Synch True cl(1) by (simp add: copy_if_necessary_def)
      have fr: "frame a t ?t" using cl(2) by (simp add: frame_def)
      have foot': "foot ?t a = ?cs" by (simp add: foot_def)
      have "msgs_ok ?t ([] @ a # xs)"
        by (rule frame_ok [OF fr]) (use ok d foot' cl(3) in simp_all)
      moreover have "octets ?t a = octets t a" using cl(4) m(1) Synch by (simp add: octets_def)
      moreover have "unsent ?t a = unsent t a" using m(1) Synch by (simp add: unsent_def)
      moreover have "acts a t ?t" using fr foot' True m(1) Synch unfolding acts_def by auto
      ultimately show ?thesis using run by (intro exI [of _ ?t]) (simp add: same_links_def same_io_def)
    next
      case False
      then show ?thesis using m(1) Synch by (intro same) (auto simp: copy_if_necessary_def)
    qed
  next
    case (Asynch buffer offset timeout)
    then show ?thesis using m(1) by (intro same) (simp add: copy_if_necessary_def)
  qed
qed

text \<open>Taking a message off the queue and destroying it.\<close>

lemma discard_spec:
  assumes ok: "msgs_ok t (ys @ a # zs)" and l: "links t (ys @ a # zs)"
  shows "\<exists>t'. destroy a (remove_from_list a t) = Some t' \<and> links t' (ys @ zs) \<and> msgs_ok t' (ys @ zs)
    \<and> (\<forall>c\<in>set (ys @ zs). ot_msgs t' c = ot_msgs t c \<and> octets t' c = octets t c) \<and> same_io t t' \<and> acts a t t'"
proof -
  let ?t = "remove_from_list a t"
  note st = stuff_same [OF stuff_remove, of a t] and sf = stuff_fields [OF stuff_remove, of a t]
  have d: "distinct (ys @ a # zs)" using l by (simp add: links_def)
  have l': "links ?t (ys @ zs)" by (rule remove_links [OF l])
  have ok': "msgs_ok ?t (ys @ a # zs)" using ok st(3) by simp
  obtain m h where m: "ot_msgs ?t a = Some (m, h)" "msg_ok m" using msgs_okD(1) [OF ok', of a] by auto
  have fa: "\<forall>b\<in>set (foot ?t a). ot_blocks ?t b \<noteq> None" "distinct (foot ?t a)" using msgs_okD(2,3) [OF ok', of a] by auto
  obtain m' bl where b: "(case m of
         Synch contents current own \<Rightarrow>
           if own then do { bl \<leftarrow> release_chain contents (ot_blocks ?t); Some (Synch [] [] own, bl) } else Some (m, ot_blocks ?t)
       | Asynch buffer offset timeout \<Rightarrow> Some (m, ot_blocks ?t)) = Some (m', bl)"
    "\<forall>c. c \<notin> set (foot ?t a) \<longrightarrow> bl c = ot_blocks ?t c"
  proof (cases m)
    case (Synch contents current own)
    show ?thesis
    proof (cases own)
      case True
      then have "foot ?t a = contents" using m(1) Synch by (simp add: foot_def)
      then obtain bl where "release_chain contents (ot_blocks ?t) = Some bl" "\<forall>c. c \<notin> set (foot ?t a) \<longrightarrow> bl c = ot_blocks ?t c"
        using release_spec [of "foot ?t a" "ot_blocks ?t"] fa by auto
      then show ?thesis using that Synch True by simp
    next
      case False
      then show ?thesis using that Synch by simp
    qed
  next
    case (Asynch buffer offset timeout)
    then show ?thesis using that by simp
  qed
  let ?t' = "?t\<lparr>ot_blocks := bl, ot_msgs := (ot_msgs ?t)(a := (if h then None else Some (m', h)))\<rparr>"
  have run: "destroy a ?t = Some ?t'" using m(1) b(1) by (simp add: destroy_def)
  have fr: "frame a ?t ?t'" using b(2) by (simp add: frame_def)
  have o: "c \<noteq> a" if "c \<in> set (ys @ zs)" for c using that d by auto
  note other = frame_other [OF fr ok']
  have "map (foot ?t') (ys @ zs) = map (foot ?t) (ys @ zs)" using other(2) o by (intro map_cong) auto
  moreover have "distinct (concat (map (foot ?t) (ys @ zs)))" using ok' by (auto simp: msgs_ok_def)
  moreover have "\<exists>m h. ot_msgs ?t' c = Some (m, h) \<and> msg_ok m" if "c \<in> set (ys @ zs)" for c
    using msgs_okD(1) [OF ok', of c] that other(1) [OF that o [OF that]] by auto
  moreover have "ot_blocks ?t' b \<noteq> None \<and> b < ot_fresh ?t'" if "c \<in> set (ys @ zs)" "b \<in> set (foot ?t' c)" for b c
    using msgs_okD(2) [OF ok', of c] that other(2,4) [OF that(1) o [OF that(1)]] by auto
  ultimately have "msgs_ok ?t' (ys @ zs)" unfolding msgs_ok_def by (simp only: simp_thms) blast
  moreover have "links ?t' (ys @ zs)" using l' by (simp add: links_def)
  moreover have "ot_msgs ?t' c = ot_msgs t c \<and> octets ?t' c = octets t c" if "c \<in> set (ys @ zs)" for c
    using other(1,3) [OF that o [OF that]] st(2) sf by simp
  moreover have "same_io t ?t'" using sf by (simp add: same_io_def)
  moreover have "acts a t ?t'"
  proof -
    have "frame a t ?t'" using fr sf st(1) by (simp add: frame_def)
    moreover have "set (foot ?t' a) \<subseteq> set (foot t a)"
      using m(1) b(1) sf by (cases m) (auto simp: foot_def split: if_splits bind_splits)
    moreover have "\<exists>x' y' z'. ot_msgs ?t' a = Some (Synch x' y' z', False) \<and> (y = [] \<longrightarrow> y' = [])"
      if "ot_msgs t a = Some (Synch x y z, False)" for x y z
    proof -
      have "m = Synch x y z" "\<not> h" using that m(1) sf by simp_all
      then have "m' = (if z then Synch [] [] z else Synch x y z)" using b(1) by (auto split: if_splits bind_splits)
      then show ?thesis using \<open>\<not> h\<close> by (cases z) auto
    qed
    ultimately show ?thesis unfolding acts_def by blast
  qed
  ultimately show ?thesis using run by blast
qed

section \<open>The queue after octets were sent\<close>

text \<open>The queue \<open>us @ vs\<close> after \<open>us\<close> and the octets \<open>dn\<close> of the first message of \<open>vs\<close> were sent.\<close>

definition sent_off :: "out_transport \<Rightarrow> addr list \<Rightarrow> addr list \<Rightarrow> u8 list \<Rightarrow> out_transport \<Rightarrow> bool" where
  "sent_off t us vs dn t' \<longleftrightarrow> (case vs of [] \<Rightarrow> dn = []
     | v # ws \<Rightarrow> octets t v = dn @ octets t' v \<and> (dn \<noteq> [] \<longrightarrow> \<not> unsent t' v) \<and> (\<forall>c\<in>set ws. octets t' c = octets t c))
     \<and> (\<forall>c\<in>set vs. unsent t' c \<longrightarrow> ot_msgs t' c = ot_msgs t c)"

text \<open>
  What draining the queue \<open>xs\<close> to \<open>vs\<close> leaves alone: other messages, blocks of others; a synchronous
  message of the stack that has left the queue is sent.
\<close>

definition outside :: "out_transport \<Rightarrow> addr list \<Rightarrow> out_transport \<Rightarrow> addr list \<Rightarrow> bool" where
  "outside t xs t' vs \<longleftrightarrow> (\<forall>c. c \<notin> set xs \<longrightarrow> ot_msgs t' c = ot_msgs t c) \<and> ot_fresh t \<le> ot_fresh t' \<and> set vs \<subseteq> set xs
     \<and> (\<forall>b<ot_fresh t. (\<forall>c\<in>set xs. b \<notin> set (foot t c)) \<longrightarrow> ot_blocks t' b = ot_blocks t b)
     \<and> (\<forall>c\<in>set vs. \<forall>b\<in>set (foot t' c). ot_fresh t \<le> b \<or> (\<exists>d\<in>set xs. b \<in> set (foot t d)))
     \<and> (\<forall>c\<in>set xs. \<forall>x y z. ot_msgs t c = Some (Synch x y z, False) \<longrightarrow>
          (\<exists>x' y' z'. ot_msgs t' c = Some (Synch x' y' z', False) \<and> (c \<notin> set vs \<longrightarrow> y' = [])))"

lemma outside_refl: "outside t xs t xs"
  by (auto simp: outside_def)

lemma outside_trans:
  assumes 1: "outside t xs t1 vs" and 2: "outside t1 vs t2 ws"
  shows "outside t xs t2 ws"
  unfolding outside_def
proof (intro conjI allI impI ballI)
  show "ot_msgs t2 c = ot_msgs t c" if "c \<notin> set xs" for c using 1 2 that unfolding outside_def by (metis subsetD)
  show "ot_fresh t \<le> ot_fresh t2" "set ws \<subseteq> set xs" using 1 2 unfolding outside_def by auto
  show "ot_blocks t2 b = ot_blocks t b" if b: "b < ot_fresh t" "\<forall>c\<in>set xs. b \<notin> set (foot t c)" for b
  proof -
    have "\<forall>c\<in>set vs. b \<notin> set (foot t1 c)" "b < ot_fresh t1" using 1 b unfolding outside_def by (fastforce, simp)
    then show ?thesis using 1 2 b unfolding outside_def by metis
  qed
  show "ot_fresh t \<le> b \<or> (\<exists>d\<in>set xs. b \<in> set (foot t d))" if cb: "c \<in> set ws" "b \<in> set (foot t2 c)" for b c
  proof (cases "ot_fresh t1 \<le> b")
    case True
    then show ?thesis using 1 unfolding outside_def by simp
  next
    case False
    then obtain d where "d \<in> set vs" "b \<in> set (foot t1 d)" using 2 cb unfolding outside_def by blast
    then show ?thesis using 1 unfolding outside_def by blast
  qed
  show "\<exists>x' y' z'. ot_msgs t2 c = Some (Synch x' y' z', False) \<and> (c \<notin> set ws \<longrightarrow> y' = [])"
    if c: "c \<in> set xs" "ot_msgs t c = Some (Synch x y z, False)" for c x y z
  proof -
    obtain x' y' z' where t1: "ot_msgs t1 c = Some (Synch x' y' z', False)" "c \<notin> set vs \<longrightarrow> y' = []"
      using 1 c unfolding outside_def by blast
    show ?thesis
    proof (cases "c \<in> set vs")
      case True
      then show ?thesis using 2 t1(1) unfolding outside_def by blast
    next
      case False
      then have "ot_msgs t2 c = ot_msgs t1 c" using 2 unfolding outside_def by blast
      then show ?thesis using t1 False by simp
    qed
  qed
qed

text \<open>An operation on one message, which may then leave the queue.\<close>

lemma acts_outside:
  assumes "acts a t t'" and ok: "msgs_ok t (ys @ a # zs)" and d: "distinct (ys @ a # zs)"
    and vs: "set vs \<subseteq> set (ys @ a # zs)" "set (ys @ zs) \<subseteq> set vs"
    and sent: "\<And>x y z. ot_msgs t a = Some (Synch x y z, False) \<Longrightarrow> a \<notin> set vs \<Longrightarrow> y = []"
  shows "outside t (ys @ a # zs) t' vs"
proof -
  have fr: "frame a t t'" by (rule acts_frame [OF assms(1)])
  have o: "c \<noteq> a" if "c \<in> set (ys @ zs)" for c using that d by auto
  have same: "ot_msgs t' c = ot_msgs t c" "foot t' c = foot t c" if "c \<in> set (ys @ zs)" for c
    using frame_other(1,2) [OF fr ok that o [OF that]] by blast+
  have "ot_fresh t \<le> b \<or> (\<exists>d\<in>set (ys @ a # zs). b \<in> set (foot t d))" if "c \<in> set vs" "b \<in> set (foot t' c)" for b c
  proof (cases "c = a")
    case True
    then show ?thesis using assms(1) that unfolding acts_def by auto
  next
    case False
    then have "c \<in> set (ys @ zs)" using that vs(1) by auto
    then show ?thesis using same(2) [of c] that by auto
  qed
  moreover have "\<exists>x' y' z'. ot_msgs t' c = Some (Synch x' y' z', False) \<and> (c \<notin> set vs \<longrightarrow> y' = [])"
    if c: "c \<in> set (ys @ a # zs)" "ot_msgs t c = Some (Synch x y z, False)" for c x y z
  proof (cases "c = a")
    case True
    then show ?thesis using assms(1) c(2) sent [of x y z] unfolding acts_def by blast
  next
    case False
    then have "c \<in> set (ys @ zs)" using c by auto
    then show ?thesis using same(1) [of c] c(2) vs(2) by auto
  qed
  moreover have "ot_msgs t' c = ot_msgs t c" if "c \<notin> set (ys @ a # zs)" for c using fr that unfolding frame_def by auto
  moreover have "ot_blocks t' b = ot_blocks t b" if "b < ot_fresh t" "\<forall>c\<in>set (ys @ a # zs). b \<notin> set (foot t c)" for b
    using fr that unfolding frame_def by auto
  moreover have "ot_fresh t \<le> ot_fresh t'" using fr unfolding frame_def by blast
  ultimately show ?thesis using vs(1) unfolding outside_def by blast
qed

lemma cleanup_zero: "cleanup_queue 0 t = Some t"
  by (subst cleanup_queue.simps) (simp split: option.split)

lemma frame_rest:
  assumes "frame a t t'" and "msgs_ok t (a # xs)" and "distinct (a # xs)" and "c \<in> set xs"
  shows "ot_msgs t' c = ot_msgs t c" "octets t' c = octets t c"
  using frame_other(1,3) [OF assms(1), of "[]" xs c] assms(2-4) by auto

lemma cleanup_spec:
  "q_ok t xs \<Longrightarrow> n \<le> length (q_octets t xs) \<Longrightarrow> \<exists>t' us vs dn. cleanup_queue n t = Some t' \<and> xs = us @ vs \<and> q_ok t' vs
    \<and> same_io t t' \<and> take n (q_octets t xs) = q_octets t us @ dn \<and> sent_off t us vs dn t' \<and> outside t xs t' vs"
proof (induction xs arbitrary: t n)
  case Nil
  then have "cleanup_queue n t = Some t" by (simp add: cleanup_zero)
  then show ?case using Nil by (intro exI [of _ t] exI [of _ "[]"]) (simp add: sent_off_def same_io_def outside_refl)
next
  case (Cons a xs)
  show ?case
  proof (cases "n = 0")
    case True
    have "sent_off t [] (a # xs) [] t" by (simp add: sent_off_def)
    then show ?thesis using True Cons.prems(1) by (intro exI [of _ t] exI [of _ "[]"] exI [of _ "a # xs"]) (simp add: cleanup_zero same_io_def outside_refl)
  next
    case False
    have l: "links t (a # xs)" and ok: "msgs_ok t (a # xs)" and ne: "\<forall>c\<in>set (a # xs). octets t c \<noteq> []"
      using Cons.prems(1) by (auto simp: q_ok_def)
    have d: "distinct (a # xs)" and hd: "ot_head t = Some a" using l by (auto simp: links_def)
    obtain t1 m1 h1 where b: "bytes_transferred a n t = Some (n - length (octets t a), t1)" "msgs_ok t1 (a # xs)" "acts a t t1"
      "octets t1 a = drop n (octets t a)" "same_links t t1" "same_io t t1" "ot_msgs t1 a = Some (m1, h1)"
      "all_data_sent m1 = (length (octets t a) \<le> n)" "\<not> unsent t1 a"
      using bytes_spec [OF ok d, of n] False ne by auto
    note f1 = frame_rest [OF acts_frame [OF b(3)] ok d]
    have l1: "links t1 (a # xs)" using l same_links_links [OF b(5)] by simp
    show ?thesis
    proof (cases "length (octets t a) \<le> n")
      case True
      have "msgs_ok t1 ([] @ a # xs)" "links t1 ([] @ a # xs)" using b(2) l1 by simp_all
      then obtain t2 where t2: "destroy a (remove_from_list a t1) = Some t2" "links t2 xs" "msgs_ok t2 xs"
        "\<forall>c\<in>set xs. ot_msgs t2 c = ot_msgs t1 c \<and> octets t2 c = octets t1 c" "same_io t1 t2" "acts a t1 t2"
        using discard_spec [of t1 "[]" a xs] by auto
      have o: "\<forall>c\<in>set xs. octets t2 c = octets t c \<and> ot_msgs t2 c = ot_msgs t c" using t2(4) f1 by auto
      then have q: "q_octets t2 xs = q_octets t xs" by (intro q_octets_cong) auto
      have "q_ok t2 xs" using t2(2,3) o ne by (auto simp: q_ok_def)
      moreover have "n - length (octets t a) \<le> length (q_octets t2 xs)" using Cons.prems(2) q by simp
      ultimately obtain t' us vs dn where i: "cleanup_queue (n - length (octets t a)) t2 = Some t'" "xs = us @ vs" "q_ok t' vs"
        "same_io t2 t'" "take (n - length (octets t a)) (q_octets t2 xs) = q_octets t2 us @ dn" "sent_off t2 us vs dn t'"
        "outside t2 xs t' vs"
        using Cons.IH by blast
      have run: "cleanup_queue n t = Some t'"
        using hd False b(1,7,8) True t2(1) i(1) by (subst cleanup_queue.simps) simp
      have "q_octets t2 us = q_octets t us" using o i(2) by (intro q_octets_cong) auto
      then have tk: "take n (q_octets t (a # xs)) = q_octets t (a # us) @ dn" using i(5) q True by simp
      have "sent_off t (a # us) vs dn t'"
        using i(6) o i(2) by (auto simp: sent_off_def split: list.splits)
      moreover have "same_io t t'" using same_io_trans [OF same_io_trans [OF b(6) t2(5)] i(4)] .
      moreover have "a # xs = (a # us) @ vs" using i(2) by simp
      moreover have "outside t (a # xs) t' vs"
      proof -
        have o1: "outside t ([] @ a # xs) t1 (a # xs)" by (rule acts_outside [OF b(3)]) (use ok d in auto)
        have "outside t1 ([] @ a # xs) t2 xs"
        proof (rule acts_outside [OF t2(6)])
          show "y = []" if "ot_msgs t1 a = Some (Synch x y z, False)" for x y z using that b(7,8) True by simp
        qed (use b(2) d in auto)
        then show ?thesis using outside_trans [OF outside_trans [OF o1] i(7)] by simp
      qed
      ultimately show ?thesis using run i(3) tk by blast
    next
      case less: False
      obtain t2 where t2: "copy_if_necessary a t1 = Some t2" "msgs_ok t2 (a # xs)" "acts a t1 t2" "octets t2 a = octets t1 a"
        "same_links t1 t2" "same_io t1 t2" "unsent t2 a = unsent t1 a"
        using copy_spec [OF b(2) d] by blast
      note f2 = frame_rest [OF acts_frame [OF t2(3)] b(2) d]
      have o: "\<forall>c\<in>set xs. octets t2 c = octets t c \<and> ot_msgs t2 c = ot_msgs t c" using f1 f2 by auto
      have oa: "octets t2 a = drop n (octets t a)" using t2(4) b(4) by simp
      have l2: "links t2 (a # xs)" using l1 same_links_links [OF t2(5)] by simp
      have "octets t2 a \<noteq> []" using oa less by simp
      then have q: "q_ok t2 (a # xs)" using l2 t2(2) o ne by (auto simp: q_ok_def)
      have n0: "n - length (octets t a) = 0" using less by simp
      have run: "cleanup_queue n t = Some t2"
        using hd False b(1,7,8) less n0 t2(1) cleanup_zero [of t2] by (subst cleanup_queue.simps) simp
      have "sent_off t [] (a # xs) (take n (octets t a)) t2"
        using oa o b(9) t2(7) by (simp add: sent_off_def)
      moreover have "take n (q_octets t (a # xs)) = q_octets t [] @ take n (octets t a)" using less by simp
      moreover have "same_io t t2" using same_io_trans [OF b(6) t2(6)] .
      moreover have "outside t (a # xs) t2 (a # xs)"
      proof -
        have o1: "outside t ([] @ a # xs) t1 (a # xs)" by (rule acts_outside [OF b(3)]) (use ok d in auto)
        have "outside t1 ([] @ a # xs) t2 (a # xs)" by (rule acts_outside [OF t2(3)]) (use b(2) d in auto)
        then show ?thesis using outside_trans [OF o1] by simp
      qed
      ultimately show ?thesis using run q by (metis append_Nil)
    qed
  qed
qed

text \<open>What \<open>fill_iov\<close> adds of a message: all its octets, unless the vector is full.\<close>

lemma fill_spec:
  assumes ok: "msgs_ok t xs" and a: "a \<in> set xs" and m: "ot_msgs t a = Some (m, h)" and len: "length iov < k" and ne: "octets t a \<noteq> []"
  shows "\<exists>ps rest. fill_iov t k iov m = Some (iov @ ps) \<and> length iov + length ps \<le> k \<and> octets t a = concat ps @ rest
    \<and> (length iov + length ps < k \<longrightarrow> rest = []) \<and> (\<forall>p\<in>set ps. p \<noteq> [])"
proof (cases m)
  case (Synch contents current own)
  obtain ys where "own \<longrightarrow> contents = ys @ current" using msgs_okD(1) [OF ok a] m Synch by auto
  then have "set current \<subseteq> set (foot t a)" using m Synch by (auto simp: foot_def)
  then have p: "\<forall>b\<in>set current. ot_blocks t b \<noteq> None" using msgs_okD(2) [OF ok a] by auto
  have "length iov \<le> k" using len by simp
  from fill_chain_spec [OF p this] show ?thesis using m Synch len by (auto simp: octets_def)
next
  case (Asynch buffer offset timeout)
  then have "fill_iov t k iov m = Some (iov @ [octets t a])" using m len by (simp add: octets_def)
  then show ?thesis using len ne by (intro exI [of _ "[octets t a]"] exI [of _ "[]"]) simp
qed

end
