(* ===== verification/Transport_Input.thy ===== *)
theory Transport_Input
  imports GIOP_Message
begin

text \<open>
  The incoming data path of a connection: \<open>TAO_Transport::handle_input\<close> and what it calls
  (TAO/tao/Transport.cpp), with the message base's functions that cut the octets read into messages
  (TAO/tao/GIOP_Message_Base.cpp). The peer's octets that were not read yet are part of the state.
  Storing past the end of a block is no result. The queue of messages and the stack of incomplete ones
  are lists, head and top in front.
\<close>

section \<open>State\<close>

text \<open>
  What the code relies on: the allocator, the reader of service contexts, the address and the octets
  of the buffer on the stack, the option \<open>single_read_optimization\<close>, whether the wait strategy is
  registered with the reactor, and the outcome of handling a request or a reply.
\<close>

record input_env =
  e_al :: allocator
  e_contexts :: "icdr \<Rightarrow> bool \<times> icdr"
  e_base :: nat
  e_buf :: "u8 list"
  e_single_read :: bool
  e_registered :: bool
  e_handle :: "giop_state \<Rightarrow> u8 list \<Rightarrow> bool"

text \<open>\<open>tr_log\<close> are the messages handed to \<open>process_parsed_messages\<close>, \<open>tr_notified\<close> counts the
  notifications sent to the reactor, \<open>tr_allocs\<close> numbers the calls of the allocator.\<close>

record transport =
  tr_stack :: "queued_data list"
  tr_queue :: "queued_data list"
  tr_fragments :: "queued_data list"
  tr_partial :: "u8 list option"
  tr_socket :: "u8 list"
  tr_log :: "(giop_state \<times> u8 list) list"
  tr_notified :: nat
  tr_allocs :: nat

definition transport_new :: "u8 list \<Rightarrow> transport" where
  "transport_new socket = \<lparr>tr_stack = [], tr_queue = [], tr_fragments = [], tr_partial = None, tr_socket = socket,
     tr_log = [], tr_notified = 0, tr_allocs = 0\<rparr>"

section \<open>Reading\<close>

text \<open>\<open>recv\<close> of at most \<open>n\<close> octets: \<open>k\<close> is what the network has, \<open>None\<close> an error.\<close>

definition recv :: "nat option \<Rightarrow> nat \<Rightarrow> transport \<Rightarrow> u8 list option \<times> transport" where
  "recv k n t = (case k of
       None \<Rightarrow> (None, t)
     | Some k \<Rightarrow> (Some (take (min n k) (tr_socket t)), t\<lparr>tr_socket := drop (min n k) (tr_socket t)\<rparr>))"

definition blk_recv :: "u8 list \<Rightarrow> blk \<Rightarrow> blk option" where
  "blk_recv bs b = (if b_wr b + length bs \<le> blk_end b
     then Some (b\<lparr>b_data := take (b_wr b) (b_data b) @ bs @ drop (b_wr b + length bs) (b_data b), b_wr := b_wr b + length bs\<rparr>)
     else None)"

definition new_blk :: "nat \<times> u8 list \<Rightarrow> blk" where
  "new_blk mem = blk_mb_align \<lparr>b_base = fst mem, b_data = snd mem, b_cur = length (snd mem), b_rd = 0, b_wr = 0\<rparr>"

definition skip :: "nat \<Rightarrow> blk \<Rightarrow> blk" where
  "skip n b = b\<lparr>b_rd := b_rd b + n\<rparr>"

section \<open>Cutting the octets into messages\<close>

definition make_queued_data :: "allocator \<Rightarrow> nat \<Rightarrow> nat \<Rightarrow> queued_data option" where
  "make_queued_data al n sz = map_option (\<lambda>mem. \<lparr>qd_msg = [new_blk mem], qd_missing = 0, qd_state = giop_state_new\<rparr>)
     (al n (sz + MAX_ALIGNMENT))"

definition parse_next_message :: "queued_data \<Rightarrow> int \<times> queued_data \<times> nat" where
  "parse_next_message qd =
     (let b = qd_block qd
      in if blk_length b < HEADER_LEN then (0, qd\<lparr>qd_missing := MISSING_DATA_UNDEFINED\<rparr>, 0)
         else case parse_message_header (content b) giop_state_new of (r, state) \<Rightarrow>
           if r = -1 then (-1, qd, 0)
           else let message_size = unat (message_size state);
                    missing = (if message_size > blk_length b then message_size - blk_length b else 0)
                in (1, qd\<lparr>qd_missing := missing, qd_state := state\<rparr>, message_size))"

text \<open>The result, the node, and what is left of the incoming block.\<close>

definition extract_next_message :: "allocator \<Rightarrow> nat \<Rightarrow> blk \<Rightarrow> int \<times> queued_data option \<times> blk" where
  "extract_next_message al n incoming =
     (if blk_length incoming < HEADER_LEN
      then if blk_length incoming > 0
           then case make_queued_data al n (max HEADER_LEN DEFAULT_BUFSIZE) of
                  None \<Rightarrow> (-1, None, incoming)
                | Some qd \<Rightarrow> (0, Some (qd\<lparr>qd_msg := [blk_copy (content incoming) (qd_block qd)], qd_missing := MISSING_DATA_UNDEFINED\<rparr>),
                              skip (blk_length incoming) incoming)
           else (0, None, incoming)
      else case parse_message_header (content incoming) giop_state_new of (r, state) \<Rightarrow>
        if r = -1 then (-1, None, incoming)
        else let copying_len = unat (message_size state)
             in case make_queued_data al n copying_len of
                  None \<Rightarrow> (-1, None, incoming)
                | Some qd \<Rightarrow>
                    let missing = (if copying_len > blk_length incoming then copying_len - blk_length incoming else 0);
                        copying_len = (if copying_len > blk_length incoming then blk_length incoming else copying_len)
                    in (1, Some (qd\<lparr>qd_msg := [blk_copy (take copying_len (content incoming)) (qd_block qd)], qd_missing := missing,
                            qd_state := state\<rparr>), skip copying_len incoming))"

definition consolidate_node :: "allocator \<Rightarrow> nat \<Rightarrow> queued_data \<Rightarrow> blk \<Rightarrow> (int \<times> queued_data \<times> blk) option" where
  "consolidate_node al n qd incoming =
     (let b = qd_block qd
      in if qd_missing qd = MISSING_DATA_UNDEFINED
         then let len = blk_length b
              in if len \<ge> HEADER_LEN then Some (-1, qd, incoming)
                 else let n_copy = min (blk_length incoming) (HEADER_LEN - len)
                      in if n_copy = 0 \<or> blk_space b < n_copy then Some (-1, qd, incoming)
                         else let b = blk_copy (take n_copy (content incoming)) b;
                                  qd = qd\<lparr>qd_msg := [b]\<rparr>;
                                  incoming = skip n_copy incoming
                              in if blk_length b < HEADER_LEN then Some (0, qd, incoming)
                                 else case parse_message_header (content b) giop_state_new of (r, state) \<Rightarrow>
                                   if r = -1 then Some (-1, qd, incoming)
                                   else do {
                                     (r, b) \<leftarrow> cdr_grow al n (unat (message_size state)) b;
                                     qd \<leftarrow> Some (qd\<lparr>qd_msg := [b]\<rparr>);
                                     if r = -1 then Some (-1, qd, incoming)
                                     else let copy_len = unat (gs_payload state);
                                              missing = (if copy_len > blk_length incoming then copy_len - blk_length incoming else 0);
                                              copy_len = (if copy_len > blk_length incoming then blk_length incoming else copy_len);
                                              qd = qd\<lparr>qd_missing := missing\<rparr>
                                          in if blk_space b < copy_len then Some (-1, qd, incoming)
                                             else Some (0, qd\<lparr>qd_msg := [blk_copy (take copy_len (content incoming)) b], qd_state := state\<rparr>,
                                                    skip copy_len incoming) }
         else let copy_len = qd_missing qd;
                  qd = (if copy_len > blk_length incoming then qd\<lparr>qd_missing := copy_len - blk_length incoming\<rparr> else qd);
                  copy_len = (if copy_len > blk_length incoming then blk_length incoming else copy_len)
              in if copy_len = 0 \<or> blk_space b < copy_len then Some (-1, qd, incoming)
                 else Some (0, qd\<lparr>qd_msg := [skip copy_len (blk_copy (take copy_len (content incoming)) b)]\<rparr>, incoming))"

text \<open>
  \<open>TAO_Queued_Data::duplicate\<close> of a node on the stack: its block gets a data block of its own first
  (\<open>replace_data_block\<close>), which the node and its duplicate share.
\<close>

definition replace_data_block :: "allocator \<Rightarrow> nat \<Rightarrow> blk \<Rightarrow> blk option" where
  "replace_data_block al n mb = do {
     (base, data) \<leftarrow> al n (blk_end mb);
     Some (case blk_resize al (Suc n) (blk_length mb + MAX_ALIGNMENT)
             \<lparr>b_base = base, b_data = data, b_cur = length data, b_rd = 0, b_wr = 0\<rparr> of
             None \<Rightarrow> mb
           | Some db \<Rightarrow> blk_copy (content mb) (blk_mb_align db)) }"

section \<open>Processing\<close>

definition process_parsed_messages :: "input_env \<Rightarrow> queued_data \<Rightarrow> transport \<Rightarrow> int \<times> transport" where
  "process_parsed_messages env qd t =
     (let t = t\<lparr>tr_log := tr_log t @ [(qd_state qd, qd_octets qd)]\<rparr>; type = qd_type qd
      in if type = CloseConnection then (-1, t)
         else if type \<in> {Request, LocateRequest, Reply, LocateReply}
         then if e_handle env (qd_state qd) (qd_octets qd) then (0, t) else (-1, t)
         else if type = CancelRequest
         then (0, t\<lparr>tr_fragments := snd (discard_fragmented_message (e_contexts env) qd (tr_fragments t))\<rparr>)
         else if type = MessageError then (-1, t)
         else (0, t))"

definition notify_reactor :: "input_env \<Rightarrow> transport \<Rightarrow> transport" where
  "notify_reactor env t = (if e_registered env then t\<lparr>tr_notified := tr_notified t + 1\<rparr> else t)"

text \<open>1: the queue is empty.\<close>

definition process_queue_head :: "input_env \<Rightarrow> transport \<Rightarrow> int \<times> transport" where
  "process_queue_head env t = (case tr_queue t of
       qd # queue \<Rightarrow>
         (let t = t\<lparr>tr_queue := queue\<rparr>;
              t = (if queue \<noteq> [] then notify_reactor env t else t)
          in process_parsed_messages env qd t)
     | [] \<Rightarrow> (1, t))"

definition is_fragment :: "queued_data \<Rightarrow> bool" where
  "is_fragment qd \<longleftrightarrow> gs_more (qd_state qd) \<or> qd_type qd = Fragment"

text \<open>The two functions differ in what they do with a whole message, the argument \<open>deliver\<close>.\<close>

definition consolidate_message ::
  "(queued_data \<Rightarrow> transport \<Rightarrow> int \<times> transport) \<Rightarrow> input_env \<Rightarrow> queued_data \<Rightarrow> transport \<Rightarrow> (int \<times> transport) option" where
  "consolidate_message deliver env qd t =
     (if qd_missing qd \<noteq> 0 then Some (-1, t)
      else if is_fragment qd
      then do {
        (r, msg, fragments) \<leftarrow> consolidate_fragmented_message (e_al env) (tr_allocs t) (e_contexts env) qd (tr_fragments t);
        t \<leftarrow> Some (t\<lparr>tr_fragments := fragments, tr_allocs := tr_allocs t + 2\<rparr>);
        if r = -1 then Some (-1, t)
        else if r = 0 then case msg of None \<Rightarrow> Some (-1, t) | Some msg \<Rightarrow> Some (deliver msg t)
        else Some (0, t) }
      else Some (deliver qd t))"

definition consolidate_process_message :: "input_env \<Rightarrow> queued_data \<Rightarrow> transport \<Rightarrow> (int \<times> transport) option" where
  "consolidate_process_message env = consolidate_message (process_parsed_messages env) env"

definition consolidate_enqueue_message :: "input_env \<Rightarrow> queued_data \<Rightarrow> transport \<Rightarrow> (int \<times> transport) option" where
  "consolidate_enqueue_message env = consolidate_message (\<lambda>qd t. (0, t\<lparr>tr_queue := tr_queue t @ [qd]\<rparr>)) env"

section \<open>Input\<close>

definition handle_input_missing_data :: "input_env \<Rightarrow> nat option \<Rightarrow> queued_data \<Rightarrow> queued_data list \<Rightarrow> transport \<Rightarrow> (int \<times> transport) option" where
  "handle_input_missing_data env k q_data below t = do {
     let recv_size = qd_missing q_data;
     (r, b) \<leftarrow> (if blk_space (qd_block q_data) < recv_size
               then cdr_grow (e_al env) (tr_allocs t) (recv_size + blk_length (qd_block q_data)) (qd_block q_data)
               else Some (0, qd_block q_data));
     q_data \<leftarrow> Some (q_data\<lparr>qd_msg := [b]\<rparr>);
     t \<leftarrow> Some (t\<lparr>tr_stack := q_data # below, tr_allocs := tr_allocs t + 1\<rparr>);
     if r = -1 then Some (-1, t)
     else case recv k recv_size t of
       (None, t) \<Rightarrow> Some (-1, t)
     | (Some bs, t) \<Rightarrow>
         if bs = [] then Some (0, t)
         else do {
           b \<leftarrow> blk_recv bs b;
           q_data \<leftarrow> Some (q_data\<lparr>qd_msg := [b], qd_missing := qd_missing q_data - length bs\<rparr>);
           if qd_missing q_data = 0
           then do {
             (r, t) \<leftarrow> consolidate_process_message env q_data (t\<lparr>tr_stack := below\<rparr>);
             if r = -1 then Some (-1, t) else Some (0, t) }
           else Some (0, t\<lparr>tr_stack := q_data # below\<rparr>) } }"

partial_function (option) handle_input_parse_extra_messages :: "input_env \<Rightarrow> blk \<Rightarrow> transport \<Rightarrow> (int \<times> blk \<times> transport) option" where
  "handle_input_parse_extra_messages env message_block t =
     (if blk_length message_block > 0
      then case extract_next_message (e_al env) (tr_allocs t) message_block of (buf_status, q_data, message_block) \<Rightarrow>
        if buf_status = -1 then Some (-1, message_block, t)
        else case q_data of
          None \<Rightarrow> Some (0, message_block, t)
        | Some q_data \<Rightarrow>
            if qd_missing q_data = 0
            then do {
              (r, t) \<leftarrow> consolidate_enqueue_message env q_data (t\<lparr>tr_allocs := tr_allocs t + 1\<rparr>);
              if r = -1 then Some (-1, message_block, t)
              else handle_input_parse_extra_messages env message_block t }
            else handle_input_parse_extra_messages env message_block
                   (t\<lparr>tr_allocs := tr_allocs t + 1, tr_stack := q_data # tr_stack t\<rparr>)
      else Some (0, message_block, t))"

definition parse_rest :: "input_env \<Rightarrow> blk \<Rightarrow> transport \<Rightarrow> (int \<times> blk \<times> transport) option" where
  "parse_rest env message_block t =
     (if blk_length message_block > 0 then handle_input_parse_extra_messages env message_block t else Some (0, message_block, t))"

text \<open>The end of \<open>handle_input_parse_data\<close>: octets left in the buffer are kept for the next call.\<close>

definition save_partial :: "blk \<Rightarrow> transport \<Rightarrow> (int \<times> transport) option" where
  "save_partial message_block t =
     (if blk_length message_block > 0
      then let p = (case tr_partial t of None \<Rightarrow> [] | Some p \<Rightarrow> p)
           in if length p + blk_length message_block \<le> HEADER_LEN
              then Some (0, t\<lparr>tr_partial := Some (p @ content message_block)\<rparr>)
              else Some (-1, t\<lparr>tr_partial := Some p\<rparr>)
      else Some (0, t))"

text \<open>The first branch: the top of the stack waits for the rest of its header.\<close>

definition parse_consolidate :: "input_env \<Rightarrow> queued_data \<Rightarrow> queued_data list \<Rightarrow> blk \<Rightarrow> transport \<Rightarrow> (int \<times> transport) option" where
  "parse_consolidate env q_data below message_block t = do {
     (r, q_data, message_block) \<leftarrow> consolidate_node (e_al env) (tr_allocs t) q_data message_block;
     t \<leftarrow> Some (t\<lparr>tr_stack := q_data # below, tr_allocs := tr_allocs t + 1\<rparr>);
     if r = -1 then Some (-1, t)
     else do {
       (r, t) \<leftarrow> (if qd_missing q_data = 0
                 then consolidate_enqueue_message env q_data (t\<lparr>tr_stack := below\<rparr>)
                 else Some (0, t));
       if r = -1 then Some (-1, t)
       else do {
         (r, message_block, t) \<leftarrow> parse_rest env message_block t;
         if r = -1 then Some (-1, t)
         else case process_queue_head env t of (r, t) \<Rightarrow>
           if r = -1 then Some (-1, t) else save_partial message_block t } } }"

text \<open>The second branch: a fragment, or a message that is not complete.\<close>

definition parse_fragment :: "input_env \<Rightarrow> queued_data \<Rightarrow> nat \<Rightarrow> blk \<Rightarrow> transport \<Rightarrow> (int \<times> transport) option" where
  "parse_fragment env qd mesg_length message_block t = do {
     message_block \<leftarrow> replace_data_block (e_al env) (tr_allocs t) message_block;
     t \<leftarrow> Some (t\<lparr>tr_allocs := tr_allocs t + 2\<rparr>);
     let nqd = qd\<lparr>qd_msg := [message_block\<lparr>b_wr := b_rd message_block + mesg_length\<rparr>]\<rparr>;
     (r, t) \<leftarrow> consolidate_enqueue_message env nqd t;
     if r = -1 then Some (-1, t)
     else do {
       (r, message_block, t) \<leftarrow> parse_rest env (skip mesg_length message_block) t;
       if r = -1 then Some (-1, t)
       else case process_queue_head env t of (r, t) \<Rightarrow>
         if r = -1 then Some (-1, t) else save_partial message_block t } }"

definition parse_incomplete :: "input_env \<Rightarrow> queued_data \<Rightarrow> blk \<Rightarrow> transport \<Rightarrow> (int \<times> transport) option" where
  "parse_incomplete env qd message_block t = do {
     (r, message_block) \<leftarrow> (if qd_missing qd > blk_space message_block
                           then cdr_grow (e_al env) (tr_allocs t) (blk_length message_block + qd_missing qd) message_block
                           else Some (0, message_block));
     t \<leftarrow> Some (t\<lparr>tr_allocs := tr_allocs t + 1\<rparr>);
     if r = -1 then Some (-1, t)
     else do {
       message_block \<leftarrow> replace_data_block (e_al env) (tr_allocs t) message_block;
       t \<leftarrow> Some (t\<lparr>tr_allocs := tr_allocs t + 2, tr_stack := qd\<lparr>qd_msg := [message_block]\<rparr> # tr_stack t\<rparr>);
       save_partial (skip (blk_length message_block) message_block) t } }"

text \<open>The third branch: a complete message is processed where it is, behind it others are queued.\<close>

definition parse_critical :: "input_env \<Rightarrow> queued_data \<Rightarrow> nat \<Rightarrow> blk \<Rightarrow> transport \<Rightarrow> (int \<times> transport) option" where
  "parse_critical env qd mesg_length message_block t = do {
     let end_marker = b_rd message_block + mesg_length;
     (r, message_block, t) \<leftarrow> (if blk_length message_block > mesg_length
        then do {
          (r, _, t) \<leftarrow> handle_input_parse_extra_messages env (skip mesg_length message_block) t;
          Some (r, message_block\<lparr>b_wr := end_marker\<rparr>, t) }
        else Some (0, message_block, t));
     if r = -1 then Some (-1, t)
     else let t = (if tr_queue t \<noteq> [] then notify_reactor env t else t)
          in case process_parsed_messages env (qd\<lparr>qd_msg := [message_block]\<rparr>) t of (r, t) \<Rightarrow>
            if r = -1 then Some (-1, t) else save_partial (message_block\<lparr>b_rd := end_marker\<rparr>) t }"

definition parse_buffer :: "input_env \<Rightarrow> blk \<Rightarrow> transport \<Rightarrow> (int \<times> transport) option" where
  "parse_buffer env message_block t =
     (if tr_stack t \<noteq> [] \<and> qd_missing (hd (tr_stack t)) = MISSING_DATA_UNDEFINED
      then parse_consolidate env (hd (tr_stack t)) (tl (tr_stack t)) message_block t
      else case parse_next_message \<lparr>qd_msg = [message_block], qd_missing = 0, qd_state = giop_state_new\<rparr> of (r, qd, mesg_length) \<Rightarrow>
        if r = -1 \<or> qd_missing qd = 0 \<and> mesg_length > blk_length message_block then Some (-1, t)
        else if qd_missing qd \<noteq> 0 \<or> is_fragment qd
        then if qd_missing qd = 0 then parse_fragment env qd mesg_length message_block t
             else if qd_missing qd \<noteq> MISSING_DATA_UNDEFINED then parse_incomplete env qd message_block t
             else save_partial message_block t
        else parse_critical env qd mesg_length message_block t)"

definition handle_input_parse_data :: "input_env \<Rightarrow> nat option \<Rightarrow> transport \<Rightarrow> (int \<times> transport) option" where
  "handle_input_parse_data env k t =
     (let message_block = new_blk (e_base env, e_buf env);
          partial = (case tr_partial t of None \<Rightarrow> [] | Some p \<Rightarrow> p)
      in if HEADER_LEN > blk_space message_block then Some (-1, t)
         else let recv_size = (if e_single_read env then blk_space message_block
                  else if tr_stack t \<noteq> [] \<and> qd_missing (hd (tr_stack t)) = MISSING_DATA_UNDEFINED
                  then nat ((int HEADER_LEN - int (blk_length (qd_block (hd (tr_stack t))))) mod 2 ^ 64)
                  else HEADER_LEN)
              in if partial \<noteq> [] \<and> \<not> (length partial \<le> recv_size \<and> length partial \<le> blk_space message_block) then Some (-1, t)
                 else let message_block = blk_copy partial message_block; recv_size = recv_size - length partial
                      in if recv_size = 0 then Some (-1, t\<lparr>tr_partial := map_option (\<lambda>_. []) (tr_partial t)\<rparr>)
                         else case recv k recv_size t of
                           (None, t) \<Rightarrow> Some (-1, t\<lparr>tr_partial := map_option (\<lambda>_. []) (tr_partial t)\<rparr>)
                         | (Some bs, t) \<Rightarrow>
                             if bs = [] then Some (0, t)
                             else do {
                               message_block \<leftarrow> blk_recv bs message_block;
                               parse_buffer env message_block (t\<lparr>tr_partial := map_option (\<lambda>_. []) (tr_partial t)\<rparr>) })"

definition handle_input :: "input_env \<Rightarrow> nat option \<Rightarrow> transport \<Rightarrow> (int \<times> transport) option" where
  "handle_input env k t =
     (case process_queue_head env t of (retval, t) \<Rightarrow>
        if retval \<le> 0 then Some (retval, t)
        else do {
          (r, t) \<leftarrow> (if tr_stack t \<noteq> [] \<and> qd_missing (hd (tr_stack t)) \<noteq> MISSING_DATA_UNDEFINED
                    then handle_input_missing_data env k (hd (tr_stack t)) (tl (tr_stack t)) t
                    else handle_input_parse_data env k t);
          Some (if r = -1 then -1 else 0, t) })"

end
