(* ===== verification/Transport_Input_Inv.thy ===== *)
theory Transport_Input_Inv
  imports Transport_Input
begin

text \<open>
  The incoming data path cuts the stream of octets into the messages the peer sent: the relation
  between the state of a connection and the messages still to come, the functions that cut a buffer
  into messages, and the loop over a buffer that holds several.
\<close>

section \<open>Blocks\<close>

definition blk_in :: "blk \<Rightarrow> bool" where
  "blk_in b \<longleftrightarrow> b_rd b \<le> b_wr b \<and> b_wr b \<le> b_cur b \<and> b_cur b \<le> length (b_data b)"

lemma blk_in_length: "blk_in b \<Longrightarrow> length (content b) = blk_length b"
  by (auto simp: blk_in_def content_def blk_length_def min_def)

lemma blk_in_room: "blk_in b \<Longrightarrow> n \<le> blk_space b \<Longrightarrow> b_wr b + n \<le> b_cur b \<and> b_wr b + n \<le> length (b_data b)"
  unfolding blk_in_def blk_space_def by linarith

lemma blk_in_store:
  assumes "blk_in b" and "b_wr b + length bs \<le> length (b_data b)"
  shows "content (b\<lparr>b_data := take (b_wr b) (b_data b) @ bs @ drop (b_wr b + length bs) (b_data b), b_wr := b_wr b + length bs\<rparr>)
    = content b @ bs"
proof -
  have ok: "blk_ok b" using assms(1) by (simp add: blk_in_def blk_ok_def blk_end_def)
  have sw: "b\<lparr>b_data := x, b_wr := y\<rparr> = b\<lparr>b_wr := y, b_data := x\<rparr>" for x y by (cases b) simp
  show ?thesis unfolding sw using content_append [OF ok, of 0 bs] assms(2) by (simp add: blk_end_def)
qed

lemma blk_copy_in:
  assumes b: "blk_in b" and s: "length bs \<le> blk_space b"
  shows "content (blk_copy bs b) = content b @ bs" "blk_in (blk_copy bs b)" "b_rd (blk_copy bs b) = b_rd b"
    "blk_length (blk_copy bs b) = blk_length b + length bs" "blk_space (blk_copy bs b) = blk_space b - length bs"
proof -
  have len: "b_wr b + length bs \<le> length (b_data b)" using blk_in_room [OF assms] by simp
  show "content (blk_copy bs b) = content b @ bs" using s blk_in_store [OF b len] by (simp add: blk_copy_def)
qed (use assms in \<open>auto simp: blk_copy_def blk_in_def blk_space_def blk_length_def\<close>)

lemma blk_recv_in:
  assumes b: "blk_in b" and s: "length bs \<le> blk_space b"
  obtains b' where "blk_recv bs b = Some b'" "content b' = content b @ bs" "blk_in b'" "b_rd b' = b_rd b"
    "blk_length b' = blk_length b + length bs"
proof -
  have "blk_recv bs b = Some (blk_copy bs b)"
    using blk_in_room [OF assms] s by (simp add: blk_recv_def blk_copy_def blk_end_def)
  then show ?thesis using that blk_copy_in [OF assms] by simp
qed

lemma skip_in:
  assumes "blk_in b" and "n \<le> blk_length b"
  shows "content (skip n b) = drop n (content b)" "blk_in (skip n b)" "blk_length (skip n b) = blk_length b - n"
  using assms by (auto simp: skip_def content_def blk_in_def blk_length_def drop_take add.commute)

lemma cut_in:
  assumes "blk_in b" and "n \<le> blk_length b"
  shows "content (b\<lparr>b_wr := b_rd b + n\<rparr>) = take n (content b)" "blk_in (b\<lparr>b_wr := b_rd b + n\<rparr>)"
  using assms by (auto simp: content_def blk_in_def blk_length_def min_def)

section \<open>Memory\<close>

definition env_ok :: "input_env \<Rightarrow> bool" where
  "env_ok env \<longleftrightarrow> (\<forall>n sz. \<exists>base data. e_al env n sz = Some (base, data) \<and> length data = sz \<and> 8 dvd base)
     \<and> 20 \<le> length (e_buf env)"

lemma env_okE:
  assumes "env_ok env"
  obtains base data where "e_al env n sz = Some (base, data)" "length data = sz" "8 dvd base"
  using assms unfolding env_ok_def by blast

lemma new_blk_al: "8 dvd base \<Longrightarrow> new_blk (base, data) = \<lparr>b_base = base, b_data = data, b_cur = length data, b_rd = 0, b_wr = 0\<rparr>"
  by (simp add: new_blk_def mb_align_8)

lemma make_queued_data_ok:
  assumes "env_ok env"
  obtains b where "make_queued_data (e_al env) n sz = Some \<lparr>qd_msg = [b], qd_missing = 0, qd_state = giop_state_new\<rparr>"
    "blk_in b" "b_rd b = 0" "content b = []" "blk_length b = 0" "blk_space b = sz + 8"
proof -
  obtain base data where m: "e_al env n (sz + 8) = Some (base, data)" "length data = sz + 8" "8 dvd base"
    by (rule env_okE [OF assms])
  then show ?thesis using that [of "new_blk (base, data)"]
    by (simp add: make_queued_data_def new_blk_al blk_in_def content_def blk_length_def blk_space_def)
qed

lemma cdr_grow_ok:
  assumes env: "env_ok env" and b: "blk_in b" "b_rd b \<le> 8" and m: "blk_length b \<le> m" "m + 8 \<le> 2 ^ 64 - LINEAR_GROWTH_CHUNK"
  obtains b' where "cdr_grow (e_al env) n m b = Some (0, b')" "content b' = content b" "blk_in b'" "b_rd b' \<le> 8"
    "blk_length b' = blk_length b" "m \<le> blk_length b + blk_space b'"
proof -
  obtain sz where sz: "first_size (m + MAX_ALIGNMENT) = Some sz" "m + 8 \<le> sz"
    using first_size_ok [OF m(2)] by auto
  show ?thesis
  proof (cases "sz \<le> blk_size b")
    case True
    have "m \<le> blk_length b + blk_space b"
      using True sz(2) b by (auto simp: blk_size_def blk_length_def blk_space_def blk_in_def)
    then show ?thesis using that [of b] True sz b by (simp add: cdr_grow_def)
  next
    case False
    obtain base data where al: "e_al env n sz = Some (base, data)" "length data = sz" "8 dvd base"
      by (rule env_okE [OF env])
    let ?b = "\<lparr>b_base = base, b_data = content b @ drop (blk_length b) data, b_cur = sz, b_rd = 0, b_wr = blk_length b\<rparr>"
    have len: "length (content b) = blk_length b" by (rule blk_in_length [OF b(1)])
    have le: "blk_length b \<le> sz" using m(1) sz(2) by simp
    have "cdr_grow (e_al env) n m b = Some (0, ?b)"
      using False sz(1) al by (simp add: cdr_grow_def align_binary_8 Let_def)
    moreover have "content ?b = content b" using len by (simp add: content_def [of ?b] blk_length_def [of ?b])
    moreover have "blk_in ?b" using le len al(2) by (simp add: blk_in_def)
    moreover have "m \<le> blk_length b + blk_space ?b" using sz(2) by (simp add: blk_space_def)
    ultimately show ?thesis using that [of ?b] by (simp add: blk_length_def [of ?b])
  qed
qed

lemma replace_data_block_ok:
  assumes env: "env_ok env" and b: "blk_in b"
  obtains b' where "replace_data_block (e_al env) n b = Some b'" "content b' = content b" "blk_in b'" "b_rd b' = 0"
    "blk_length b' = blk_length b"
proof -
  obtain base data where al: "e_al env n (blk_end b) = Some (base, data)" "length data = blk_end b" "8 dvd base"
    by (rule env_okE [OF env])
  let ?d = "\<lparr>b_base = base, b_data = data, b_cur = length data, b_rd = 0, b_wr = 0\<rparr>" and ?sz = "blk_length b + 8"
  obtain db where db: "blk_resize (e_al env) (Suc n) ?sz ?d = Some db" "8 dvd b_base db" "b_cur db = ?sz" "?sz \<le> length (b_data db)"
  proof (cases "?sz \<le> blk_end b")
    case True
    then show ?thesis using that [of "?d\<lparr>b_cur := ?sz\<rparr>"] al by (simp add: blk_resize_def blk_end_def)
  next
    case False
    obtain base' data' where al': "e_al env (Suc n) ?sz = Some (base', data')" "length data' = ?sz" "8 dvd base'"
      by (rule env_okE [OF env])
    show ?thesis
      using that [of "?d\<lparr>b_base := base', b_data := take (length data) data @ drop (length data) data', b_cur := ?sz\<rparr>"] False al al'
      by (simp add: blk_resize_def blk_end_def)
  qed
  let ?a = "blk_mb_align db"
  have a: "blk_in ?a" "b_rd ?a = 0" "content ?a = []" "blk_length ?a = 0" "blk_space ?a = ?sz"
    using db mb_align_8 [OF db(2)] by (simp_all add: blk_in_def content_def blk_length_def blk_space_def)
  have s: "length (content b) \<le> blk_space ?a" using a(5) blk_in_length [OF b] by simp
  note c = blk_copy_in [OF a(1) s]
  have "replace_data_block (e_al env) n b = Some (blk_copy (content b) ?a)"
    using al(1) db(1) by (simp add: replace_data_block_def)
  then show ?thesis using that [of "blk_copy (content b) ?a"] c a blk_in_length [OF b] by simp
qed

section \<open>Messages\<close>

text \<open>A whole message that is no fragment: its state is the one its header is parsed into.\<close>

definition whole :: "giop_state \<times> u8 list \<Rightarrow> bool" where
  "whole sm \<longleftrightarrow> (let (st, m) = sm in 12 \<le> length m \<and> parse_message_header m giop_state_new = (0, st)
     \<and> length m = 12 + unat (gs_payload st) \<and> length m < 2 ^ 32 \<and> \<not> gs_more st \<and> gs_type st \<noteq> Fragment)"

lemma wholeD:
  assumes "whole (st, m)"
  shows "12 \<le> length m" "parse_message_header m giop_state_new = (0, st)" "length m = 12 + unat (gs_payload st)" "length m < 2 ^ 32"
    "\<not> gs_more st" "gs_type st \<noteq> Fragment" "unat (message_size st) = length m"
proof -
  show w: "12 \<le> length m" "parse_message_header m giop_state_new = (0, st)" "length m = 12 + unat (gs_payload st)" "length m < 2 ^ 32"
    "\<not> gs_more st" "gs_type st \<noteq> Fragment"
    using assms by (simp_all add: whole_def)
  have "unat (gs_payload st) + 12 = length m" using w(3) by simp
  then have "message_size st = of_nat (length m)" by (simp only: message_size_def)
  then show "unat (message_size st) = length m" using w(4) by (simp only: unat_of_nat) simp
qed

text \<open>Only the first twelve octets are looked at.\<close>

lemma parse_prefix: "12 \<le> length bs \<Longrightarrow> parse_message_header (bs @ cs) st = parse_message_header bs st"
proof -
  assume len: "12 \<le> length bs"
  then have n: "(bs @ cs) ! i = bs ! i" if "i < 12" for i using that by (simp add: nth_append)
  have r: "read_ulong s (drop 8 (bs @ cs)) = read_ulong s (drop 8 bs)" for s using len by (simp add: read_ulong_def)
  have m: "parse_magic_bytes (bs @ cs) = parse_magic_bytes bs" using n by (simp add: parse_magic_bytes_def)
  have v: "get_version_info (bs @ cs) s = get_version_info bs s" for s using n by (simp add: get_version_info_def)
  have o: "get_byte_order_info (bs @ cs) s = get_byte_order_info bs s" for s using n by (simp add: get_byte_order_info_def)
  have "(bs @ cs) ! 7 = bs ! 7" using n by simp
  then have "parse_message_header_i (bs @ cs) st = parse_message_header_i bs st"
    by (simp only: parse_message_header_i_def m v o r)
  then show ?thesis using len by (simp add: parse_message_header_def)
qed

text \<open>The first message of a stream, from enough of its octets.\<close>

lemma first_message:
  assumes s: "c @ rest = concat (map snd ms)" and ms: "list_all whole ms" and len: "12 \<le> length c"
  obtains st m ms' where "ms = (st, m) # ms'" "whole (st, m)" "list_all whole ms'" "parse_message_header c giop_state_new = (0, st)"
    "length m \<le> length c \<Longrightarrow> c = m @ drop (length m) c" "length m \<le> length c \<Longrightarrow> drop (length m) c @ rest = concat (map snd ms')"
proof -
  obtain sm ms' where c: "ms = sm # ms'" using s len by (cases ms) auto
  obtain st m where sm: "sm = (st, m)" by (cases sm)
  have w: "whole (st, m)" "list_all whole ms'" using ms c sm by simp_all
  have eq: "c @ rest = m @ concat (map snd ms')" using s c sm by simp
  have "parse_message_header c giop_state_new = parse_message_header (c @ rest) giop_state_new"
    using parse_prefix [OF len] by simp
  also have "\<dots> = (0, st)" unfolding eq using parse_prefix [OF wholeD(1) [OF w(1)]] wholeD(2) [OF w(1)] by simp
  finally have p: "parse_message_header c giop_state_new = (0, st)" .
  have "c = m @ drop (length m) c \<and> drop (length m) c @ rest = concat (map snd ms')" if "length m \<le> length c"
  proof -
    have "m = take (length m) c" using eq that by (metis append_eq_append_conv_if)
    then have "c = m @ drop (length m) c" by (metis append_take_drop_id)
    moreover from this have "drop (length m) c @ rest = concat (map snd ms')" using eq by (metis append.assoc append_same_eq same_append_eq)
    ultimately show ?thesis by blast
  qed
  then show ?thesis using that c sm w p by blast
qed

section \<open>The connection and the messages to come\<close>

text \<open>The node on the stack: its header is not complete, or its length is known and octets are missing.\<close>

definition item_ok :: "queued_data \<Rightarrow> bool" where
  "item_ok q \<longleftrightarrow> (\<exists>b. qd_msg q = [b] \<and> blk_in b \<and> b_rd b \<le> 8 \<and>
     (if qd_missing q = MISSING_DATA_UNDEFINED then 0 < blk_length b \<and> blk_length b < 12 \<and> 12 \<le> blk_length b + blk_space b
      else 0 < qd_missing q \<and> 12 \<le> blk_length b \<and> parse_message_header (content b) giop_state_new = (0, qd_state q)
        \<and> blk_length b + qd_missing q = 12 + unat (gs_payload (qd_state q))))"

definition partial_octets :: "transport \<Rightarrow> u8 list" where
  "partial_octets t = (case tr_partial t of None \<Rightarrow> [] | Some p \<Rightarrow> p)"

definition pending :: "transport \<Rightarrow> u8 list" where
  "pending t = (case tr_stack t of [] \<Rightarrow> partial_octets t | q # _ \<Rightarrow> qd_octets q) @ tr_socket t"

definition receives :: "transport \<Rightarrow> (giop_state \<times> u8 list) list \<Rightarrow> bool" where
  "receives t ms \<longleftrightarrow> list_all whole ms \<and> tr_fragments t = [] \<and> pending t = concat (map snd ms) \<and>
     (case tr_stack t of [] \<Rightarrow> length (partial_octets t) < 12 | [q] \<Rightarrow> item_ok q \<and> partial_octets t = [] | _ \<Rightarrow> False)"

definition qd_entry :: "queued_data \<Rightarrow> giop_state \<times> u8 list" where
  "qd_entry q = (qd_state q, qd_octets q)"

definition received :: "transport \<Rightarrow> (giop_state \<times> u8 list) list" where
  "received t = tr_log t @ map qd_entry (tr_queue t)"

text \<open>An empty stack with some octets that are not parsed yet: the state while a buffer is cut up.\<close>

definition cutting :: "transport \<Rightarrow> u8 list \<Rightarrow> (giop_state \<times> u8 list) list \<Rightarrow> bool" where
  "cutting t c ms \<longleftrightarrow> tr_stack t = [] \<and> partial_octets t = [] \<and> tr_fragments t = [] \<and> list_all whole ms
     \<and> c @ tr_socket t = concat (map snd ms)"

lemma cutting_done: "cutting t [] ms \<Longrightarrow> receives t ms"
  by (simp add: cutting_def receives_def pending_def)

lemma cutting_push:
  assumes "cutting t c ms" and "item_ok q" and "qd_octets q = c"
  shows "receives (t\<lparr>tr_allocs := n, tr_stack := q # tr_stack t\<rparr>) ms"
  using assms by (simp add: cutting_def receives_def pending_def partial_octets_def)

lemma qd_entry_one: "qd_msg q = [b] \<Longrightarrow> qd_entry q = (qd_state q, content b)"
  by (simp add: qd_entry_def qd_octets_def)

text \<open>What \<open>extract_next_message\<close> makes of the first octets of a stream of messages.\<close>

lemma extract_short:
  assumes env: "env_ok env" and mb: "blk_in mb" and len: "0 < blk_length mb" "blk_length mb < 12"
  obtains q where "extract_next_message (e_al env) n mb = (0, Some q, skip (blk_length mb) mb)" "item_ok q" "qd_octets q = content mb"
    "qd_missing q = MISSING_DATA_UNDEFINED"
proof -
  obtain b where b: "make_queued_data (e_al env) n 512 = Some \<lparr>qd_msg = [b], qd_missing = 0, qd_state = giop_state_new\<rparr>"
    "blk_in b" "b_rd b = 0" "content b = []" "blk_length b = 0" "blk_space b = 512 + 8"
    by (rule make_queued_data_ok [OF env])
  have c: "length (content mb) = blk_length mb" by (rule blk_in_length [OF mb])
  have s: "length (content mb) \<le> blk_space b" using b(6) c len by simp
  note k = blk_copy_in [OF b(2) s]
  let ?q = "\<lparr>qd_msg = [blk_copy (content mb) b], qd_missing = MISSING_DATA_UNDEFINED, qd_state = giop_state_new\<rparr>"
  have "extract_next_message (e_al env) n mb = (0, Some ?q, skip (blk_length mb) mb)"
    using len b(1) by (simp add: extract_next_message_def qd_block_def)
  moreover have "item_ok ?q" using k b(3,5,6) c len by (simp add: item_ok_def)
  ultimately show ?thesis using that [of ?q] k(1) b(4) by (simp add: qd_octets_def)
qed

lemma extract_long:
  assumes env: "env_ok env" and mb: "blk_in mb" and len: "12 \<le> blk_length mb"
    and p: "parse_message_header (content mb) giop_state_new = (0, st)" and w: "whole (st, m)"
  obtains q where "extract_next_message (e_al env) n mb = (1, Some q, skip (min (length m) (blk_length mb)) mb)"
    "qd_octets q = take (length m) (content mb)" "qd_state q = st" "qd_missing q = length m - blk_length mb"
    "blk_length mb < length m \<Longrightarrow> item_ok q"
proof -
  note w' = wholeD [OF w]
  obtain b where b: "make_queued_data (e_al env) n (length m) = Some \<lparr>qd_msg = [b], qd_missing = 0, qd_state = giop_state_new\<rparr>"
    "blk_in b" "b_rd b = 0" "content b = []" "blk_length b = 0" "blk_space b = length m + 8"
    by (rule make_queued_data_ok [OF env])
  have c: "length (content mb) = blk_length mb" by (rule blk_in_length [OF mb])
  let ?bs = "take (length m) (content mb)"
  have s: "length ?bs \<le> blk_space b" using b(6) by simp
  note k = blk_copy_in [OF b(2) s]
  let ?q = "\<lparr>qd_msg = [blk_copy ?bs b], qd_missing = length m - blk_length mb, qd_state = st\<rparr>"
  have "extract_next_message (e_al env) n mb = (1, Some ?q, skip (min (length m) (blk_length mb)) mb)"
    using len b(1) p w'(7) c by (simp add: extract_next_message_def qd_block_def Let_def)
  moreover have "item_ok ?q" if "blk_length mb < length m"
  proof -
    have "length m - blk_length mb \<noteq> MISSING_DATA_UNDEFINED" using w'(4) by simp
    moreover have "?bs = content mb" using that c by simp
    ultimately show ?thesis using k b(3-5) c len p that w'(3) by (simp add: item_ok_def)
  qed
  ultimately show ?thesis using that [of ?q] k(1) b(4) by (simp add: qd_octets_def)
qed

lemma consolidate_whole: "qd_missing q = 0 \<Longrightarrow> \<not> is_fragment q \<Longrightarrow> consolidate_message deliver env q t = Some (deliver q t)"
  by (simp add: consolidate_message_def)

lemma extra_messages:
  assumes env: "env_ok env" and "blk_in mb" and "cutting t (content mb) ms"
  shows "\<exists>mb' t' qs ms2. handle_input_parse_extra_messages env mb t = Some (0, mb', t') \<and> blk_length mb' = 0
    \<and> ms = map qd_entry qs @ ms2 \<and> tr_queue t' = tr_queue t @ qs \<and> tr_log t' = tr_log t \<and> tr_notified t' = tr_notified t
    \<and> tr_socket t' = tr_socket t \<and> partial_octets t' = [] \<and> receives t' ms2"
  using assms(2,3)
proof (induction "length (content mb)" arbitrary: mb t ms rule: less_induct)
  case less
  note c = less.prems(2)
  have len: "length (content mb) = blk_length mb" by (rule blk_in_length [OF less.prems(1)])
  consider "blk_length mb = 0" | "0 < blk_length mb" "blk_length mb < 12" | "12 \<le> blk_length mb" by linarith
  then show ?case
  proof cases
    case 1
    then have "receives t ms" using c len by (intro cutting_done) simp
    then show ?thesis using 1 c by (intro exI [of _ mb] exI [of _ t] exI [of _ "[]"] exI [of _ ms])
      (subst handle_input_parse_extra_messages.simps, simp add: cutting_def)
  next
    case 2
    obtain q where q: "extract_next_message (e_al env) (tr_allocs t) mb = (0, Some q, skip (blk_length mb) mb)" "item_ok q"
      "qd_octets q = content mb" "qd_missing q = MISSING_DATA_UNDEFINED"
      by (rule extract_short [OF env less.prems(1) 2])
    let ?t = "t\<lparr>tr_allocs := tr_allocs t + 1, tr_stack := q # tr_stack t\<rparr>"
    have z: "blk_length (skip (blk_length mb) mb) = 0" using skip_in(3) [OF less.prems(1)] by simp
    then have "handle_input_parse_extra_messages env (skip (blk_length mb) mb) ?t = Some (0, skip (blk_length mb) mb, ?t)"
      by (subst handle_input_parse_extra_messages.simps) simp
    then have "handle_input_parse_extra_messages env mb t = Some (0, skip (blk_length mb) mb, ?t)"
      using 2 q(1,4) by (subst handle_input_parse_extra_messages.simps) simp
    moreover have "receives ?t ms" using cutting_push [OF c q(2,3)] by simp
    moreover have "partial_octets ?t = []" using c by (simp add: cutting_def partial_octets_def)
    ultimately show ?thesis using z by (intro exI [of _ "skip (blk_length mb) mb"] exI [of _ ?t] exI [of _ "[]"] exI [of _ ms]) simp
  next
    case 3
    obtain st m ms' where m: "ms = (st, m) # ms'" "whole (st, m)" "list_all whole ms'"
      "parse_message_header (content mb) giop_state_new = (0, st)"
      "length m \<le> length (content mb) \<Longrightarrow> content mb = m @ drop (length m) (content mb)"
      "length m \<le> length (content mb) \<Longrightarrow> drop (length m) (content mb) @ tr_socket t = concat (map snd ms')"
      using first_message [of "content mb" "tr_socket t" ms] c 3 len unfolding cutting_def by auto
    obtain q where q: "extract_next_message (e_al env) (tr_allocs t) mb = (1, Some q, skip (min (length m) (blk_length mb)) mb)"
      "qd_octets q = take (length m) (content mb)" "qd_state q = st" "qd_missing q = length m - blk_length mb"
      "blk_length mb < length m \<Longrightarrow> item_ok q"
      by (rule extract_long [OF env less.prems(1) 3 m(4,2)]) blast
    show ?thesis
    proof (cases "length m \<le> blk_length mb")
      case True
      let ?t = "t\<lparr>tr_allocs := tr_allocs t + 1, tr_queue := tr_queue t @ [q]\<rparr>" and ?mb = "skip (length m) mb"
      note sk = skip_in [OF less.prems(1) True]
      have "qd_missing q = 0" "\<not> is_fragment q" using q(3,4) True wholeD(5,6) [OF m(2)] by (simp_all add: is_fragment_def)
      then have "consolidate_enqueue_message env q (t\<lparr>tr_allocs := tr_allocs t + 1\<rparr>) = Some (0, ?t)"
        by (simp add: consolidate_enqueue_message_def consolidate_whole)
      then have run: "handle_input_parse_extra_messages env mb t = handle_input_parse_extra_messages env ?mb ?t"
        using 3 q(1) True \<open>qd_missing q = 0\<close> by (subst handle_input_parse_extra_messages.simps) simp
      have e: "qd_entry q = (st, m)" using q(2,3) m(5) True len by (simp add: qd_entry_def) (metis append_eq_conv_conj)
      have "cutting ?t (content ?mb) ms'" using c m(3,6) True len sk(1) by (simp add: cutting_def partial_octets_def)
      moreover have "length (content ?mb) < length (content mb)" using sk(1) 3 len wholeD(1) [OF m(2)] by simp
      ultimately obtain mb' t' qs ms2 where r: "handle_input_parse_extra_messages env ?mb ?t = Some (0, mb', t')" "blk_length mb' = 0"
        "ms' = map qd_entry qs @ ms2" "tr_queue t' = tr_queue ?t @ qs" "tr_log t' = tr_log ?t" "tr_notified t' = tr_notified ?t"
        "tr_socket t' = tr_socket ?t" "partial_octets t' = []" "receives t' ms2"
        using less.hyps [of ?mb ?t ms'] sk(2) by blast
      then show ?thesis using run m(1) e
        by (intro exI [of _ mb'] exI [of _ t'] exI [of _ "q # qs"] exI [of _ ms2]) simp
    next
      case False
      then have lt: "blk_length mb < length m" by simp
      let ?t = "t\<lparr>tr_allocs := tr_allocs t + 1, tr_stack := q # tr_stack t\<rparr>" and ?mb = "skip (blk_length mb) mb"
      have z: "blk_length ?mb = 0" using skip_in(3) [OF less.prems(1)] by simp
      then have "handle_input_parse_extra_messages env ?mb ?t = Some (0, ?mb, ?t)"
        by (subst handle_input_parse_extra_messages.simps) simp
      then have "handle_input_parse_extra_messages env mb t = Some (0, ?mb, ?t)"
        using 3 q(1,4) lt by (subst handle_input_parse_extra_messages.simps) (simp add: min_def)
      moreover have "qd_octets q = content mb" using q(2) lt len by simp
      then have "receives ?t ms" using cutting_push [OF c q(5) [OF lt]] by simp
      moreover have "partial_octets ?t = []" using c by (simp add: cutting_def partial_octets_def)
      ultimately show ?thesis using z by (intro exI [of _ ?mb] exI [of _ ?t] exI [of _ "[]"] exI [of _ ms]) simp
    qed
  qed
qed

end
