(* ===== verification/Transport_Input_Steps.thy ===== *)
theory Transport_Input_Steps
  imports Transport_Input_Inv
begin

text \<open>
  One call of the input handler of a connection: every branch takes a connection that receives a
  stream of messages to one that receives the rest of it, and processes or queues the messages
  between in their order.
\<close>

section \<open>Steps\<close>

text \<open>A message whose handling does not close the connection.\<close>

definition accepts :: "input_env \<Rightarrow> giop_state \<times> u8 list \<Rightarrow> bool" where
  "accepts env sm \<longleftrightarrow> (let type = gs_type (fst sm) in type \<noteq> CloseConnection \<and> type \<noteq> MessageError
     \<and> (type \<in> {Request, LocateRequest, Reply, LocateReply} \<longrightarrow> e_handle env (fst sm) (snd sm)))"

lemma process_log:
  assumes "tr_fragments t = []"
  shows "process_parsed_messages env q t = (if accepts env (qd_entry q) then 0 else -1, t\<lparr>tr_log := tr_log t @ [qd_entry q]\<rparr>)"
proof -
  have "discard contexts k False [] [] = []" for contexts k by simp
  then have "snd (discard_fragmented_message (e_contexts env) q []) = []"
    by (simp add: discard_fragmented_message_def split: option.split)
  moreover have "t\<lparr>tr_log := x, tr_fragments := []\<rparr> = t\<lparr>tr_log := x\<rparr>" for x using assms by (cases t) simp
  ultimately show ?thesis using assms by (simp add: process_parsed_messages_def accepts_def qd_entry_def Let_def)
qed

text \<open>A call that returns 0, with the messages it processed; a call that closes the connection.\<close>

definition ok_step :: "input_env \<Rightarrow> transport \<Rightarrow> (giop_state \<times> u8 list) list \<Rightarrow> transport \<Rightarrow> bool" where
  "ok_step env t ms t' \<longleftrightarrow> (\<exists>L ms'. receives t' ms' \<and> tr_log t' = tr_log t @ L \<and> list_all (accepts env) L
     \<and> map qd_entry (tr_queue t) @ ms = L @ map qd_entry (tr_queue t') @ ms' \<and> (tr_queue t \<noteq> [] \<longrightarrow> L \<noteq> [])
     \<and> (tr_queue t' \<noteq> [] \<and> e_registered env \<longrightarrow> tr_notified t < tr_notified t'))"

definition bad_step :: "input_env \<Rightarrow> transport \<Rightarrow> (giop_state \<times> u8 list) list \<Rightarrow> transport \<Rightarrow> bool" where
  "bad_step env t ms t' \<longleftrightarrow> (\<exists>x Y. tr_log t' = tr_log t @ [x] \<and> \<not> accepts env x \<and> map qd_entry (tr_queue t) @ ms = x # Y)"

text \<open>Octets that are there are read, unless a queued message is processed instead.\<close>

definition reads :: "nat \<Rightarrow> transport \<Rightarrow> transport \<Rightarrow> bool" where
  "reads k t t' \<longleftrightarrow> length (tr_socket t') \<le> length (tr_socket t)
     \<and> (0 < k \<and> tr_socket t \<noteq> [] \<and> tr_queue t = [] \<longrightarrow> length (tr_socket t') < length (tr_socket t))"

definition steps_to :: "input_env \<Rightarrow> nat \<Rightarrow> transport \<Rightarrow> (giop_state \<times> u8 list) list \<Rightarrow> (int \<times> transport) option \<Rightarrow> bool" where
  "steps_to env k t ms res \<longleftrightarrow> (\<exists>t'. res = Some (0, t') \<and> ok_step env t ms t' \<and> reads k t t' \<or> res = Some (-1, t') \<and> bad_step env t ms t')"

lemma ok_stepI:
  assumes "receives t' ms'" and "tr_log t' = tr_log t @ L" and "list_all (accepts env) L"
    and "map qd_entry (tr_queue t) @ ms = L @ map qd_entry (tr_queue t') @ ms'" and "tr_queue t \<noteq> [] \<longrightarrow> L \<noteq> []"
    and "tr_queue t' \<noteq> [] \<and> e_registered env \<longrightarrow> tr_notified t < tr_notified t'"
  shows "ok_step env t ms t'"
  using assms by (auto simp: ok_step_def)

lemma steps_ok: "res = Some (0, t') \<Longrightarrow> ok_step env t ms t' \<Longrightarrow> reads k t t' \<Longrightarrow> steps_to env k t ms res"
  by (simp add: steps_to_def)

lemma steps_bad: "res = Some (-1, t') \<Longrightarrow> bad_step env t ms t' \<Longrightarrow> steps_to env k t ms res"
  by (simp add: steps_to_def)

lemma partial_fields [simp]:
  "partial_octets (t\<lparr>tr_log := l\<rparr>) = partial_octets t" "partial_octets (t\<lparr>tr_queue := q\<rparr>) = partial_octets t"
  "partial_octets (t\<lparr>tr_notified := n\<rparr>) = partial_octets t" "partial_octets (t\<lparr>tr_allocs := n\<rparr>) = partial_octets t"
  "partial_octets (t\<lparr>tr_socket := s\<rparr>) = partial_octets t" "partial_octets (t\<lparr>tr_stack := k\<rparr>) = partial_octets t"
  by (simp_all add: partial_octets_def)

lemma receives_fields [simp]:
  "receives (t\<lparr>tr_log := l\<rparr>) ms = receives t ms" "receives (t\<lparr>tr_queue := q\<rparr>) ms = receives t ms"
  "receives (t\<lparr>tr_notified := n\<rparr>) ms = receives t ms" "receives (t\<lparr>tr_allocs := n\<rparr>) ms = receives t ms"
  by (simp_all add: receives_def pending_def split: list.split)

lemma receives_fragments: "receives t ms \<Longrightarrow> tr_fragments t = []"
  by (simp add: receives_def)

lemma notify_fields [simp]: "tr_queue (notify_reactor env t) = tr_queue t" "tr_log (notify_reactor env t) = tr_log t"
  "tr_fragments (notify_reactor env t) = tr_fragments t" "receives (notify_reactor env t) ms = receives t ms"
  "tr_socket (notify_reactor env t) = tr_socket t" "partial_octets (notify_reactor env t) = partial_octets t"
  "tr_notified t \<le> tr_notified (notify_reactor env t)" "tr_stack (notify_reactor env t) = tr_stack t" "e_registered env \<Longrightarrow> tr_notified t < tr_notified (notify_reactor env t)"
  by (simp_all add: notify_reactor_def partial_octets_def)

text \<open>Processing the head of the queue, from a state that has cut up its buffer.\<close>

lemma head_step:
  assumes q: "tr_queue t = q # qs" and r: "receives t ms"
  obtains t' where "process_queue_head env t = (if accepts env (qd_entry q) then 0 else -1, t')" "tr_log t' = tr_log t @ [qd_entry q]"
    "tr_queue t' = qs" "receives t' ms" "qs \<noteq> [] \<and> e_registered env \<longrightarrow> tr_notified t < tr_notified t'" "tr_socket t' = tr_socket t"
    "partial_octets t' = partial_octets t"
proof -
  let ?t = "if qs \<noteq> [] then notify_reactor env (t\<lparr>tr_queue := qs\<rparr>) else t\<lparr>tr_queue := qs\<rparr>"
  have f: "tr_fragments ?t = []" using receives_fragments [OF r] by simp
  have "process_queue_head env t = (if accepts env (qd_entry q) then 0 else -1, ?t\<lparr>tr_log := tr_log ?t @ [qd_entry q]\<rparr>)"
    unfolding process_queue_head_def q list.case Let_def by (rule process_log [OF f])
  moreover have "tr_notified t < tr_notified (notify_reactor env (t\<lparr>tr_queue := qs\<rparr>))" if "e_registered env"
    using that notify_fields(9) [of env "t\<lparr>tr_queue := qs\<rparr>"] by simp
  ultimately show ?thesis using that [of "?t\<lparr>tr_log := tr_log ?t @ [qd_entry q]\<rparr>"] r
    by (simp split: if_splits)
qed

lemma process_head_steps:
  assumes q: "tr_queue t \<noteq> []" and r: "receives t ms"
  shows "steps_to env k t ms (Some (process_queue_head env t))" "fst (process_queue_head env t) \<le> 0"
proof -
  obtain p ps where p: "tr_queue t = p # ps" using q by (cases "tr_queue t") auto
  obtain t' where t': "process_queue_head env t = (if accepts env (qd_entry p) then 0 else -1, t')" "tr_log t' = tr_log t @ [qd_entry p]"
    "tr_queue t' = ps" "receives t' ms" "ps \<noteq> [] \<and> e_registered env \<longrightarrow> tr_notified t < tr_notified t'"
    "tr_socket t' = tr_socket t" by (rule head_step [OF p r])
  show "fst (process_queue_head env t) \<le> 0" using t'(1) by simp
  show "steps_to env k t ms (Some (process_queue_head env t))"
  proof (cases "accepts env (qd_entry p)")
    case True
    then have "ok_step env t ms t'" using t' p by (intro ok_stepI [of _ ms _ "[qd_entry p]"]) simp_all
    moreover have "reads k t t'" using t'(6) p by (simp add: reads_def)
    ultimately show ?thesis using t'(1) True by (simp add: steps_to_def)
  next
    case False
    then have "bad_step env t ms t'" using t' p by (simp add: bad_step_def)
    then show ?thesis using t'(1) False by (simp add: steps_to_def)
  qed
qed

section \<open>Octets for a message whose length is known\<close>

lemma stream_rest: "receives t ms \<Longrightarrow> tr_stack t = [q] \<Longrightarrow> qd_octets q @ tr_socket t = concat (map snd ms) \<and> list_all whole ms
    \<and> item_ok q \<and> partial_octets t = [] \<and> tr_fragments t = []"
  by (simp add: receives_def pending_def)

text \<open>What is received are octets of the socket, all that there are when their number is small.\<close>

lemma recv_some:
  obtains bs rest where "recv (Some k) n t = (Some bs, t\<lparr>tr_socket := rest\<rparr>)" "tr_socket t = bs @ rest" "length bs \<le> n"
    "bs = [] \<longrightarrow> 0 < n \<longrightarrow> k = 0 \<or> tr_socket t = []"
proof -
  have "k = 0 \<or> tr_socket t = []" if "take (min n k) (tr_socket t) = []" "0 < n" using that by auto
  then show ?thesis using that [of "take (min n k) (tr_socket t)" "drop (min n k) (tr_socket t)"] by (simp add: recv_def)
qed

lemma reads_some: "tr_socket t = bs @ rest \<Longrightarrow> tr_socket t' = rest \<Longrightarrow> (bs = [] \<Longrightarrow> k = 0 \<or> tr_socket t = []) \<Longrightarrow> reads k t t'"
  by (cases bs) (auto simp: reads_def)

lemma missing_step:
  assumes env: "env_ok env" and r: "receives t ms" and empty: "tr_queue t = []" and q: "tr_stack t = [q]"
    and d: "qd_missing q \<noteq> MISSING_DATA_UNDEFINED"
  shows "steps_to env k t ms (handle_input_missing_data env (Some k) q [] t)"
    and "\<exists>t'. handle_input_missing_data env None q [] t = Some (-1, t') \<and> tr_log t' = tr_log t"
proof -
  note s = stream_rest [OF r q]
  obtain b where b: "qd_msg q = [b]" "blk_in b" "b_rd b \<le> 8" "0 < qd_missing q" "12 \<le> blk_length b"
    "parse_message_header (content b) giop_state_new = (0, qd_state q)" "blk_length b + qd_missing q = 12 + unat (gs_payload (qd_state q))"
    using s d by (auto simp: item_ok_def)
  have oct: "qd_octets q = content b" using b(1) by (simp add: qd_octets_def)
  have len: "length (content b) = blk_length b" by (rule blk_in_length [OF b(2)])
  let ?d = "qd_missing q"
  have small: "?d + blk_length b + 8 \<le> 2 ^ 64 - LINEAR_GROWTH_CHUNK"
  proof -
    have "unat (gs_payload (qd_state q)) < 2 ^ LENGTH(32)" by (rule unsigned_less)
    then show ?thesis using b(7) by simp
  qed
  obtain b1 where b1: "(if blk_space (qd_block q) < ?d
      then cdr_grow (e_al env) (tr_allocs t) (?d + blk_length (qd_block q)) (qd_block q) else Some (0, qd_block q)) = Some (0, b1)"
    "content b1 = content b" "blk_in b1" "b_rd b1 \<le> 8" "blk_length b1 = blk_length b" "?d \<le> blk_space b1"
  proof (cases "blk_space b < ?d")
    case True
    obtain b' where "cdr_grow (e_al env) (tr_allocs t) (?d + blk_length b) b = Some (0, b')" "content b' = content b" "blk_in b'" "b_rd b' \<le> 8"
      "blk_length b' = blk_length b" "?d + blk_length b \<le> blk_length b + blk_space b'"
      by (rule cdr_grow_ok [OF env b(2,3), of "?d + blk_length b" "tr_allocs t"]) (use small in simp_all)
    then show ?thesis using that True b(1) by (simp add: qd_block_def)
  next
    case False
    then show ?thesis using that [of b] b(1-3) by (simp add: qd_block_def)
  qed
  let ?q1 = "q\<lparr>qd_msg := [b1]\<rparr>"
  let ?t1 = "t\<lparr>tr_stack := [?q1], tr_allocs := tr_allocs t + 1\<rparr>"
  show "\<exists>t'. handle_input_missing_data env None q [] t = Some (-1, t') \<and> tr_log t' = tr_log t"
    using b1(1) by (simp add: handle_input_missing_data_def recv_def)
  obtain bs rest where rc: "recv (Some k) ?d ?t1 = (Some bs, ?t1\<lparr>tr_socket := rest\<rparr>)" "tr_socket ?t1 = bs @ rest" "length bs \<le> ?d"
    "bs = [] \<longrightarrow> 0 < ?d \<longrightarrow> k = 0 \<or> tr_socket ?t1 = []"
    by (rule recv_some)
  let ?t2 = "?t1\<lparr>tr_socket := rest\<rparr>"
  have sock: "tr_socket t = bs @ rest" using rc(2) by simp
  have rd: "reads k t t'" if "tr_socket t' = rest" for t'
    by (rule reads_some [OF sock that]) (use rc(4) b(4) in simp)
  have run: "handle_input_missing_data env (Some k) q [] t = (if bs = [] then Some (0, ?t2) else do {
      b \<leftarrow> blk_recv bs b1;
      q_data \<leftarrow> Some (?q1\<lparr>qd_msg := [b], qd_missing := qd_missing ?q1 - length bs\<rparr>);
      if qd_missing q_data = 0
      then do {
        (r, t) \<leftarrow> consolidate_process_message env q_data (?t2\<lparr>tr_stack := []\<rparr>);
        if r = -1 then Some (-1, t) else Some (0, t) }
      else Some (0, ?t2\<lparr>tr_stack := [q_data]\<rparr>) })"
    unfolding handle_input_missing_data_def Let_def b1(1) using rc(1) by (simp cong: if_cong)
  show "steps_to env k t ms (handle_input_missing_data env (Some k) q [] t)"
  proof (cases "bs = []")
    case True
    have "item_ok ?q1" using b b1 d by (simp add: item_ok_def)
    then have "receives ?t2 ms" using s b1(2) oct sock True by (simp add: receives_def pending_def partial_octets_def qd_octets_def)
    then have "ok_step env t ms ?t2" using empty by (intro ok_stepI [of _ ms _ "[]"]) simp_all
    then show ?thesis by (intro steps_ok [of _ ?t2] rd) (use run True in simp_all)
  next
    case False
    have fits: "length bs \<le> blk_space b1" using b1(6) rc(3) by simp
    obtain b2 where b2: "blk_recv bs b1 = Some b2" "content b2 = content b1 @ bs" "blk_in b2" "b_rd b2 = b_rd b1"
      "blk_length b2 = blk_length b1 + length bs"
      by (rule blk_recv_in [OF b1(3) fits])
    let ?q2 = "?q1\<lparr>qd_msg := [b2], qd_missing := ?d - length bs\<rparr>"
    have stream: "(content b @ bs) @ rest = concat (map snd ms)" using s oct sock by simp
    have c12: "12 \<le> length (content b @ bs)" using b(5) len by simp
    have p: "parse_message_header (content b @ bs) giop_state_new = (0, qd_state q)" using parse_prefix b(5,6) len by simp
    show ?thesis
    proof (cases "?d - length bs = 0")
      case True
      obtain st m ms' where m: "ms = (st, m) # ms'" "whole (st, m)" "list_all whole ms'"
        "parse_message_header (content b @ bs) giop_state_new = (0, st)"
        "length m \<le> length (content b @ bs) \<Longrightarrow> content b @ bs = m @ drop (length m) (content b @ bs)"
        "length m \<le> length (content b @ bs) \<Longrightarrow> drop (length m) (content b @ bs) @ rest = concat (map snd ms')"
        by (rule first_message [OF stream _ c12]) (use s in blast)+
      have st: "st = qd_state q" using m(4) p by simp
      have "length bs = ?d" using True rc(3) by simp
      then have lm: "length (content b @ bs) = length m" using b(7) len wholeD(3) [OF m(2)] st by simp
      then have e: "qd_entry ?q2 = (st, m)" "rest = concat (map snd ms')"
        using m(5,6) b1(2) b2(2) st by (simp_all add: qd_entry_def qd_octets_def)
      have nf: "\<not> is_fragment ?q2" using wholeD(5,6) [OF m(2)] st by (simp add: is_fragment_def)
      let ?t3 = "?t2\<lparr>tr_stack := []\<rparr>"
      have f: "tr_fragments ?t3 = []" using s by simp
      have "consolidate_process_message env ?q2 ?t3 = Some (process_parsed_messages env ?q2 ?t3)"
        unfolding consolidate_process_message_def by (rule consolidate_whole [OF _ nf]) (use True in simp)
      then have fin: "handle_input_missing_data env (Some k) q [] t
          = Some (if accepts env (st, m) then 0 else -1, ?t3\<lparr>tr_log := tr_log t @ [(st, m)]\<rparr>)"
        using run False b2(1) True e(1) process_log [OF f, of env ?q2] by simp
      have "receives (?t3\<lparr>tr_log := tr_log t @ [(st, m)]\<rparr>) ms'"
        using s m(3) e(2) by (simp add: receives_def pending_def partial_octets_def)
      then have "accepts env (st, m) \<Longrightarrow> ok_step env t ms (?t3\<lparr>tr_log := tr_log t @ [(st, m)]\<rparr>)"
        using empty m(1) by (intro ok_stepI [of _ ms' _ "[(st, m)]"]) simp_all
      moreover have "\<not> accepts env (st, m) \<Longrightarrow> bad_step env t ms (?t3\<lparr>tr_log := tr_log t @ [(st, m)]\<rparr>)"
        using empty m(1) by (simp add: bad_step_def)
      moreover have "reads k t (?t3\<lparr>tr_log := tr_log t @ [(st, m)]\<rparr>)" by (intro rd) simp
      ultimately show ?thesis using fin by (cases "accepts env (st, m)") (simp_all add: steps_to_def)
    next
      case more: False
      have "qd_missing ?q2 \<noteq> MISSING_DATA_UNDEFINED" using small by simp
      moreover have "blk_length b2 + (?d - length bs) = 12 + unat (gs_payload (qd_state q))"
        using more b2(5) b1(5) b(7) by linarith
      moreover have "12 \<le> blk_length b2" using b2(5) b1(5) b(5) by linarith
      moreover have "0 < ?d - length bs" using more by blast
      ultimately have "item_ok ?q2" using b1(2,4) b2(2-4) p by (simp add: item_ok_def)
      then have "receives (?t2\<lparr>tr_stack := [?q2]\<rparr>) ms"
        using s stream b1(2) b2(2) by (simp add: receives_def pending_def partial_octets_def qd_octets_def)
      then have "ok_step env t ms (?t2\<lparr>tr_stack := [?q2]\<rparr>)"
        using empty by (intro ok_stepI [of _ ms _ "[]"]) simp_all
      moreover have "reads k t (?t2\<lparr>tr_stack := [?q2]\<rparr>)" by (intro rd) simp
      moreover have "handle_input_missing_data env (Some k) q [] t = Some (0, ?t2\<lparr>tr_stack := [?q2]\<rparr>)"
        using run False b2(1) more by simp
      ultimately show ?thesis by (intro steps_ok [of _ "?t2\<lparr>tr_stack := [?q2]\<rparr>"])
    qed
  qed
qed

section \<open>Octets in the buffer on the stack\<close>

lemma save_none: "blk_length mb = 0 \<Longrightarrow> save_partial mb t = Some (0, t)"
  by (simp add: save_partial_def)

lemma save_some: "0 < blk_length mb \<Longrightarrow> blk_length mb \<le> 12 \<Longrightarrow> partial_octets t = []
    \<Longrightarrow> save_partial mb t = Some (0, t\<lparr>tr_partial := Some (content mb)\<rparr>)"
  by (simp add: save_partial_def partial_octets_def)

lemma buffer_new:
  assumes "env_ok env"
  shows "blk_in (new_blk (e_base env, e_buf env))" "content (new_blk (e_base env, e_buf env)) = []"
    "b_rd (new_blk (e_base env, e_buf env)) \<le> 8" "12 \<le> blk_space (new_blk (e_base env, e_buf env))"
    "blk_length (new_blk (e_base env, e_buf env)) = 0"
proof -
  have "align_binary (e_base env) 8 - e_base env < 8" by (rule mb_align_bounds)
  moreover have "20 \<le> length (e_buf env)" using assms by (simp add: env_ok_def)
  ultimately show "blk_in (new_blk (e_base env, e_buf env))" "content (new_blk (e_base env, e_buf env)) = []"
    "b_rd (new_blk (e_base env, e_buf env)) \<le> 8" "12 \<le> blk_space (new_blk (e_base env, e_buf env))"
    "blk_length (new_blk (e_base env, e_buf env)) = 0"
    by (simp_all add: new_blk_def blk_mb_align_def blk_in_def content_def blk_length_def blk_space_def Let_def)
qed

text \<open>What becomes of the octets in the buffer: none of them is read from the socket.\<close>

definition settles :: "input_env \<Rightarrow> transport \<Rightarrow> (giop_state \<times> u8 list) list \<Rightarrow> (int \<times> transport) option \<Rightarrow> bool" where
  "settles env t ms res \<longleftrightarrow> (\<exists>t'. tr_socket t' = tr_socket t
     \<and> (res = Some (0, t') \<and> ok_step env t ms t' \<or> res = Some (-1, t') \<and> bad_step env t ms t'))"

lemma settles_ok: "res = Some (0, t') \<Longrightarrow> ok_step env t ms t' \<Longrightarrow> tr_socket t' = tr_socket t \<Longrightarrow> settles env t ms res"
  by (auto simp: settles_def)

lemma settles_bad: "res = Some (-1, t') \<Longrightarrow> bad_step env t ms t' \<Longrightarrow> tr_socket t' = tr_socket t \<Longrightarrow> settles env t ms res"
  by (auto simp: settles_def)

lemma short_settles:
  assumes mb: "blk_in mb" and len: "0 < blk_length mb" "blk_length mb < 12" and c: "cutting t (content mb) ms" and empty: "tr_queue t = []"
  shows "settles env t ms (parse_buffer env mb t)"
proof -
  let ?t = "t\<lparr>tr_partial := Some (content mb)\<rparr>"
  have "parse_buffer env mb t = Some (0, ?t)"
    using c len save_some [of mb t] by (simp add: parse_buffer_def parse_next_message_def qd_block_def cutting_def)
  moreover have "receives ?t ms"
    using c len(2) blk_in_length [OF mb] by (simp add: cutting_def receives_def pending_def partial_octets_def)
  then have "ok_step env t ms ?t" using empty by (intro ok_stepI [of _ ms _ "[]"]) simp_all
  ultimately show ?thesis by (intro settles_ok [of _ ?t]) simp_all
qed

lemma next_message:
  assumes "blk_in mb" and "12 \<le> blk_length mb" and "parse_message_header (content mb) giop_state_new = (0, st)" and "whole (st, m)"
  shows "parse_next_message \<lparr>qd_msg = [mb], qd_missing = 0, qd_state = giop_state_new\<rparr>
    = (1, \<lparr>qd_msg = [mb], qd_missing = length m - blk_length mb, qd_state = st\<rparr>, length m)"
  using assms wholeD(7) [OF assms(4)] by (simp add: parse_next_message_def qd_block_def Let_def)

lemma incomplete_settles:
  assumes env: "env_ok env" and mb: "blk_in mb" "b_rd mb \<le> 8" and len: "12 \<le> blk_length mb" and c: "cutting t (content mb) ms"
    and empty: "tr_queue t = []" and p: "parse_message_header (content mb) giop_state_new = (0, st)" and w: "whole (st, m)"
    and lt: "blk_length mb < length m"
  shows "settles env t ms (parse_buffer env mb t)"
proof -
  note w' = wholeD [OF w]
  let ?d = "length m - blk_length mb"
  let ?qd = "\<lparr>qd_msg = [mb], qd_missing = ?d, qd_state = st\<rparr>"
  have d: "?d \<noteq> MISSING_DATA_UNDEFINED" using w'(4) by simp
  have b0: "parse_buffer env mb t = parse_incomplete env ?qd mb t"
    using c lt d next_message [OF mb(1) len p w] by (simp add: parse_buffer_def cutting_def)
  obtain b1 where b1: "(if ?d > blk_space mb then cdr_grow (e_al env) (tr_allocs t) (blk_length mb + ?d) mb else Some (0, mb)) = Some (0, b1)"
    "content b1 = content mb" "blk_in b1" "blk_length b1 = blk_length mb"
  proof (cases "blk_space mb < ?d")
    case True
    obtain b' where "cdr_grow (e_al env) (tr_allocs t) (blk_length mb + ?d) mb = Some (0, b')" "content b' = content mb" "blk_in b'" "b_rd b' \<le> 8"
      "blk_length b' = blk_length mb" "blk_length mb + ?d \<le> blk_length mb + blk_space b'"
      by (rule cdr_grow_ok [OF env mb, of "blk_length mb + ?d" "tr_allocs t"]) (use w'(4) lt in simp_all)
    then show ?thesis using that True by simp
  next
    case False
    then show ?thesis using that [of mb] mb by simp
  qed
  obtain b2 where b2: "replace_data_block (e_al env) (tr_allocs t + 1) b1 = Some b2" "content b2 = content b1" "blk_in b2" "b_rd b2 = 0"
    "blk_length b2 = blk_length b1"
    by (rule replace_data_block_ok [OF env b1(3)])
  let ?q = "\<lparr>qd_msg = [b2], qd_missing = ?d, qd_state = st\<rparr>"
  let ?t = "t\<lparr>tr_allocs := tr_allocs t + 1 + 2, tr_stack := ?q # tr_stack t\<rparr>"
  have "save_partial (skip (blk_length b2) b2) ?t = Some (0, ?t)" using skip_in(3) [OF b2(3)] by (intro save_none) simp
  then have "parse_incomplete env ?qd mb t = Some (0, ?t)"
    unfolding parse_incomplete_def queued_data.simps b1(1) using b2(1) by simp
  moreover have "item_ok ?q" using b2(2-5) b1(2,4) len p lt d w'(3) by (simp add: item_ok_def)
  then have "receives ?t ms" by (intro cutting_push [OF c]) (simp_all add: qd_octets_def b2(2) b1(2))
  then have "ok_step env t ms ?t" using empty by (intro ok_stepI [of _ ms _ "[]"]) simp_all
  ultimately show ?thesis by (intro settles_ok [of _ ?t]) (simp_all add: b0)
qed

lemma take_own: "c = m @ drop (length m) c \<Longrightarrow> take (length m) c = m"
  by (metis append_eq_conv_conj)

lemma critical_settles:
  assumes env: "env_ok env" and mb: "blk_in mb" and len: "12 \<le> blk_length mb" and c: "cutting t (content mb) ms"
    and empty: "tr_queue t = []" and p: "parse_message_header (content mb) giop_state_new = (0, st)" and w: "whole (st, m)"
    and ms: "ms = (st, m) # ms'" "list_all whole ms'"
    and cut: "content mb = m @ drop (length m) (content mb)" "drop (length m) (content mb) @ tr_socket t = concat (map snd ms')"
    and le: "length m \<le> blk_length mb"
  shows "settles env t ms (parse_buffer env mb t)"
proof -
  note w' = wholeD [OF w] and sk = skip_in [OF mb le] and ct = cut_in [OF mb le]
  let ?qd = "\<lparr>qd_msg = [mb], qd_missing = 0, qd_state = st\<rparr>" and ?b = "mb\<lparr>b_wr := b_rd mb + length m\<rparr>"
  have clen: "length (content mb) = blk_length mb" by (rule blk_in_length [OF mb])
  have m: "take (length m) (content mb) = m" by (rule take_own [OF cut(1)])
  have nf: "\<not> is_fragment ?qd" using w'(5,6) by (simp add: is_fragment_def)
  have b0: "parse_buffer env mb t = parse_critical env ?qd (length m) mb t"
    using c le nf next_message [OF mb len p w] by (simp add: parse_buffer_def cutting_def)
  have c': "cutting t (content (skip (length m) mb)) ms'" using c ms(2) cut(2) sk(1) by (simp add: cutting_def)
  obtain t1 qs ms2 where t1: "(if blk_length mb > length m
        then do {
          (r, _, t) \<leftarrow> handle_input_parse_extra_messages env (skip (length m) mb) t;
          Some (r, ?b, t) }
        else Some (0, mb, t)) = Some (0, ?b, t1)" "ms' = map qd_entry qs @ ms2" "tr_queue t1 = qs" "tr_log t1 = tr_log t"
    "tr_notified t1 = tr_notified t" "tr_socket t1 = tr_socket t" "receives t1 ms2"
  proof (cases "blk_length mb > length m")
    case True
    obtain mb' t' qs ms2 where "handle_input_parse_extra_messages env (skip (length m) mb) t = Some (0, mb', t')"
      "ms' = map qd_entry qs @ ms2" "tr_queue t' = tr_queue t @ qs" "tr_log t' = tr_log t" "tr_notified t' = tr_notified t"
      "tr_socket t' = tr_socket t" "receives t' ms2"
      using extra_messages [OF env sk(2) c'] by blast
    then show ?thesis using that True empty by simp
  next
    case False
    then have "b_rd mb + length m = b_wr mb" using le mb by (simp add: blk_length_def blk_in_def)
    then have "?b = mb" by simp
    moreover have "receives t ms'" using c' False le sk(3) sk(1) clen by (intro cutting_done) simp
    ultimately show ?thesis using that [of t "[]" ms'] False empty by simp
  qed
  let ?t = "if tr_queue t1 \<noteq> [] then notify_reactor env t1 else t1"
  let ?t2 = "?t\<lparr>tr_log := tr_log ?t @ [(st, m)]\<rparr>"
  have e: "qd_entry (?qd\<lparr>qd_msg := [?b]\<rparr>) = (st, m)" using ct(1) m by (simp add: qd_entry_def qd_octets_def)
  have f: "tr_fragments ?t = []" using receives_fragments [OF t1(7)] by simp
  have "save_partial (?b\<lparr>b_rd := b_rd mb + length m\<rparr>) ?t2 = Some (0, ?t2)" by (rule save_none) (simp add: blk_length_def)
  then have run: "parse_critical env ?qd (length m) mb t = Some (if accepts env (st, m) then 0 else -1, ?t2)"
    unfolding parse_critical_def Let_def t1(1) using process_log [OF f, of env "?qd\<lparr>qd_msg := [?b]\<rparr>"] e by simp
  have log: "tr_log ?t2 = tr_log t @ [(st, m)]" using t1(4) by simp
  have sock: "tr_socket ?t2 = tr_socket t" using t1(6) by simp
  show ?thesis
  proof (cases "accepts env (st, m)")
    case True
    have "ok_step env t ms ?t2"
    proof (rule ok_stepI [of _ ms2 _ "[(st, m)]"])
      show "receives ?t2 ms2" using t1(7) by simp
      show "map qd_entry (tr_queue t) @ ms = [(st, m)] @ map qd_entry (tr_queue ?t2) @ ms2" using empty ms(1) t1(2,3) by simp
      show "tr_queue ?t2 \<noteq> [] \<and> e_registered env \<longrightarrow> tr_notified t < tr_notified ?t2"
        using notify_fields(9) [of env t1] t1(5) by simp
    qed (use log True in simp_all)
    then show ?thesis using run True sock b0 by (intro settles_ok [of _ ?t2]) simp_all
  next
    case False
    have "bad_step env t ms ?t2" using log False empty ms(1) by (simp add: bad_step_def)
    then show ?thesis using run False sock b0 by (intro settles_bad [of _ ?t2]) simp_all
  qed
qed

lemma buffer_settles:
  assumes env: "env_ok env" and mb: "blk_in mb" "b_rd mb \<le> 8" and len: "0 < blk_length mb" and c: "cutting t (content mb) ms"
    and empty: "tr_queue t = []"
  shows "settles env t ms (parse_buffer env mb t)"
proof (cases "blk_length mb < 12")
  case True
  then show ?thesis using short_settles [OF mb(1) len _ c empty] by simp
next
  case False
  have clen: "length (content mb) = blk_length mb" by (rule blk_in_length [OF mb(1)])
  obtain st m ms' where m: "ms = (st, m) # ms'" "whole (st, m)" "list_all whole ms'"
    "parse_message_header (content mb) giop_state_new = (0, st)"
    "length m \<le> length (content mb) \<Longrightarrow> content mb = m @ drop (length m) (content mb)"
    "length m \<le> length (content mb) \<Longrightarrow> drop (length m) (content mb) @ tr_socket t = concat (map snd ms')"
    using first_message [of "content mb" "tr_socket t" ms] c False clen unfolding cutting_def by auto
  show ?thesis
  proof (cases "blk_length mb < length m")
    case True
    then show ?thesis using incomplete_settles [OF env mb _ c empty m(4,2)] False by simp
  next
    case le: False
    have "12 \<le> blk_length mb" using False by simp
    from critical_settles [OF env mb(1) this c empty m(4,2,1,3)] show ?thesis using m(5,6) le clen by simp
  qed
qed

section \<open>Octets for a header on the stack\<close>

lemma node_short:
  assumes q: "item_ok q" "qd_missing q = MISSING_DATA_UNDEFINED" and b: "qd_msg q = [b]"
    and mb: "blk_in mb" "0 < blk_length mb" and lt: "blk_length b + blk_length mb < 12"
  obtains q' where "consolidate_node al n q mb = Some (0, q', skip (blk_length mb) mb)" "item_ok q'"
    "qd_octets q' = content b @ content mb" "qd_missing q' = MISSING_DATA_UNDEFINED"
proof -
  have i: "blk_in b" "b_rd b \<le> 8" "0 < blk_length b" "blk_length b < 12" "12 \<le> blk_length b + blk_space b"
    using q b by (simp_all add: item_ok_def)
  have clen: "length (content mb) = blk_length mb" by (rule blk_in_length [OF mb(1)])
  have sp: "length (content mb) \<le> blk_space b" using i(5) lt clen by linarith
  note k = blk_copy_in [OF i(1) sp]
  let ?q = "q\<lparr>qd_msg := [blk_copy (content mb) b]\<rparr>"
  have "min (blk_length mb) (12 - blk_length b) = blk_length mb" using lt by linarith
  then have "consolidate_node al n q mb = Some (0, ?q, skip (blk_length mb) mb)"
    using q(2) b i(4) mb(2) sp clen k(4) lt by (simp add: consolidate_node_def qd_block_def Let_def)
  moreover have "item_ok ?q" using k i q(2) clen lt by (simp add: item_ok_def)
  ultimately show ?thesis using that [of ?q] k(1) q(2) by (simp add: qd_octets_def)
qed

lemma node_long:
  assumes env: "env_ok env" and q: "item_ok q" "qd_missing q = MISSING_DATA_UNDEFINED" and b: "qd_msg q = [b]"
    and mb: "blk_in mb" and le: "12 \<le> blk_length b + blk_length mb"
    and p: "parse_message_header (content b @ content mb) giop_state_new = (0, st)" and w: "whole (st, m)"
  obtains q' mb' where "consolidate_node (e_al env) n q mb = Some (0, q', mb')" "qd_octets q' = take (length m) (content b @ content mb)"
    "qd_state q' = st" "qd_missing q' = length m - (blk_length b + blk_length mb)" "blk_in mb'"
    "content mb' = drop (length m) (content b @ content mb)" "blk_length b + blk_length mb < length m \<longrightarrow> item_ok q'"
proof -
  note w' = wholeD [OF w]
  have i: "blk_in b" "b_rd b \<le> 8" "0 < blk_length b" "blk_length b < 12" "12 \<le> blk_length b + blk_space b"
    using q b by (simp_all add: item_ok_def)
  have cb: "length (content b) = blk_length b" by (rule blk_in_length [OF i(1)])
  have cmb: "length (content mb) = blk_length mb" by (rule blk_in_length [OF mb])
  define j where "j = 12 - blk_length b"
  have j: "j \<le> blk_length mb" "blk_length b + j = 12" "0 < j" "j \<le> blk_space b" using le i(4,5) by (simp_all add: j_def)
  let ?h = "take j (content mb)" and ?mb1 = "skip j mb"
  have hl: "length ?h = j" using j(1) cmb by simp
  then have sp: "length ?h \<le> blk_space b" using j(4) by simp
  note k = blk_copy_in [OF i(1) sp] and s1 = skip_in [OF mb j(1)]
  let ?b1 = "blk_copy ?h b"
  have l1: "blk_length ?b1 = 12" using k(4) hl j(2) by simp
  have "content b @ content mb = content ?b1 @ drop j (content mb)" using k(1) by simp
  then have p1: "parse_message_header (content ?b1) giop_state_new = (0, st)"
    using p parse_prefix [of "content ?b1"] blk_in_length [OF k(2)] l1 by simp
  obtain b2 where b2: "cdr_grow (e_al env) n (length m) ?b1 = Some (0, b2)" "content b2 = content ?b1" "blk_in b2" "b_rd b2 \<le> 8"
    "blk_length b2 = blk_length ?b1" "length m \<le> blk_length ?b1 + blk_space b2"
    by (rule cdr_grow_ok [OF env k(2), of "length m" n]) (use k(3) i(2) l1 w'(1,4) in simp_all)
  have lm: "length m = length (content b) + (j + unat (gs_payload st))" using cb j(2) w'(3) by linarith
  define c where "c = min (unat (gs_payload st)) (blk_length ?mb1)"
  let ?bs = "take c (content ?mb1)"
  have c: "c \<le> blk_length ?mb1" "c \<le> blk_space b2" "(if unat (gs_payload st) > blk_length ?mb1 then blk_length ?mb1 else unat (gs_payload st)) = c"
    using b2(6) l1 w'(3) by (simp_all add: c_def)
  have sp2: "length ?bs \<le> blk_space b2" using c(2) by simp
  note k2 = blk_copy_in [OF b2(3) sp2] and s2 = skip_in [OF s1(2) c(1)]
  let ?q = "q\<lparr>qd_msg := [blk_copy ?bs b2], qd_missing := length m - (blk_length b + blk_length mb), qd_state := st\<rparr>"
  have miss: "(if unat (gs_payload st) > blk_length ?mb1 then unat (gs_payload st) - blk_length ?mb1 else 0)
      = length m - (blk_length b + blk_length mb)"
    using w'(3) s1(3) j(1,2) by (simp, arith)
  have "consolidate_node (e_al env) n q mb = Some (0, ?q, skip c ?mb1)"
  proof -
    have "min (blk_length mb) (12 - blk_length b) = j" using j(1) by (simp add: j_def)
    then show ?thesis
      using q(2) b i(4) j(3,4) l1 p1 b2(1) w'(7) c(2)
      by (simp add: consolidate_node_def qd_block_def Let_def miss c(3) del: One_nat_def)
  qed
  moreover have rest: "content (skip c ?mb1) = drop (length m) (content b @ content mb)"
  proof -
    have "drop (length m) (content b @ content mb) = drop (unat (gs_payload st)) (drop j (content mb))"
      unfolding lm by (simp add: add.commute)
    also have "\<dots> = drop c (drop j (content mb))" using s1(1) blk_in_length [OF s1(2)] by (simp add: c_def min_def)
    finally show ?thesis using s1(1) s2(1) by simp
  qed
  moreover have oct: "content (blk_copy ?bs b2) = take (length m) (content b @ content mb)"
  proof -
    have "take (length m) (content b @ content mb) = content b @ take j (content mb) @ take (unat (gs_payload st)) (drop j (content mb))"
      unfolding lm using take_add [of j "unat (gs_payload st)" "content mb"] by simp
    also have "take (unat (gs_payload st)) (drop j (content mb)) = ?bs"
      using s1(1) blk_in_length [OF s1(2)] by (simp add: c_def min_def)
    finally show ?thesis using k2(1) b2(2) k(1) by simp
  qed
  moreover have "item_ok ?q" if lt: "blk_length b + blk_length mb < length m"
  proof -
    let ?b3 = "blk_copy ?bs b2"
    have all: "take (length m) (content b @ content mb) = content b @ content mb" using lt cb cmb by simp
    have "blk_length ?b3 = blk_length b + blk_length mb" using oct all cb cmb blk_in_length [OF k2(2)] by simp
    moreover have "length m - (blk_length b + blk_length mb) \<noteq> MISSING_DATA_UNDEFINED" using w'(4) by simp
    ultimately show ?thesis using k2(2,3) b2(4) le p oct all lt w'(3) by (simp add: item_ok_def)
  qed
  ultimately show ?thesis using that [of ?q "skip c ?mb1"] s2(2) by (simp add: qd_octets_def)
qed

lemma cutting_of:
  assumes "tr_partial t = map_option (\<lambda>_. []) p" and "tr_stack t = []" and "tr_fragments t = []" and "list_all whole ms"
    and "c @ tr_socket t = concat (map snd ms)"
  shows "cutting t c ms"
  using assms by (cases p) (simp_all add: cutting_def partial_octets_def)

lemma empty_head: "tr_queue t = [] \<Longrightarrow> process_queue_head env t = (1, t)"
  by (simp add: process_queue_head_def)

lemma consolidate_settles:
  assumes env: "env_ok env" and mb: "blk_in mb" "0 < blk_length mb" and q: "tr_stack t = [q]" "item_ok q" "qd_missing q = MISSING_DATA_UNDEFINED"
    and c: "qd_octets q @ content mb @ tr_socket t = concat (map snd ms)" "list_all whole ms"
    and t: "partial_octets t = []" "tr_fragments t = []" "tr_queue t = []"
  shows "settles env t ms (parse_buffer env mb t)"
proof -
  obtain b where b: "qd_msg q = [b]" "blk_in b" using q(2) by (auto simp: item_ok_def)
  have oct: "qd_octets q = content b" using b by (simp add: qd_octets_def)
  have cb: "length (content b) = blk_length b" by (rule blk_in_length [OF b(2)])
  have cmb: "length (content mb) = blk_length mb" by (rule blk_in_length [OF mb(1)])
  have b0: "parse_buffer env mb t = parse_consolidate env q [] mb t" using q by (simp add: parse_buffer_def)
  have c': "(content b @ content mb) @ tr_socket t = concat (map snd ms)" using c(1) oct by simp
  show ?thesis
  proof (cases "blk_length b + blk_length mb < 12")
    case True
    obtain q' where q': "consolidate_node (e_al env) (tr_allocs t) q mb = Some (0, q', skip (blk_length mb) mb)" "item_ok q'"
      "qd_octets q' = content b @ content mb" "qd_missing q' = MISSING_DATA_UNDEFINED"
      by (rule node_short [OF q(2,3) b(1) mb True])
    let ?t = "t\<lparr>tr_stack := [q'], tr_allocs := tr_allocs t + 1\<rparr>" and ?mb = "skip (blk_length mb) mb"
    have z: "blk_length ?mb = 0" using skip_in(3) [OF mb(1)] by simp
    have "parse_consolidate env q [] mb t = Some (0, ?t)"
      using q'(1,4) z empty_head [of ?t env] t(3) save_none [OF z, of ?t] by (simp add: parse_consolidate_def parse_rest_def)
    moreover have "receives ?t ms" using q'(2,3) c' c(2) t by (simp add: receives_def pending_def)
    then have "ok_step env t ms ?t" using t(3) by (intro ok_stepI [of _ ms _ "[]"]) simp_all
    ultimately show ?thesis by (intro settles_ok [of _ ?t]) (simp_all add: b0)
  next
    case False
    obtain st m ms' where m: "ms = (st, m) # ms'" "whole (st, m)" "list_all whole ms'"
      "parse_message_header (content b @ content mb) giop_state_new = (0, st)"
      "length m \<le> length (content b @ content mb) \<Longrightarrow> content b @ content mb = m @ drop (length m) (content b @ content mb)"
      "length m \<le> length (content b @ content mb) \<Longrightarrow> drop (length m) (content b @ content mb) @ tr_socket t = concat (map snd ms')"
      using first_message [OF c' c(2)] False cb cmb by auto
    obtain q' mb' where q': "consolidate_node (e_al env) (tr_allocs t) q mb = Some (0, q', mb')"
      "qd_octets q' = take (length m) (content b @ content mb)" "qd_state q' = st"
      "qd_missing q' = length m - (blk_length b + blk_length mb)" "blk_in mb'"
      "content mb' = drop (length m) (content b @ content mb)" "blk_length b + blk_length mb < length m \<longrightarrow> item_ok q'"
      by (rule node_long [OF env q(2,3) b(1) mb(1) _ m(4,2)]) (use False in simp)
    show ?thesis
    proof (cases "blk_length b + blk_length mb < length m")
      case True
      let ?t = "t\<lparr>tr_stack := [q'], tr_allocs := tr_allocs t + 1\<rparr>"
      have all: "qd_octets q' = content b @ content mb" using q'(2) True cb cmb by simp
      have z: "blk_length mb' = 0" using blk_in_length [OF q'(5)] q'(6) True cb cmb by simp
      have "parse_consolidate env q [] mb t = Some (0, ?t)"
        using q'(1,4) True z empty_head [of ?t env] t(3) save_none [OF z, of ?t] by (simp add: parse_consolidate_def parse_rest_def)
      moreover have "receives ?t ms" using q'(7) True all c' c(2) t by (simp add: receives_def pending_def)
      then have "ok_step env t ms ?t" using t(3) by (intro ok_stepI [of _ ms _ "[]"]) simp_all
      ultimately show ?thesis by (intro settles_ok [of _ ?t]) (simp_all add: b0)
    next
      case le: False
      have lc: "length m \<le> length (content b @ content mb)" using le cb cmb by simp
      have e: "qd_entry q' = (st, m)" using q'(2,3) take_own [OF m(5) [OF lc]] by (simp only: qd_entry_def)
      have nf: "\<not> is_fragment q'" using q'(3) wholeD(5,6) [OF m(2)] by (simp add: is_fragment_def)
      have z: "qd_missing q' = 0" using q'(4) le by simp
      let ?t1 = "t\<lparr>tr_stack := [], tr_allocs := tr_allocs t + 1, tr_queue := [q']\<rparr>"
      have enq: "consolidate_enqueue_message env q' (t\<lparr>tr_stack := [q'], tr_allocs := tr_allocs t + 1, tr_stack := []\<rparr>) = Some (0, ?t1)"
        using consolidate_whole [OF z nf] t(3) by (simp add: consolidate_enqueue_message_def)
      have ct: "cutting ?t1 (content mb') ms'" using m(3,6) lc q'(6) t by (simp add: cutting_def)
      obtain mb2 t2 qs ms2 where t2: "parse_rest env mb' ?t1 = Some (0, mb2, t2)" "blk_length mb2 = 0" "ms' = map qd_entry qs @ ms2"
        "tr_queue t2 = q' # qs" "tr_log t2 = tr_log t" "tr_notified t2 = tr_notified t" "tr_socket t2 = tr_socket t" "receives t2 ms2"
      proof (cases "blk_length mb' = 0")
        case True
        then have "receives ?t1 ms'" using ct blk_in_length [OF q'(5)] by (intro cutting_done) simp
        then show ?thesis using that [of mb' ?t1 "[]" ms'] True by (simp add: parse_rest_def)
      next
        case False
        then show ?thesis using that extra_messages [OF env q'(5) ct] by (auto simp: parse_rest_def)
      qed
      obtain t' where t': "process_queue_head env t2 = (if accepts env (qd_entry q') then 0 else -1, t')" "tr_log t' = tr_log t2 @ [qd_entry q']"
        "tr_queue t' = qs" "receives t' ms2" "qs \<noteq> [] \<and> e_registered env \<longrightarrow> tr_notified t2 < tr_notified t'" "tr_socket t' = tr_socket t2"
        by (rule head_step [OF t2(4,8)])
      have run: "parse_consolidate env q [] mb t = Some (if accepts env (st, m) then 0 else -1, t')"
        unfolding parse_consolidate_def q'(1) using z enq t2(1) t'(1) e save_none [OF t2(2), of t'] by simp
      have log: "tr_log t' = tr_log t @ [(st, m)]" "tr_socket t' = tr_socket t" using t'(2,6) t2(5,7) e by simp_all
      have "ok_step env t ms t'" if "accepts env (st, m)"
        by (rule ok_stepI [of _ ms2 _ "[(st, m)]"]) (use t' t2 m(1) log t(3) that in simp_all)
      moreover have "bad_step env t ms t'" if "\<not> accepts env (st, m)" using that log t(3) m(1) by (simp add: bad_step_def)
      ultimately show ?thesis using run log(2) b0 by (cases "accepts env (st, m)") (auto intro: settles_ok settles_bad)
    qed
  qed
qed

section \<open>A call of the input handler\<close>

lemma settles_steps:
  assumes "settles env t1 ms res" and "tr_queue t1 = tr_queue t" and "tr_log t1 = tr_log t" and "tr_notified t1 = tr_notified t"
    and "\<And>t'. tr_socket t' = tr_socket t1 \<Longrightarrow> reads k t t'"
  shows "steps_to env k t ms res"
  using assms unfolding settles_def steps_to_def ok_step_def bad_step_def by metis

lemma data_step:
  assumes env: "env_ok env" and r: "receives t ms" and empty: "tr_queue t = []"
    and u: "tr_stack t \<noteq> [] \<longrightarrow> qd_missing (hd (tr_stack t)) = MISSING_DATA_UNDEFINED"
  shows "steps_to env k t ms (handle_input_parse_data env (Some k) t)"
    and "\<exists>t'. handle_input_parse_data env None t = Some (-1, t') \<and> tr_log t' = tr_log t"
proof -
  let ?p = "partial_octets t" and ?mb = "new_blk (e_base env, e_buf env)"
  note mb = buffer_new [OF env]
  define R where "R = (if e_single_read env then blk_space ?mb
      else if tr_stack t \<noteq> [] \<and> qd_missing (hd (tr_stack t)) = MISSING_DATA_UNDEFINED
      then nat ((int HEADER_LEN - int (blk_length (qd_block (hd (tr_stack t))))) mod 2 ^ 64) else HEADER_LEN)"
  have shape: "tr_stack t = [] \<and> length ?p < 12 \<or> (\<exists>q b. tr_stack t = [q] \<and> item_ok q \<and> ?p = [] \<and> qd_missing q = MISSING_DATA_UNDEFINED
      \<and> qd_msg q = [b] \<and> 0 < blk_length b \<and> blk_length b < 12)"
    using r u by (auto simp: receives_def item_ok_def split: list.splits)
  have R: "length ?p < R" "R \<le> blk_space ?mb"
    using shape mb(4) by (auto simp: R_def qd_block_def)
  have pc: "length ?p \<le> blk_space ?mb" using R by simp
  note k1 = blk_copy_in [OF mb(1) pc]
  let ?b = "blk_copy ?p ?mb" and ?reset = "\<lambda>t'. t'\<lparr>tr_partial := map_option (\<lambda>_. []) (tr_partial t)\<rparr>"
  have run: "handle_input_parse_data env k' t = (case recv k' (R - length ?p) t of
        (None, t') \<Rightarrow> Some (-1, t'\<lparr>tr_partial := map_option (\<lambda>_. []) (tr_partial t')\<rparr>)
      | (Some bs, t') \<Rightarrow> if bs = [] then Some (0, t') else do {
          b \<leftarrow> blk_recv bs ?b; parse_buffer env b (t'\<lparr>tr_partial := map_option (\<lambda>_. []) (tr_partial t')\<rparr>) })" for k'
  proof -
    have "\<not> HEADER_LEN > blk_space ?mb" "\<not> (?p \<noteq> [] \<and> \<not> (length ?p \<le> R \<and> length ?p \<le> blk_space ?mb))" "R - length ?p \<noteq> 0"
      using mb(4) R by simp_all
    then show ?thesis
      unfolding handle_input_parse_data_def Let_def partial_octets_def [symmetric] R_def [symmetric] by (simp only: if_False)
  qed
  show "\<exists>t'. handle_input_parse_data env None t = Some (-1, t') \<and> tr_log t' = tr_log t"
    by (simp add: run recv_def)
  obtain bs rest where rc: "recv (Some k) (R - length ?p) t = (Some bs, t\<lparr>tr_socket := rest\<rparr>)" "tr_socket t = bs @ rest"
    "length bs \<le> R - length ?p" "bs = [] \<longrightarrow> 0 < R - length ?p \<longrightarrow> k = 0 \<or> tr_socket t = []"
    by (rule recv_some)
  have rd: "reads k t t'" if "tr_socket t' = rest" for t'
    by (rule reads_some [OF rc(2) that]) (use rc(4) R in simp)
  show "steps_to env k t ms (handle_input_parse_data env (Some k) t)"
  proof (cases "bs = []")
    case True
    let ?t = "t\<lparr>tr_socket := rest\<rparr>"
    have "?t = t" using rc(2) True by simp
    then have "ok_step env t ms ?t" using r empty by (intro ok_stepI [of _ ms _ "[]"]) simp_all
    then show ?thesis by (intro steps_ok [of _ ?t] rd) (use run rc(1) True in simp_all)
  next
    case False
    have sp: "length bs \<le> blk_space ?b" using k1(5) rc(3) R by simp
    obtain b where b: "blk_recv bs ?b = Some b" "content b = content ?b @ bs" "blk_in b" "b_rd b = b_rd ?b"
      "blk_length b = blk_length ?b + length bs"
      by (rule blk_recv_in [OF k1(2) sp])
    let ?t = "t\<lparr>tr_socket := rest, tr_partial := map_option (\<lambda>_. []) (tr_partial t)\<rparr>"
    have go: "handle_input_parse_data env (Some k) t = parse_buffer env b ?t" using run [of "Some k"] rc(1) False b(1) by simp
    have cb: "content b = ?p @ bs" using b(2) k1(1) mb(2) by simp
    have len: "0 < blk_length b" using b(5) False by simp
    have p0: "partial_octets ?t = []" by (cases "tr_partial t") (simp_all add: partial_octets_def)
    have ws: "list_all whole ms" "tr_fragments t = []" using r by (simp_all add: receives_def)
    from shape have "settles env ?t ms (parse_buffer env b ?t)"
    proof (elim disjE exE conjE)
      assume "tr_stack t = []"
      then have "cutting ?t (content b) ms" using r cb rc(2) p0 by (simp add: cutting_def receives_def pending_def)
      then show ?thesis using buffer_settles [OF env b(3) _ len] b(4) k1(3) mb(3) empty by simp
    next
      fix q b0 assume q: "tr_stack t = [q]" "item_ok q" "?p = []" "qd_missing q = MISSING_DATA_UNDEFINED"
      then have "qd_octets q @ content b @ rest = concat (map snd ms)" using r cb rc(2) by (simp add: receives_def pending_def)
      then show ?thesis using consolidate_settles [OF env b(3) len, of ?t q ms] q ws p0 empty by simp
    qed
    then show ?thesis unfolding go by (rule settles_steps) (use rd in simp_all)
  qed
qed

lemma steps_result: "steps_to env k t ms res \<Longrightarrow> steps_to env k t ms (do { (r, t) \<leftarrow> res; Some (if r = -1 then -1 else 0, t) })"
  unfolding steps_to_def by (elim exE disjE conjE) simp_all

lemma input_step:
  assumes env: "env_ok env" and r: "receives t ms"
  shows "steps_to env k t ms (handle_input env (Some k) t)"
    and "tr_queue t = [] \<Longrightarrow> \<exists>t'. handle_input env None t = Some (-1, t') \<and> tr_log t' = tr_log t"
proof -
  have q: "tr_queue t = [] \<Longrightarrow> handle_input env k' t = do {
      (r, t) \<leftarrow> (if tr_stack t \<noteq> [] \<and> qd_missing (hd (tr_stack t)) \<noteq> MISSING_DATA_UNDEFINED
                then handle_input_missing_data env k' (hd (tr_stack t)) (tl (tr_stack t)) t
                else handle_input_parse_data env k' t);
      Some (if r = -1 then -1 else 0, t) }" for k'
    by (simp add: handle_input_def empty_head del: not_None_eq)
  have one: "tr_stack t = [hd (tr_stack t)] \<and> tl (tr_stack t) = []" if "tr_stack t \<noteq> []"
    using r that by (auto simp: receives_def split: list.splits)
  show "steps_to env k t ms (handle_input env (Some k) t)"
  proof (cases "tr_queue t = []")
    case True
    have "steps_to env k t ms (if tr_stack t \<noteq> [] \<and> qd_missing (hd (tr_stack t)) \<noteq> MISSING_DATA_UNDEFINED
        then handle_input_missing_data env (Some k) (hd (tr_stack t)) (tl (tr_stack t)) t else handle_input_parse_data env (Some k) t)"
      using missing_step(1) [OF env r True, of "hd (tr_stack t)" k] data_step(1) [OF env r True, of k] one by auto
    then show ?thesis unfolding q [OF True] by (rule steps_result)
  next
    case False
    have "handle_input env (Some k) t = Some (process_queue_head env t)"
      using process_head_steps(2) [OF False r, of env] by (cases "process_queue_head env t") (simp add: handle_input_def)
    then show ?thesis using process_head_steps(1) [OF False r, of env k] by simp
  qed
  show "\<exists>t'. handle_input env None t = Some (-1, t') \<and> tr_log t' = tr_log t" if "tr_queue t = []"
    using missing_step(2) [OF env r that, of "hd (tr_stack t)"] data_step(2) [OF env r that] one unfolding q [OF that] by auto
qed

end
