(* ===== verification/Transport_Input_Spec.thy ===== *)
theory Transport_Input_Spec
  imports Transport_Input_Steps
begin

text \<open>
  What the incoming data path promises over a run of the input handler: the stream of octets is cut
  into the messages the peer sent however the reads split it, all of them are processed, no queued
  message is forgotten. And the message whose size wraps around, on which the handler does not return.
\<close>

section \<open>Runs\<close>

text \<open>The reactor calls the handler again and again, with what the network has each time; it closes
  the connection at -1.\<close>

fun input_run :: "input_env \<Rightarrow> nat option list \<Rightarrow> transport \<Rightarrow> (int \<times> transport) option" where
  "input_run env [] t = Some (0, t)"
| "input_run env (k # ks) t = do {
     (r, t) \<leftarrow> handle_input env k t;
     if r = -1 then Some (-1, t) else input_run env ks t }"

definition on_track :: "input_env \<Rightarrow> (giop_state \<times> u8 list) list \<Rightarrow> transport \<Rightarrow> bool" where
  "on_track env ms t \<longleftrightarrow> list_all (accepts env) (tr_log t)
     \<and> (\<exists>ms'. receives t ms' \<and> ms = tr_log t @ map qd_entry (tr_queue t) @ ms')"

lemma on_track_new: "list_all whole ms \<Longrightarrow> socket = concat (map snd ms) \<Longrightarrow> on_track env ms (transport_new socket)"
  by (simp add: on_track_def transport_new_def receives_def pending_def partial_octets_def)

lemma on_track_step:
  assumes env: "env_ok env" and t: "on_track env ms t"
  obtains t' L where "handle_input env (Some k) t = Some (0, t')" "on_track env ms t'" "reads k t t'" "tr_log t' = tr_log t @ L"
      "tr_queue t \<noteq> [] \<longrightarrow> L \<noteq> []" "tr_queue t' \<noteq> [] \<and> e_registered env \<longrightarrow> tr_notified t < tr_notified t'"
  | t' x Y where "handle_input env (Some k) t = Some (-1, t')" "tr_log t' = tr_log t @ [x]" "\<not> accepts env x" "ms = tr_log t' @ Y"
proof -
  obtain ms' where r: "receives t ms'" "ms = tr_log t @ map qd_entry (tr_queue t) @ ms'" "list_all (accepts env) (tr_log t)"
    using t by (auto simp: on_track_def)
  obtain t' where "handle_input env (Some k) t = Some (0, t') \<and> ok_step env t ms' t' \<and> reads k t t'
      \<or> handle_input env (Some k) t = Some (-1, t') \<and> bad_step env t ms' t'"
    using input_step(1) [OF env r(1), of k] by (auto simp: steps_to_def)
  then show ?thesis
  proof (elim disjE conjE)
    assume h: "handle_input env (Some k) t = Some (0, t')" "ok_step env t ms' t'" "reads k t t'"
    obtain L ms2 where o: "receives t' ms2" "tr_log t' = tr_log t @ L" "list_all (accepts env) L"
      "map qd_entry (tr_queue t) @ ms' = L @ map qd_entry (tr_queue t') @ ms2" "tr_queue t \<noteq> [] \<longrightarrow> L \<noteq> []"
      "tr_queue t' \<noteq> [] \<and> e_registered env \<longrightarrow> tr_notified t < tr_notified t'"
      using h(2) unfolding ok_step_def by blast
    have "on_track env ms t'" using o(1-4) r(2,3) by (auto simp: on_track_def)
    then show thesis using that(1) h(1,3) o(2,5,6) by blast
  next
    assume h: "handle_input env (Some k) t = Some (-1, t')" "bad_step env t ms' t'"
    then show thesis using that(2) r(2) unfolding bad_step_def by fastforce
  qed
qed

text \<open>A call on which the network fails processes the head of the queue, or closes the connection.\<close>

lemma failed_read:
  assumes env: "env_ok env" and t: "on_track env ms t"
  shows "handle_input env None t = handle_input env (Some 0) t \<or>
    (\<exists>t'. handle_input env None t = Some (-1, t') \<and> tr_log t' = tr_log t)"
proof (cases "tr_queue t = []")
  case True
  then show ?thesis using input_step(2) [OF env _ True] t by (auto simp: on_track_def)
next
  case False
  obtain ms' where r: "receives t ms'" using t by (auto simp: on_track_def)
  have "handle_input env k t = Some (process_queue_head env t)" for k
    using process_head_steps(2) [OF False r, of env] by (cases "process_queue_head env t") (simp add: handle_input_def)
  then show ?thesis by simp
qed

lemma run_framing:
  assumes env: "env_ok env" and t: "on_track env ms t"
  shows "\<exists>r t' rest. input_run env ks t = Some (r, t') \<and> ms = tr_log t' @ rest \<and>
    (r = 0 \<and> on_track env ms t' \<or> r = -1 \<and> (None \<in> set ks \<or> tr_log t' \<noteq> [] \<and> \<not> accepts env (last (tr_log t'))))"
  using t
proof (induction ks arbitrary: t)
  case Nil
  then show ?case by (auto simp: on_track_def)
next
  case (Cons k ks)
  obtain k' where k: "handle_input env k t = handle_input env (Some k') t
      \<or> k = None \<and> (\<exists>t'. handle_input env k t = Some (-1, t') \<and> tr_log t' = tr_log t)"
    using failed_read [OF env Cons.prems] by (cases k) auto
  show ?case
  proof (cases "handle_input env k t = handle_input env (Some k') t")
    case True
    show ?thesis
    proof (rule on_track_step [OF env Cons.prems, of k'])
      fix t' L assume h: "handle_input env (Some k') t = Some (0, t')" "on_track env ms t'"
      show ?thesis using Cons.IH [OF h(2)] h(1) True by auto
    next
      fix t' x Y assume "handle_input env (Some k') t = Some (-1, t')" "tr_log t' = tr_log t @ [x]" "\<not> accepts env x" "ms = tr_log t' @ Y"
      then show ?thesis using True by simp
    qed
  next
    case False
    then obtain t' where "k = None" "handle_input env k t = Some (-1, t')" "tr_log t' = tr_log t" using k by blast
    then show ?thesis using Cons.prems by (auto simp: on_track_def)
  qed
qed

section \<open>Delivery\<close>

text \<open>With an empty queue and nothing more to read, no message is missing.\<close>

lemma drained:
  assumes r: "receives t ms'" and s: "tr_socket t = []"
  shows "ms' = []"
proof (rule ccontr)
  assume "ms' \<noteq> []"
  then obtain sm ms2 where sm: "ms' = sm # ms2" by (cases ms') auto
  obtain st m where m: "sm = (st, m)" by (cases sm)
  have w: "whole (st, m)" using r sm m by (simp add: receives_def)
  have p: "pending t = m @ concat (map snd ms2)" using r sm m by (simp add: receives_def)
  note w' = wholeD [OF w]
  show False
  proof (cases "tr_stack t")
    case Nil
    have "length (pending t) = length (partial_octets t)" using Nil s by (simp add: pending_def)
    moreover have "length (partial_octets t) < 12" using r Nil by (simp add: receives_def)
    moreover have "length m \<le> length (pending t)" using p by simp
    ultimately show False using w'(1) by linarith
  next
    case (Cons q qs)
    then have q: "tr_stack t = [q]" "item_ok q" using r by (auto simp: receives_def split: list.splits)
    obtain b where b: "qd_msg q = [b]" "blk_in b" using q(2) by (auto simp: item_ok_def)
    have c: "pending t = content b" using q(1) s b(1) by (simp add: pending_def qd_octets_def)
    have len: "length (content b) = blk_length b" by (rule blk_in_length [OF b(2)])
    have le: "length m \<le> blk_length b" using c p len by (metis length_append le_add1)
    have "content b = m @ concat (map snd ms2)" using c p by (rule trans [OF sym])
    then have "parse_message_header (content b) giop_state_new = (0, st)" using parse_prefix [OF w'(1)] w'(2) by metis
    then show False using q(2) b(1) le w'(1,3) by (auto simp: item_ok_def split: if_splits)
  qed
qed

lemma run_delivers:
  assumes env: "env_ok env" and t: "on_track env ms t" and acc: "list_all (accepts env) ms"
    and ks: "list_all (\<lambda>k. \<exists>n. k = Some (Suc n)) ks" and enough: "length (tr_socket t) + (length ms - length (tr_log t)) \<le> length ks"
  shows "\<exists>t'. input_run env ks t = Some (0, t') \<and> tr_log t' = ms \<and> tr_queue t' = [] \<and> tr_socket t' = []"
  using t ks enough
proof (induction ks arbitrary: t)
  case Nil
  then have "tr_socket t = []" "length ms \<le> length (tr_log t)" by auto
  then show ?case using Nil.prems(1) by (auto simp: on_track_def)
next
  case (Cons k ks)
  obtain n where k: "k = Some (Suc n)" using Cons.prems(2) by auto
  show ?case
  proof (rule on_track_step [OF env Cons.prems(1), of "Suc n"])
    fix t' L assume h: "handle_input env (Some (Suc n)) t = Some (0, t')" "on_track env ms t'" "reads (Suc n) t t'" "tr_log t' = tr_log t @ L"
      "tr_queue t \<noteq> [] \<longrightarrow> L \<noteq> []"
    have le: "length (tr_log t') \<le> length ms" using h(2) by (auto simp: on_track_def)
    have "length (tr_socket t') + (length ms - length (tr_log t')) \<le> length ks"
    proof (cases "tr_queue t = [] \<and> tr_socket t = []")
      case True
      obtain ms' where "receives t ms'" "ms = tr_log t @ ms'" using Cons.prems(1) True by (auto simp: on_track_def)
      then have "ms = tr_log t" using drained True by auto
      moreover have "tr_socket t' = []" using h(3) True by (simp add: reads_def)
      ultimately show ?thesis using h(4) by simp
    next
      case False
      show ?thesis
      proof (cases "tr_queue t = []")
        case True
        then have "length (tr_socket t') < length (tr_socket t)" using False h(3) by (simp add: reads_def)
        then show ?thesis using Cons.prems(3) h(4) by simp
      next
        case False
        then have "0 < length L" using h(5) by simp
        moreover have "length (tr_socket t') \<le> length (tr_socket t)" using h(3) by (simp add: reads_def)
        moreover have "length (tr_log t') = length (tr_log t) + length L" using h(4) by simp
        moreover have "length (tr_socket t) + (length ms - length (tr_log t)) \<le> Suc (length ks)" using Cons.prems(3) by simp
        ultimately show ?thesis using le by linarith
      qed
    qed
    then show ?thesis using Cons.IH [OF h(2)] Cons.prems(2) h(1) k by auto
  next
    fix t' x Y assume "tr_log t' = tr_log t @ [x]" "\<not> accepts env x" "ms = tr_log t' @ Y"
    then show ?thesis using acc by simp
  qed
qed

section \<open>Properties\<close>

text \<open>
  (C2) Framing: however the network splits a stream of whole messages, no call of the input handler
  gets stuck or stores past a block, and what is processed are the messages the peer sent, each
  with the state its header is parsed into, in their order. The connection is only closed when a
  read failed or the last message was not accepted; otherwise the messages read and not processed
  yet are on the queue.
\<close>
theorem input_frames_messages:
  assumes "env_ok env" and "list_all whole ms"
  shows "\<exists>r t' rest. input_run env ks (transport_new (concat (map snd ms))) = Some (r, t') \<and>
    (r = 0 \<or> r = -1) \<and> ms = tr_log t' @ rest \<and> (r = 0 \<longrightarrow> (\<exists>rest'. rest = map qd_entry (tr_queue t') @ rest')) \<and>
    (r = -1 \<longrightarrow> None \<in> set ks \<or> tr_log t' \<noteq> [] \<and> \<not> accepts env (last (tr_log t')))"
proof -
  obtain r t' rest where *: "input_run env ks (transport_new (concat (map snd ms))) = Some (r, t')" "ms = tr_log t' @ rest"
    "r = 0 \<and> on_track env ms t' \<or> r = -1 \<and> (None \<in> set ks \<or> tr_log t' \<noteq> [] \<and> \<not> accepts env (last (tr_log t')))"
    using run_framing [OF assms(1) on_track_new [OF assms(2) refl]] by blast
  have "\<exists>rest'. rest = map qd_entry (tr_queue t') @ rest'" if "r = 0"
    using *(2,3) that by (auto simp: on_track_def)
  then show ?thesis using * by auto
qed

text \<open>
  (C10) Delivery: when the messages are accepted and every read finds at least one octet while there
  are any, then after at most one call for each octet and each message all messages have been
  processed, in their order, and nothing is left.
\<close>
theorem input_delivers_messages:
  assumes "env_ok env" and "list_all whole ms" and "list_all (accepts env) ms"
    and "list_all (\<lambda>k. \<exists>n. k = Some (Suc n)) ks" and "length (concat (map snd ms)) + length ms \<le> length ks"
  shows "\<exists>t'. input_run env ks (transport_new (concat (map snd ms))) = Some (0, t') \<and>
    tr_log t' = ms \<and> tr_queue t' = [] \<and> tr_socket t' = []"
  using assms(5) by (intro run_delivers [OF assms(1) on_track_new [OF assms(2) refl] assms(3,4)]) (simp add: transport_new_def)

text \<open>
  (C25) No queued message is forgotten: a call that leaves messages on the queue has notified the
  reactor, so the handler is called again even when the peer sends nothing more.
\<close>
theorem queued_messages_notify:
  assumes "env_ok env" and "list_all whole ms" and "input_run env ks (transport_new (concat (map snd ms))) = Some (0, t)"
    and "handle_input env (Some k) t = Some (0, t')" and "tr_queue t' \<noteq> []" and "e_registered env"
  shows "tr_notified t < tr_notified t'"
proof -
  have "on_track env ms t"
    using run_framing [OF assms(1) on_track_new [OF assms(2) refl], of ks] assms(3) by auto
  then show ?thesis using on_track_step [OF assms(1), of ms t k "tr_notified t < tr_notified t'"] assms(4-6) by auto
qed

section \<open>A message whose size wraps around\<close>

text \<open>
  \<open>message_size\<close> adds the length of the header in 32 bits: a header that announces a payload of
  \<open>2 ^ 32 - 12\<close> octets is a message of no octets, which is cut off again and again.
\<close>

definition wraps :: "u8 list \<Rightarrow> bool" where
  "wraps h \<longleftrightarrow> (\<exists>st. parse_message_header h giop_state_new = (0, st) \<and> gs_payload st = 0xFFFFFFF4
     \<and> \<not> gs_more st \<and> gs_type st \<noteq> Fragment)"

lemma wraps_extracts_nothing:
  assumes env: "env_ok env" and mb: "blk_in mb" and h: "wraps (content mb)" and len: "12 \<le> blk_length mb"
  obtains q where "extract_next_message (e_al env) n mb = (1, Some q, mb)" "qd_missing q = 0" "\<not> is_fragment q"
proof -
  obtain st where st: "parse_message_header (content mb) giop_state_new = (0, st)" "gs_payload st = 0xFFFFFFF4"
    "\<not> gs_more st" "gs_type st \<noteq> Fragment"
    using h by (auto simp: wraps_def)
  obtain b where b: "make_queued_data (e_al env) n 0 = Some \<lparr>qd_msg = [b], qd_missing = 0, qd_state = giop_state_new\<rparr>"
    by (rule make_queued_data_ok [OF env])
  have "unat (message_size st) = 0" using st(2) by (simp add: message_size_def)
  then show ?thesis
    using that [of "\<lparr>qd_msg = [blk_copy [] b], qd_missing = 0, qd_state = st\<rparr>"] len st b
    by (simp add: extract_next_message_def qd_block_def skip_def is_fragment_def)
qed

lemma wraps_never_returns:
  assumes "env_ok env" and "blk_in mb" and "wraps (content mb)" and "12 \<le> blk_length mb"
  shows "handle_input_parse_extra_messages env mb t = None"
proof (rule ccontr)
  assume "handle_input_parse_extra_messages env mb t \<noteq> None"
  then obtain r where ret: "handle_input_parse_extra_messages env mb t = Some r" by blast
  have "env_ok env \<longrightarrow> blk_in mb \<longrightarrow> wraps (content mb) \<longrightarrow> 12 \<le> blk_length mb \<longrightarrow> False"
  proof (rule handle_input_parse_extra_messages.raw_induct
      [where P = "\<lambda>env mb t r. env_ok env \<longrightarrow> blk_in mb \<longrightarrow> wraps (content mb) \<longrightarrow> 12 \<le> blk_length mb \<longrightarrow> False", OF _ ret], intro impI)
    fix f env mb t r
    assume IH: "\<And>env mb t r. f env mb t = Some r \<Longrightarrow> env_ok env \<longrightarrow> blk_in mb \<longrightarrow> wraps (content mb) \<longrightarrow> 12 \<le> blk_length mb \<longrightarrow> False"
      and eq: "(if blk_length mb > 0
        then case extract_next_message (e_al env) (tr_allocs t) mb of (buf_status, q_data, message_block) \<Rightarrow>
          if buf_status = -1 then Some (-1, message_block, t)
          else case q_data of
            None \<Rightarrow> Some (0, message_block, t)
          | Some q_data \<Rightarrow>
              if qd_missing q_data = 0
              then do {
                (r, t) \<leftarrow> consolidate_enqueue_message env q_data (t\<lparr>tr_allocs := tr_allocs t + 1\<rparr>);
                if r = -1 then Some (-1, message_block, t)
                else f env message_block t }
              else f env message_block
                     (t\<lparr>tr_allocs := tr_allocs t + 1, tr_stack := q_data # tr_stack t\<rparr>)
        else Some (0, mb, t)) = Some r"
      and ok: "env_ok env" "blk_in mb" "wraps (content mb)" "12 \<le> blk_length mb"
    obtain q where q: "extract_next_message (e_al env) (tr_allocs t) mb = (1, Some q, mb)" "qd_missing q = 0" "\<not> is_fragment q"
      by (rule wraps_extracts_nothing [OF ok])
    have "f env mb (t\<lparr>tr_allocs := tr_allocs t + 1, tr_queue := tr_queue t @ [q]\<rparr>) = Some r"
      using eq ok(4) q by (simp add: consolidate_enqueue_message_def consolidate_whole)
    then show False using IH ok by blast
  qed
  then show False using assms by blast
qed

text \<open>
  (C19) Denial of service: twelve octets of a new connection, a header that announces a payload of
  \<open>2 ^ 32 - 12\<close> octets, are enough for a call of the input handler that does not return, whatever
  the size of the reads and of the buffer.
\<close>
theorem wrapped_size_never_returns:
  assumes env: "env_ok env" and h: "length h = 12" "wraps h" and k: "12 \<le> k"
  shows "handle_input env (Some k) (transport_new h) = None"
proof -
  let ?t = "transport_new h" and ?mb = "new_blk (e_base env, e_buf env)"
  note mb = buffer_new [OF env]
  define R where "R = (if e_single_read env then blk_space ?mb else 12)"
  have R: "12 \<le> R" using mb(4) by (simp add: R_def)
  have fits: "length h \<le> blk_space ?mb" using mb(4) h(1) by linarith
  obtain b where b: "blk_recv h ?mb = Some b" "content b = content ?mb @ h" "blk_in b" "b_rd b = b_rd ?mb"
    "blk_length b = blk_length ?mb + length h"
    by (rule blk_recv_in [OF mb(1) fits])
  have cb: "content b = h" "blk_length b = 12" using b(2,5) mb(2,5) h(1) by simp_all
  have copy: "blk_copy [] ?mb = ?mb" by (simp add: blk_copy_def)
  have rec: "recv (Some k) R ?t = (Some h, ?t\<lparr>tr_socket := []\<rparr>)"
    using R k h(1) by (simp add: recv_def transport_new_def)
  let ?t2 = "?t\<lparr>tr_socket := []\<rparr>"
  have "handle_input env (Some k) ?t = do { (r, t) \<leftarrow> handle_input_parse_data env (Some k) ?t; Some (if r = -1 then -1 else 0, t) }"
    by (simp add: handle_input_def process_queue_head_def transport_new_def)
  also have "handle_input_parse_data env (Some k) ?t = parse_buffer env b ?t2"
  proof -
    have "R \<noteq> 0" "h \<noteq> []" "\<not> HEADER_LEN > blk_space ?mb" "tr_partial ?t = None" "tr_stack ?t = []" using mb(4) R h(1)
      by (auto simp: transport_new_def)
    moreover have "R = (if e_single_read env then blk_space ?mb
        else if tr_stack ?t \<noteq> [] \<and> qd_missing (hd (tr_stack ?t)) = MISSING_DATA_UNDEFINED
        then nat ((int HEADER_LEN - int (blk_length (qd_block (hd (tr_stack ?t))))) mod 2 ^ 64) else HEADER_LEN)"
      by (simp add: R_def transport_new_def)
    ultimately show ?thesis
      using rec b(1) copy unfolding handle_input_parse_data_def Let_def by (simp del: length_0_conv) (simp add: transport_new_def)
  qed
  also have "parse_buffer env b ?t2 = None"
  proof -
    obtain st where st: "parse_message_header h giop_state_new = (0, st)" "gs_payload st = 0xFFFFFFF4" "\<not> gs_more st" "gs_type st \<noteq> Fragment"
      using h(2) by (auto simp: wraps_def)
    have "unat (message_size st) = 0" using st(2) by (simp add: message_size_def)
    then have "parse_next_message \<lparr>qd_msg = [b], qd_missing = 0, qd_state = giop_state_new\<rparr>
        = (1, \<lparr>qd_msg = [b], qd_missing = 0, qd_state = st\<rparr>, 0)"
      using st(1) cb by (simp add: parse_next_message_def qd_block_def)
    moreover have "handle_input_parse_extra_messages env (skip 0 b) ?t2 = None"
      by (rule wraps_never_returns [OF env]) (use b(3) cb h(2) in \<open>simp_all add: skip_def\<close>)
    ultimately show ?thesis using cb st(3,4) by (simp add: parse_buffer_def parse_critical_def is_fragment_def transport_new_def)
  qed
  finally show ?thesis by simp
qed

section \<open>Witnesses\<close>

definition plain_env :: "nat \<Rightarrow> bool \<Rightarrow> input_env" where
  "plain_env n single = \<lparr>e_al = (\<lambda>_ sz. Some (0, replicate sz 0)), e_contexts = (\<lambda>c. (True, c)), e_base = 0, e_buf = replicate n 0,
     e_single_read = single, e_registered = True, e_handle = (\<lambda>_ _. True)\<rparr>"

text \<open>A request of GIOP 1.2 with a payload of four octets, little-endian, and what its header says.\<close>

definition short_request :: "giop_state \<times> u8 list" where
  "short_request = (giop_state_new\<lparr>gs_byte_order := 1, gs_payload := 4\<rparr>, [0x47, 0x49, 0x4f, 0x50, 1, 2, 1, 0, 4, 0, 0, 0, 9, 8, 7, 6])"

lemma plain_env_ok: "20 \<le> n \<Longrightarrow> env_ok (plain_env n single)"
  by (simp add: env_ok_def plain_env_def)

lemma short_request_parsed: "parse_message_header (snd short_request) giop_state_new = (0, fst short_request)"
  by code_simp

lemma short_request_whole: "whole short_request"
  using short_request_parsed by (simp add: whole_def short_request_def giop_state_new_def)

lemma short_request_accepts: "accepts (plain_env n single) short_request"
  by (simp add: accepts_def short_request_def plain_env_def giop_state_new_def)

theorem input_frames_messages_witness:
  "\<exists>r t' rest. input_run (plain_env 20 False) [Some 5, Some 20, None] (transport_new (concat (map snd [short_request, short_request])))
      = Some (r, t') \<and> (r = 0 \<or> r = -1) \<and> [short_request, short_request] = tr_log t' @ rest"
  using input_frames_messages [of "plain_env 20 False" "[short_request, short_request]" "[Some 5, Some 20, None]"]
    plain_env_ok [of 20 False] short_request_whole by auto

theorem input_delivers_messages_witness:
  "\<exists>t'. input_run (plain_env 20 False) (replicate 40 (Some 3)) (transport_new (concat (map snd [short_request, short_request])))
      = Some (0, t') \<and> tr_log t' = [short_request, short_request] \<and> tr_queue t' = [] \<and> tr_socket t' = []"
proof (rule input_delivers_messages)
  show "list_all (\<lambda>k. \<exists>n. k = Some (Suc n)) (replicate 40 (Some 3))"
    by (simp add: list_all_length)
  show "length (concat (map snd [short_request, short_request])) + length [short_request, short_request] \<le> length (replicate 40 (Some 3))"
    by (simp add: short_request_def)
qed (simp_all add: plain_env_ok short_request_whole short_request_accepts)

declare handle_input_parse_extra_messages.simps [code]

definition two_read :: "(int \<times> transport) option" where
  "two_read = handle_input (plain_env 48 True) (Some 32) (transport_new (concat (map snd [short_request, short_request])))"

lemma two_read_queues: "case two_read of None \<Rightarrow> False | Some (r, t') \<Rightarrow> r = 0 \<and> tr_queue t' \<noteq> []"
  by code_simp

theorem queued_messages_notify_witness:
  "\<exists>t'. two_read = Some (0, t') \<and> tr_queue t' \<noteq> [] \<and> 0 < tr_notified t'"
proof -
  let ?ms = "[short_request, short_request]"
  obtain t' where t': "two_read = Some (0, t')" "tr_queue t' \<noteq> []"
    using two_read_queues by (auto split: option.splits)
  have "tr_notified (transport_new (concat (map snd ?ms))) < tr_notified t'"
    by (rule queued_messages_notify [of "plain_env 48 True" ?ms "[]" _ 32])
      (use plain_env_ok short_request_whole t' in \<open>simp_all add: two_read_def\<close>, simp add: plain_env_def)
  then show ?thesis using t' by auto
qed

theorem wrapped_size_never_returns_witness:
  "handle_input (plain_env 20 False) (Some 12) (transport_new [0x47, 0x49, 0x4f, 0x50, 1, 2, 1, 0, 0xF4, 0xFF, 0xFF, 0xFF]) = None"
proof (rule wrapped_size_never_returns)
  show "wraps [0x47, 0x49, 0x4f, 0x50, 1, 2, 1, 0, 0xF4, 0xFF, 0xFF, 0xFF]"
    unfolding wraps_def
    by (rule exI [of _ "giop_state_new\<lparr>gs_byte_order := 1, gs_payload := 0xFFFFFFF4\<rparr>"]) code_simp
qed (simp_all add: plain_env_ok)

end
