(* ===== verification/Transport_Output_Spec.thy ===== *)
theory Transport_Output_Spec
  imports Transport_Output_Inv Transport_Input_Spec
begin

text \<open>
  What the outgoing data path promises: the octets of the queued messages go out in their order,
  each message whole, apart from messages that expire before their first octet was sent; and a message
  that one connection sends is the message its peer processes.
\<close>

section \<open>Steps\<close>

text \<open>The fields the invariant looks at.\<close>

definition core :: "out_transport \<Rightarrow> (addr \<Rightarrow> u8 list option) \<times> (addr \<Rightarrow> (qmsg \<times> bool) option) \<times> addr
    \<times> (addr \<Rightarrow> ptr) \<times> (addr \<Rightarrow> ptr) \<times> ptr \<times> ptr" where
  "core t = (ot_blocks t, ot_msgs t, ot_fresh t, ot_next t, ot_prev t, ot_head t, ot_tail t)"

lemma core_same:
  assumes "core t' = core t"
  shows "q_ok t' xs = q_ok t xs" "octets t' = octets t" "q_octets t' xs = q_octets t xs" "unsent t' = unsent t" "ot_msgs t' = ot_msgs t"
    "foot t' = foot t" "ot_blocks t' = ot_blocks t" "ot_fresh t' = ot_fresh t"
proof -
  have f: "ot_msgs t' = ot_msgs t" "ot_blocks t' = ot_blocks t" "ot_fresh t' = ot_fresh t" "ot_next t' = ot_next t" "ot_prev t' = ot_prev t"
    "ot_head t' = ot_head t" "ot_tail t' = ot_tail t"
    using assms by (simp_all add: core_def)
  show "ot_msgs t' = ot_msgs t" by (rule f(1))
  show o: "octets t' = octets t" by (rule ext) (simp only: octets_def f)
  show "ot_blocks t' = ot_blocks t" "ot_fresh t' = ot_fresh t" by (rule f)+
  show foot: "foot t' = foot t" by (rule ext) (simp only: foot_def f)
  show "q_octets t' xs = q_octets t xs" by (simp only: q_octets_def o)
  show "unsent t' = unsent t" by (rule ext) (simp only: unsent_def f)
  show "q_ok t' xs = q_ok t xs" by (simp only: q_ok_def links_def msgs_ok_def o foot f)
qed

lemma core_fields [simp]: "core (t\<lparr>ot_sent := n\<rparr>) = core t" "core (t\<lparr>ot_socket := os\<rparr>) = core t" "core (t\<lparr>ot_errno := e\<rparr>) = core t"
  "core (t\<lparr>ot_clock := c\<rparr>) = core t" "core (t\<lparr>ot_wire := w\<rparr>) = core t" "core (state_changed a s t) = core t"
  by (simp_all add: core_def state_changed_def)

text \<open>A message that may expire: asynchronous, with a timeout, and nothing of it was sent.\<close>

definition droppable :: "out_transport \<Rightarrow> addr \<Rightarrow> bool" where
  "droppable t a \<longleftrightarrow> (\<exists>buffer timeout h. ot_msgs t a = Some (Asynch buffer 0 timeout, h) \<and> tv_gt timeout (Time_Value 0 0))"

text \<open>
  The queue \<open>xs\<close> has become \<open>vs\<close>: the messages in \<open>D\<close> were dropped, and of the others the octets
  that are no longer in the queue went out.
\<close>

definition drained :: "out_transport \<Rightarrow> addr list \<Rightarrow> addr set \<Rightarrow> out_transport \<Rightarrow> addr list \<Rightarrow> bool" where
  "drained t xs D t' vs \<longleftrightarrow> q_ok t' vs \<and> outside t xs t' vs \<and> D \<subseteq> set xs \<and> (\<forall>a\<in>D. droppable t a)
     \<and> (\<exists>us dn. filter (\<lambda>a. a \<notin> D) xs = us @ vs \<and> ot_wire t' = ot_wire t @ q_octets t us @ dn \<and> sent_off t us vs dn t')"

lemma drained_wire: "drained t xs D t' vs \<Longrightarrow> \<exists>bs. ot_wire t' = ot_wire t @ bs \<and> bs @ q_octets t' vs = q_octets t (filter (\<lambda>a. a \<notin> D) xs)"
proof -
  assume "drained t xs D t' vs"
  then obtain us dn where d: "filter (\<lambda>a. a \<notin> D) xs = us @ vs" "ot_wire t' = ot_wire t @ q_octets t us @ dn" "sent_off t us vs dn t'"
    by (auto simp: drained_def)
  have "dn @ q_octets t' vs = q_octets t vs"
  proof (cases vs)
    case Nil
    then show ?thesis using d(3) by (simp add: sent_off_def)
  next
    case (Cons v ws)
    then have "octets t v = dn @ octets t' v" "q_octets t' ws = q_octets t ws" using d(3) by (auto simp: sent_off_def intro: q_octets_cong)
    then show ?thesis using Cons by simp
  qed
  then show ?thesis using d by auto
qed

lemma outside_core:
  assumes "core t1 = core t" and "core t2' = core t2"
  shows "outside t1 xs t2 vs = outside t xs t2' vs"
  by (simp only: outside_def core_same(5-8) [OF assms(1)] core_same(5-8) [OF assms(2)])

lemma sent_off_same: "\<forall>c\<in>set vs. ot_msgs t' c = ot_msgs t c \<and> octets t' c = octets t c \<Longrightarrow> sent_off t us vs [] t'"
  by (auto simp: sent_off_def split: list.split)

lemma drained_same:
  assumes "q_ok t xs" and c: "core t' = core t" and "ot_wire t' = ot_wire t"
  shows "drained t xs {} t' xs"
proof -
  have "outside t xs t' xs" using outside_refl [of t xs] unfolding outside_core [OF refl c, of t xs xs] .
  moreover have "q_ok t' xs" "sent_off t [] xs [] t'" using assms(1) core_same(1,2,5) [OF c] by (simp_all add: sent_off_same)
  ultimately show ?thesis using assms(3) unfolding drained_def by (intro conjI exI [of _ "[]"]) simp_all
qed

lemma drained_trans:
  assumes d: "distinct xs" and 1: "drained t xs D t1 vs" and 2: "drained t1 vs E t2 ws"
  shows "drained t xs (D \<union> E) t2 ws"
proof -
  obtain us1 dn1 where a: "filter (\<lambda>a. a \<notin> D) xs = us1 @ vs" "ot_wire t1 = ot_wire t @ q_octets t us1 @ dn1" "sent_off t us1 vs dn1 t1"
    "D \<subseteq> set xs" "\<forall>a\<in>D. droppable t a" "outside t xs t1 vs"
    using 1 by (auto simp: drained_def)
  obtain us2 dn2 where b: "filter (\<lambda>a. a \<notin> E) vs = us2 @ ws" "ot_wire t2 = ot_wire t1 @ q_octets t1 us2 @ dn2" "sent_off t1 us2 ws dn2 t2"
    "E \<subseteq> set vs" "\<forall>a\<in>E. droppable t1 a" "q_ok t2 ws" "outside t1 vs t2 ws"
    using 2 by (auto simp: drained_def)
  have dist: "distinct (us1 @ vs)" using d a(1) by (metis distinct_filter)
  have "filter (\<lambda>a. a \<notin> D \<union> E) xs = filter (\<lambda>a. a \<notin> E) (filter (\<lambda>a. a \<notin> D) xs)" by (simp add: conj_commute)
  also have "\<dots> = filter (\<lambda>a. a \<notin> E) us1 @ us2 @ ws" using a(1) b(1) by simp
  also have "filter (\<lambda>a. a \<notin> E) us1 = us1" using b(4) dist by (auto simp: filter_id_conv)
  finally have f: "filter (\<lambda>a. a \<notin> D \<union> E) xs = us1 @ us2 @ ws" .
  have same: "ot_msgs t1 c = ot_msgs t c" if "c \<in> set vs" "unsent t1 c" for c using a(3) that by (simp add: sent_off_def)
  have drop: "droppable t1 c \<Longrightarrow> unsent t1 c" for c by (auto simp: droppable_def unsent_def)
  have sub: "set us2 \<union> set ws \<subseteq> set vs" using b(1) by (metis Un_commute filter_is_subset set_append)
  have "droppable t c" if "c \<in> E" for c
  proof -
    have "ot_msgs t1 c = ot_msgs t c" using same drop b(4,5) that by blast
    moreover have "droppable t1 c" using b(5) that by blast
    ultimately show ?thesis by (simp add: droppable_def)
  qed
  then have D: "\<forall>a\<in>D \<union> E. droppable t a" using a(5) by blast
  have ids: "\<forall>c\<in>set ws. unsent t2 c \<longrightarrow> ot_msgs t2 c = ot_msgs t c"
    using b(3) sub same by (auto simp: sent_off_def unsent_def)
  have "\<exists>us dn. us1 @ us2 @ ws = us @ ws \<and> ot_wire t2 = ot_wire t @ q_octets t us @ dn \<and> sent_off t us ws dn t2"
  proof (cases vs)
    case Nil
    then have "us2 = []" "ws = []" "dn1 = []" "dn2 = []" using b a(3) by (auto simp: sent_off_def)
    then show ?thesis using a(2) b(2) by (intro exI [of _ us1] exI [of _ "[]"]) (simp add: sent_off_def)
  next
    case (Cons v vs')
    have v: "octets t v = dn1 @ octets t1 v" "dn1 \<noteq> [] \<longrightarrow> \<not> unsent t1 v" "\<forall>c\<in>set vs'. octets t1 c = octets t c"
      using a(3) Cons by (simp_all add: sent_off_def)
    have nv: "v \<notin> set vs'" using dist Cons by simp
    show ?thesis
    proof (cases "v \<in> E")
      case True
      then have "dn1 = []" using v(2) b(5) drop by blast
      moreover have s: "set (us2 @ ws) \<subseteq> set vs'" using b(1) Cons True by (metis filter.simps(2) filter_is_subset)
      then have "q_octets t1 us2 = q_octets t us2" using v(3) by (intro q_octets_cong) auto
      moreover have "sent_off t (us1 @ us2) ws dn2 t2" using b(3) v(3) s ids by (auto simp: sent_off_def split: list.splits)
      ultimately show ?thesis using a(2) b(2) by (intro exI [of _ "us1 @ us2"] exI [of _ dn2]) simp
    next
      case False
      then have e: "us2 @ ws = v # filter (\<lambda>a. a \<notin> E) vs'" using b(1) Cons by simp
      show ?thesis
      proof (cases us2)
        case Nil
        then have ws: "ws = v # filter (\<lambda>a. a \<notin> E) vs'" using e by simp
        have "unsent t2 v \<longrightarrow> unsent t1 v" using b(3) ws by (auto simp: sent_off_def unsent_def)
        then have "sent_off t us1 ws (dn1 @ dn2) t2" using b(3) v ids by (auto simp: sent_off_def ws)
        then show ?thesis using a(2) b(2) Nil by (intro exI [of _ us1] exI [of _ "dn1 @ dn2"]) simp
      next
        case (Cons v' us')
        then have us: "us2 = v # us'" "us' @ ws = filter (\<lambda>a. a \<notin> E) vs'" using e by auto
        have s: "set (us' @ ws) \<subseteq> set vs'" using us(2) by (metis filter_is_subset)
        then have "q_octets t1 us' = q_octets t us'" using v(3) by (intro q_octets_cong) auto
        then have "dn1 @ q_octets t1 us2 = q_octets t us2" using us(1) v(1) by simp
        then have "ot_wire t2 = ot_wire t @ q_octets t (us1 @ us2) @ dn2" using a(2) b(2) by simp
        moreover have "sent_off t (us1 @ us2) ws dn2 t2" using b(3) v(3) s ids by (auto simp: sent_off_def split: list.splits)
        ultimately show ?thesis by (intro exI [of _ "us1 @ us2"] exI [of _ dn2]) simp
      qed
    qed
  qed
  moreover have "outside t xs t2 ws" by (rule outside_trans [OF a(6) b(7)])
  ultimately show ?thesis unfolding drained_def f using b(4,6) a(1,4) D sub by (metis (no_types, lifting) Un_subset_iff filter_is_subset set_append subset_trans)
qed

lemma sent_off_core:
  assumes "core t1 = core t" and "core t2' = core t2"
  shows "sent_off t1 us vs dn t2 = sent_off t us vs dn t2'"
  by (simp only: sent_off_def core_same(2,4,5) [OF assms(1)] core_same(2,4,5) [OF assms(2)])

text \<open>A socket that may be full but does not fail; one that takes an octet at once.\<close>

definition sane :: "outcome list \<Rightarrow> bool" where
  "sane os \<longleftrightarrow> (\<forall>oc\<in>set os. oc \<noteq> Failed E_TIME \<and> oc \<noteq> Failed E_OTHER \<and> (\<forall>now. oc \<noteq> Sent 0 now))"

text \<open>A socket whose next call of \<open>send\<close> fails, with the error number it leaves.\<close>

definition broken :: "send_errno \<Rightarrow> outcome list \<Rightarrow> bool" where
  "broken e os \<longleftrightarrow> e \<noteq> E_AGAIN \<and> (\<exists>os'. os = Failed e # os')"

definition ready :: "outcome list \<Rightarrow> bool" where
  "ready os \<longleftrightarrow> (\<exists>k now os'. os = Sent (Suc k) now # os')"

lemma helper_spec:
  assumes q: "q_ok t xs" and iov: "q_octets t xs = concat iov @ rest"
  shows "\<exists>r t' vs. drain_queue_helper iov t = Some (r, t') \<and> drained t xs {} t' vs \<and>
    (r = DR_QUEUE_EMPTY \<longrightarrow> length (ot_socket t') < length (ot_socket t) \<and> length (ot_wire t) < length (ot_wire t')) \<and>
    (r \<noteq> DR_QUEUE_EMPTY \<longrightarrow> vs = xs \<and> ot_wire t' = ot_wire t) \<and> r \<noteq> DR_OK \<and>
    (ready (ot_socket t) \<and> concat iov \<noteq> [] \<longrightarrow> r = DR_QUEUE_EMPTY) \<and>
    (sane (ot_socket t) \<longrightarrow> sane (ot_socket t') \<and> (concat iov \<noteq> [] \<longrightarrow> r \<noteq> DR_ERROR)) \<and>
    (\<forall>e. broken e (ot_socket t) \<longrightarrow> r = DR_ERROR \<and> ot_errno t' = e)"
proof (cases "ot_socket t")
  case Nil
  let ?t = "t\<lparr>ot_errno := E_AGAIN\<rparr>"
  have "drained t xs {} ?t xs" by (rule drained_same [OF q]) simp_all
  then show ?thesis using Nil by (intro exI [of _ DR_WOULDBLOCK] exI [of _ ?t] exI [of _ xs]) (auto simp: drain_queue_helper_def ready_def sane_def broken_def)
next
  case (Cons oc os)
  show ?thesis
  proof (cases oc)
    case (Failed e)
    let ?t = "t\<lparr>ot_socket := os, ot_errno := e\<rparr>"
    have "drained t xs {} ?t xs" by (rule drained_same [OF q]) simp_all
    then show ?thesis using Cons Failed
      by (intro exI [of _ "if e = E_AGAIN then DR_WOULDBLOCK else DR_ERROR"] exI [of _ ?t] exI [of _ xs], cases e) (auto simp: drain_queue_helper_def ready_def sane_def broken_def)
  next
    case (Sent k now)
    let ?n = "min k (length (concat iov))" and ?t0 = "t\<lparr>ot_socket := os, ot_clock := now\<rparr>"
    show ?thesis
    proof (cases "?n = 0")
      case True
      have "drained t xs {} ?t0 xs" by (rule drained_same [OF q]) simp_all
      moreover have "k = 0 \<or> concat iov = []" using True by (cases "concat iov") (auto simp: min_def split: if_splits)
      ultimately show ?thesis using Cons Sent True
        by (intro exI [of _ DR_ERROR] exI [of _ ?t0] exI [of _ xs]) (auto simp: drain_queue_helper_def Let_def ready_def sane_def broken_def)
    next
      case False
      let ?t1 = "?t0\<lparr>ot_wire := ot_wire t @ take ?n (concat iov)\<rparr>"
      have c: "core ?t1 = core t" by simp
      have q1: "q_ok ?t1 xs" using q core_same(1) [OF c] by simp
      have "?n \<le> length (q_octets ?t1 xs)" using core_same(3) [OF c] iov by simp
      then obtain t' us vs dn where cl: "cleanup_queue ?n ?t1 = Some t'" "xs = us @ vs" "q_ok t' vs" "same_io ?t1 t'"
        "take ?n (q_octets ?t1 xs) = q_octets ?t1 us @ dn" "sent_off ?t1 us vs dn t'" "outside ?t1 xs t' vs"
        using cleanup_spec [OF q1] by blast
      have run: "drain_queue_helper iov t = Some (DR_QUEUE_EMPTY, t'\<lparr>ot_sent := ot_sent t' + ?n\<rparr>)"
        using Cons Sent False cl(1) by (simp add: drain_queue_helper_def Let_def)
      let ?t = "t'\<lparr>ot_sent := ot_sent t' + ?n\<rparr>"
      have c': "core ?t = core t'" by simp
      have "take ?n (q_octets t xs) = take ?n (concat iov)" using iov by simp
      then have tk: "take ?n (concat iov) = q_octets t us @ dn" using cl(5) core_same(3) [OF c] by simp
      have w: "ot_wire ?t = ot_wire t @ q_octets t us @ dn" using cl(4) tk by (simp add: same_io_def)
      have "sent_off t us vs dn ?t" using cl(6) sent_off_core [OF c c'] by blast
      moreover have "outside t xs ?t vs" using cl(7) outside_core [OF c c'] by blast
      ultimately have "drained t xs {} ?t vs" using cl(2,3) w core_same(1) [OF c', of vs] unfolding drained_def by auto
      moreover have "length (ot_socket ?t) < length (ot_socket t)" using cl(4) Cons by (simp add: same_io_def)
      moreover have "length (ot_wire ?t) = length (ot_wire t) + ?n" using cl(4) by (simp add: same_io_def)
      then have "length (ot_wire t) < length (ot_wire ?t)" using False by linarith
      moreover have "sane (ot_socket t) \<longrightarrow> sane (ot_socket ?t)" using cl(4) Cons by (simp add: same_io_def sane_def)
      moreover have "\<not> broken e (ot_socket t)" for e using Cons Sent by (simp add: broken_def)
      ultimately show ?thesis using run by (intro exI [of _ DR_QUEUE_EMPTY] exI [of _ ?t] exI [of _ vs]) simp
    qed
  qed
qed

lemma expire_spec:
  assumes q: "q_ok t (ys @ a # zs)" and m: "ot_msgs t a = Some (m, h)" and e: "is_expired m now"
  shows "\<exists>t'. destroy a (remove_from_list a (state_changed a LFS_TIMEOUT t)) = Some t' \<and> drained t (ys @ a # zs) {a} t' (ys @ zs)
    \<and> q_octets t' ys = q_octets t ys \<and> ot_socket t' = ot_socket t"
proof -
  let ?s = "state_changed a LFS_TIMEOUT t"
  have c: "core ?s = core t" by simp
  have q': "q_ok ?s (ys @ a # zs)" using q core_same(1) [OF c] by simp
  then obtain t' where t': "destroy a (remove_from_list a ?s) = Some t'" "links t' (ys @ zs)" "msgs_ok t' (ys @ zs)"
    "\<forall>c\<in>set (ys @ zs). ot_msgs t' c = ot_msgs ?s c \<and> octets t' c = octets ?s c" "same_io ?s t'" "acts a ?s t'"
    using discard_spec [of ?s ys a zs] by (auto simp: q_ok_def)
  have o: "\<forall>c\<in>set (ys @ zs). ot_msgs t' c = ot_msgs t c \<and> octets t' c = octets t c" using t'(4) core_same(2,5) [OF c] by simp
  have "q_ok t' (ys @ zs)" using t'(2,3) o q by (auto simp: q_ok_def)
  moreover have "droppable t a" using m e by (cases m) (auto simp: droppable_def split: if_splits)
  moreover have "a \<notin> set (ys @ zs)" using q by (auto simp: q_ok_def links_def)
  then have "filter (\<lambda>c. c \<noteq> a) ys = ys" "filter (\<lambda>c. c \<noteq> a) zs = zs" by (auto simp: filter_id_conv)
  then have "filter (\<lambda>c. c \<notin> {a}) (ys @ a # zs) = ys @ zs" by simp
  moreover have "sent_off t [] (ys @ zs) [] t'" by (rule sent_off_same [OF o])
  moreover have "ot_wire t' = ot_wire t" "ot_socket t' = ot_socket t" using t'(5) by (simp_all add: same_io_def state_changed_def)
  moreover have "outside t (ys @ a # zs) t' (ys @ zs)"
  proof -
    have "outside ?s (ys @ a # zs) t' (ys @ zs)"
    proof (rule acts_outside [OF t'(6)])
      show "y = []" if "ot_msgs ?s a = Some (Synch x y z, False)" for x y z using that m e core_same(5) [OF c] by simp
    qed (use q' in \<open>auto simp: q_ok_def links_def\<close>)
    then show ?thesis using outside_core [OF c, of t' t'] by blast
  qed
  ultimately have "drained t (ys @ a # zs) {a} t' (ys @ zs)" unfolding drained_def by (intro conjI exI [of _ "[]"]) auto
  moreover have "q_octets t' ys = q_octets t ys" using o by (intro q_octets_cong) auto
  ultimately show ?thesis using t'(1) \<open>ot_socket t' = ot_socket t\<close> by blast
qed

text \<open>The loop over the queue: \<open>ys\<close> are the messages whose octets the vector holds.\<close>

definition loop_result :: "out_transport \<Rightarrow> addr list \<Rightarrow> (drain_result option \<times> u8 list list \<times> out_transport) option \<Rightarrow> bool" where
  "loop_result t xs res \<longleftrightarrow> (\<exists>r iov t' vs D. res = Some (r, iov, t') \<and> drained t xs D t' vs
     \<and> (r = None \<longrightarrow> concat iov = q_octets t' vs \<and> [] \<notin> set iov) \<and> r \<noteq> Some DR_QUEUE_EMPTY \<and> r \<noteq> Some DR_OK
     \<and> (ready (ot_socket t) \<longrightarrow> r = None \<and> ot_socket t' = ot_socket t \<or> length (ot_wire t) < length (ot_wire t'))
     \<and> (sane (ot_socket t) \<longrightarrow> sane (ot_socket t') \<and> r \<noteq> Some DR_ERROR)
     \<and> (\<forall>e. broken e (ot_socket t) \<longrightarrow> r = None \<and> ot_socket t' = ot_socket t \<or> r = Some DR_ERROR \<and> ot_errno t' = e))"

lemma drained_longer: "drained t xs D t' vs \<Longrightarrow> length (ot_wire t) \<le> length (ot_wire t')"
  using drained_wire [of t xs D t' vs] by auto

lemma loop_result_trans:
  assumes d: "distinct xs" "drained t xs D t1 vs" and r: "loop_result t1 vs res"
    and p: "ready (ot_socket t) \<longrightarrow> ot_socket t1 = ot_socket t \<or> length (ot_wire t) < length (ot_wire t1)"
      "sane (ot_socket t) \<longrightarrow> sane (ot_socket t1)" "\<forall>e. broken e (ot_socket t) \<longrightarrow> ot_socket t1 = ot_socket t"
  shows "loop_result t xs res"
proof -
  obtain r iov t' ws E where l: "res = Some (r, iov, t')" "drained t1 vs E t' ws" "r = None \<longrightarrow> concat iov = q_octets t' ws \<and> [] \<notin> set iov"
    "r \<noteq> Some DR_QUEUE_EMPTY" "r \<noteq> Some DR_OK"
    "ready (ot_socket t1) \<longrightarrow> r = None \<and> ot_socket t' = ot_socket t1 \<or> length (ot_wire t1) < length (ot_wire t')"
    "sane (ot_socket t1) \<longrightarrow> sane (ot_socket t') \<and> r \<noteq> Some DR_ERROR"
    "\<forall>e. broken e (ot_socket t1) \<longrightarrow> r = None \<and> ot_socket t' = ot_socket t1 \<or> r = Some DR_ERROR \<and> ot_errno t' = e"
    using r unfolding loop_result_def by blast
  have "ready (ot_socket t) \<longrightarrow> r = None \<and> ot_socket t' = ot_socket t \<or> length (ot_wire t) < length (ot_wire t')"
    using l(6) p(1) drained_longer [OF l(2)] drained_longer [OF d(2)] by (metis le_less_trans less_le_trans)
  moreover have "\<forall>e. broken e (ot_socket t) \<longrightarrow> r = None \<and> ot_socket t' = ot_socket t \<or> r = Some DR_ERROR \<and> ot_errno t' = e"
    using l(8) p(3) by metis
  ultimately show ?thesis using l(1,3-5,7) p(2) drained_trans [OF d l(2)] unfolding loop_result_def by blast
qed

lemma drain_loop_spec:
  assumes "q_ok t (ys @ zs)" and "concat iov = q_octets t ys" and "length iov < m" and "[] \<notin> set iov"
  shows "loop_result t (ys @ zs) (drain_loop m (first_ptr zs None) now iov t)"
  using assms
proof (induction "length (ot_socket t)" arbitrary: t ys zs iov now rule: less_induct)
  case less
  have "q_ok s (ys @ zs) \<Longrightarrow> concat iov = q_octets s ys \<Longrightarrow> length iov < m \<Longrightarrow> [] \<notin> set iov \<Longrightarrow> length (ot_socket s) = length (ot_socket t)
      \<Longrightarrow> loop_result s (ys @ zs) (drain_loop m (first_ptr zs None) now iov s)" for s ys iov
  proof (induction zs arbitrary: s ys iov)
    case Nil
    have "drained s ys {} s ys" by (rule drained_same) (use Nil in simp_all)
    then show ?case using Nil(2,4) by (subst drain_loop.simps) (auto simp: loop_result_def)
  next
    case (Cons a zs)
    have ok: "msgs_ok s (ys @ a # zs)" and ne: "octets s a \<noteq> []" and dist: "distinct (ys @ a # zs)"
      using Cons.prems(1) by (auto simp: q_ok_def links_def)
    have nx: "ot_next s a = first_ptr zs None" using Cons.prems(1) by (auto simp: q_ok_def links_def)
    obtain msg h where msg: "ot_msgs s a = Some (msg, h)" using msgs_okD(1) [OF ok, of a] by auto
    show ?case
    proof (cases "is_expired msg now")
      case True
      obtain t' where t': "destroy a (remove_from_list a (state_changed a LFS_TIMEOUT s)) = Some t'"
        "drained s (ys @ a # zs) {a} t' (ys @ zs)" "q_octets t' ys = q_octets s ys" "ot_socket t' = ot_socket s"
        using expire_spec [OF Cons.prems(1) msg True] by blast
      have "loop_result t' (ys @ zs) (drain_loop m (first_ptr zs None) now iov t')"
        by (rule Cons.IH) (use t' Cons.prems in \<open>simp_all add: drained_def\<close>)
      then have "loop_result s (ys @ a # zs) (drain_loop m (first_ptr zs None) now iov t')"
        by (rule loop_result_trans [OF dist t'(2)]) (simp_all add: t'(4))
      then show ?thesis using msg True t'(1) nx by (subst drain_loop.simps) simp
    next
      case False
      obtain ps rest where f: "fill_iov s m iov msg = Some (iov @ ps)" "length iov + length ps \<le> m" "octets s a = concat ps @ rest"
        "length iov + length ps < m \<longrightarrow> rest = []" "\<forall>p\<in>set ps. p \<noteq> []"
        using fill_spec [OF ok, of a msg h iov m] msg Cons.prems(3) ne by auto
      have all: "q_octets s (ys @ a # zs) = concat (iov @ ps) @ rest @ q_octets s zs" using f(3) Cons.prems(2) by simp
      show ?thesis
      proof (cases "length (iov @ ps) = m")
        case True
        have "iov @ ps \<noteq> []" "[] \<notin> set (iov @ ps)" using True Cons.prems(3,4) f(5) by auto
        then have nz: "concat (iov @ ps) \<noteq> []" by (cases "iov @ ps") auto
        obtain r t' vs where h: "drain_queue_helper (iov @ ps) s = Some (r, t')" "drained s (ys @ a # zs) {} t' vs"
          "r = DR_QUEUE_EMPTY \<longrightarrow> length (ot_socket t') < length (ot_socket s) \<and> length (ot_wire s) < length (ot_wire t')" "r \<noteq> DR_OK"
          "ready (ot_socket s) \<longrightarrow> r = DR_QUEUE_EMPTY" "sane (ot_socket s) \<longrightarrow> sane (ot_socket t') \<and> r \<noteq> DR_ERROR"
          "\<forall>e. broken e (ot_socket s) \<longrightarrow> r = DR_ERROR \<and> ot_errno t' = e"
          using helper_spec [OF Cons.prems(1) all] nz by blast
        show ?thesis
        proof (cases "r = DR_QUEUE_EMPTY")
          case e: True
          have vs: "q_ok t' ([] @ vs)" using h(2) by (simp add: drained_def)
          then have hd: "ot_head t' = first_ptr vs None" by (simp add: q_ok_def links_def)
          have "loop_result t' ([] @ vs) (drain_loop m (first_ptr vs None) (ot_clock t') [] t')"
            by (rule less.hyps) (use h(3) e vs Cons.prems in simp_all)
          then have "loop_result s (ys @ a # zs) (drain_loop m (first_ptr vs None) (ot_clock t') [] t')"
            by (intro loop_result_trans [OF dist h(2)]) (use e h(3,6,7) in auto)
          then show ?thesis using msg False f(1) True h(1) e hd by (subst drain_loop.simps) simp
        next
          case e: False
          then have "drain_loop m (first_ptr (a # zs) None) now iov s = Some (Some r, iov @ ps, t')"
            using msg False f(1) True h(1) by (subst drain_loop.simps) simp
          then show ?thesis using h(2,4-7) e by (auto simp: loop_result_def)
        qed
      next
        case lt: False
        have "loop_result s ((ys @ [a]) @ zs) (drain_loop m (first_ptr zs None) now (iov @ ps) s)"
          by (rule Cons.IH) (use Cons.prems f lt in auto)
        then show ?thesis using msg False f(1) lt nx by (subst drain_loop.simps) simp
      qed
    qed
  qed
  then show ?case using less.prems by simp
qed

text \<open>The end of a call of \<open>drain_queue_i\<close>, and a whole call.\<close>

definition drain_result_ok :: "out_transport \<Rightarrow> addr list \<Rightarrow> (drain_result \<times> out_transport) option \<Rightarrow> bool" where
  "drain_result_ok t xs res \<longleftrightarrow> (\<exists>r t' vs D. res = Some (r, t') \<and> drained t xs D t' vs \<and> (r = DR_QUEUE_EMPTY \<longrightarrow> vs = [])
    \<and> (r = DR_OK \<longrightarrow> vs \<noteq> []) \<and> (ready (ot_socket t) \<longrightarrow> vs = [] \<or> length (ot_wire t) < length (ot_wire t'))
    \<and> (sane (ot_socket t) \<longrightarrow> r \<noteq> DR_ERROR) \<and> (\<forall>e. broken e (ot_socket t) \<longrightarrow> vs = [] \<or> r = DR_ERROR \<and> ot_errno t' = e))"

lemma finish_spec:
  assumes dist: "distinct xs" and res: "loop_result t xs (Some res)"
  shows "drain_result_ok t xs (drain_finish res)"
proof -
  obtain r iov t1 vs D where l: "res = (r, iov, t1)" "drained t xs D t1 vs"
    "r = None \<longrightarrow> concat iov = q_octets t1 vs \<and> [] \<notin> set iov" "r \<noteq> Some DR_QUEUE_EMPTY" "r \<noteq> Some DR_OK"
    "ready (ot_socket t) \<longrightarrow> r = None \<and> ot_socket t1 = ot_socket t \<or> length (ot_wire t) < length (ot_wire t1)"
    "sane (ot_socket t) \<longrightarrow> sane (ot_socket t1) \<and> r \<noteq> Some DR_ERROR"
    "\<forall>e. broken e (ot_socket t) \<longrightarrow> r = None \<and> ot_socket t1 = ot_socket t \<or> r = Some DR_ERROR \<and> ot_errno t1 = e"
    using res unfolding loop_result_def by blast
  show ?thesis
  proof (cases r)
    case (Some r')
    then have "drain_finish res = Some (r', t1)" using l(1) by (simp add: drain_finish_def)
    then show ?thesis unfolding drain_result_ok_def using l Some by (intro exI [of _ r'] exI [of _ t1] exI [of _ vs] exI [of _ D]) auto
  next
    case None
    have q1: "q_ok t1 vs" using l(2) by (simp add: drained_def)
    have conc: "concat iov = q_octets t1 vs" "[] \<notin> set iov" using l(3) None by simp_all
    have e: "vs = [] \<longrightarrow> iov = []" using conc by (cases iov) auto
    obtain r2 t2 ws where h: "(if iov \<noteq> [] then drain_queue_helper iov t1 else Some (DR_QUEUE_EMPTY, t1)) = Some (r2, t2)"
      "drained t1 vs {} t2 ws" "r2 \<noteq> DR_OK" "ready (ot_socket t1) \<longrightarrow> vs = [] \<or> length (ot_wire t1) < length (ot_wire t2)"
      "sane (ot_socket t1) \<longrightarrow> r2 \<noteq> DR_ERROR" "\<forall>e. broken e (ot_socket t1) \<longrightarrow> vs = [] \<or> r2 = DR_ERROR \<and> ot_errno t2 = e"
    proof (cases "iov = []")
      case True
      have "vs = []"
      proof (rule ccontr)
        assume "vs \<noteq> []"
        then obtain v vs' where "vs = v # vs'" by (cases vs) auto
        then show False using q1 conc(1) True by (simp add: q_ok_def)
      qed
      then show ?thesis using that [of DR_QUEUE_EMPTY t1 vs] drained_same [OF q1, of t1] True by simp
    next
      case False
      have "q_octets t1 vs = concat iov @ []" using conc(1) by simp
      from helper_spec [OF q1 this] obtain r2 t2 ws where g: "drain_queue_helper iov t1 = Some (r2, t2)" "drained t1 vs {} t2 ws" "r2 \<noteq> DR_OK"
        "r2 = DR_QUEUE_EMPTY \<longrightarrow> length (ot_wire t1) < length (ot_wire t2)" "ready (ot_socket t1) \<and> concat iov \<noteq> [] \<longrightarrow> r2 = DR_QUEUE_EMPTY"
        "sane (ot_socket t1) \<longrightarrow> (concat iov \<noteq> [] \<longrightarrow> r2 \<noteq> DR_ERROR)" "\<forall>e. broken e (ot_socket t1) \<longrightarrow> r2 = DR_ERROR \<and> ot_errno t2 = e"
        by blast
      have "concat iov \<noteq> []" using conc(2) False by (cases iov) auto
      then show ?thesis using that [of r2 t2 ws] g False by auto
    qed
    have d: "drained t xs (D \<union> {}) t2 ws" by (rule drained_trans [OF dist l(2) h(2)])
    have hd2: "(ot_head t2 = None) = (ws = [])" using h(2) by (simp add: drained_def q_ok_def links_def)
    let ?r = "if r2 \<noteq> DR_QUEUE_EMPTY then r2 else if ws = [] then DR_QUEUE_EMPTY else DR_OK"
    have run: "drain_finish res = Some (?r, t2)"
      using l(1) None h(1) hd2 by (simp add: drain_finish_def)
    have ws: "vs = [] \<longrightarrow> ws = []" using h(2) by (auto simp: drained_def)
    then have "ready (ot_socket t) \<longrightarrow> ws = [] \<or> length (ot_wire t) < length (ot_wire t2)"
      using l(6) h(4) drained_longer [OF h(2)] drained_longer [OF l(2)] by (metis le_less_trans less_le_trans)
    moreover have "sane (ot_socket t) \<longrightarrow> ?r \<noteq> DR_ERROR"
      using l(7) h(5) by auto
    moreover have "\<forall>e. broken e (ot_socket t) \<longrightarrow> ws = [] \<or> ?r = DR_ERROR \<and> ot_errno t2 = e"
      using l(8) None h(6) ws by auto
    ultimately show ?thesis unfolding drain_result_ok_def
      by - (rule exI [of _ ?r], rule exI [of _ t2], rule exI [of _ ws], rule exI [of _ D], use run d h(3) in \<open>auto split: if_splits\<close>)
  qed
qed

lemma drain_spec:
  assumes q: "q_ok t xs" and m: "0 < m"
  shows "drain_result_ok t xs (drain_queue_i m t)"
proof -
  let ?t = "t\<lparr>ot_sent := 0\<rparr>"
  have dist: "distinct xs" and hd: "ot_head t = first_ptr xs None" using q by (simp_all add: q_ok_def links_def)
  have c: "core ?t = core t" by simp
  have d0: "drained t xs {} ?t xs" by (rule drained_same [OF q c]) simp
  have "loop_result ?t ([] @ xs) (drain_loop m (first_ptr xs None) (ot_clock t) [] ?t)"
    by (rule drain_loop_spec) (use q core_same(1) [OF c] m in simp_all)
  then have l: "loop_result t xs (drain_loop m (ot_head t) (ot_clock t) [] ?t)"
    unfolding hd by (intro loop_result_trans [OF dist d0]) simp_all
  then obtain res where res: "drain_loop m (ot_head t) (ot_clock t) [] ?t = Some res" by (auto simp: loop_result_def)
  then show ?thesis using finish_spec [OF dist, of t res] l by (simp add: drain_queue_i_def)
qed

section \<open>Runs\<close>

text \<open>
  The reactor calls for output again and again, with what the socket does each time; after an error
  the connection is closed.
\<close>

fun output_run :: "nat \<Rightarrow> outcome list list \<Rightarrow> out_transport \<Rightarrow> out_transport option" where
  "output_run m [] t = Some t"
| "output_run m (os # oss) t = do {
     (r, t) \<leftarrow> drain_queue_i m (t\<lparr>ot_socket := os\<rparr>);
     if r = DR_ERROR then Some t else output_run m oss t }"

lemma run_drained:
  assumes "q_ok t xs" and "0 < m"
  shows "\<exists>t' vs D. output_run m oss t = Some t' \<and> drained t xs D t' vs"
  using assms(1)
proof (induction oss arbitrary: t xs)
  case Nil
  then show ?case using drained_same [of t xs t] by auto
next
  case (Cons os oss)
  let ?t = "t\<lparr>ot_socket := os\<rparr>"
  have c: "core ?t = core t" by simp
  have dist: "distinct xs" using Cons.prems by (simp add: q_ok_def links_def)
  have d0: "drained t xs {} ?t xs" by (rule drained_same [OF Cons.prems c]) simp
  have "q_ok ?t xs" using Cons.prems core_same(1) [OF c] by simp
  then obtain r t1 vs D where d: "drain_queue_i m ?t = Some (r, t1)" "drained ?t xs D t1 vs"
    using drain_spec [OF _ assms(2)] unfolding drain_result_ok_def by blast
  have d1: "drained t xs ({} \<union> D) t1 vs" by (rule drained_trans [OF dist d0 d(2)])
  show ?case
  proof (cases "r = DR_ERROR")
    case True
    then show ?thesis using d(1) d1 by auto
  next
    case False
    have "q_ok t1 vs" using d1 by (simp add: drained_def)
    then obtain t' ws E where e: "output_run m oss t1 = Some t'" "drained t1 vs E t' ws" using Cons.IH by blast
    show ?thesis using False d(1) e(1) drained_trans [OF dist d1 e(2)] by auto
  qed
qed

lemma run_empties:
  assumes "q_ok t xs" and m: "0 < m" and "\<forall>a\<in>set xs. \<not> droppable t a" and "\<forall>os\<in>set oss. ready os \<and> sane os"
    and "length (q_octets t xs) \<le> length oss"
  shows "\<exists>t'. output_run m oss t = Some t' \<and> drained t xs {} t' []"
  using assms(1,3-5)
proof (induction oss arbitrary: t xs)
  case Nil
  then have "xs = []" by (cases xs) (auto simp: q_ok_def)
  then show ?case using Nil drained_same [of t xs t] by auto
next
  case (Cons os oss)
  let ?t = "t\<lparr>ot_socket := os\<rparr>"
  have c: "core ?t = core t" by simp
  have dist: "distinct xs" using Cons.prems(1) by (simp add: q_ok_def links_def)
  have d0: "drained t xs {} ?t xs" by (rule drained_same [OF Cons.prems(1) c]) simp
  have q: "q_ok ?t xs" using Cons.prems(1) core_same(1) [OF c] by simp
  have rs: "ready (ot_socket ?t)" "sane (ot_socket ?t)" using Cons.prems(3) by simp_all
  obtain r t1 vs D where d: "drain_queue_i m ?t = Some (r, t1)" "drained ?t xs D t1 vs" "r \<noteq> DR_ERROR"
    "vs = [] \<or> length (ot_wire ?t) < length (ot_wire t1)"
    using drain_spec [OF q m] rs unfolding drain_result_ok_def by blast
  have d1: "drained t xs D t1 vs" using drained_trans [OF dist d0 d(2)] by simp
  have "D = {}" using d1 Cons.prems(2) unfolding drained_def by blast
  then have d2: "drained t xs {} t1 vs" using d1 by simp
  obtain bs where bs: "ot_wire t1 = ot_wire t @ bs" "bs @ q_octets t1 vs = q_octets t xs" using drained_wire [OF d2] by auto
  have drop: "\<forall>a\<in>set vs. \<not> droppable t1 a"
  proof
    fix a assume a: "a \<in> set vs"
    obtain us dn where f: "xs = us @ vs" "sent_off t us vs dn t1" using d2 by (auto simp: drained_def)
    show "\<not> droppable t1 a"
    proof
      assume dr: "droppable t1 a"
      then have "unsent t1 a" by (auto simp: droppable_def unsent_def)
      then have "ot_msgs t1 a = ot_msgs t a" using f(2) a by (simp add: sent_off_def)
      then have "droppable t a" using dr by (simp only: droppable_def)
      then show False using f(1) a Cons.prems(2) by simp
    qed
  qed
  have "q_ok t1 vs" using d2 by (simp add: drained_def)
  moreover have "length (q_octets t1 vs) \<le> length oss"
  proof (cases "vs = []")
    case False
    then have "bs \<noteq> []" using d(4) bs(1) by auto
    moreover have "length bs + length (q_octets t1 vs) = length (q_octets t xs)" using bs(2) by (metis length_append)
    ultimately show ?thesis using Cons.prems(4) by (cases bs) auto
  qed simp
  ultimately obtain t' where e: "output_run m oss t1 = Some t'" "drained t1 vs {} t' []"
    using Cons.IH [OF _ drop] Cons.prems(3) by auto
  show ?case using d(1,3) e(1) drained_trans [OF dist d2 e(2)] by simp
qed

section \<open>Properties\<close>


text \<open>
  (C9) From one process to the other: the octets that the drain puts on the wire for a queue of messages
  are cut by the input handler of the peer into exactly these messages, in their order, when
  the peer accepts them, the queue has no timeouts, the socket takes an octet in each call and the
  peer reads one in each call.
\<close>
theorem messages_reach_peer:
  assumes "q_ok t xs" and "0 < m" and "\<forall>a\<in>set xs. \<not> droppable t a" and "ot_wire t = []"
    and "map (octets t) xs = map snd ms" and "list_all whole ms" and "env_ok env" and "list_all (accepts env) ms"
    and "\<forall>os\<in>set oss. ready os \<and> sane os" and "length (q_octets t xs) \<le> length oss"
    and "list_all (\<lambda>k. \<exists>n. k = Some (Suc n)) ks" and "length (q_octets t xs) + length ms \<le> length ks"
  shows "\<exists>t' t''. output_run m oss t = Some t' \<and> ot_head t' = None \<and>
    input_run env ks (transport_new (ot_wire t')) = Some (0, t'') \<and> tr_log t'' = ms \<and> tr_queue t'' = [] \<and> tr_socket t'' = []"
proof -
  have o: "q_octets t xs = concat (map snd ms)" using assms(5) by (simp add: q_octets_def)
  obtain t' where t': "output_run m oss t = Some t'" "drained t xs {} t' []"
    using run_empties [OF assms(1-3,9,10)] by blast
  have "ot_wire t' = concat (map snd ms)" using drained_wire [OF t'(2)] assms(4) o by auto
  moreover have "ot_head t' = None" using t'(2) by (simp add: drained_def q_ok_def links_def)
  moreover obtain t'' where "input_run env ks (transport_new (concat (map snd ms))) = Some (0, t'')" "tr_log t'' = ms"
    "tr_queue t'' = []" "tr_socket t'' = []"
    using run_delivers [OF assms(7) on_track_new [OF assms(6) refl] assms(8,11)] assms(12) o by (auto simp: transport_new_def)
  ultimately show ?thesis using t'(1) by auto
qed

definition idle_transport :: "outcome list \<Rightarrow> out_transport" where
  "idle_transport os = \<lparr>ot_blocks = \<lambda>_. None, ot_msgs = \<lambda>_. None, ot_next = \<lambda>_. None, ot_prev = \<lambda>_. None, ot_head = None,
     ot_tail = None, ot_chain = [], ot_fresh = 0, ot_clock = Time_Value 0 0, ot_socket = os, ot_errno = E_OTHER, ot_wire = [],
     ot_sent = 0, ot_state = \<lambda>_. LFS_IDLE\<rparr>"

definition two_queued :: out_transport where
  "two_queued = push_back 1 (push_back 0 ((idle_transport [])\<lparr>ot_msgs := (\<lambda>_. None)
     (0 \<mapsto> (Asynch (snd short_request) 0 (Time_Value 0 0), True), 1 \<mapsto> (Asynch (snd short_request) 0 (Time_Value 0 0), True))\<rparr>))"

lemma two_queued_ok: "q_ok two_queued [0, 1]" "\<forall>a\<in>set [0, 1]. \<not> droppable two_queued a"
  "ot_wire two_queued = []" "map (octets two_queued) [0, 1] = map snd [short_request, short_request]"
  by (auto simp: two_queued_def idle_transport_def push_back_def om_set_next_def om_set_prev_def q_ok_def links_def msgs_ok_def
      octets_def foot_def droppable_def tv_gt_def short_request_def)


theorem messages_reach_peer_witness:
  "\<exists>t' t''. output_run 2 (replicate 40 [Sent 7 (Time_Value 0 0)]) two_queued = Some t' \<and> ot_head t' = None \<and>
     input_run (plain_env 20 False) (replicate 40 (Some 3)) (transport_new (ot_wire t')) = Some (0, t'') \<and>
     tr_log t'' = [short_request, short_request] \<and> tr_queue t'' = [] \<and> tr_socket t'' = []"
proof (rule messages_reach_peer [OF two_queued_ok(1) _ two_queued_ok(2-4)])
  have len: "length (q_octets two_queued [0, 1]) \<le> 34"
    unfolding q_octets_def two_queued_ok(4) by (simp add: short_request_def)
  show "list_all (\<lambda>k. \<exists>n. k = Some (Suc n)) (replicate 40 (Some 3))"
    by (simp add: list_all_length)
  show "\<forall>os\<in>set (replicate 40 [Sent 7 (Time_Value 0 0)]). ready os \<and> sane os"
    by (simp add: ready_def sane_def)
  show "length (q_octets two_queued [0, 1]) \<le> length (replicate 40 [Sent 7 (Time_Value 0 0)])"
    "length (q_octets two_queued [0, 1]) + length [short_request, short_request] \<le> length (replicate 40 (Some 3))"
    using len by simp_all
qed (simp_all add: plain_env_ok short_request_whole short_request_accepts)

end
