(* ===== verification/Leader_Follower.thy ===== *)
theory Leader_Follower
  imports LF_Event
begin

text \<open>
  The Leader/Followers loop of the ORB (TAO/tao/Leader_Follower.cpp, Leader_Follower.inl,
  LF_Event_Loop_Thread_Helper.inl, LF_Strategy_Complete.cpp, LF_Follower.cpp): threads that wait for an
  event either run the reactor as the leader or sleep as followers until a leader
  elects them. A function is what a thread does while it holds the lock; the threads are interleaved
  where the lock is free.
\<close>

section \<open>State\<close>

type_synonym thread = nat
type_synonym event = nat

text \<open>
  Where a thread is; a handler that the reactor calls may wait or run the event loop again, so a
  thread has a stack of these. \<open>Event_loop\<close>: in the reactor, called by \<open>run\<close>. \<open>Loop_waiting\<close>:
  waits for a client leader to complete; \<open>Loop_failed\<close>: it gave up, the helper is not destroyed yet.
  \<open>Following\<close>, \<open>Leading\<close>, \<open>Leaving\<close>, \<open>Yielding\<close>: in \<open>wait_for_event\<close>, as a follower
  that sleeps, as the leader in the reactor, behind its loop, and where a thread yields. The
  arguments are the event, the time left (\<open>None\<close> for a null pointer) and \<open>result\<close>.
\<close>

datatype frame =
    Event_loop
  | Loop_waiting
  | Loop_failed
  | Following event "nat option" int
  | Leading event "nat option" int
  | Leaving event "nat option" int
  | Yielding event "nat option" int

text \<open>
  \<open>lf_el\<close> and \<open>lf_cl\<close> are the thread specific \<open>event_loop_thread_\<close> and \<open>client_leader_thread_\<close>. A
  follower is the thread it belongs to. \<open>lf_signalled\<close> are the threads whose condition was
  signalled and that have not returned from the wait yet. \<open>lf_log\<close> are the calls of
  \<open>wait_for_event\<close> that have returned, with their results.
\<close>

record lf_state =
  lf_leaders :: int
  lf_clients :: int
  lf_client_leaders :: int
  lf_loop_waiting :: int
  lf_followers :: "thread list"
  lf_el :: "thread \<Rightarrow> int"
  lf_cl :: "thread \<Rightarrow> int"
  lf_avoid_client_leader :: bool
  lf_deferred :: "nat list"
  lf_notified :: "nat list"
  lf_shutdown :: bool
  lf_drop_replies :: bool
  lf_reactor_done :: bool
  lf_ev_state :: "event \<Rightarrow> lfs_state"
  lf_ev_follower :: "event \<Rightarrow> thread option"
  lf_signalled :: "thread \<Rightarrow> bool"
  lf_stack :: "thread \<Rightarrow> frame list"
  lf_log :: "(thread \<times> event \<times> int) list"

definition lf_new :: lf_state where
  "lf_new = \<lparr>lf_leaders = 0, lf_clients = 0, lf_client_leaders = 0, lf_loop_waiting = 0, lf_followers = [],
     lf_el = \<lambda>_. 0, lf_cl = \<lambda>_. 0, lf_avoid_client_leader = False, lf_deferred = [], lf_notified = [],
     lf_shutdown = False, lf_drop_replies = True, lf_reactor_done = False, lf_ev_state = \<lambda>_. LFS_ACTIVE,
     lf_ev_follower = \<lambda>_. None, lf_signalled = \<lambda>_. False, lf_stack = \<lambda>_. [], lf_log = []\<rparr>"

definition push_frame :: "thread \<Rightarrow> frame \<Rightarrow> lf_state \<Rightarrow> lf_state" where
  "push_frame t f s = s\<lparr>lf_stack := (lf_stack s)(t := f # lf_stack s t)\<rparr>"

definition pop_frame :: "thread \<Rightarrow> lf_state \<Rightarrow> lf_state" where
  "pop_frame t s = s\<lparr>lf_stack := (lf_stack s)(t := tl (lf_stack s t))\<rparr>"

section \<open>Followers and elections\<close>

definition leader_available :: "lf_state \<Rightarrow> bool" where
  "leader_available s \<longleftrightarrow> lf_leaders s \<noteq> 0"

definition follower_available :: "lf_state \<Rightarrow> bool" where
  "follower_available s \<longleftrightarrow> lf_followers s \<noteq> []"

definition add_follower :: "thread \<Rightarrow> lf_state \<Rightarrow> lf_state" where
  "add_follower t s = s\<lparr>lf_followers := lf_followers s @ [t]\<rparr>"

definition remove_follower :: "thread \<Rightarrow> lf_state \<Rightarrow> lf_state" where
  "remove_follower t s = s\<lparr>lf_followers := remove1 t (lf_followers s)\<rparr>"

text \<open>A signal to a condition that nobody waits for is lost.\<close>

fun sleeps :: "frame list \<Rightarrow> bool" where
  "sleeps (Following ev left result # fs) = True"
| "sleeps (Loop_waiting # fs) = True"
| "sleeps _ = False"

definition follower_signal :: "thread \<Rightarrow> lf_state \<Rightarrow> lf_state" where
  "follower_signal t s =
     (let s = remove_follower t s in if sleeps (lf_stack s t) then s\<lparr>lf_signalled := (lf_signalled s)(t := True)\<rparr> else s)"

definition elect_new_leader_i :: "lf_state \<Rightarrow> lf_state" where
  "elect_new_leader_i s = follower_signal (hd (lf_followers s)) s"

fun loop_waits :: "frame list \<Rightarrow> bool" where
  "loop_waits (Loop_waiting # fs) = True"
| "loop_waits _ = False"

definition broadcast_loop_threads :: "lf_state \<Rightarrow> lf_state" where
  "broadcast_loop_threads s = s\<lparr>lf_signalled := \<lambda>t. lf_signalled s t \<or> loop_waits (lf_stack s t)\<rparr>"

text \<open>With no follower, a generator of new leaders is called, which may start a thread.\<close>

definition elect_new_leader :: "lf_state \<Rightarrow> lf_state" where
  "elect_new_leader s =
     (if lf_leaders s = 0
      then if lf_loop_waiting s \<noteq> 0 then broadcast_loop_threads s else if follower_available s then elect_new_leader_i s else s
      else s)"

section \<open>The roles of a thread\<close>

definition set_client_thread :: "thread \<Rightarrow> lf_state \<Rightarrow> lf_state" where
  "set_client_thread t s =
     (let s = (if lf_el s t \<noteq> 0 \<or> lf_cl s t \<noteq> 0 then s\<lparr>lf_leaders := lf_leaders s - 1\<rparr> else s);
          s = (if lf_clients s = 0 \<and> lf_shutdown s \<and> \<not> lf_drop_replies s then s\<lparr>lf_reactor_done := False\<rparr> else s)
      in s\<lparr>lf_clients := lf_clients s + 1\<rparr>)"

definition reset_client_thread :: "thread \<Rightarrow> lf_state \<Rightarrow> lf_state" where
  "reset_client_thread t s =
     (let s = (if lf_el s t \<noteq> 0 \<or> lf_cl s t \<noteq> 0 then s\<lparr>lf_leaders := lf_leaders s + 1\<rparr> else s);
          s = s\<lparr>lf_clients := lf_clients s - 1\<rparr>
      in if lf_clients s = 0 \<and> lf_shutdown s then s\<lparr>lf_reactor_done := True\<rparr> else s)"

definition set_client_leader_thread :: "thread \<Rightarrow> lf_state \<Rightarrow> lf_state" where
  "set_client_leader_thread t s = s\<lparr>lf_leaders := lf_leaders s + 1, lf_client_leaders := lf_client_leaders s + 1,
     lf_cl := (lf_cl s)(t := lf_cl s t + 1)\<rparr>"

definition reset_client_leader_thread :: "thread \<Rightarrow> lf_state \<Rightarrow> lf_state" where
  "reset_client_leader_thread t s =
     (if lf_cl s t > 0
      then s\<lparr>lf_cl := (lf_cl s)(t := lf_cl s t - 1), lf_leaders := lf_leaders s - 1, lf_client_leaders := lf_client_leaders s - 1\<rparr>
      else s)"

definition is_client_leader_thread :: "thread \<Rightarrow> lf_state \<Rightarrow> bool" where
  "is_client_leader_thread t s \<longleftrightarrow> lf_cl s t \<noteq> 0"

definition reset_event_loop_thread_i :: "thread \<Rightarrow> lf_state \<Rightarrow> lf_state" where
  "reset_event_loop_thread_i t s =
     (let s = s\<lparr>lf_el := (lf_el s)(t := lf_el s t - 1)\<rparr>
      in if lf_el s t = 0 \<and> lf_cl s t = 0 then s\<lparr>lf_leaders := lf_leaders s - 1\<rparr> else s)"

definition reset_event_loop_thread :: "thread \<Rightarrow> lf_state \<Rightarrow> lf_state" where
  "reset_event_loop_thread t s = (if lf_el s t > 0 then reset_event_loop_thread_i t s else s)"

definition set_upcall_thread :: "thread \<Rightarrow> lf_state \<Rightarrow> lf_state" where
  "set_upcall_thread t s =
     (if lf_el s t > 0 then elect_new_leader (reset_event_loop_thread_i t s)
      else if lf_cl s t = 1 then elect_new_leader (reset_client_leader_thread t s)
      else s)"

section \<open>Event loop threads\<close>

text \<open>The end of \<open>set_event_loop_thread\<close>, when no client thread leads or the thread is a client leader.\<close>

definition join_leaders :: "thread \<Rightarrow> lf_state \<Rightarrow> lf_state" where
  "join_leaders t s =
     (let s = (if lf_el s t = 0 \<and> lf_cl s t = 0 then s\<lparr>lf_leaders := lf_leaders s + 1\<rparr> else s)
      in push_frame t Event_loop (s\<lparr>lf_el := (lf_el s)(t := lf_el s t + 1)\<rparr>))"

definition set_event_loop_thread :: "thread \<Rightarrow> lf_state \<Rightarrow> lf_state" where
  "set_event_loop_thread t s =
     (if lf_client_leaders s \<noteq> 0 \<and> lf_cl s t = 0
      then push_frame t Loop_waiting (s\<lparr>lf_loop_waiting := lf_loop_waiting s + 1\<rparr>)
      else join_leaders t s)"

text \<open>\<open>wait_for_client_leader_to_complete\<close> after its wait has returned, and after it has failed.\<close>

definition loop_wake :: "thread \<Rightarrow> lf_state \<Rightarrow> lf_state" where
  "loop_wake t s =
     (let s = s\<lparr>lf_signalled := (lf_signalled s)(t := False)\<rparr>
      in if lf_client_leaders s \<noteq> 0 then s
         else join_leaders t (pop_frame t (s\<lparr>lf_loop_waiting := lf_loop_waiting s - 1\<rparr>)))"

definition loop_timeout :: "thread \<Rightarrow> lf_state \<Rightarrow> lf_state" where
  "loop_timeout t s =
     push_frame t Loop_failed (pop_frame t (s\<lparr>lf_signalled := (lf_signalled s)(t := False), lf_loop_waiting := lf_loop_waiting s - 1\<rparr>))"

text \<open>The destructor of the helper, \<open>LF_Strategy_Complete::reset_event_loop_thread\<close>.\<close>

definition loop_helper_done :: "bool \<Rightarrow> thread \<Rightarrow> lf_state \<Rightarrow> lf_state" where
  "loop_helper_done call_reset t s = elect_new_leader (pop_frame t (if call_reset then reset_event_loop_thread t s else s))"

section \<open>Waiting for an event\<close>

definition bind_event :: "event \<Rightarrow> thread \<Rightarrow> lf_state \<Rightarrow> lf_state" where
  "bind_event ev t s = (if lf_ev_follower s ev \<noteq> None then s else s\<lparr>lf_ev_follower := (lf_ev_follower s)(ev := Some t)\<rparr>)"

definition unbind_event :: "event \<Rightarrow> lf_state \<Rightarrow> lf_state" where
  "unbind_event ev s = s\<lparr>lf_ev_follower := (lf_ev_follower s)(ev := None)\<rparr>"

definition event_changed :: "event \<Rightarrow> lfs_state \<Rightarrow> lf_state \<Rightarrow> lf_state" where
  "event_changed ev new s =
     (if \<not> invocation_is_state_final (lf_ev_state s ev)
      then let s = s\<lparr>lf_ev_state := (lf_ev_state s)(ev := invocation_state_changed_i (lf_ev_state s ev) new)\<rparr>
           in case lf_ev_follower s ev of Some f \<Rightarrow> follower_signal f s | None \<Rightarrow> s
      else s)"

definition lf_waits :: "event \<Rightarrow> lf_state \<Rightarrow> bool" where
  "lf_waits ev s \<longleftrightarrow> keep_waiting_i (lf_ev_state s ev)"

definition lf_return :: "thread \<Rightarrow> event \<Rightarrow> int \<Rightarrow> lf_state \<Rightarrow> lf_state" where
  "lf_return t ev r s = s\<lparr>lf_log := lf_log s @ [(t, ev, r)]\<rparr>"

text \<open>What is returned behind the outer loop.\<close>

definition event_result :: "event \<Rightarrow> nat option \<Rightarrow> int \<Rightarrow> lf_state \<Rightarrow> int" where
  "event_result ev left result s =
     (if result = -1 \<and> \<not> lf_reactor_done s then -1
      else if left \<noteq> None
      then if \<not> invocation_successful_i (lf_ev_state s ev) \<and> left = Some 0 then -1
           else if invocation_error_detected_i (lf_ev_state s ev) then -1 else result
      else if invocation_error_detected_i (lf_ev_state s ev) then -1 else result)"

definition wait_exit :: "thread \<Rightarrow> event \<Rightarrow> nat option \<Rightarrow> int \<Rightarrow> lf_state \<Rightarrow> lf_state" where
  "wait_exit t ev left result s =
     (let s = elect_new_leader (reset_client_thread t s) in lf_return t ev (event_result ev left result s) s)"

text \<open>\<open>generated\<close>: the generator of new leaders has started a thread.\<close>

definition become_leader :: "thread \<Rightarrow> event \<Rightarrow> nat option \<Rightarrow> int \<Rightarrow> bool \<Rightarrow> lf_state \<Rightarrow> lf_state" where
  "become_leader t ev left result generated s =
     (if lf_avoid_client_leader s \<and> generated then push_frame t (Yielding ev left result) s
      else push_frame t (Leading ev left result) (set_client_leader_thread t s))"

definition wait_loop :: "thread \<Rightarrow> event \<Rightarrow> nat option \<Rightarrow> int \<Rightarrow> bool \<Rightarrow> lf_state \<Rightarrow> lf_state" where
  "wait_loop t ev left result generated s =
     (if lf_waits ev s \<and> \<not> (result = 0 \<and> left = Some 0) \<and> result \<noteq> -1
      then if leader_available s then push_frame t (Following ev left result) (add_follower t (bind_event ev t s))
           else become_leader t ev left result generated s
      else wait_exit t ev left result s)"

definition wait_enter :: "thread \<Rightarrow> event \<Rightarrow> nat option \<Rightarrow> bool \<Rightarrow> lf_state \<Rightarrow> lf_state" where
  "wait_enter t ev left generated s = wait_loop t ev left 1 generated (set_client_thread t s)"

text \<open>A follower whose wait has returned, with a signal or without one.\<close>

definition follower_wake :: "thread \<Rightarrow> event \<Rightarrow> nat option \<Rightarrow> int \<Rightarrow> bool \<Rightarrow> lf_state \<Rightarrow> lf_state" where
  "follower_wake t ev left result generated s =
     (let s = remove_follower t (pop_frame t (s\<lparr>lf_signalled := (lf_signalled s)(t := False)\<rparr>))
      in if lf_waits ev s \<and> leader_available s then push_frame t (Following ev left result) (add_follower t s)
         else if invocation_successful_i (lf_ev_state s ev) then lf_return t ev 0 (reset_client_thread t (unbind_event ev s))
         else if invocation_error_detected_i (lf_ev_state s ev) then lf_return t ev (-1) (reset_client_thread t (unbind_event ev s))
         else become_leader t ev left result generated (unbind_event ev s))"

text \<open>Its wait has timed out; the follower leaves the set when the election is over.\<close>

definition follower_timeout :: "thread \<Rightarrow> event \<Rightarrow> lf_state \<Rightarrow> lf_state" where
  "follower_timeout t ev s =
     (let s = pop_frame t (s\<lparr>lf_signalled := (lf_signalled s)(t := False)\<rparr>);
          s = s\<lparr>lf_ev_state := (lf_ev_state s)(ev := LFS_TIMEOUT)\<rparr>;
          s = (if \<not> invocation_successful_i (lf_ev_state s ev) then elect_new_leader s else s)
      in lf_return t ev (-1) (reset_client_thread t (unbind_event ev (remove_follower t s))))"

text \<open>One round of the leader in the reactor, which returns \<open>r\<close> and leaves the time \<open>left'\<close>.\<close>

definition lead :: "thread \<Rightarrow> event \<Rightarrow> nat option \<Rightarrow> int \<Rightarrow> int \<Rightarrow> nat option \<Rightarrow> lf_state \<Rightarrow> lf_state" where
  "lead t ev left result r left' s =
     (let s' = pop_frame t s
      in if \<not> lf_waits ev s then push_frame t (Leaving ev left result) s'
         else if r = 0 \<and> left' = Some 0 \<or> r = -1 \<or> lf_loop_waiting s \<noteq> 0 \<or> \<not> is_client_leader_thread t s
         then push_frame t (Leaving ev left' r) s'
         else push_frame t (Leading ev left' r) s')"

definition resume_events :: "lf_state \<Rightarrow> lf_state" where
  "resume_events s = s\<lparr>lf_notified := lf_notified s @ lf_deferred s, lf_deferred := []\<rparr>"

definition defer_event :: "nat \<Rightarrow> lf_state \<Rightarrow> lf_state" where
  "defer_event h s = s\<lparr>lf_deferred := lf_deferred s @ [h]\<rparr>"

definition leave :: "thread \<Rightarrow> event \<Rightarrow> nat option \<Rightarrow> int \<Rightarrow> bool \<Rightarrow> lf_state \<Rightarrow> lf_state" where
  "leave t ev left result generated s =
     (let s = resume_events (reset_client_leader_thread t (pop_frame t s))
      in if lf_loop_waiting s \<noteq> 0 \<and> \<not> leader_available s
         then push_frame t (Yielding ev left result) (elect_new_leader s)
         else wait_loop t ev left result generated s)"

section \<open>Steps\<close>

datatype lf_label =
    Enter_wait thread event "nat option" bool
  | Follower_wake thread "nat option" bool
  | Follower_timeout thread
  | Lead thread int "nat option"
  | Leave thread bool
  | Resume thread bool
  | Enter_loop thread
  | Loop_wake thread
  | Loop_timeout thread
  | Loop_done thread
  | Set_upcall thread
  | Event_changed event lfs_state
  | Defer nat

text \<open>A thread runs the application, or a handler that the reactor has called.\<close>

fun runs :: "frame list \<Rightarrow> bool" where
  "runs [] = True"
| "runs (Event_loop # fs) = True"
| "runs (Leading ev left result # fs) = True"
| "runs _ = False"

text \<open>\<open>None\<close>: the step is not possible. The reactor takes time away and does not add any.\<close>

definition time_goes :: "nat option \<Rightarrow> nat option \<Rightarrow> bool" where
  "time_goes left left' \<longleftrightarrow> (case (left, left') of (None, None) \<Rightarrow> True | (Some a, Some b) \<Rightarrow> b \<le> a | _ \<Rightarrow> False)"

fun lf_step :: "lf_label \<Rightarrow> lf_state \<Rightarrow> lf_state option" where
  "lf_step (Enter_wait t ev left gen) s = (if runs (lf_stack s t) then Some (wait_enter t ev left gen s) else None)"
| "lf_step (Follower_wake t left' gen) s = (case lf_stack s t of
       Following ev left result # fs \<Rightarrow> if time_goes left left' then Some (follower_wake t ev left' result gen s) else None
     | _ \<Rightarrow> None)"
| "lf_step (Follower_timeout t) s = (case lf_stack s t of Following ev (Some n) result # fs \<Rightarrow> Some (follower_timeout t ev s) | _ \<Rightarrow> None)"
| "lf_step (Lead t r left') s = (case lf_stack s t of
       Leading ev left result # fs \<Rightarrow> if time_goes left left' then Some (lead t ev left result r left' s) else None
     | _ \<Rightarrow> None)"
| "lf_step (Leave t gen) s = (case lf_stack s t of Leaving ev left result # fs \<Rightarrow> Some (leave t ev left result gen s) | _ \<Rightarrow> None)"
| "lf_step (Resume t gen) s = (case lf_stack s t of
       Yielding ev left result # fs \<Rightarrow> Some (wait_loop t ev left result gen (pop_frame t s)) | _ \<Rightarrow> None)"
| "lf_step (Enter_loop t) s = (if runs (lf_stack s t) then Some (set_event_loop_thread t s) else None)"
| "lf_step (Loop_wake t) s = (case lf_stack s t of Loop_waiting # fs \<Rightarrow> Some (loop_wake t s) | _ \<Rightarrow> None)"
| "lf_step (Loop_timeout t) s = (case lf_stack s t of Loop_waiting # fs \<Rightarrow> Some (loop_timeout t s) | _ \<Rightarrow> None)"
| "lf_step (Loop_done t) s = (case lf_stack s t of
       Event_loop # fs \<Rightarrow> Some (loop_helper_done True t s)
     | Loop_failed # fs \<Rightarrow> Some (loop_helper_done False t s)
     | _ \<Rightarrow> None)"
| "lf_step (Set_upcall t) s = (if lf_stack s t \<noteq> [] \<and> runs (lf_stack s t) then Some (set_upcall_thread t s) else None)"
| "lf_step (Event_changed ev new) s = Some (event_changed ev new s)"
| "lf_step (Defer h) s = Some (defer_event h s)"

fun lf_run :: "lf_label list \<Rightarrow> lf_state \<Rightarrow> lf_state option" where
  "lf_run [] s = Some s"
| "lf_run (l # ls) s = (case lf_step l s of Some s' \<Rightarrow> lf_run ls s' | None \<Rightarrow> None)"

end
