(* ===== verification/Leader_Follower_Inv.thy ===== *)
theory Leader_Follower_Inv
  imports Leader_Follower
begin

text \<open>
  The counters of the Leader/Followers loop: what the numbers of leaders, clients and waiting
  threads mean, for every interleaving of threads that may wait and run the event loop
  from within handlers.
\<close>

section \<open>Roles\<close>

fun is_lead :: "frame \<Rightarrow> bool" where
  "is_lead (Leading ev left result) = True"
| "is_lead (Leaving ev left result) = True"
| "is_lead _ = False"

fun is_loop :: "frame \<Rightarrow> bool" where
  "is_loop Event_loop = True"
| "is_loop _ = False"

fun is_client :: "frame \<Rightarrow> bool" where
  "is_client (Following ev left result) = True"
| "is_client (Leading ev left result) = True"
| "is_client (Leaving ev left result) = True"
| "is_client (Yielding ev left result) = True"
| "is_client _ = False"

text \<open>A thread in \<open>wait_for_event\<close> that does not lead: it has given its leadership up.\<close>

fun suspended :: "frame list \<Rightarrow> bool" where
  "suspended (Following ev left result # fs) = True"
| "suspended (Yielding ev left result # fs) = True"
| "suspended _ = False"

text \<open>
  The frames \<open>low\<close> are those below the last upcall in which the thread gave its leadership up for
  good; the counters count the frames above them.
\<close>

definition roles_ok :: "frame list \<Rightarrow> int \<Rightarrow> int \<Rightarrow> bool" where
  "roles_ok fs el cl \<longleftrightarrow> (\<exists>up low. fs = up @ low \<and> cl = int (length (filter is_lead up)) \<and> 0 \<le> el
     \<and> el \<le> int (length (filter is_loop up)))"

lemma roles_nil: "roles_ok [] el cl \<longleftrightarrow> el = 0 \<and> cl = 0"
  by (auto simp: roles_ok_def)

lemma roles_ge: "roles_ok fs el cl \<Longrightarrow> 0 \<le> el" "roles_ok fs el cl \<Longrightarrow> 0 \<le> cl"
  by (auto simp: roles_ok_def)

lemma roles_push:
  assumes "roles_ok fs el cl"
  shows "roles_ok (f # fs) (if is_loop f then el + 1 else el) (if is_lead f then cl + 1 else cl)"
proof -
  obtain up low where u: "fs = up @ low" "cl = int (length (filter is_lead up))" "0 \<le> el" "el \<le> int (length (filter is_loop up))"
    using assms by (auto simp: roles_ok_def)
  have "f # fs = (f # up) @ low" using u(1) by simp
  then show ?thesis unfolding roles_ok_def using u(2-4) by (intro exI [of _ "f # up"] exI [of _ low]) auto
qed

lemma roles_pop:
  assumes "roles_ok (f # fs) el cl"
  shows "roles_ok fs (if is_loop f \<and> 0 < el then el - 1 else el) (if is_lead f \<and> 0 < cl then cl - 1 else cl)"
    "is_lead f \<Longrightarrow> cl = 0 \<Longrightarrow> el = 0"
proof -
  obtain up low where u: "f # fs = up @ low" "cl = int (length (filter is_lead up))" "0 \<le> el" "el \<le> int (length (filter is_loop up))"
    using assms by (auto simp: roles_ok_def)
  show "roles_ok fs (if is_loop f \<and> 0 < el then el - 1 else el) (if is_lead f \<and> 0 < cl then cl - 1 else cl)"
  proof (cases up)
    case Nil
    then show ?thesis unfolding roles_ok_def using u by (intro exI [of _ "[]"] exI [of _ fs]) auto
  next
    case (Cons g up')
    then show ?thesis unfolding roles_ok_def using u by (intro exI [of _ up'] exI [of _ low]) auto
  qed
  show "el = 0" if "is_lead f" "cl = 0"
  proof (cases up)
    case Nil
    then show ?thesis using u by simp
  next
    case (Cons g up')
    then show ?thesis using u that by simp
  qed
qed

lemma roles_swap: "is_lead f = is_lead g \<Longrightarrow> is_loop f = is_loop g \<Longrightarrow> roles_ok (f # fs) el cl \<Longrightarrow> roles_ok (g # fs) el cl"
proof -
  assume fg: "is_lead f = is_lead g" "is_loop f = is_loop g" and "roles_ok (f # fs) el cl"
  then obtain up low where u: "f # fs = up @ low" "cl = int (length (filter is_lead up))" "0 \<le> el" "el \<le> int (length (filter is_loop up))"
    by (auto simp: roles_ok_def)
  show "roles_ok (g # fs) el cl"
  proof (cases up)
    case Nil
    then show ?thesis unfolding roles_ok_def using u by (intro exI [of _ "[]"] exI [of _ "g # fs"]) auto
  next
    case (Cons h up')
    then show ?thesis unfolding roles_ok_def using u fg by (intro exI [of _ "g # up'"] exI [of _ low]) auto
  qed
qed

lemma roles_dec: "roles_ok fs el cl \<Longrightarrow> 0 < el \<Longrightarrow> roles_ok fs (el - 1) cl"
  unfolding roles_ok_def by force

lemma roles_abdicate: "roles_ok fs 0 0"
  unfolding roles_ok_def by (intro exI [of _ "[]"] exI [of _ fs]) simp

section \<open>Fields an operation leaves alone\<close>

text \<open>What the counters depend on.\<close>

definition counters :: "lf_state \<Rightarrow> (int \<times> int \<times> int \<times> int) \<times> (thread \<Rightarrow> int) \<times> (thread \<Rightarrow> int) \<times> (thread \<Rightarrow> frame list)" where
  "counters s = ((lf_leaders s, lf_clients s, lf_client_leaders s, lf_loop_waiting s), lf_el s, lf_cl s, lf_stack s)"

lemma counters_same:
  "counters (elect_new_leader s) = counters s" "counters (follower_signal t s) = counters s" "counters (event_changed ev new s) = counters s"
  "counters (remove_follower t s) = counters s" "counters (add_follower t s) = counters s" "counters (bind_event ev t s) = counters s"
  "counters (unbind_event ev s) = counters s" "counters (resume_events s) = counters s" "counters (defer_event h s) = counters s"
  "counters (lf_return t ev r s) = counters s" "counters (s\<lparr>lf_signalled := g\<rparr>) = counters s" "counters (s\<lparr>lf_ev_state := es\<rparr>) = counters s"
  by (simp_all add: counters_def elect_new_leader_def elect_new_leader_i_def broadcast_loop_threads_def follower_signal_def event_changed_def
      remove_follower_def add_follower_def bind_event_def unbind_event_def resume_events_def defer_event_def lf_return_def Let_def
      split: option.split)

lemma counters_fields:
  assumes "counters s' = counters s"
  shows "lf_leaders s' = lf_leaders s" "lf_clients s' = lf_clients s" "lf_client_leaders s' = lf_client_leaders s"
    "lf_loop_waiting s' = lf_loop_waiting s" "lf_el s' = lf_el s" "lf_cl s' = lf_cl s" "lf_stack s' = lf_stack s"
  using assms by (simp_all add: counters_def)

lemmas same_fields [simp] = counters_same [THEN counters_fields(1)] counters_same [THEN counters_fields(2)]
  counters_same [THEN counters_fields(3)] counters_same [THEN counters_fields(4)] counters_same [THEN counters_fields(5)]
  counters_same [THEN counters_fields(6)] counters_same [THEN counters_fields(7)]

section \<open>The counters\<close>

definition active :: "lf_state \<Rightarrow> thread \<Rightarrow> bool" where
  "active s t \<longleftrightarrow> lf_el s t \<noteq> 0 \<or> lf_cl s t \<noteq> 0"

definition leads :: "lf_state \<Rightarrow> thread \<Rightarrow> bool" where
  "leads s t \<longleftrightarrow> active s t \<and> \<not> suspended (lf_stack s t)"

definition client_frames :: "frame list \<Rightarrow> int" where
  "client_frames fs = int (length (filter is_client fs))"

definition counts_ok :: "thread set \<Rightarrow> lf_state \<Rightarrow> bool" where
  "counts_ok T s \<longleftrightarrow> lf_leaders s = (\<Sum>t\<in>T. of_bool (leads s t)) \<and> lf_client_leaders s = (\<Sum>t\<in>T. lf_cl s t)
     \<and> lf_clients s = (\<Sum>t\<in>T. client_frames (lf_stack s t)) \<and> lf_loop_waiting s = (\<Sum>t\<in>T. of_bool (loop_waits (lf_stack s t)))
     \<and> (\<forall>t. roles_ok (lf_stack s t) (lf_el s t) (lf_cl s t))"

text \<open>
  What one thread adds to the counters, with the leadership \<open>b\<close>: inside \<open>wait_for_event\<close>, between the
  constructor and the destructor of the helper, a thread has no leadership of its own.
\<close>

definition rest :: "bool \<Rightarrow> int \<Rightarrow> thread \<Rightarrow> lf_state \<Rightarrow> int \<times> int \<times> int \<times> int" where
  "rest b k t s = (lf_leaders s - of_bool b, lf_client_leaders s - lf_cl s t, lf_clients s - client_frames (lf_stack s t) - k,
     lf_loop_waiting s - of_bool (loop_waits (lf_stack s t)))"

definition only :: "thread \<Rightarrow> lf_state \<Rightarrow> lf_state \<Rightarrow> bool" where
  "only t s s' \<longleftrightarrow> (\<forall>u. u \<noteq> t \<longrightarrow> lf_el s' u = lf_el s u \<and> lf_cl s' u = lf_cl s u \<and> lf_stack s' u = lf_stack s u)"

lemma sum_other:
  fixes f :: "thread \<Rightarrow> int"
  assumes "finite T" and "t \<in> T" and "\<And>u. u \<noteq> t \<Longrightarrow> g u = f u"
  shows "(\<Sum>u\<in>T. g u) = (\<Sum>u\<in>T. f u) - f t + g t"
proof -
  have "(\<Sum>u\<in>T - {t}. g u) = (\<Sum>u\<in>T - {t}. f u)" using assms(3) by (intro sum.cong) auto
  then show ?thesis using assms(1,2) by (simp add: sum.remove [of T t])
qed

lemma counts_step:
  assumes T: "finite T" "t \<in> T" and c: "counts_ok T s" and o: "only t s s'" and r: "rest (leads s' t) 0 t s' = rest (leads s t) 0 t s"
    and ok: "roles_ok (lf_stack s' t) (lf_el s' t) (lf_cl s' t)"
  shows "counts_ok T s'"
proof -
  have u: "leads s' u = leads s u" "lf_cl s' u = lf_cl s u" "lf_stack s' u = lf_stack s u" "lf_el s' u = lf_el s u" if "u \<noteq> t" for u
    using o that by (simp_all add: only_def leads_def active_def)
  have "roles_ok (lf_stack s' v) (lf_el s' v) (lf_cl s' v)" for v
    using c ok u [of v] by (cases "v = t") (simp_all add: counts_ok_def)
  then show ?thesis using c r u unfolding counts_ok_def rest_def
    by (simp add: sum_other [OF T, of "\<lambda>u. of_bool (leads s' u)" "\<lambda>u. of_bool (leads s u)"]
      sum_other [OF T, of "lf_cl s'" "lf_cl s"] sum_other [OF T, of "\<lambda>u. client_frames (lf_stack s' u)" "\<lambda>u. client_frames (lf_stack s u)"]
      sum_other [OF T, of "\<lambda>u. of_bool (loop_waits (lf_stack s' u))" "\<lambda>u. of_bool (loop_waits (lf_stack s u))"])
qed

section \<open>Steps\<close>

text \<open>Handlers run on top of frames that run them.\<close>

fun shape :: "frame list \<Rightarrow> bool" where
  "shape [] \<longleftrightarrow> True"
| "shape (f # fs) \<longleftrightarrow> runs fs \<and> shape fs"

lemma runs_facts: "runs fs \<Longrightarrow> \<not> suspended fs" "runs fs \<Longrightarrow> \<not> loop_waits fs"
  by (cases fs rule: runs.cases; simp)+

definition in_ok :: "thread \<Rightarrow> lf_state \<Rightarrow> bool" where
  "in_ok t s \<longleftrightarrow> roles_ok (lf_stack s t) (lf_el s t) (lf_cl s t) \<and> shape (lf_stack s t)"

text \<open>Between two steps, and inside \<open>wait_for_event\<close>, when \<open>t\<close> has made a part of a step that began in \<open>s\<close>.\<close>

definition out_ok :: "thread \<Rightarrow> lf_state \<Rightarrow> lf_state \<Rightarrow> bool" where
  "out_ok t s s' \<longleftrightarrow> only t s s' \<and> rest (leads s' t) 0 t s' = rest (leads s t) 0 t s \<and> in_ok t s'"

definition limbo_ok :: "thread \<Rightarrow> lf_state \<Rightarrow> lf_state \<Rightarrow> bool" where
  "limbo_ok t s s' \<longleftrightarrow> only t s s' \<and> rest False 1 t s' = rest (leads s t) 0 t s \<and> in_ok t s' \<and> runs (lf_stack s' t)"

lemma push_pop_fields [simp]:
  "lf_leaders (push_frame t f s) = lf_leaders s" "lf_clients (push_frame t f s) = lf_clients s"
  "lf_client_leaders (push_frame t f s) = lf_client_leaders s" "lf_loop_waiting (push_frame t f s) = lf_loop_waiting s"
  "lf_el (push_frame t f s) = lf_el s" "lf_cl (push_frame t f s) = lf_cl s" "lf_stack (push_frame t f s) = (lf_stack s)(t := f # lf_stack s t)"
  "lf_leaders (pop_frame t s) = lf_leaders s" "lf_clients (pop_frame t s) = lf_clients s"
  "lf_client_leaders (pop_frame t s) = lf_client_leaders s" "lf_loop_waiting (pop_frame t s) = lf_loop_waiting s"
  "lf_el (pop_frame t s) = lf_el s" "lf_cl (pop_frame t s) = lf_cl s" "lf_stack (pop_frame t s) = (lf_stack s)(t := tl (lf_stack s t))"
  by (simp_all add: push_frame_def pop_frame_def)

lemma same_ok:
  assumes "counters s1 = counters s2"
  shows "out_ok t s s1 = out_ok t s s2" "limbo_ok t s s1 = limbo_ok t s s2"
  using counters_fields [OF assms]
  by (simp_all add: out_ok_def limbo_ok_def only_def rest_def leads_def active_def in_ok_def)

lemma out_refl: "in_ok t s \<Longrightarrow> out_ok t s s"
  by (simp add: out_ok_def only_def)

lemma set_client_limbo: "in_ok t s \<Longrightarrow> runs (lf_stack s t) \<Longrightarrow> limbo_ok t s (set_client_thread t s)"
  by (auto simp: limbo_ok_def set_client_thread_def Let_def only_def rest_def leads_def active_def in_ok_def runs_facts)

lemma limbo_suspend:
  assumes "limbo_ok t s s1" and "suspended [f]"
  shows "out_ok t s (push_frame t f s1)"
proof -
  have f: "\<not> is_lead f" "\<not> is_loop f" "is_client f" "suspended (f # fs)" "\<not> loop_waits (f # fs)" for fs
    using assms(2) by (cases f; simp)+
  show ?thesis
    using assms(1) roles_push [of "lf_stack s1 t" "lf_el s1 t" "lf_cl s1 t" f] f runs_facts [of "lf_stack s1 t"]
    by (auto simp: limbo_ok_def out_ok_def only_def rest_def leads_def active_def in_ok_def client_frames_def)
qed

lemma limbo_lead:
  assumes "limbo_ok t s s1"
  shows "out_ok t s (push_frame t (Leading ev left result) (set_client_leader_thread t s1))"
  using assms roles_push [of "lf_stack s1 t" "lf_el s1 t" "lf_cl s1 t" "Leading ev left result"] runs_facts [of "lf_stack s1 t"]
    roles_ge(2) [of "lf_stack s1 t" "lf_el s1 t" "lf_cl s1 t"]
  by (auto simp: limbo_ok_def out_ok_def only_def rest_def leads_def active_def in_ok_def client_frames_def set_client_leader_thread_def)

lemma limbo_exit:
  assumes "limbo_ok t s s1"
  shows "out_ok t s (reset_client_thread t s1)"
  using assms runs_facts [of "lf_stack s1 t"]
  by (auto simp: limbo_ok_def out_ok_def only_def rest_def leads_def active_def in_ok_def client_frames_def reset_client_thread_def Let_def)

lemma limbo_become:
  assumes "limbo_ok t s s1"
  shows "out_ok t s (become_leader t ev left result generated s1)"
  using limbo_suspend [OF assms, of "Yielding ev left result"] limbo_lead [OF assms] by (simp add: become_leader_def)

lemma limbo_wait_exit: "limbo_ok t s s1 \<Longrightarrow> out_ok t s (wait_exit t ev left result s1)"
  by (simp add: wait_exit_def Let_def same_ok(1) [OF counters_same(10)] same_ok(1) [OF counters_same(1)] limbo_exit)

lemma limbo_wait:
  assumes "limbo_ok t s s1"
  shows "out_ok t s (wait_loop t ev left result generated s1)"
proof -
  have "limbo_ok t s (add_follower t (bind_event ev t s1))"
    using assms by (simp add: same_ok(2) [OF counters_same(5)] same_ok(2) [OF counters_same(6)])
  then show ?thesis
    using limbo_suspend [of t s _ "Following ev left result"] limbo_become [OF assms] limbo_wait_exit [OF assms] by (simp add: wait_loop_def)
qed

lemma pop_limbo:
  assumes "in_ok t s" and "lf_stack s t = f # fs" and "suspended [f]"
  shows "limbo_ok t s (pop_frame t s)"
proof -
  have f: "\<not> is_lead f" "\<not> is_loop f" "is_client f" "suspended (f # fs)" "\<not> loop_waits (f # fs)" for fs
    using assms(3) by (cases f; simp)+
  show ?thesis
    using assms(1,2) f roles_pop(1) [of f fs "lf_el s t" "lf_cl s t"] runs_facts [of fs]
    by (auto simp: limbo_ok_def only_def rest_def leads_def active_def in_ok_def client_frames_def)
qed

lemma leave_limbo:
  assumes "in_ok t s" and "lf_stack s t = Leaving ev left result # fs"
  shows "limbo_ok t s (reset_client_leader_thread t (pop_frame t s))"
  using assms roles_pop [of "Leaving ev left result" fs "lf_el s t" "lf_cl s t"] runs_facts [of fs] roles_ge [of "lf_stack s t" "lf_el s t" "lf_cl s t"]
  by (auto simp: limbo_ok_def only_def rest_def leads_def active_def in_ok_def client_frames_def reset_client_leader_thread_def)

lemma out_trans: "out_ok t s s1 \<Longrightarrow> out_ok t s1 s2 \<Longrightarrow> out_ok t s s2"
  by (auto simp: out_ok_def only_def)

lemma join_out: "in_ok t s \<Longrightarrow> runs (lf_stack s t) \<Longrightarrow> out_ok t s (join_leaders t s)"
  using roles_push [of "lf_stack s t" "lf_el s t" "lf_cl s t" Event_loop] roles_ge [of "lf_stack s t" "lf_el s t" "lf_cl s t"]
  by (auto simp: join_leaders_def out_ok_def only_def rest_def leads_def active_def in_ok_def client_frames_def runs_facts)

lemma enter_loop_out: "in_ok t s \<Longrightarrow> runs (lf_stack s t) \<Longrightarrow> out_ok t s (set_event_loop_thread t s)"
  using join_out [of t s] roles_push [of "lf_stack s t" "lf_el s t" "lf_cl s t" Loop_waiting]
  by (auto simp: set_event_loop_thread_def out_ok_def only_def rest_def leads_def active_def in_ok_def client_frames_def runs_facts)

lemma loop_pop_out:
  assumes "in_ok t s" and "lf_stack s t = Loop_waiting # fs"
  shows "out_ok t s (pop_frame t (s\<lparr>lf_loop_waiting := lf_loop_waiting s - 1\<rparr>))" "runs fs"
  using assms roles_pop(1) [of Loop_waiting fs "lf_el s t" "lf_cl s t"] runs_facts [of fs]
  by (auto simp: out_ok_def only_def rest_def leads_def active_def in_ok_def client_frames_def)

lemma loop_wake_out:
  assumes "in_ok t s" and "lf_stack s t = Loop_waiting # fs"
  shows "out_ok t s (loop_wake t s)"
proof -
  let ?s = "s\<lparr>lf_signalled := (lf_signalled s)(t := False)\<rparr>"
  have c: "counters ?s = counters s" by (rule counters_same(11))
  have i: "in_ok t ?s" "lf_stack ?s t = Loop_waiting # fs" using assms by (simp_all add: in_ok_def)
  have o: "out_ok t s ?s" using out_refl [OF assms(1)] same_ok(1) [OF c] by simp
  let ?p = "pop_frame t (?s\<lparr>lf_loop_waiting := lf_loop_waiting ?s - 1\<rparr>)"
  have p: "out_ok t ?s ?p" "runs (lf_stack ?p t)" using loop_pop_out [OF i] i by simp_all
  then have "in_ok t ?p" by (simp add: out_ok_def)
  then have "out_ok t s (join_leaders t ?p)" using out_trans [OF o out_trans [OF p(1) join_out]] p(2) by blast
  then show ?thesis using o by (simp add: loop_wake_def Let_def)
qed

lemma loop_timeout_out:
  assumes "in_ok t s" and "lf_stack s t = Loop_waiting # fs"
  shows "out_ok t s (loop_timeout t s)"
  using assms roles_swap [of Loop_waiting Loop_failed fs "lf_el s t" "lf_cl s t"] runs_facts [of fs]
  by (auto simp: loop_timeout_def out_ok_def only_def rest_def leads_def active_def in_ok_def client_frames_def)

lemma loop_done_out:
  assumes "in_ok t s" and "lf_stack s t = f # fs" and "f = Event_loop \<or> f = Loop_failed"
  shows "out_ok t s (loop_helper_done (f = Event_loop) t s)"
proof -
  have "out_ok t s (pop_frame t (if f = Event_loop then reset_event_loop_thread t s else s))"
    using assms roles_pop [of f fs "lf_el s t" "lf_cl s t"] runs_facts [of fs] roles_ge [of "lf_stack s t" "lf_el s t" "lf_cl s t"]
    by (auto simp: out_ok_def only_def rest_def leads_def active_def in_ok_def client_frames_def reset_event_loop_thread_def
        reset_event_loop_thread_i_def Let_def)
  then show ?thesis by (simp add: loop_helper_done_def same_ok(1) [OF counters_same(1)])
qed

lemma upcall_out:
  assumes "in_ok t s" and "runs (lf_stack s t)"
  shows "out_ok t s (set_upcall_thread t s)"
proof -
  have r: "roles_ok (lf_stack s t) (lf_el s t) (lf_cl s t)" using assms(1) by (simp add: in_ok_def)
  have "out_ok t s (reset_event_loop_thread_i t s)" if "lf_el s t > 0"
    using assms that roles_dec [OF r that] runs_facts [of "lf_stack s t"]
    by (auto simp: out_ok_def only_def rest_def leads_def active_def in_ok_def reset_event_loop_thread_i_def Let_def)
  moreover have "out_ok t s (reset_client_leader_thread t s)" if "\<not> lf_el s t > 0" "lf_cl s t = 1"
    using assms that roles_ge [OF r] roles_abdicate [of "lf_stack s t"] runs_facts [of "lf_stack s t"]
    by (auto simp: out_ok_def only_def rest_def leads_def active_def in_ok_def reset_client_leader_thread_def)
  ultimately show ?thesis using out_refl [OF assms(1)] by (simp add: set_upcall_thread_def same_ok(1) [OF counters_same(1)])
qed

lemma lead_out:
  assumes "in_ok t s" and "lf_stack s t = Leading ev left result # fs"
  shows "out_ok t s (lead t ev left result r left' s)"
  using assms roles_swap [of "Leading ev left result" _ fs "lf_el s t" "lf_cl s t"]
  by (auto simp: lead_def Let_def out_ok_def only_def rest_def leads_def active_def in_ok_def client_frames_def)

lemma wake_out:
  assumes "in_ok t s" and "lf_stack s t = Following ev left0 result # fs"
  shows "out_ok t s (follower_wake t ev left result generated s)"
proof -
  let ?s = "s\<lparr>lf_signalled := (lf_signalled s)(t := False)\<rparr>"
  let ?p = "remove_follower t (pop_frame t ?s)"
  have "in_ok t ?s" "lf_stack ?s t = Following ev left0 result # fs" using assms by (simp_all add: in_ok_def)
  then have "limbo_ok t ?s (pop_frame t ?s)" by (rule pop_limbo) simp
  moreover have "limbo_ok t ?s u = limbo_ok t s u" for u by (simp add: limbo_ok_def only_def rest_def leads_def active_def)
  ultimately have p: "limbo_ok t s ?p" by (simp add: same_ok(2) [OF counters_same(4)])
  note same = same_ok [OF counters_same(5)] same_ok [OF counters_same(7)] same_ok [OF counters_same(10)]
  have "out_ok t s (push_frame t (Following ev left result) (add_follower t ?p))"
    by (rule limbo_suspend) (use p same in simp_all)
  moreover have "limbo_ok t s (unbind_event ev ?p)" using p same by simp
  then have "out_ok t s (reset_client_thread t (unbind_event ev ?p))" "out_ok t s (become_leader t ev left result generated (unbind_event ev ?p))"
    using limbo_exit limbo_become by blast+
  ultimately show ?thesis using same by (simp add: follower_wake_def Let_def)
qed

lemma timeout_out:
  assumes "in_ok t s" and "lf_stack s t = Following ev left result # fs"
  shows "out_ok t s (follower_timeout t ev s)"
proof -
  let ?s = "s\<lparr>lf_signalled := (lf_signalled s)(t := False)\<rparr>"
  have "in_ok t ?s" "lf_stack ?s t = Following ev left result # fs" using assms by (simp_all add: in_ok_def)
  then have "limbo_ok t ?s (pop_frame t ?s)" by (rule pop_limbo) simp
  moreover have "limbo_ok t ?s u = limbo_ok t s u" for u by (simp add: limbo_ok_def only_def rest_def leads_def active_def)
  ultimately have p: "limbo_ok t s (pop_frame t ?s)" by simp
  note same = same_ok [OF counters_same(1)] same_ok [OF counters_same(4)] same_ok [OF counters_same(7)] same_ok [OF counters_same(10)]
    same_ok [OF counters_same(12)]
  show ?thesis unfolding follower_timeout_def Let_def using limbo_exit p same by (simp add: invocation_successful_i_def)
qed

text \<open>The thread that makes a step.\<close>

fun actor :: "lf_label \<Rightarrow> thread option" where
  "actor (Enter_wait t ev left gen) = Some t"
| "actor (Follower_wake t left gen) = Some t"
| "actor (Follower_timeout t) = Some t"
| "actor (Lead t r left) = Some t"
| "actor (Leave t gen) = Some t"
| "actor (Resume t gen) = Some t"
| "actor (Enter_loop t) = Some t"
| "actor (Loop_wake t) = Some t"
| "actor (Loop_timeout t) = Some t"
| "actor (Loop_done t) = Some t"
| "actor (Set_upcall t) = Some t"
| "actor (Event_changed ev new) = None"
| "actor (Defer h) = None"

lemma step_out:
  assumes "lf_step l s = Some s'" and "\<And>t. in_ok t s"
  shows "case actor l of Some t \<Rightarrow> out_ok t s s' | None \<Rightarrow> counters s' = counters s"
  using assms(1)
proof (cases l)
  case (Enter_wait t ev left gen)
  then show ?thesis using assms(1) limbo_wait [OF set_client_limbo [OF assms(2)]] by (auto simp: wait_enter_def split: if_splits)
next
  case (Follower_wake t left gen)
  then show ?thesis using assms(1) wake_out [OF assms(2)] by (auto split: list.splits frame.splits if_splits)
next
  case (Follower_timeout t)
  then show ?thesis using assms(1) timeout_out [OF assms(2)] by (auto split: list.splits frame.splits option.splits)
next
  case (Lead t r left)
  then show ?thesis using assms(1) lead_out [OF assms(2)] by (auto split: list.splits frame.splits if_splits)
next
  case (Leave t gen)
  have "out_ok t s (leave t ev left result gen s)" if "lf_stack s t = Leaving ev left result # fs" for ev left result fs
  proof -
    let ?s = "resume_events (reset_client_leader_thread t (pop_frame t s))"
    have p: "limbo_ok t s ?s" using leave_limbo [OF assms(2) that] by (simp add: same_ok(2) [OF counters_same(8)])
    then have "limbo_ok t s (elect_new_leader ?s)" by (simp add: same_ok(2) [OF counters_same(1)])
    then show ?thesis unfolding leave_def Let_def using limbo_suspend [of t s _ "Yielding ev left result"] limbo_wait [OF p] by simp
  qed
  then show ?thesis using Leave assms(1) by (auto split: list.splits frame.splits)
next
  case (Resume t gen)
  have "out_ok t s (wait_loop t ev left result gen (pop_frame t s))" if "lf_stack s t = Yielding ev left result # fs" for ev left result fs
    using limbo_wait [OF pop_limbo [OF assms(2) that]] by simp
  then show ?thesis using Resume assms(1) by (auto split: list.splits frame.splits)
next
  case (Enter_loop t)
  then show ?thesis using assms(1) enter_loop_out [OF assms(2)] by (auto split: if_splits)
next
  case (Loop_wake t)
  then show ?thesis using assms(1) loop_wake_out [OF assms(2)] by (auto split: list.splits frame.splits)
next
  case (Loop_timeout t)
  then show ?thesis using assms(1) loop_timeout_out [OF assms(2)] by (auto split: list.splits frame.splits)
next
  case (Loop_done t)
  then show ?thesis using assms(1) loop_done_out [OF assms(2), of t Event_loop] loop_done_out [OF assms(2), of t Loop_failed]
    by (auto split: list.splits frame.splits)
next
  case (Set_upcall t)
  then show ?thesis using assms(1) upcall_out [OF assms(2)] by (auto split: if_splits)
qed (use assms(1) counters_same(3,9) in auto)

text \<open>The invariant: every thread's frames, and the counters.\<close>

definition lf_inv :: "thread set \<Rightarrow> lf_state \<Rightarrow> bool" where
  "lf_inv T s \<longleftrightarrow> counts_ok T s \<and> (\<forall>t. shape (lf_stack s t)) \<and> (\<forall>t. t \<notin> T \<longrightarrow> lf_stack s t = [])"

lemma lf_inv_in: "lf_inv T s \<Longrightarrow> in_ok t s"
  by (simp add: lf_inv_def counts_ok_def in_ok_def)

lemma lf_inv_new: "lf_inv T lf_new"
  by (simp add: lf_inv_def counts_ok_def lf_new_def leads_def active_def roles_nil client_frames_def)

lemma lf_inv_step:
  assumes T: "finite T" and i: "lf_inv T s" and l: "lf_step l s = Some s'" and a: "set_option (actor l) \<subseteq> T"
  shows "lf_inv T s'"
proof (cases "actor l")
  case None
  then have "counters s' = counters s" using step_out [OF l lf_inv_in [OF i]] by simp
  then show ?thesis using i counters_fields [of s' s] by (simp add: lf_inv_def counts_ok_def leads_def active_def)
next
  case (Some t)
  then have o: "out_ok t s s'" using step_out [OF l lf_inv_in [OF i]] by simp
  have "counts_ok T s'" by (rule counts_step [OF T, of t s]) (use a Some i o in \<open>simp_all add: lf_inv_def out_ok_def in_ok_def\<close>)
  moreover have "shape (lf_stack s' u)" for u using o i by (cases "u = t") (simp_all add: lf_inv_def out_ok_def in_ok_def only_def)
  moreover have "lf_stack s' u = []" if "u \<notin> T" for u using o i a Some that by (cases "u = t") (simp_all add: lf_inv_def out_ok_def only_def)
  ultimately show ?thesis by (simp add: lf_inv_def)
qed

lemma lf_inv_run:
  assumes T: "finite T"
  shows "lf_inv T s \<Longrightarrow> lf_run ls s = Some s' \<Longrightarrow> \<forall>l\<in>set ls. set_option (actor l) \<subseteq> T \<Longrightarrow> lf_inv T s'"
proof (induction ls arbitrary: s)
  case (Cons l ls)
  obtain s1 where s1: "lf_step l s = Some s1" "lf_run ls s1 = Some s'" using Cons.prems(2) by (auto split: option.splits)
  have "lf_inv T s1" using lf_inv_step [OF T Cons.prems(1) s1(1)] Cons.prems(3) by simp
  then show ?case using Cons.IH [OF _ s1(2)] Cons.prems(3) by simp
qed simp

end
