(* ===== verification/Leader_Follower_Sound.thy ===== *)
theory Leader_Follower_Sound
  imports Leader_Follower_Inv
begin

text \<open>
  The threads that sleep in the Leader/Followers loop, and who will wake up: a follower is in the list
  or signalled, and while nobody leads and threads wait, one thread is responsible for the
  next leader. Every step keeps this, under the two conditions of \<open>obeys\<close>.
\<close>

section \<open>The followers\<close>

fun frame_events :: "frame \<Rightarrow> event list" where
  "frame_events (Following ev left result) = [ev]"
| "frame_events (Leading ev left result) = [ev]"
| "frame_events (Leaving ev left result) = [ev]"
| "frame_events (Yielding ev left result) = [ev]"
| "frame_events _ = []"

definition events_of :: "frame list \<Rightarrow> event list" where
  "events_of fs = concat (map frame_events fs)"

lemma events_of_simps [simp]: "events_of [] = []" "events_of (f # fs) = frame_events f @ events_of fs"
  by (simp_all add: events_of_def)

definition follows :: "lf_state \<Rightarrow> thread \<Rightarrow> event \<Rightarrow> bool" where
  "follows s t ev \<longleftrightarrow> (\<exists>left result fs. lf_stack s t = Following ev left result # fs)"

definition fresh_event :: "event \<Rightarrow> lf_state \<Rightarrow> bool" where
  "fresh_event ev s \<longleftrightarrow> (\<forall>t. ev \<notin> set (events_of (lf_stack s t)))"

text \<open>
  Who sleeps as a follower is in the list or signalled, and bound to its event; who is in the list
  still waits.
\<close>

definition followers_ok :: "lf_state \<Rightarrow> bool" where
  "followers_ok s \<longleftrightarrow> distinct (lf_followers s)
     \<and> (\<forall>t\<in>set (lf_followers s). \<not> lf_signalled s t \<and> (\<exists>ev. follows s t ev \<and> lf_waits ev s))
     \<and> (\<forall>t ev. follows s t ev \<longrightarrow> (t \<in> set (lf_followers s) \<or> lf_signalled s t) \<and> lf_ev_follower s ev = Some t)
     \<and> (\<forall>ev t. lf_ev_follower s ev = Some t \<longrightarrow> follows s t ev)
     \<and> (\<forall>t. lf_signalled s t \<longrightarrow> sleeps (lf_stack s t))"

lemma followersD:
  assumes "followers_ok s"
  shows "distinct (lf_followers s)" "t \<in> set (lf_followers s) \<Longrightarrow> \<not> lf_signalled s t"
    "t \<in> set (lf_followers s) \<Longrightarrow> \<exists>ev. follows s t ev \<and> lf_waits ev s"
    "follows s t ev \<Longrightarrow> t \<in> set (lf_followers s) \<or> lf_signalled s t" "follows s t ev \<Longrightarrow> lf_ev_follower s ev = Some t"
    "lf_ev_follower s ev = Some t \<Longrightarrow> follows s t ev" "lf_signalled s t \<Longrightarrow> sleeps (lf_stack s t)"
  using assms unfolding followers_ok_def by (blast+)

lemma followersI:
  assumes "distinct (lf_followers s)" "\<And>t. t \<in> set (lf_followers s) \<Longrightarrow> \<not> lf_signalled s t \<and> (\<exists>ev. follows s t ev \<and> lf_waits ev s)"
    "\<And>t ev. follows s t ev \<Longrightarrow> (t \<in> set (lf_followers s) \<or> lf_signalled s t) \<and> lf_ev_follower s ev = Some t"
    "\<And>ev t. lf_ev_follower s ev = Some t \<Longrightarrow> follows s t ev" "\<And>t. lf_signalled s t \<Longrightarrow> sleeps (lf_stack s t)"
  shows "followers_ok s"
  using assms unfolding followers_ok_def by blast

text \<open>An event has at most one waiting thread, as TAO/tao/LF_Event.h asks for.\<close>

definition events_ok :: "lf_state \<Rightarrow> bool" where
  "events_ok s \<longleftrightarrow> (\<forall>t. distinct (events_of (lf_stack s t)))
     \<and> (\<forall>t u. t \<noteq> u \<longrightarrow> set (events_of (lf_stack s t)) \<inter> set (events_of (lf_stack s u)) = {})"

lemma follows_unique: "follows s t ev \<Longrightarrow> follows s t ev' \<Longrightarrow> ev' = ev"
  by (auto simp: follows_def)

lemma follows_event: "follows s t ev \<Longrightarrow> ev \<in> set (events_of (lf_stack s t))"
  by (auto simp: follows_def)

text \<open>What these depend on.\<close>

definition sleepers :: "lf_state \<Rightarrow> thread list \<times> (thread \<Rightarrow> bool) \<times> (event \<Rightarrow> thread option) \<times> (thread \<Rightarrow> frame list) \<times> (event \<Rightarrow> lfs_state)" where
  "sleepers s = (lf_followers s, lf_signalled s, lf_ev_follower s, lf_stack s, lf_ev_state s)"

lemma sleepers_ok:
  assumes "sleepers s' = sleepers s"
  shows "followers_ok s' = followers_ok s" "events_ok s' = events_ok s" "fresh_event ev s' = fresh_event ev s" "follows s' = follows s"
    "lf_waits ev s' = lf_waits ev s" "lf_followers s' = lf_followers s" "lf_signalled s' = lf_signalled s"
proof -
  have f: "lf_followers s' = lf_followers s" "lf_signalled s' = lf_signalled s" "lf_ev_follower s' = lf_ev_follower s"
    "lf_stack s' = lf_stack s" "lf_ev_state s' = lf_ev_state s"
    using assms by (simp_all add: sleepers_def)
  show w: "lf_waits ev s' = lf_waits ev s" for ev by (simp add: lf_waits_def f)
  show fo: "follows s' = follows s" by (intro ext) (simp add: follows_def f)
  show "followers_ok s' = followers_ok s" by (simp only: followers_ok_def f w fo)
  show "events_ok s' = events_ok s" "fresh_event ev s' = fresh_event ev s" by (simp_all only: events_ok_def fresh_event_def f)
  show "lf_followers s' = lf_followers s" "lf_signalled s' = lf_signalled s" by (simp_all only: f)
qed

lemma sleepers_same: "sleepers (reset_client_thread t s) = sleepers s" "sleepers (set_client_thread t s) = sleepers s"
  "sleepers (set_client_leader_thread t s) = sleepers s" "sleepers (reset_client_leader_thread t s) = sleepers s"
  "sleepers (resume_events s) = sleepers s" "sleepers (defer_event h s) = sleepers s" "sleepers (lf_return t ev r s) = sleepers s"
  "sleepers (reset_event_loop_thread_i t s) = sleepers s" "sleepers (reset_event_loop_thread t s) = sleepers s"
  "sleepers (s\<lparr>lf_loop_waiting := n\<rparr>) = sleepers s" "sleepers (s\<lparr>lf_el := e\<rparr>) = sleepers s" "sleepers (s\<lparr>lf_leaders := k\<rparr>) = sleepers s"
  by (simp_all add: sleepers_def reset_client_thread_def set_client_thread_def set_client_leader_thread_def reset_client_leader_thread_def
      resume_events_def defer_event_def lf_return_def reset_event_loop_thread_def reset_event_loop_thread_i_def Let_def)

lemma follows_iff: "follows s t ev \<longleftrightarrow> (\<exists>left result fs. lf_stack s t = Following ev left result # fs)"
  by (rule follows_def)

text \<open>Signals.\<close>

lemma follows_sleeps: "follows s t ev \<Longrightarrow> sleeps (lf_stack s t)"
  by (auto simp: follows_def)

lemma follower_signal_fields:
  "lf_followers (follower_signal t s) = remove1 t (lf_followers s)" "lf_ev_follower (follower_signal t s) = lf_ev_follower s"
  "lf_ev_state (follower_signal t s) = lf_ev_state s"
  "lf_signalled (follower_signal t s) u = (lf_signalled s u \<or> u = t \<and> sleeps (lf_stack s t))"
  "follows (follower_signal t s) = follows s" "lf_waits ev (follower_signal t s) = lf_waits ev s"
  by (auto simp: follower_signal_def remove_follower_def Let_def lf_waits_def follows_def fun_eq_iff)

lemma signal_ok:
  assumes ok: "followers_ok s"
  shows "followers_ok (follower_signal t s)"
proof (rule followersI)
  note D = followersD [OF ok]
  show "distinct (lf_followers (follower_signal t s))" using D(1) by (simp add: follower_signal_fields)
  show "\<not> lf_signalled (follower_signal t s) u \<and> (\<exists>ev. follows (follower_signal t s) u ev \<and> lf_waits ev (follower_signal t s))"
    if "u \<in> set (lf_followers (follower_signal t s))" for u
    using that D(1) D(2) [of u] D(3) [of u] by (auto simp: follower_signal_fields)
  show "(u \<in> set (lf_followers (follower_signal t s)) \<or> lf_signalled (follower_signal t s) u) \<and> lf_ev_follower (follower_signal t s) ev = Some u"
    if "follows (follower_signal t s) u ev" for u ev
    using that D(1) D(4,5) [of u ev] follows_sleeps [of s u ev] by (cases "u = t") (simp_all add: follower_signal_fields)
  show "follows (follower_signal t s) u ev" if "lf_ev_follower (follower_signal t s) ev = Some u" for ev u
    using that D(6) [of ev u] by (simp add: follower_signal_fields)
  show "sleeps (lf_stack (follower_signal t s) u)" if "lf_signalled (follower_signal t s) u" for u
    using that D(7) [of u] by (auto simp: follower_signal_fields)
qed

lemma broadcast_loop_fields:
  "lf_followers (broadcast_loop_threads s) = lf_followers s" "lf_ev_follower (broadcast_loop_threads s) = lf_ev_follower s" "lf_ev_state (broadcast_loop_threads s) = lf_ev_state s"
  "lf_stack (broadcast_loop_threads s) = lf_stack s" "lf_signalled (broadcast_loop_threads s) u = (lf_signalled s u \<or> loop_waits (lf_stack s u))"
  "follows (broadcast_loop_threads s) = follows s" "lf_waits ev (broadcast_loop_threads s) = lf_waits ev s"
  by (auto simp: broadcast_loop_threads_def lf_waits_def follows_def fun_eq_iff)

lemma follows_loop: "follows s t ev \<Longrightarrow> \<not> loop_waits (lf_stack s t)"
  by (auto simp: follows_def)

lemma loop_sleeps: "loop_waits fs \<Longrightarrow> sleeps fs"
  by (cases fs rule: loop_waits.cases) simp_all

lemma broadcast_loop_ok:
  assumes ok: "followers_ok s"
  shows "followers_ok (broadcast_loop_threads s)"
proof (rule followersI)
  note D = followersD [OF ok]
  show "\<not> lf_signalled (broadcast_loop_threads s) u \<and> (\<exists>ev. follows (broadcast_loop_threads s) u ev \<and> lf_waits ev (broadcast_loop_threads s))"
    if "u \<in> set (lf_followers (broadcast_loop_threads s))" for u
    using that D(2) [of u] D(3) [of u] follows_loop [of s u] by (auto simp: broadcast_loop_fields)
  show "(u \<in> set (lf_followers (broadcast_loop_threads s)) \<or> lf_signalled (broadcast_loop_threads s) u) \<and> lf_ev_follower (broadcast_loop_threads s) ev = Some u"
    if "follows (broadcast_loop_threads s) u ev" for u ev
    using that D(4,5) [of u ev] by (auto simp: broadcast_loop_fields)
  show "sleeps (lf_stack (broadcast_loop_threads s) u)" if "lf_signalled (broadcast_loop_threads s) u" for u
    using that D(7) [of u] loop_sleeps by (auto simp: broadcast_loop_fields)
  show "follows (broadcast_loop_threads s) u ev" if "lf_ev_follower (broadcast_loop_threads s) ev = Some u" for ev u
    using that D(6) [of ev u] by (simp add: broadcast_loop_fields)
qed (simp add: broadcast_loop_fields followersD(1) [OF ok])

lemma elect_ok: "followers_ok s \<Longrightarrow> followers_ok (elect_new_leader s)"
  by (simp add: elect_new_leader_def elect_new_leader_i_def signal_ok broadcast_loop_ok)

text \<open>A thread that moves.\<close>

lemma followers_move:
  assumes ok: "followers_ok s" and d: "distinct (lf_followers s')"
    and o: "\<And>u. u \<noteq> t \<Longrightarrow> lf_stack s' u = lf_stack s u \<and> lf_signalled s' u = lf_signalled s u \<and> (u \<in> set (lf_followers s') \<longleftrightarrow> u \<in> set (lf_followers s))"
    and w: "\<And>u ev. u \<noteq> t \<Longrightarrow> follows s u ev \<Longrightarrow> lf_waits ev s \<Longrightarrow> lf_waits ev s'"
    and b: "\<And>u ev. u \<noteq> t \<Longrightarrow> lf_ev_follower s' ev = Some u \<longleftrightarrow> lf_ev_follower s ev = Some u"
    and t: "t \<in> set (lf_followers s') \<Longrightarrow> \<not> lf_signalled s' t \<and> (\<exists>ev. follows s' t ev \<and> lf_waits ev s')"
      "\<And>ev. follows s' t ev \<Longrightarrow> (t \<in> set (lf_followers s') \<or> lf_signalled s' t) \<and> lf_ev_follower s' ev = Some t"
      "\<And>ev. lf_ev_follower s' ev = Some t \<Longrightarrow> follows s' t ev" "lf_signalled s' t \<Longrightarrow> sleeps (lf_stack s' t)"
  shows "followers_ok s'"
proof (rule followersI [OF d])
  note D = followersD [OF ok]
  have fo: "follows s' u ev = follows s u ev" if "u \<noteq> t" for u ev using o [OF that] by (simp add: follows_def)
  show "\<not> lf_signalled s' u \<and> (\<exists>ev. follows s' u ev \<and> lf_waits ev s')" if "u \<in> set (lf_followers s')" for u
  proof (cases "u = t")
    case False
    then show ?thesis using that o [OF False] D(2) [of u] D(3) [of u] fo w by blast
  qed (use t(1) that in blast)
  show "(u \<in> set (lf_followers s') \<or> lf_signalled s' u) \<and> lf_ev_follower s' ev = Some u" if "follows s' u ev" for u ev
  proof (cases "u = t")
    case False
    then show ?thesis using that o [OF False] D(4,5) [of u ev] fo [OF False] b [OF False] by simp
  qed (use t(2) that in blast)
  show "follows s' u ev" if "lf_ev_follower s' ev = Some u" for ev u
    using that t(3) [of ev] D(6) [of ev u] fo [of u ev] b [of u ev] by (cases "u = t") simp_all
  show "sleeps (lf_stack s' u)" if "lf_signalled s' u" for u
    using that t(4) D(7) [of u] o [of u] by (cases "u = t") simp_all
qed

lemma push_pop_more [simp]:
  "lf_followers (push_frame t f s) = lf_followers s" "lf_signalled (push_frame t f s) = lf_signalled s"
  "lf_ev_follower (push_frame t f s) = lf_ev_follower s" "lf_ev_state (push_frame t f s) = lf_ev_state s"
  "lf_followers (pop_frame t s) = lf_followers s" "lf_signalled (pop_frame t s) = lf_signalled s"
  "lf_ev_follower (pop_frame t s) = lf_ev_follower s" "lf_ev_state (pop_frame t s) = lf_ev_state s"
  "lf_followers (remove_follower t s) = remove1 t (lf_followers s)" "lf_signalled (remove_follower t s) = lf_signalled s"
  "lf_ev_follower (remove_follower t s) = lf_ev_follower s" "lf_ev_state (remove_follower t s) = lf_ev_state s"
  "lf_followers (add_follower t s) = lf_followers s @ [t]" "lf_signalled (add_follower t s) = lf_signalled s"
  "lf_ev_follower (add_follower t s) = lf_ev_follower s" "lf_ev_state (add_follower t s) = lf_ev_state s"
  "lf_followers (unbind_event ev s) = lf_followers s" "lf_signalled (unbind_event ev s) = lf_signalled s"
  "lf_ev_follower (unbind_event ev s) = (lf_ev_follower s)(ev := None)" "lf_ev_state (unbind_event ev s) = lf_ev_state s"
  "lf_followers (bind_event ev t s) = lf_followers s" "lf_signalled (bind_event ev t s) = lf_signalled s"
  "lf_ev_state (bind_event ev t s) = lf_ev_state s"
  by (simp_all add: push_frame_def pop_frame_def remove_follower_def add_follower_def unbind_event_def bind_event_def)

lemma awake:
  assumes "followers_ok s" and "\<not> sleeps (lf_stack s t)"
  shows "\<not> follows s t ev" "t \<notin> set (lf_followers s)" "\<not> lf_signalled s t" "lf_ev_follower s ev \<noteq> Some t"
proof -
  show n: "\<not> follows s t ev" for ev using assms(2) follows_sleeps by blast
  show "t \<notin> set (lf_followers s)" using followersD(3) [OF assms(1)] n by blast
  show "\<not> lf_signalled s t" using followersD(7) [OF assms(1)] assms(2) by blast
  show "lf_ev_follower s ev \<noteq> Some t" using followersD(6) [OF assms(1)] n by blast
qed

fun is_following :: "frame \<Rightarrow> bool" where
  "is_following (Following ev left result) = True"
| "is_following _ = False"

lemma follows_top: "lf_stack s t = f # fs \<Longrightarrow> follows s t ev \<Longrightarrow> is_following f"
  by (auto simp: follows_def)

lemma runs_awake: "runs fs \<Longrightarrow> \<not> sleeps fs"
  by (cases fs rule: runs.cases) simp_all

lemma push_ok:
  assumes ok: "followers_ok s" and s: "\<not> sleeps (lf_stack s t)" and f: "\<not> is_following f"
  shows "followers_ok (push_frame t f s)"
proof (rule followers_move [OF ok])
  show "\<not> lf_signalled (push_frame t f s) t \<and> (\<exists>ev. follows (push_frame t f s) t ev \<and> lf_waits ev (push_frame t f s))"
    if "t \<in> set (lf_followers (push_frame t f s))" using that awake(2) [OF ok s] by simp
  have n: "\<not> follows (push_frame t f s) t ev" for ev using follows_top [of "push_frame t f s" t f] f by auto
  then show "(t \<in> set (lf_followers (push_frame t f s)) \<or> lf_signalled (push_frame t f s) t) \<and> lf_ev_follower (push_frame t f s) ev = Some t"
    if "follows (push_frame t f s) t ev" for ev using that by blast
  show "follows (push_frame t f s) t ev" if "lf_ev_follower (push_frame t f s) ev = Some t" for ev using that awake(4) [OF ok s] by simp
  show "sleeps (lf_stack (push_frame t f s) t)" if "lf_signalled (push_frame t f s) t" using that awake(3) [OF ok s] by simp
qed (simp_all add: lf_waits_def followersD(1) [OF ok])

text \<open>A thread that does not follow comes out of a frame.\<close>

lemma pop_ok:
  assumes ok: "followers_ok s" and st: "lf_stack s t = f # fs" "runs fs" "\<not> is_following f"
  shows "followers_ok (pop_frame t (s\<lparr>lf_signalled := (lf_signalled s)(t := False)\<rparr>))" (is "followers_ok ?s")
proof (rule followers_move [OF ok])
  have n: "\<not> follows s t ev" for ev using follows_top [OF st(1)] st(3) by blast
  have t: "t \<notin> set (lf_followers s)" using followersD(3) [OF ok] n by blast
  show "\<not> lf_signalled ?s t \<and> (\<exists>ev. follows ?s t ev \<and> lf_waits ev ?s)" if "t \<in> set (lf_followers ?s)" using that t by simp
  have "\<not> follows ?s t ev" for ev using follows_sleeps [of ?s t] runs_awake [OF st(2)] st(1) by auto
  then show "(t \<in> set (lf_followers ?s) \<or> lf_signalled ?s t) \<and> lf_ev_follower ?s ev = Some t" if "follows ?s t ev" for ev using that by blast
  show "follows ?s t ev" if "lf_ev_follower ?s ev = Some t" for ev using that followersD(6) [OF ok, of ev t] n by simp
qed (simp_all add: lf_waits_def followersD(1) [OF ok])

lemma pop_awake_ok:
  assumes ok: "followers_ok s" and st: "lf_stack s t = f # fs" "runs fs" "\<not> is_following f" "\<not> sleeps (f # fs)"
  shows "followers_ok (pop_frame t s)"
proof -
  have "s\<lparr>lf_signalled := (lf_signalled s)(t := False)\<rparr> = s" using awake(3) [OF ok, of t] st(1,4) by (simp add: fun_upd_idem)
  then show ?thesis using pop_ok [OF assms(1-4)] by simp
qed

text \<open>A thread becomes a follower.\<close>

lemma follow_ok:
  assumes ok: "followers_ok s" and r: "\<not> sleeps (lf_stack s t)" and ev: "fresh_event ev s" "lf_waits ev s"
  shows "followers_ok (push_frame t (Following ev left result) (add_follower t (bind_event ev t s)))" (is "followers_ok ?s")
proof (rule followers_move [OF ok])
  note D = followersD [OF ok]
  have "lf_ev_follower s ev \<noteq> Some u" for u using D(6) [of ev u] follows_event [of s u ev] ev(1) by (auto simp: fresh_event_def)
  then have n: "lf_ev_follower s ev = None" by (cases "lf_ev_follower s ev") auto
  then have b: "lf_ev_follower ?s = (lf_ev_follower s)(ev := Some t)" by (simp add: bind_event_def)
  have st: "lf_stack ?s t = Following ev left result # lf_stack s t" by simp
  have f: "follows ?s t e \<longleftrightarrow> e = ev" for e using st by (auto simp: follows_def)
  show "distinct (lf_followers ?s)" using D(1) awake(2) [OF ok r] by simp
  show "\<not> lf_signalled ?s t \<and> (\<exists>ev. follows ?s t ev \<and> lf_waits ev ?s)" using awake(3) [OF ok r] f ev(2) by (simp add: lf_waits_def)
  show "(t \<in> set (lf_followers ?s) \<or> lf_signalled ?s t) \<and> lf_ev_follower ?s e = Some t" if "follows ?s t e" for e using that f b by simp
  show "follows ?s t e" if "lf_ev_follower ?s e = Some t" for e using that b f awake(4) [OF ok r, of e] by (simp split: if_splits)
  show "sleeps (lf_stack ?s t)" using st by simp
  show "lf_ev_follower ?s e = Some u \<longleftrightarrow> lf_ev_follower s e = Some u" if "u \<noteq> t" for u e using that b n by simp
qed (simp_all add: lf_waits_def)

text \<open>A follower comes out of its wait; its event may be set to a state.\<close>

definition unfollow :: "thread \<Rightarrow> event \<Rightarrow> lfs_state \<Rightarrow> lf_state \<Rightarrow> lf_state" where
  "unfollow t ev x s = unbind_event ev (remove_follower t (pop_frame t (s\<lparr>lf_signalled := (lf_signalled s)(t := False),
     lf_ev_state := (lf_ev_state s)(ev := x)\<rparr>)))"

lemma unfollow_fields [simp]:
  "lf_followers (unfollow t ev x s) = remove1 t (lf_followers s)" "lf_signalled (unfollow t ev x s) = (lf_signalled s)(t := False)"
  "lf_ev_follower (unfollow t ev x s) = (lf_ev_follower s)(ev := None)" "lf_ev_state (unfollow t ev x s) = (lf_ev_state s)(ev := x)"
  "lf_stack (unfollow t ev x s) = (lf_stack s)(t := tl (lf_stack s t))" "lf_leaders (unfollow t ev x s) = lf_leaders s"
  "lf_loop_waiting (unfollow t ev x s) = lf_loop_waiting s" "lf_cl (unfollow t ev x s) = lf_cl s"
  by (simp_all add: unfollow_def)

lemma unfollow_ok:
  assumes ok: "followers_ok s" and st: "lf_stack s t = Following ev left result # fs" "runs fs"
  shows "followers_ok (unfollow t ev x s)"
proof (rule followers_move [OF ok])
  let ?s = "unfollow t ev x s"
  note D = followersD [OF ok]
  have f: "follows s t e \<longleftrightarrow> e = ev" for e using st(1) by (auto simp: follows_def)
  have b: "lf_ev_follower s e = Some t \<longleftrightarrow> e = ev" for e using D(5) [of t e] D(6) [of e t] f by blast
  have t: "t \<notin> set (lf_followers ?s)" using D(1) by simp
  then show "\<not> lf_signalled ?s t \<and> (\<exists>ev. follows ?s t ev \<and> lf_waits ev ?s)" if "t \<in> set (lf_followers ?s)" using that by blast
  have "\<not> follows ?s t e" for e using follows_sleeps [of ?s t] runs_awake [OF st(2)] st(1) by auto
  then show "(t \<in> set (lf_followers ?s) \<or> lf_signalled ?s t) \<and> lf_ev_follower ?s e = Some t" if "follows ?s t e" for e using that by blast
  show "follows ?s t e" if "lf_ev_follower ?s e = Some t" for e using that b by (simp split: if_splits)
  show "lf_waits e ?s" if "u \<noteq> t" "follows s u e" "lf_waits e s" for u e
  proof -
    have "e \<noteq> ev" using D(5) [OF that(2)] b [of ev] that(1) by auto
    then show ?thesis using that(3) by (simp add: lf_waits_def)
  qed
  show "lf_ev_follower ?s e = Some u \<longleftrightarrow> lf_ev_follower s e = Some u" if "u \<noteq> t" for u e using that b [of ev] by auto
  show "u \<noteq> t \<Longrightarrow> lf_stack ?s u = lf_stack s u \<and> lf_signalled ?s u = lf_signalled s u \<and> (u \<in> set (lf_followers ?s) \<longleftrightarrow> u \<in> set (lf_followers s))" for u
    using D(1) by simp
qed (simp_all add: followersD(1) [OF ok])

lemma refollow_ok:
  assumes ok: "followers_ok s" and st: "lf_stack s t = Following ev left result # fs" and w: "lf_waits ev s"
  shows "followers_ok (push_frame t (Following ev left' result) (add_follower t (remove_follower t (pop_frame t
    (s\<lparr>lf_signalled := (lf_signalled s)(t := False)\<rparr>)))))" (is "followers_ok ?s")
proof (rule followers_move [OF ok])
  note D = followersD [OF ok]
  have st': "lf_stack ?s t = Following ev left' result # fs" using st by simp
  have f: "follows s t e \<longleftrightarrow> e = ev" "follows ?s t e \<longleftrightarrow> e = ev" for e using st st' by (auto simp: follows_def)
  have b: "lf_ev_follower ?s = lf_ev_follower s" by simp
  show "distinct (lf_followers ?s)" using D(1) by simp
  show "\<not> lf_signalled ?s t \<and> (\<exists>ev. follows ?s t ev \<and> lf_waits ev ?s)" using f(2) w by (simp add: lf_waits_def)
  show "(t \<in> set (lf_followers ?s) \<or> lf_signalled ?s t) \<and> lf_ev_follower ?s e = Some t" if "follows ?s t e" for e
    using that f D(5) [of t e] b by simp
  show "follows ?s t e" if "lf_ev_follower ?s e = Some t" for e using that f D(6) [of e t] b by simp
  show "u \<noteq> t \<Longrightarrow> lf_stack ?s u = lf_stack s u \<and> lf_signalled ?s u = lf_signalled s u \<and> (u \<in> set (lf_followers ?s) \<longleftrightarrow> u \<in> set (lf_followers s))" for u
    using D(1) by simp
qed (simp_all add: lf_waits_def)

text \<open>An event changes.\<close>

lemma event_changed_ok:
  assumes ok: "followers_ok s"
  shows "followers_ok (event_changed ev new s)"
proof (cases "invocation_is_state_final (lf_ev_state s ev) \<or> lf_ev_follower s ev = None")
  case True
  note D = followersD [OF ok]
  let ?s = "event_changed ev new s"
  have n: "lf_followers ?s = lf_followers s" "lf_signalled ?s = lf_signalled s" "lf_ev_follower ?s = lf_ev_follower s" "lf_stack ?s = lf_stack s"
    and e: "\<And>e. e \<noteq> ev \<Longrightarrow> lf_waits e ?s = lf_waits e s"
    using True by (auto simp: event_changed_def Let_def lf_waits_def)
  have fo: "follows ?s = follows s" by (intro ext) (simp add: follows_def n)
  have w: "lf_waits e ?s = lf_waits e s" if "follows s u e" for u e
  proof (cases "invocation_is_state_final (lf_ev_state s ev)")
    case True
    then show ?thesis by (simp add: event_changed_def)
  next
    case False
    then have "e \<noteq> ev" using True D(5) [OF that] by auto
    then show ?thesis by (rule e)
  qed
  show ?thesis
  proof (rule followersI)
    show "\<not> lf_signalled ?s u \<and> (\<exists>e. follows ?s u e \<and> lf_waits e ?s)" if "u \<in> set (lf_followers ?s)" for u
      using that D(2) [of u] D(3) [of u] w unfolding n fo by blast
    show "(u \<in> set (lf_followers ?s) \<or> lf_signalled ?s u) \<and> lf_ev_follower ?s e = Some u" if "follows ?s u e" for u e
      using D(4,5) [of u e] that unfolding n fo by simp
    show "follows ?s u e" if "lf_ev_follower ?s e = Some u" for e u using D(6) [of e u] that unfolding n fo by simp
    show "sleeps (lf_stack ?s u)" if "lf_signalled ?s u" for u using D(7) [of u] that unfolding n by simp
  qed (use D(1) n in simp)
next
  case False
  then obtain f where f: "lf_ev_follower s ev = Some f" "\<not> invocation_is_state_final (lf_ev_state s ev)" by auto
  note D = followersD [OF ok]
  let ?x = "invocation_state_changed_i (lf_ev_state s ev) new" and ?s = "event_changed ev new s"
  have "?s = follower_signal f (s\<lparr>lf_ev_state := (lf_ev_state s)(ev := ?x)\<rparr>)" using f by (simp add: event_changed_def Let_def)
  also have "\<dots> = (follower_signal f s)\<lparr>lf_ev_state := (lf_ev_state s)(ev := ?x)\<rparr>"
    by (simp add: follower_signal_def remove_follower_def Let_def)
  finally have s: "?s = (follower_signal f s)\<lparr>lf_ev_state := (lf_ev_state s)(ev := ?x)\<rparr>" .
  note D' = followersD [OF signal_ok [OF ok, of f]]
  have fo: "follows ?s = follows s" by (intro ext) (simp add: s follows_def)
  have w: "lf_waits e ?s = lf_waits e s" if "follows s u e" "u \<noteq> f" for u e
  proof -
    have "e \<noteq> ev" using D(5) [OF that(1)] f(1) that(2) by auto
    then show ?thesis by (simp add: s lf_waits_def)
  qed
  have n: "lf_followers ?s = lf_followers (follower_signal f s)" "lf_signalled ?s = lf_signalled (follower_signal f s)"
    "lf_ev_follower ?s = lf_ev_follower s" "lf_stack ?s = lf_stack s" by (simp_all add: s follower_signal_fields)
  show ?thesis
  proof (rule followersI)
    show "\<not> lf_signalled ?s u \<and> (\<exists>e. follows ?s u e \<and> lf_waits e ?s)" if "u \<in> set (lf_followers ?s)" for u
    proof -
      have u: "u \<in> set (lf_followers (follower_signal f s))" using that n(1) by simp
      then have "u \<noteq> f" using D(1) by (auto simp: follower_signal_fields)
      then show ?thesis using D'(2,3) [OF u] w unfolding n(2) fo by (auto simp: follower_signal_fields)
    qed
    show "(u \<in> set (lf_followers ?s) \<or> lf_signalled ?s u) \<and> lf_ev_follower ?s e = Some u" if "follows ?s u e" for u e
      using D'(4,5) [of u e] that unfolding n fo by (simp add: follower_signal_fields)
    show "follows ?s u e" if "lf_ev_follower ?s e = Some u" for e u using D(6) [of e u] that unfolding n fo by simp
    show "sleeps (lf_stack ?s u)" if "lf_signalled ?s u" for u using D'(7) [of u] that unfolding n by simp
  qed (use D'(1) n in simp)
qed

section \<open>Who is responsible\<close>

text \<open>A thread that will lead or elect when it runs next.\<close>

definition responsible :: "lf_state \<Rightarrow> thread \<Rightarrow> bool" where
  "responsible s u \<longleftrightarrow> (\<exists>ev. follows s u ev \<and> lf_signalled s u \<and> lf_waits ev s) \<or> loop_waits (lf_stack s u) \<and> lf_signalled s u
     \<or> (case lf_stack s u of Yielding ev left result # fs \<Rightarrow> True | Loop_failed # fs \<Rightarrow> True | _ \<Rightarrow> False)"

definition needs_leader :: "lf_state \<Rightarrow> bool" where
  "needs_leader s \<longleftrightarrow> lf_followers s \<noteq> [] \<or> lf_loop_waiting s \<noteq> 0"

definition cared_for :: "lf_state \<Rightarrow> bool" where
  "cared_for s \<longleftrightarrow> (lf_leaders s = 0 \<and> needs_leader s \<longrightarrow> (\<exists>u. responsible s u))"

definition waiters_ok :: "lf_state \<Rightarrow> bool" where
  "waiters_ok s \<longleftrightarrow> (lf_loop_waiting s \<noteq> 0 \<longrightarrow> (\<exists>u. loop_waits (lf_stack s u)))"

lemma elect_cares:
  assumes f: "followers_ok s" and w: "waiters_ok s"
  shows "cared_for (elect_new_leader s)"
proof -
  consider "lf_leaders s \<noteq> 0" | "lf_leaders s = 0" "lf_loop_waiting s \<noteq> 0" | "lf_leaders s = 0" "lf_loop_waiting s = 0" "lf_followers s = []"
    | h hs where "lf_leaders s = 0" "lf_loop_waiting s = 0" "lf_followers s = h # hs"
    by (cases "lf_followers s") auto
  then show ?thesis
  proof cases
    case 2
    then obtain u where "loop_waits (lf_stack s u)" using w by (auto simp: waiters_ok_def)
    then have "responsible (elect_new_leader s) u" using 2 by (simp add: responsible_def elect_new_leader_def broadcast_loop_threads_def)
    then show ?thesis by (auto simp: cared_for_def)
  next
    case (4 h hs)
    then obtain ev where ev: "follows s h ev" "lf_waits ev s" using followersD(3) [OF f, of h] by auto
    have e: "elect_new_leader s = follower_signal h s"
      using 4 by (simp add: elect_new_leader_def elect_new_leader_i_def follower_available_def)
    have "responsible (follower_signal h s) h"
      unfolding responsible_def using ev follows_sleeps [OF ev(1)] by (intro disjI1 exI [of _ ev]) (simp add: follower_signal_fields)
    then show ?thesis unfolding e cared_for_def by blast
  qed (simp_all add: cared_for_def needs_leader_def elect_new_leader_def follower_available_def)
qed

section \<open>Steps\<close>

lemma cared_lead: "lf_leaders s \<noteq> 0 \<Longrightarrow> cared_for s"
  by (simp add: cared_for_def)

lemma cared_mono:
  assumes "cared_for s" and "lf_leaders s' = 0 \<Longrightarrow> lf_leaders s = 0" and "lf_followers s' \<noteq> [] \<Longrightarrow> lf_followers s \<noteq> []"
    and "lf_loop_waiting s' \<noteq> 0 \<Longrightarrow> lf_loop_waiting s \<noteq> 0" and "\<And>u. lf_leaders s' = 0 \<Longrightarrow> responsible s u \<Longrightarrow> responsible s' u"
  shows "cared_for s'"
  using assms unfolding cared_for_def needs_leader_def by blast

lemma responsible_other:
  assumes "lf_stack s' u = lf_stack s u" "lf_signalled s' u = lf_signalled s u" "\<And>ev. follows s u ev \<Longrightarrow> lf_waits ev s' = lf_waits ev s"
  shows "responsible s' u = responsible s u"
proof -
  have f: "follows s' u ev = follows s u ev" for ev using assms(1) by (simp add: follows_def)
  show ?thesis unfolding responsible_def f assms(1,2) using assms(3) by auto
qed

lemma cared_same:
  assumes "cared_for s" and "sleepers s' = sleepers s" and "lf_leaders s' = 0 \<Longrightarrow> lf_leaders s = 0" and "lf_loop_waiting s' = lf_loop_waiting s"
  shows "cared_for s'"
proof (rule cared_mono [OF assms(1,3)])
  have st: "lf_stack s' = lf_stack s" using assms(2) by (simp add: sleepers_def)
  show "responsible s' u" if "responsible s u" for u
    using that responsible_other [of s' u s] sleepers_ok(5,7) [OF assms(2)] st by simp
qed (use assms(4) sleepers_ok(6) [OF assms(2)] in simp_all)

text \<open>The conditions under which no follower is left alone.\<close>

definition obeys :: "lf_label \<Rightarrow> lf_state \<Rightarrow> bool" where
  "obeys l s \<longleftrightarrow> (case l of
       Enter_wait t ev left gen \<Rightarrow> lf_cl s t = 0 \<and> fresh_event ev s
     | Event_changed ev new \<Rightarrow> lf_leaders s \<noteq> 0 \<or> lf_ev_follower s ev = None
     | _ \<Rightarrow> True)"

definition clients_ok :: "lf_state \<Rightarrow> bool" where
  "clients_ok s \<longleftrightarrow> \<not> lf_avoid_client_leader s \<and> (\<forall>t. lf_cl s t \<le> 1 \<and> (suspended (lf_stack s t) \<longrightarrow> lf_cl s t = 0))"

definition sound :: "lf_state \<Rightarrow> bool" where
  "sound s \<longleftrightarrow> followers_ok s \<and> events_ok s \<and> clients_ok s \<and> cared_for s"

definition in_wait :: "thread \<Rightarrow> event \<Rightarrow> lf_state \<Rightarrow> bool" where
  "in_wait t ev s \<longleftrightarrow> followers_ok s \<and> events_ok s \<and> clients_ok s \<and> waiters_ok s \<and> fresh_event ev s \<and> lf_cl s t = 0 \<and> runs (lf_stack s t)"

lemma avoid_same [simp]: "lf_avoid_client_leader (push_frame t f s) = lf_avoid_client_leader s"
  "lf_avoid_client_leader (pop_frame t s) = lf_avoid_client_leader s" "lf_avoid_client_leader (add_follower t s) = lf_avoid_client_leader s"
  "lf_avoid_client_leader (remove_follower t s) = lf_avoid_client_leader s" "lf_avoid_client_leader (bind_event ev t s) = lf_avoid_client_leader s"
  "lf_avoid_client_leader (unbind_event ev s) = lf_avoid_client_leader s" "lf_avoid_client_leader (elect_new_leader s) = lf_avoid_client_leader s"
  "lf_avoid_client_leader (reset_client_thread t s) = lf_avoid_client_leader s" "lf_avoid_client_leader (set_client_thread t s) = lf_avoid_client_leader s"
  "lf_avoid_client_leader (set_client_leader_thread t s) = lf_avoid_client_leader s" "lf_avoid_client_leader (lf_return t ev r s) = lf_avoid_client_leader s"
  "lf_avoid_client_leader (reset_client_leader_thread t s) = lf_avoid_client_leader s" "lf_avoid_client_leader (resume_events s) = lf_avoid_client_leader s"
  "lf_avoid_client_leader (defer_event h s) = lf_avoid_client_leader s" "lf_avoid_client_leader (event_changed ev new s) = lf_avoid_client_leader s"
  "lf_avoid_client_leader (reset_event_loop_thread_i t s) = lf_avoid_client_leader s"
  "lf_avoid_client_leader (reset_event_loop_thread t s) = lf_avoid_client_leader s"
  "lf_avoid_client_leader (unfollow t ev x s) = lf_avoid_client_leader s" "lf_avoid_client_leader (join_leaders t s) = lf_avoid_client_leader s"
  by (simp_all add: push_frame_def pop_frame_def add_follower_def remove_follower_def bind_event_def unbind_event_def elect_new_leader_def
      elect_new_leader_i_def broadcast_loop_threads_def follower_signal_def reset_client_thread_def set_client_thread_def set_client_leader_thread_def
      lf_return_def reset_client_leader_thread_def resume_events_def defer_event_def event_changed_def reset_event_loop_thread_def
      reset_event_loop_thread_i_def unfollow_def join_leaders_def Let_def split: option.split)

lemma role_fields [simp]:
  "lf_stack (reset_client_thread t s) = lf_stack s" "lf_stack (set_client_thread t s) = lf_stack s"
  "lf_stack (set_client_leader_thread t s) = lf_stack s" "lf_stack (reset_client_leader_thread t s) = lf_stack s"
  "lf_stack (reset_event_loop_thread_i t s) = lf_stack s" "lf_stack (reset_event_loop_thread t s) = lf_stack s"
  "lf_cl (reset_client_thread t s) = lf_cl s" "lf_cl (set_client_thread t s) = lf_cl s"
  "lf_cl (set_client_leader_thread t s) = (lf_cl s)(t := lf_cl s t + 1)"
  "lf_cl (reset_client_leader_thread t s) = (if lf_cl s t > 0 then (lf_cl s)(t := lf_cl s t - 1) else lf_cl s)"
  "lf_cl (reset_event_loop_thread_i t s) = lf_cl s" "lf_cl (reset_event_loop_thread t s) = lf_cl s"
  "lf_loop_waiting (reset_client_thread t s) = lf_loop_waiting s" "lf_loop_waiting (set_client_thread t s) = lf_loop_waiting s"
  "lf_loop_waiting (set_client_leader_thread t s) = lf_loop_waiting s" "lf_loop_waiting (reset_client_leader_thread t s) = lf_loop_waiting s"
  "lf_loop_waiting (reset_event_loop_thread_i t s) = lf_loop_waiting s" "lf_loop_waiting (reset_event_loop_thread t s) = lf_loop_waiting s"
  by (simp_all add: reset_client_thread_def set_client_thread_def set_client_leader_thread_def reset_client_leader_thread_def
      reset_event_loop_thread_def reset_event_loop_thread_i_def Let_def)

text \<open>Events.\<close>

lemma events_step:
  assumes ok: "events_ok s" and o: "\<And>u. u \<noteq> t \<Longrightarrow> lf_stack s' u = lf_stack s u" and d: "distinct (events_of (lf_stack s' t))"
    and e: "\<And>ev. ev \<in> set (events_of (lf_stack s' t)) \<Longrightarrow> ev \<in> set (events_of (lf_stack s t)) \<or> fresh_event ev s"
  shows "events_ok s'"
  unfolding events_ok_def
proof (intro conjI allI impI)
  show "distinct (events_of (lf_stack s' u))" for u using ok d o [of u] by (cases "u = t") (simp_all add: events_ok_def)
  have x: "set (events_of (lf_stack s' t)) \<inter> set (events_of (lf_stack s u)) = {}" if "u \<noteq> t" for u
    using ok e that unfolding events_ok_def fresh_event_def by blast
  have y: "set (events_of (lf_stack s u)) \<inter> set (events_of (lf_stack s v)) = {}" if "u \<noteq> v" for u v
    using ok that unfolding events_ok_def by blast
  show "set (events_of (lf_stack s' u)) \<inter> set (events_of (lf_stack s' v)) = {}" if "u \<noteq> v" for u v
    using x [of u] x [of v] y [OF that] o [of u] o [of v] that by (cases "u = t"; cases "v = t") (simp_all add: Int_commute)
qed

lemma events_same: "events_ok s \<Longrightarrow> lf_stack s' = lf_stack s \<Longrightarrow> events_ok s'"
  by (simp add: events_ok_def)

lemma events_push: "events_ok s \<Longrightarrow> fresh_event ev s \<Longrightarrow> frame_events f = [ev] \<or> frame_events f = [] \<Longrightarrow> events_ok (push_frame t f s)"
  by (rule events_step [of s t]) (auto simp: fresh_event_def events_ok_def)

lemma events_push0: "events_ok s \<Longrightarrow> frame_events f = [] \<Longrightarrow> events_ok (push_frame t f s)"
  by (rule events_step [of s t]) (auto simp: events_ok_def)

lemma events_pop: "events_ok s \<Longrightarrow> lf_stack s t = f # fs \<Longrightarrow> events_ok (pop_frame t s)"
proof (rule events_step [of s t])
  assume "events_ok s" "lf_stack s t = f # fs"
  then have "distinct (events_of (f # fs))" by (metis events_ok_def)
  then show "distinct (events_of (lf_stack (pop_frame t s) t))" using \<open>lf_stack s t = f # fs\<close> by simp
qed auto

lemma fresh_pop:
  assumes "events_ok s" and "lf_stack s t = f # fs" and "frame_events f = [ev]"
  shows "fresh_event ev (pop_frame t s)"
proof -
  have "distinct (events_of (f # fs))" using assms(1,2) by (metis events_ok_def)
  moreover have "set (events_of (f # fs)) \<inter> set (events_of (lf_stack s u)) = {}" if "u \<noteq> t" for u
    using assms(1,2) that by (metis events_ok_def)
  ultimately have "ev \<notin> set (events_of fs)" "\<And>u. u \<noteq> t \<Longrightarrow> ev \<notin> set (events_of (lf_stack s u))" using assms(3) by auto
  then show ?thesis using assms(2) by (auto simp: fresh_event_def)
qed

lemma fresh_same: "fresh_event ev s \<Longrightarrow> lf_stack s' = lf_stack s \<Longrightarrow> fresh_event ev s'"
  by (simp add: fresh_event_def)

text \<open>The loop of \<open>wait_for_event\<close>.\<close>

lemma become_sound:
  assumes w: "in_wait t ev s" and l: "lf_leaders s = 0"
  shows "sound (become_leader t ev left result gen s)"
proof -
  let ?s = "set_client_leader_thread t s"
  have r: "\<not> sleeps (lf_stack s t)" "\<not> suspended (lf_stack s t)" using w runs_awake runs_facts by (auto simp: in_wait_def)
  have b: "become_leader t ev left result gen s = push_frame t (Leading ev left result) ?s"
    using w by (simp add: become_leader_def in_wait_def clients_ok_def)
  have "followers_ok ?s" "events_ok ?s" "fresh_event ev ?s"
    using w sleepers_ok(1-3) [OF sleepers_same(3) [of t s]] by (simp_all add: in_wait_def)
  then have "followers_ok (push_frame t (Leading ev left result) ?s)" "events_ok (push_frame t (Leading ev left result) ?s)"
    using push_ok [of ?s t "Leading ev left result"] events_push [of ?s ev "Leading ev left result" t] r by simp_all
  moreover have "clients_ok (push_frame t (Leading ev left result) ?s)" using w by (auto simp: in_wait_def clients_ok_def)
  moreover have "cared_for (push_frame t (Leading ev left result) ?s)"
    by (rule cared_lead) (use l in \<open>simp add: set_client_leader_thread_def\<close>)
  ultimately show ?thesis by (simp add: sound_def b)
qed

lemma exit_sound:
  assumes w: "in_wait t ev s"
  shows "sound (wait_exit t ev left result s)"
proof -
  let ?s = "reset_client_thread t s"
  note same = sleepers_ok [OF sleepers_same(1) [of t s]]
  have f: "followers_ok ?s" "events_ok ?s" using w same by (simp_all add: in_wait_def)
  have "waiters_ok ?s" using w by (simp add: in_wait_def waiters_ok_def)
  then have c: "cared_for (elect_new_leader ?s)" using elect_cares f by blast
  have e: "sound (elect_new_leader ?s)"
    using c elect_ok [OF f(1)] events_same [OF f(2), of "elect_new_leader ?s"] w by (simp add: sound_def clients_ok_def in_wait_def)
  have "wait_exit t ev left result s = lf_return t ev (event_result ev left result (elect_new_leader ?s)) (elect_new_leader ?s)"
    by (simp add: wait_exit_def Let_def)
  then show ?thesis using e sleepers_ok(1,2) [OF sleepers_same(7)] cared_same [OF c sleepers_same(7)]
    by (simp add: sound_def clients_ok_def)
qed

lemma wait_sound:
  assumes w: "in_wait t ev s"
  shows "sound (wait_loop t ev left result gen s)"
proof -
  let ?s = "push_frame t (Following ev left result) (add_follower t (bind_event ev t s))"
  have r: "\<not> sleeps (lf_stack s t)" using w runs_awake by (auto simp: in_wait_def)
  have "sound ?s" if "lf_waits ev s" "lf_leaders s \<noteq> 0"
  proof -
    have "followers_ok ?s" by (rule follow_ok) (use w r that in \<open>simp_all add: in_wait_def\<close>)
    moreover have "events_ok ?s"
      by (rule events_step [of s t]) (use w in \<open>auto simp: in_wait_def fresh_event_def events_ok_def\<close>)
    moreover have "clients_ok ?s" using w by (simp add: in_wait_def clients_ok_def)
    moreover have "cared_for ?s" by (rule cared_lead) (use that in simp)
    ultimately show ?thesis by (simp add: sound_def)
  qed
  then show ?thesis using become_sound [OF w] exit_sound [OF w] by (simp add: wait_loop_def leader_available_def)
qed

text \<open>What the counters give.\<close>

lemma lf_inv_leads:
  assumes "finite T" and "lf_inv T s" and "t \<in> T" and "leads s t"
  shows "lf_leaders s \<noteq> 0"
proof -
  have "of_bool (leads s t) \<le> (\<Sum>u\<in>T. of_bool (leads s u) :: int)" using assms(1,3) by (intro member_le_sum) simp_all
  then show ?thesis using assms(2,4) by (simp add: lf_inv_def counts_ok_def)
qed

lemma lf_inv_client_leaders:
  assumes "finite T" and "lf_inv T s" and "clients_ok s" and "lf_client_leaders s \<noteq> 0"
  shows "lf_leaders s \<noteq> 0"
proof -
  have "(\<Sum>u\<in>T. lf_cl s u) \<noteq> 0" using assms(2,4) by (simp add: lf_inv_def counts_ok_def)
  then obtain t where t: "t \<in> T" "lf_cl s t \<noteq> 0" by (rule sum.not_neutral_contains_not_neutral)
  then have "leads s t" using assms(3) by (auto simp: clients_ok_def leads_def active_def)
  then show ?thesis using lf_inv_leads [OF assms(1,2) t(1)] by blast
qed

lemma lf_inv_waiters:
  assumes "lf_inv T s"
  shows "waiters_ok s"
proof -
  have "\<exists>t\<in>T. loop_waits (lf_stack s t)" if "lf_loop_waiting s \<noteq> 0"
  proof -
    have "(\<Sum>t\<in>T. of_bool (loop_waits (lf_stack s t)) :: int) \<noteq> 0" using assms that by (simp add: lf_inv_def counts_ok_def)
    then obtain t where "t \<in> T" "of_bool (loop_waits (lf_stack s t)) \<noteq> (0::int)" by (rule sum.not_neutral_contains_not_neutral)
    then show ?thesis by auto
  qed
  then show ?thesis by (auto simp: waiters_ok_def)
qed

lemma lf_inv_tail: "lf_inv T s \<Longrightarrow> lf_stack s t = f # fs \<Longrightarrow> runs fs"
  by (metis lf_inv_def shape.simps(2))

text \<open>\<open>reset_client_thread\<close> adds to the leaders when the thread leads again.\<close>

lemma reset_client_leaders:
  "lf_leaders (reset_client_thread t s) = lf_leaders s + of_bool (active s t)"
  by (simp add: reset_client_thread_def active_def Let_def)

lemma returned_leaders:
  assumes T: "finite T" "t \<in> T" and i: "lf_inv T s'" and s: "s' = lf_return t ev r (reset_client_thread t s)" and r: "runs (lf_stack s t)"
    and l: "lf_leaders s' = 0"
  shows "lf_leaders s = 0"
proof -
  have "leads s' t" if "active s t"
    using that r runs_facts(1) by (simp add: leads_def active_def s reset_client_thread_def Let_def)
  then have "\<not> active s t" using lf_inv_leads [OF T(1) i T(2)] l by blast
  then show ?thesis using l by (simp add: s reset_client_leaders)
qed

lemma return_sound:
  assumes T: "finite T" "t \<in> T" and i: "lf_inv T s'" and s: "s' = lf_return t ev r (reset_client_thread t s)" and r: "runs (lf_stack s t)"
    and ok: "followers_ok s" "events_ok s" "clients_ok s" "cared_for s"
  shows "sound s'"
proof -
  have same: "sleepers s' = sleepers s" unfolding s using sleepers_same(1,7) by simp
  have "cared_for s'"
    by (rule cared_same [OF ok(4) same returned_leaders [OF T i s r]]) (simp_all add: s)
  then show ?thesis using sleepers_ok(1,2) [OF same] ok(1-3) by (simp add: sound_def clients_ok_def s)
qed

lemma unfollow_cares:
  assumes f: "followers_ok s" and c: "cared_for s" and st: "lf_stack s t = Following ev left result # fs" "runs fs"
    and n: "\<not> responsible s t"
  shows "cared_for (unfollow t ev x s)"
proof (rule cared_mono [OF c])
  let ?s = "unfollow t ev x s"
  have ft: "follows s t ev" using st(1) by (auto simp: follows_def)
  show "lf_followers s \<noteq> []" if "lf_followers ?s \<noteq> []" using that by (cases "lf_followers s") auto
  show "responsible ?s u" if "responsible s u" for u
  proof -
    have u: "u \<noteq> t" using that n by blast
    have "e \<noteq> ev" if "follows s u e" for e using followersD(5) [OF f that] followersD(5) [OF f ft] u by auto
    then show ?thesis using that u responsible_other [of ?s u s] by (simp add: lf_waits_def)
  qed
qed simp_all

lemma unfollow_wait:
  assumes i: "lf_inv T s" and ok: "sound s" and st: "lf_stack s t = Following ev left result # fs"
  shows "in_wait t ev (unfollow t ev x s)"
proof -
  let ?s = "unfollow t ev x s"
  have r: "runs fs" by (rule lf_inv_tail [OF i st])
  have stk: "lf_stack ?s = lf_stack (pop_frame t s)" by simp
  have "events_ok ?s" using events_same [OF events_pop [OF _ st] stk] ok by (simp add: sound_def)
  moreover have "fresh_event ev ?s" using fresh_same [OF fresh_pop [OF _ st] stk] ok by (simp add: sound_def)
  moreover have "followers_ok ?s" using unfollow_ok [OF _ st r] ok by (simp add: sound_def)
  moreover have "lf_cl s t = 0" using ok st by (auto simp: sound_def clients_ok_def)
  moreover have "clients_ok ?s" using ok r runs_facts(1) [OF r] st by (auto simp: sound_def clients_ok_def)
  moreover have "waiters_ok ?s"
    unfolding waiters_ok_def
  proof (intro impI)
    assume "lf_loop_waiting ?s \<noteq> 0"
    then obtain u where u: "loop_waits (lf_stack s u)" using lf_inv_waiters [OF i] by (auto simp: waiters_ok_def)
    then have "u \<noteq> t" using st by auto
    then show "\<exists>u. loop_waits (lf_stack ?s u)" using u by (intro exI [of _ u]) simp
  qed
  ultimately show ?thesis using r st by (simp add: in_wait_def)
qed

lemma follows_here: "lf_stack s t = Following ev left result # fs \<Longrightarrow> follows s t e \<longleftrightarrow> e = ev"
  by (auto simp: follows_def)

lemma not_responsible: "lf_stack s t = Following ev left result # fs \<Longrightarrow> \<not> (lf_signalled s t \<and> lf_waits ev s) \<Longrightarrow> \<not> responsible s t"
  using follows_here [of s t ev] by (simp add: responsible_def)

lemma wake_returns:
  assumes "\<not> lf_waits ev s"
  shows "follower_wake t ev left' result gen s
    = lf_return t ev (if invocation_successful_i (lf_ev_state s ev) then 0 else - 1) (reset_client_thread t (unfollow t ev (lf_ev_state s ev) s))"
proof -
  have "invocation_successful_i (lf_ev_state s ev) \<or> invocation_error_detected_i (lf_ev_state s ev)"
    using assms by (auto simp: lf_waits_def keep_waiting_i_def)
  then show ?thesis using assms by (auto simp: follower_wake_def unfollow_def lf_waits_def Let_def)
qed

lemma wake_sound:
  assumes T: "finite T" "t \<in> T" and i: "lf_inv T s" "lf_inv T (follower_wake t ev left' result gen s)" and ok: "sound s"
    and st: "lf_stack s t = Following ev left result # fs"
  shows "sound (follower_wake t ev left' result gen s)"
proof -
  have r: "runs fs" by (rule lf_inv_tail [OF i(1) st])
  let ?u = "unfollow t ev (lf_ev_state s ev) s" and ?q = "s\<lparr>lf_signalled := (lf_signalled s)(t := False)\<rparr>"
  let ?r = "remove_follower t (pop_frame t ?q)"
  have q: "?q\<lparr>lf_ev_state := (lf_ev_state s)(ev := lf_ev_state s ev)\<rparr> = ?q" by simp
  have u: "unbind_event ev ?r = ?u" unfolding unfollow_def fun_upd_triv by simp
  have w: "lf_waits ev ?r = lf_waits ev s" "lf_ev_state ?r ev = lf_ev_state s ev" "lf_leaders ?r = lf_leaders s" by (simp_all add: lf_waits_def)
  have iw: "in_wait t ev ?u" by (rule unfollow_wait [OF i(1) ok st])
  consider (again) "lf_waits ev s" "lf_leaders s \<noteq> 0" | (lead) "lf_waits ev s" "lf_leaders s = 0"
    | (over) "\<not> lf_waits ev s" by blast
  then show ?thesis
  proof cases
    case again
    let ?f = "push_frame t (Following ev left' result) (add_follower t ?r)"
    have "follower_wake t ev left' result gen s = ?f" using again w by (simp add: follower_wake_def Let_def leader_available_def)
    moreover have "followers_ok ?f" using refollow_ok [OF _ st again(1)] ok by (simp add: sound_def)
    moreover have "events_ok ?f"
    proof (rule events_step [of s t])
      have ev: "events_of (lf_stack ?f t) = events_of (lf_stack s t)" using st by simp
      show eo: "events_ok s" using ok by (simp add: sound_def)
      show "distinct (events_of (lf_stack ?f t))" unfolding ev using eo by (simp only: events_ok_def)
      show "e \<in> set (events_of (lf_stack s t)) \<or> fresh_event e s" if "e \<in> set (events_of (lf_stack ?f t))" for e
        using that unfolding ev by blast
    qed simp
    moreover have "clients_ok ?f" using ok st by (auto simp: sound_def clients_ok_def)
    moreover have "cared_for ?f" by (rule cared_lead) (use again in simp)
    ultimately show ?thesis by (simp add: sound_def)
  next
    case lead
    then have "\<not> invocation_successful_i (lf_ev_state s ev)" "\<not> invocation_error_detected_i (lf_ev_state s ev)"
      by (simp_all add: lf_waits_def keep_waiting_i_def)
    then have "follower_wake t ev left' result gen s = become_leader t ev left' result gen ?u"
      using lead w u by (simp add: follower_wake_def Let_def leader_available_def)
    then show ?thesis using become_sound [OF iw] lead by simp
  next
    case over
    have k: "follower_wake t ev left' result gen s
        = lf_return t ev (if invocation_successful_i (lf_ev_state s ev) then 0 else - 1) (reset_client_thread t ?u)"
      by (rule wake_returns [OF over])
    have "\<not> responsible s t" by (rule not_responsible [OF st]) (use over in simp)
    then have c: "cared_for ?u" using unfollow_cares [OF _ _ st r] ok by (simp add: sound_def)
    show ?thesis by (rule return_sound [OF T i(2) k]) (use iw c in \<open>simp_all add: in_wait_def\<close>)
  qed
qed

text \<open>
  A follower whose wait times out: it elects while it is in the list, which is an election after it
  has left, unless it elects itself.
\<close>

lemma timeout_elects:
  assumes f: "followers_ok s" and st: "lf_stack s t = Following ev left result # fs" and r: "runs fs"
  defines "u \<equiv> unfollow t ev LFS_TIMEOUT s"
  shows "follower_timeout t ev s = lf_return t ev (- 1) (reset_client_thread t
    (if lf_leaders s = 0 \<and> lf_loop_waiting s = 0 \<and> lf_followers s \<noteq> [] \<and> hd (lf_followers s) = t then u else elect_new_leader u))"
proof -
  let ?p = "(pop_frame t (s\<lparr>lf_signalled := (lf_signalled s)(t := False)\<rparr>))\<lparr>lf_ev_state := (lf_ev_state s)(ev := LFS_TIMEOUT)\<rparr>"
  let ?c = "lf_leaders s = 0 \<and> lf_loop_waiting s = 0 \<and> lf_followers s \<noteq> [] \<and> hd (lf_followers s) = t"
  have u: "u = unbind_event ev (remove_follower t ?p)"
    by (cases s) (simp add: u_def unfollow_def pop_frame_def)
  have pf: "lf_leaders ?p = lf_leaders s" "lf_loop_waiting ?p = lf_loop_waiting s" "lf_followers ?p = lf_followers s" by simp_all
  have "follower_timeout t ev s = lf_return t ev (- 1) (reset_client_thread t (unbind_event ev (remove_follower t (elect_new_leader ?p))))"
    by (simp add: follower_timeout_def Let_def invocation_successful_i_def)
  moreover have "unbind_event ev (remove_follower t (elect_new_leader ?p)) = (if ?c then u else elect_new_leader u)"
  proof -
    consider "lf_leaders s \<noteq> 0" | "lf_leaders s = 0" "lf_loop_waiting s \<noteq> 0" | "lf_leaders s = 0" "lf_loop_waiting s = 0" "lf_followers s = []"
      | hs where "lf_leaders s = 0" "lf_loop_waiting s = 0" "lf_followers s = t # hs"
      | h hs where "lf_leaders s = 0" "lf_loop_waiting s = 0" "lf_followers s = h # hs" "h \<noteq> t"
      by (cases "lf_followers s") auto
    then show ?thesis
    proof cases
      case 1
      then show ?thesis unfolding u by (simp add: elect_new_leader_def pf)
    next
      case 2
      then have "elect_new_leader ?p = broadcast_loop_threads ?p" "elect_new_leader u = broadcast_loop_threads u" unfolding u by (simp_all add: elect_new_leader_def)
      then show ?thesis using 2 unfolding u by (simp add: broadcast_loop_threads_def unbind_event_def remove_follower_def)
    next
      case 3
      then show ?thesis unfolding u by (simp add: elect_new_leader_def pf follower_available_def remove_follower_def unbind_event_def)
    next
      case (4 hs)
      have nt: "t \<notin> set hs" using followersD(1) [OF f] 4 by simp
      have "\<not> sleeps (lf_stack ?p t)" using runs_awake [OF r] st by simp
      then have "elect_new_leader ?p = remove_follower t ?p"
        using 4 by (simp add: elect_new_leader_def elect_new_leader_i_def follower_available_def follower_signal_def Let_def remove_follower_def)
      moreover have "remove_follower t (remove_follower t ?p) = remove_follower t ?p"
        using 4 nt by (simp add: remove_follower_def remove1_idem)
      ultimately show ?thesis using 4 unfolding u by simp
    next
      case (5 h hs)
      have "elect_new_leader ?p = follower_signal h ?p" "elect_new_leader u = follower_signal h u"
        using 5 unfolding u by (simp_all add: elect_new_leader_def elect_new_leader_i_def follower_available_def)
      then show ?thesis using 5 unfolding u by (simp add: follower_signal_def unbind_event_def remove_follower_def Let_def)
    qed
  qed
  ultimately show ?thesis by simp
qed

lemma timeout_sound:
  assumes T: "finite T" "t \<in> T" and i: "lf_inv T s" "lf_inv T (follower_timeout t ev s)" and ok: "sound s"
    and st: "lf_stack s t = Following ev left result # fs"
  shows "sound (follower_timeout t ev s)"
proof -
  have r: "runs fs" by (rule lf_inv_tail [OF i(1) st])
  have f: "followers_ok s" and cs: "cared_for s" using ok by (simp_all add: sound_def)
  let ?u = "unfollow t ev LFS_TIMEOUT s"
  have iw: "in_wait t ev ?u" by (rule unfollow_wait [OF i(1) ok st])
  then have u: "followers_ok ?u" "events_ok ?u" "clients_ok ?u" "waiters_ok ?u" "runs (lf_stack ?u t)" by (simp_all add: in_wait_def)
  let ?c = "lf_leaders s = 0 \<and> lf_loop_waiting s = 0 \<and> lf_followers s \<noteq> [] \<and> hd (lf_followers s) = t"
  show ?thesis
  proof (cases ?c)
    case True
    then have "t \<in> set (lf_followers s)" by (metis hd_in_set)
    then have "\<not> lf_signalled s t" using followersD(2) [OF f] by blast
    then have c: "cared_for ?u" using unfollow_cares [OF f cs st r] not_responsible [OF st] by blast
    have k: "follower_timeout t ev s = lf_return t ev (- 1) (reset_client_thread t ?u)"
      using timeout_elects [OF f st r] True by simp
    show ?thesis by (rule return_sound [OF T i(2) k u(5,1-3) c])
  next
    case False
    let ?e = "elect_new_leader ?u"
    have k: "follower_timeout t ev s = lf_return t ev (- 1) (reset_client_thread t ?e)"
      using timeout_elects [OF f st r] False by simp
    have "clients_ok ?e" using u(3) by (simp add: clients_ok_def)
    then show ?thesis
      using return_sound [OF T i(2) k _ elect_ok [OF u(1)] events_same [OF u(2)] _ elect_cares [OF u(1,4)]] u(5) by simp
  qed
qed

lemma leave_sound:
  assumes i: "lf_inv T s" and ok: "sound s" and st: "lf_stack s t = Leaving ev left result # fs"
  shows "sound (leave t ev left result gen s)"
proof -
  have r: "runs fs" by (rule lf_inv_tail [OF i st])
  let ?p = "pop_frame t s" and ?s = "resume_events (reset_client_leader_thread t (pop_frame t s))"
  have same: "sleepers ?s = sleepers ?p" using sleepers_same(4,5) by simp
  have p: "followers_ok ?p" "events_ok ?p" "fresh_event ev ?p"
    using ok pop_awake_ok [OF _ st r] events_pop [OF _ st] fresh_pop [OF _ st] by (simp_all add: sound_def)
  have ge: "0 \<le> lf_cl s t" using i roles_ge(2) by (auto simp: lf_inv_def counts_ok_def)
  have le: "lf_cl s t \<le> 1" using ok by (simp add: sound_def clients_ok_def)
  have cl: "lf_cl ?s = (lf_cl s)(t := 0)" using ge le by (auto simp: fun_eq_iff)
  then have "clients_ok ?s" using ok by (simp add: sound_def clients_ok_def)
  moreover have "waiters_ok ?s"
    unfolding waiters_ok_def
  proof (intro impI)
    assume "lf_loop_waiting ?s \<noteq> 0"
    then obtain u where u: "loop_waits (lf_stack s u)" using lf_inv_waiters [OF i] by (auto simp: waiters_ok_def)
    then have "u \<noteq> t" using st by auto
    then show "\<exists>u. loop_waits (lf_stack ?s u)" using u by (intro exI [of _ u]) simp
  qed
  ultimately have w: "in_wait t ev ?s" using p sleepers_ok(1-3) [OF same] cl r st by (simp add: in_wait_def)
  have "sound (push_frame t (Yielding ev left result) (elect_new_leader ?s))" (is "sound ?y")
  proof -
    have e: "followers_ok (elect_new_leader ?s)" "events_ok (elect_new_leader ?s)" "fresh_event ev (elect_new_leader ?s)"
      using w elect_ok [of ?s] events_same [of ?s "elect_new_leader ?s"] fresh_same [of ev ?s "elect_new_leader ?s"] by (simp_all add: in_wait_def)
    have "\<not> sleeps (lf_stack (elect_new_leader ?s) t)" using runs_awake [OF r] st by simp
    then have "followers_ok ?y" "events_ok ?y" using push_ok [OF e(1)] events_push [OF e(2,3)] by simp_all
    moreover have "lf_cl ?y = (lf_cl s)(t := 0)" using cl by simp
    then have "clients_ok ?y" unfolding clients_ok_def using ok by (simp add: sound_def clients_ok_def)
    moreover have "responsible ?y t" by (simp add: responsible_def)
    then have "cared_for ?y" by (auto simp: cared_for_def)
    ultimately show ?thesis by (simp add: sound_def)
  qed
  then show ?thesis using wait_sound [OF w] by (simp add: leave_def Let_def)
qed

lemma resume_sound:
  assumes i: "lf_inv T s" and ok: "sound s" and st: "lf_stack s t = Yielding ev left result # fs"
  shows "sound (wait_loop t ev left result gen (pop_frame t s))"
proof (rule wait_sound)
  have r: "runs fs" by (rule lf_inv_tail [OF i st])
  let ?p = "pop_frame t s"
  have "followers_ok ?p" "events_ok ?p" "fresh_event ev ?p"
    using ok pop_awake_ok [OF _ st r] events_pop [OF _ st] fresh_pop [OF _ st] by (simp_all add: sound_def)
  moreover have "lf_cl s t = 0" using ok st by (auto simp: sound_def clients_ok_def)
  moreover have "clients_ok ?p" using ok runs_facts(1) [OF r] st by (auto simp: sound_def clients_ok_def)
  moreover have "waiters_ok ?p"
    unfolding waiters_ok_def
  proof (intro impI)
    assume "lf_loop_waiting ?p \<noteq> 0"
    then obtain u where u: "loop_waits (lf_stack s u)" using lf_inv_waiters [OF i] by (auto simp: waiters_ok_def)
    then have "u \<noteq> t" using st by auto
    then show "\<exists>u. loop_waits (lf_stack ?p u)" using u by (intro exI [of _ u]) simp
  qed
  ultimately show "in_wait t ev ?p" using r st by (simp add: in_wait_def)
qed

lemma enter_sound:
  assumes i: "lf_inv T s" and ok: "sound s" and r: "runs (lf_stack s t)" and o: "lf_cl s t = 0" "fresh_event ev s"
  shows "sound (wait_enter t ev left gen s)"
proof -
  note same = sleepers_ok [OF sleepers_same(2) [of t s]]
  have "in_wait t ev (set_client_thread t s)"
    using ok lf_inv_waiters [OF i] r o same(1-3) by (simp add: in_wait_def sound_def clients_ok_def waiters_ok_def)
  then show ?thesis unfolding wait_enter_def by (rule wait_sound)
qed

text \<open>Event loop threads.\<close>

lemma join_fields:
  "join_leaders t s = push_frame t Event_loop (s\<lparr>lf_leaders := lf_leaders s + of_bool (lf_el s t = 0 \<and> lf_cl s t = 0),
     lf_el := (lf_el s)(t := lf_el s t + 1)\<rparr>)"
  by (cases s) (simp add: join_leaders_def Let_def)

lemma join_sound:
  assumes T: "finite T" "t \<in> T" and i: "lf_inv T (join_leaders t s)" and r: "runs (lf_stack s t)" and el: "0 \<le> lf_el s t"
    and ok: "followers_ok s" "events_ok s" "clients_ok s"
  shows "sound (join_leaders t s)"
proof -
  let ?s = "s\<lparr>lf_leaders := lf_leaders s + of_bool (lf_el s t = 0 \<and> lf_cl s t = 0), lf_el := (lf_el s)(t := lf_el s t + 1)\<rparr>"
  have same: "sleepers ?s = sleepers s" using sleepers_same(11,12) by simp
  have p: "followers_ok ?s" "events_ok ?s" using sleepers_ok(1,2) [OF same] ok by simp_all
  have "\<not> sleeps (lf_stack ?s t)" using runs_awake [OF r] by simp
  then have "followers_ok (join_leaders t s)" "events_ok (join_leaders t s)"
    unfolding join_fields using push_ok [OF p(1)] events_push0 [OF p(2)] by simp_all
  moreover have "clients_ok (join_leaders t s)" using ok(3) unfolding join_fields by (simp add: clients_ok_def)
  moreover have "leads (join_leaders t s) t" using el unfolding join_fields by (simp add: leads_def active_def)
  then have "cared_for (join_leaders t s)" using cared_lead lf_inv_leads [OF T(1) i T(2)] by blast
  ultimately show ?thesis by (simp add: sound_def)
qed

lemma lf_inv_el: "lf_inv T s \<Longrightarrow> 0 \<le> lf_el s t"
  using roles_ge(1) by (auto simp: lf_inv_def counts_ok_def)

lemma enter_loop_sound:
  assumes T: "finite T" "t \<in> T" and i: "lf_inv T s" "lf_inv T (set_event_loop_thread t s)" and r: "runs (lf_stack s t)" and ok: "sound s"
  shows "sound (set_event_loop_thread t s)"
proof (cases "lf_client_leaders s \<noteq> 0 \<and> lf_cl s t = 0")
  case True
  let ?s = "s\<lparr>lf_loop_waiting := lf_loop_waiting s + 1\<rparr>"
  have e: "set_event_loop_thread t s = push_frame t Loop_waiting ?s" using True by (simp add: set_event_loop_thread_def)
  have p: "followers_ok ?s" "events_ok ?s" using sleepers_ok(1,2) [OF sleepers_same(10)] ok by (simp_all add: sound_def)
  have "\<not> sleeps (lf_stack ?s t)" using runs_awake [OF r] by simp
  then have "followers_ok (push_frame t Loop_waiting ?s)" "events_ok (push_frame t Loop_waiting ?s)"
    using push_ok [OF p(1)] events_push0 [OF p(2)] by simp_all
  moreover have "clients_ok (push_frame t Loop_waiting ?s)" using ok by (simp add: sound_def clients_ok_def)
  moreover have "lf_leaders s \<noteq> 0" using lf_inv_client_leaders [OF T(1) i(1)] ok True by (simp add: sound_def)
  then have "cared_for (push_frame t Loop_waiting ?s)" by (intro cared_lead) simp
  ultimately show ?thesis by (simp add: sound_def e)
next
  case False
  then have e: "set_event_loop_thread t s = join_leaders t s" by (auto simp: set_event_loop_thread_def)
  show ?thesis using join_sound [OF T _ r lf_inv_el [OF i(1)]] i(2) ok unfolding e by (simp add: sound_def)
qed

lemma loop_pop_ok:
  assumes i: "lf_inv T s" and ok: "sound s" and st: "lf_stack s t = f # fs" "f = Loop_waiting" and
    d: "s' = pop_frame t (s\<lparr>lf_signalled := (lf_signalled s)(t := False), lf_loop_waiting := n\<rparr>)"
  shows "followers_ok s'" "events_ok s'" "clients_ok s'" "runs (lf_stack s' t)"
proof -
  have r: "runs fs" by (rule lf_inv_tail [OF i st(1)])
  let ?q = "pop_frame t (s\<lparr>lf_signalled := (lf_signalled s)(t := False)\<rparr>)"
  have same: "sleepers s' = sleepers ?q" by (simp add: d sleepers_def)
  show "followers_ok s'" using sleepers_ok(1) [OF same] pop_ok [OF _ st(1) r] ok st(2) by (simp add: sound_def)
  show "events_ok s'" using events_same [OF events_pop [OF _ st(1)], of s'] ok d by (simp add: sound_def)
  show "clients_ok s'" using ok runs_facts(1) [OF r] st by (auto simp: sound_def clients_ok_def d)
  show "runs (lf_stack s' t)" using r st d by simp
qed

lemma loop_wake_sound:
  assumes T: "finite T" "t \<in> T" and i: "lf_inv T s" "lf_inv T (loop_wake t s)" and ok: "sound s" and st: "lf_stack s t = Loop_waiting # fs"
  shows "sound (loop_wake t s)"
proof -
  let ?q = "s\<lparr>lf_signalled := (lf_signalled s)(t := False)\<rparr>"
  let ?p = "pop_frame t (s\<lparr>lf_signalled := (lf_signalled s)(t := False), lf_loop_waiting := lf_loop_waiting s - 1\<rparr>)"
  show ?thesis
  proof (cases "lf_client_leaders s \<noteq> 0")
    case True
    then have e: "loop_wake t s = ?q" by (simp add: loop_wake_def Let_def)
    have n: "\<not> follows s t ev" for ev using st by (simp add: follows_def)
    have "followers_ok ?q"
    proof (rule followers_move [of s ?q t])
      show f: "followers_ok s" using ok by (simp add: sound_def)
      have nt: "t \<notin> set (lf_followers s)" using followersD(3) [OF f] n by blast
      then show "\<not> lf_signalled ?q t \<and> (\<exists>ev. follows ?q t ev \<and> lf_waits ev ?q)" if "t \<in> set (lf_followers ?q)" using that by simp
      show "(t \<in> set (lf_followers ?q) \<or> lf_signalled ?q t) \<and> lf_ev_follower ?q ev = Some t" if "follows ?q t ev" for ev
        using that st by (simp add: follows_def)
      show "follows ?q t ev" if "lf_ev_follower ?q ev = Some t" for ev using that followersD(6) [OF f, of ev t] n by simp
      show "distinct (lf_followers ?q)" using followersD(1) [OF f] by simp
    qed (simp_all add: lf_waits_def)
    moreover have "events_ok ?q" using ok events_same [of s ?q] by (simp add: sound_def)
    moreover have "clients_ok ?q" using ok by (simp add: sound_def clients_ok_def)
    moreover have "lf_leaders s \<noteq> 0" using lf_inv_client_leaders [OF T(1) i(1)] ok True by (simp add: sound_def)
    then have "cared_for ?q" by (intro cared_lead) simp
    ultimately show ?thesis by (simp add: sound_def e)
  next
    case False
    then have e: "loop_wake t s = join_leaders t ?p" by (simp add: loop_wake_def Let_def)
    note p = loop_pop_ok [OF i(1) ok st refl refl, of "lf_loop_waiting s - 1"]
    have "0 \<le> lf_el ?p t" using lf_inv_el [OF i(1)] by simp
    then show ?thesis using join_sound [OF T _ p(4) _ p(1-3)] i(2) unfolding e by simp
  qed
qed

lemma loop_timeout_sound:
  assumes i: "lf_inv T s" and ok: "sound s" and st: "lf_stack s t = Loop_waiting # fs"
  shows "sound (loop_timeout t s)"
proof -
  let ?p = "pop_frame t (s\<lparr>lf_signalled := (lf_signalled s)(t := False), lf_loop_waiting := lf_loop_waiting s - 1\<rparr>)"
  note p = loop_pop_ok [OF i ok st refl refl, of "lf_loop_waiting s - 1"]
  have e: "loop_timeout t s = push_frame t Loop_failed ?p" by (simp add: loop_timeout_def)
  have "followers_ok (loop_timeout t s)" "events_ok (loop_timeout t s)"
    unfolding e using push_ok [OF p(1) runs_awake [OF p(4)]] events_push0 [OF p(2)] by simp_all
  moreover have "clients_ok (loop_timeout t s)" using p(3) unfolding e by (simp add: clients_ok_def)
  moreover have "responsible (loop_timeout t s) t" unfolding e by (simp add: responsible_def)
  then have "cared_for (loop_timeout t s)" by (auto simp: cared_for_def)
  ultimately show ?thesis by (simp add: sound_def)
qed

lemma elect_sound:
  assumes "followers_ok s" "events_ok s" "clients_ok s" "waiters_ok s"
  shows "sound (elect_new_leader s)"
  using elect_ok [OF assms(1)] events_same [OF assms(2), of "elect_new_leader s"] assms(3) elect_cares [OF assms(1,4)]
  by (simp add: sound_def clients_ok_def)

lemma loop_done_sound:
  assumes i: "lf_inv T s" and ok: "sound s" and st: "lf_stack s t = f # fs" "f = Event_loop \<or> f = Loop_failed"
  shows "sound (loop_helper_done call_reset t s)"
proof -
  have r: "runs fs" by (rule lf_inv_tail [OF i st(1)])
  let ?s = "if call_reset then reset_event_loop_thread t s else s"
  have same: "sleepers ?s = sleepers s" using sleepers_same(9) by simp
  have st': "lf_stack ?s t = f # fs" using st(1) by simp
  have f: "\<not> is_following f" "\<not> sleeps (f # fs)" using st(2) by auto
  have "followers_ok (pop_frame t ?s)" "events_ok (pop_frame t ?s)"
    using pop_awake_ok [OF _ st' r f] events_pop [OF _ st'] sleepers_ok(1,2) [OF same] ok by (simp_all add: sound_def)
  moreover have "clients_ok (pop_frame t ?s)" using ok runs_facts(1) [OF r] st by (auto simp: sound_def clients_ok_def)
  moreover have "waiters_ok (pop_frame t ?s)"
    unfolding waiters_ok_def
  proof (intro impI)
    assume "lf_loop_waiting (pop_frame t ?s) \<noteq> 0"
    then obtain u where u: "loop_waits (lf_stack s u)" using lf_inv_waiters [OF i] by (auto simp: waiters_ok_def split: if_splits)
    then have "u \<noteq> t" using st by auto
    then show "\<exists>u. loop_waits (lf_stack (pop_frame t ?s) u)" using u by (intro exI [of _ u]) simp
  qed
  ultimately show ?thesis unfolding loop_helper_done_def by (rule elect_sound)
qed

lemma upcall_sound:
  assumes i: "lf_inv T s" and ok: "sound s"
  shows "sound (set_upcall_thread t s)"
proof -
  have w: "waiters_ok s" by (rule lf_inv_waiters [OF i])
  have "sound (elect_new_leader s')" if "sleepers s' = sleepers s" "clients_ok s'" "lf_loop_waiting s' = lf_loop_waiting s" for s'
  proof (rule elect_sound)
    have "lf_stack s' = lf_stack s" using that(1) by (simp add: sleepers_def)
    then show "waiters_ok s'" using w that(3) by (simp add: waiters_ok_def)
  qed (use sleepers_ok(1,2) [OF that(1)] ok that(2) in \<open>simp_all add: sound_def\<close>)
  moreover have "clients_ok (reset_event_loop_thread_i t s)" using ok by (simp add: sound_def clients_ok_def)
  moreover have "clients_ok (reset_client_leader_thread t s)" if "lf_cl s t = 1" using ok that by (simp add: sound_def clients_ok_def)
  ultimately show ?thesis using ok sleepers_same(4,8) by (simp add: set_upcall_thread_def)
qed

lemma lead_sound:
  assumes i: "lf_inv T s" and ok: "sound s" and st: "lf_stack s t = Leading ev left result # fs"
  shows "sound (lead t ev left result r left' s)"
proof -
  have rf: "runs fs" by (rule lf_inv_tail [OF i st])
  define f where "f = (if \<not> lf_waits ev s then Leaving ev left result
    else if r = 0 \<and> left' = Some 0 \<or> r = -1 \<or> lf_loop_waiting s \<noteq> 0 \<or> \<not> is_client_leader_thread t s then Leaving ev left' r
    else Leading ev left' r)"
  have f: "lead t ev left result r left' s = push_frame t f (pop_frame t s)" "frame_events f = [ev]" "\<not> is_following f"
    "\<not> suspended [f]" "\<not> loop_waits (f # gs)" for gs
    by (simp_all add: lead_def Let_def f_def)
  have p: "followers_ok (pop_frame t s)" "events_ok (pop_frame t s)" "fresh_event ev (pop_frame t s)"
    using ok pop_awake_ok [OF _ st rf] events_pop [OF _ st] fresh_pop [OF _ st] by (simp_all add: sound_def)
  have "\<not> sleeps (lf_stack (pop_frame t s) t)" using runs_awake [OF rf] st by simp
  then have "followers_ok (push_frame t f (pop_frame t s))" "events_ok (push_frame t f (pop_frame t s))"
    using push_ok [OF p(1)] events_push [OF p(2,3)] f by simp_all
  moreover have "suspended (f # fs) = suspended [f]" by (cases f) simp_all
  then have "clients_ok (push_frame t f (pop_frame t s))" using ok st f(4) by (simp add: sound_def clients_ok_def)
  moreover have "cared_for (push_frame t f (pop_frame t s))"
  proof (rule cared_mono [of s])
    show "cared_for s" using ok by (simp add: sound_def)
    show "responsible (push_frame t f (pop_frame t s)) u" if "responsible s u" for u
    proof -
      have "u \<noteq> t" using that st by (auto simp: responsible_def follows_def)
      then show ?thesis using that responsible_other [of "push_frame t f (pop_frame t s)" u s] by (simp add: lf_waits_def)
    qed
  qed simp_all
  ultimately show ?thesis by (simp add: sound_def f(1))
qed

lemma event_changed_sound:
  assumes ok: "sound s" and o: "lf_leaders s \<noteq> 0 \<or> lf_ev_follower s ev = None"
  shows "sound (event_changed ev new s)"
proof -
  let ?s = "event_changed ev new s"
  have f: "followers_ok s" using ok by (simp add: sound_def)
  have "cared_for ?s"
  proof (cases "lf_leaders s = 0")
    case True
    then have n: "lf_ev_follower s ev = None" using o by simp
    then have fi: "lf_followers ?s = lf_followers s" "lf_signalled ?s = lf_signalled s"
      by (simp_all add: event_changed_def Let_def)
    show ?thesis
    proof (rule cared_mono [of s])
      show "cared_for s" using ok by (simp add: sound_def)
      show "responsible ?s u" if "responsible s u" for u
      proof -
        have "lf_waits e ?s = lf_waits e s" if "follows s u e" for e
        proof -
          have "e \<noteq> ev" using followersD(5) [OF f that] n by auto
          then show ?thesis using n by (simp add: event_changed_def Let_def lf_waits_def)
        qed
        then show ?thesis using that responsible_other [of ?s u s] fi by simp
      qed
    qed (simp_all add: fi)
  next
    case False
    then show ?thesis by (intro cared_lead) simp
  qed
  then show ?thesis using ok event_changed_ok [OF f] events_same [of s ?s] by (simp add: sound_def clients_ok_def)
qed

lemma step_sound:
  assumes T: "finite T" and a: "set_option (actor l) \<subseteq> T" and i: "lf_inv T s" and ok: "sound s" and o: "obeys l s"
    and l: "lf_step l s = Some s'"
  shows "sound s'"
proof -
  have i': "lf_inv T s'" by (rule lf_inv_step [OF T i l a])
  show ?thesis
  proof (cases l)
    case (Enter_wait t ev left gen)
    then show ?thesis using l o enter_sound [OF i ok] by (auto simp: obeys_def split: if_splits)
  next
    case (Follower_wake t left gen)
    then show ?thesis using l a i' wake_sound [OF T _ i _ ok] by (auto split: list.splits frame.splits if_splits)
  next
    case (Follower_timeout t)
    then show ?thesis using l a i' timeout_sound [OF T _ i _ ok] by (auto split: list.splits frame.splits option.splits)
  next
    case (Lead t r left)
    then show ?thesis using l lead_sound [OF i ok] by (auto split: list.splits frame.splits if_splits)
  next
    case (Leave t gen)
    then show ?thesis using l leave_sound [OF i ok] by (auto split: list.splits frame.splits)
  next
    case (Resume t gen)
    then show ?thesis using l resume_sound [OF i ok] by (auto split: list.splits frame.splits)
  next
    case (Enter_loop t)
    then show ?thesis using l a i' enter_loop_sound [OF T _ i _ _ ok] by (auto split: if_splits)
  next
    case (Loop_wake t)
    then show ?thesis using l a i' loop_wake_sound [OF T _ i _ ok] by (auto split: list.splits frame.splits)
  next
    case (Loop_timeout t)
    then show ?thesis using l loop_timeout_sound [OF i ok] by (auto split: list.splits frame.splits)
  next
    case (Loop_done t)
    then show ?thesis using l loop_done_sound [OF i ok] by (auto split: list.splits frame.splits)
  next
    case (Set_upcall t)
    then show ?thesis using l upcall_sound [OF i ok] by (auto split: if_splits)
  next
    case (Event_changed ev new)
    then show ?thesis using l o event_changed_sound [OF ok] by (auto simp: obeys_def)
  next
    case (Defer h)
    then have s': "s' = defer_event h s" using l by simp
    show ?thesis using ok sleepers_ok(1,2) [OF sleepers_same(6), of h s] cared_same [of s s'] sleepers_same(6) [of h s]
      unfolding s' by (simp add: sound_def clients_ok_def)
  qed
qed

end
