(* ===== verification/Leader_Follower_Spec.thy ===== *)
theory Leader_Follower_Spec
  imports Leader_Follower_Sound
begin

text \<open>
  What the Leader/Followers loop promises: its counters count, a successful wait means a successful
  event, and no follower is left without a leader when nobody leads and threads wait. The last
  holds under two conditions that the code does not enforce, and fails without either.
\<close>

section \<open>Runs\<close>

fun obeys_run :: "lf_label list \<Rightarrow> lf_state \<Rightarrow> bool" where
  "obeys_run [] s \<longleftrightarrow> True"
| "obeys_run (l # ls) s \<longleftrightarrow> obeys l s \<and> (case lf_step l s of Some s' \<Rightarrow> obeys_run ls s' | None \<Rightarrow> True)"

definition actors :: "lf_label list \<Rightarrow> thread set" where
  "actors ls = (\<Union>l\<in>set ls. set_option (actor l))"

lemma run_sound:
  assumes T: "finite T"
  shows "lf_inv T s \<Longrightarrow> sound s \<Longrightarrow> lf_run ls s = Some s' \<Longrightarrow> actors ls \<subseteq> T \<Longrightarrow> obeys_run ls s \<Longrightarrow> lf_inv T s' \<and> sound s'"
proof (induction ls arbitrary: s)
  case (Cons l ls)
  obtain s1 where s1: "lf_step l s = Some s1" "lf_run ls s1 = Some s'" using Cons.prems(3) by (auto split: option.splits)
  have a: "set_option (actor l) \<subseteq> T" "actors ls \<subseteq> T" using Cons.prems(4) by (auto simp: actors_def)
  have o: "obeys l s" "obeys_run ls s1" using Cons.prems(5) s1(1) by simp_all
  show ?case
    by (rule Cons.IH [OF lf_inv_step [OF T Cons.prems(1) s1(1) a(1)] step_sound [OF T a(1) Cons.prems(1,2) o(1) s1(1)] s1(2) a(2) o(2)])
qed simp

lemma sound_new: "sound lf_new"
  by (simp add: sound_def followers_ok_def events_ok_def clients_ok_def cared_for_def needs_leader_def lf_new_def follows_def)

section \<open>Progress\<close>

text \<open>What threads do of their own accord: a sleeper that was signalled, a thread that yields, a helper that ends.\<close>

definition wakes :: "lf_label \<Rightarrow> lf_state \<Rightarrow> bool" where
  "wakes l s \<longleftrightarrow> (case l of
       Follower_wake t left gen \<Rightarrow> lf_signalled s t
     | Loop_wake t \<Rightarrow> lf_signalled s t
     | Resume t gen \<Rightarrow> True
     | Loop_done t \<Rightarrow> (case lf_stack s t of Loop_failed # fs \<Rightarrow> True | _ \<Rightarrow> False)
     | _ \<Rightarrow> False)"

fun wakes_run :: "lf_label list \<Rightarrow> lf_state \<Rightarrow> bool" where
  "wakes_run [] s \<longleftrightarrow> True"
| "wakes_run (l # ls) s \<longleftrightarrow> wakes l s \<and> (case lf_step l s of Some s' \<Rightarrow> wakes_run ls s' | None \<Rightarrow> False)"

lemma wakes_obeys: "wakes l s \<Longrightarrow> obeys l s"
  by (cases l) (simp_all add: wakes_def obeys_def)

definition frames :: "thread set \<Rightarrow> lf_state \<Rightarrow> nat" where
  "frames T s = (\<Sum>t\<in>T. length (lf_stack s t))"

lemma frames_less:
  assumes "finite T" "t \<in> T" "only t s s'" "lf_stack s t = f # fs" "lf_stack s' t = fs"
  shows "frames T s' < frames T s"
proof -
  have "(\<Sum>u\<in>T - {t}. length (lf_stack s' u)) = (\<Sum>u\<in>T - {t}. length (lf_stack s u))"
    using assms(3) by (intro sum.cong) (simp_all add: only_def)
  then show ?thesis using assms(1,2,4,5) by (simp add: frames_def sum.remove [of T t])
qed

lemma responsible_acts:
  assumes T: "finite T" and i: "lf_inv T s" and ok: "sound s" and l0: "lf_leaders s = 0" and u: "responsible s u"
  shows "\<exists>l s'. wakes l s \<and> actor l = Some u \<and> u \<in> T \<and> lf_step l s = Some s' \<and> (lf_leaders s' \<noteq> 0 \<or> frames T s' < frames T s)"
proof -
  have ne: "lf_stack s u \<noteq> []" using u by (auto simp: responsible_def follows_def)
  then have uT: "u \<in> T" using i by (auto simp: lf_inv_def)
  obtain f fs where st: "lf_stack s u = f # fs" using ne by (cases "lf_stack s u") auto
  note step = step_out [OF _ lf_inv_in [OF i]]
  have r: "runs fs" by (rule lf_inv_tail [OF i st])
  have a: "\<not> lf_avoid_client_leader s" using ok by (simp add: sound_def clients_ok_def)
  show ?thesis
  proof (cases f)
    case (Following ev left result)
    then have st': "lf_stack s u = Following ev left result # fs" using st by simp
    then have w: "lf_signalled s u" "lf_waits ev s" using u not_responsible by blast+
    have e: "\<not> invocation_successful_i (lf_ev_state s ev)" "\<not> invocation_error_detected_i (lf_ev_state s ev)"
      using w(2) by (simp_all add: lf_waits_def keep_waiting_i_def)
    have "time_goes left left" by (simp add: time_goes_def split: option.split)
    then have s: "lf_step (Follower_wake u left False) s = Some (follower_wake u ev left result False s)" using st' by simp
    have "lf_leaders (follower_wake u ev left result False s) \<noteq> 0"
      using l0 e a by (simp add: follower_wake_def Let_def leader_available_def become_leader_def set_client_leader_thread_def lf_waits_def)
    then show ?thesis using s w(1) uT by (intro exI [of _ "Follower_wake u left False"]) (simp add: wakes_def)
  next
    case Loop_waiting
    then have st': "lf_stack s u = Loop_waiting # fs" using st by simp
    then have w: "lf_signalled s u" using u by (auto simp: responsible_def follows_def)
    have c: "lf_client_leaders s = 0" using lf_inv_client_leaders [OF T i] ok l0 by (auto simp: sound_def)
    have s: "lf_step (Loop_wake u) s = Some (loop_wake u s)" using st' by simp
    have i': "lf_inv T (loop_wake u s)" by (rule lf_inv_step [OF T i s]) (use uT in simp)
    have "leads (loop_wake u s) u"
      using c lf_inv_el [OF i, of u] by (simp add: loop_wake_def Let_def join_fields leads_def active_def)
    then have "lf_leaders (loop_wake u s) \<noteq> 0" using lf_inv_leads [OF T i' uT] by blast
    then show ?thesis using s w uT by (intro exI [of _ "Loop_wake u"]) (simp add: wakes_def)
  next
    case Loop_failed
    have s: "lf_step (Loop_done u) s = Some (loop_helper_done False u s)" using st Loop_failed by simp
    have o: "only u s (loop_helper_done False u s)" using step [OF s] by (simp add: out_ok_def)
    have "lf_stack (loop_helper_done False u s) u = fs" using st by (simp add: loop_helper_done_def)
    then have "frames T (loop_helper_done False u s) < frames T s" by (rule frames_less [OF T uT o st])
    then show ?thesis using s uT st Loop_failed by (intro exI [of _ "Loop_done u"]) (simp add: wakes_def)
  next
    case (Yielding ev left result)
    let ?p = "pop_frame u s" and ?s = "wait_loop u ev left result False (pop_frame u s)"
    have s: "lf_step (Resume u False) s = Some ?s" using st Yielding by simp
    have o: "only u s ?s" using step [OF s] by (simp add: out_ok_def)
    have "lf_leaders ?s \<noteq> 0 \<or> frames T ?s < frames T s"
    proof (cases "lf_waits ev ?p \<and> \<not> (result = 0 \<and> left = Some 0) \<and> result \<noteq> -1")
      case True
      then have "?s = become_leader u ev left result False ?p" using l0 by (simp add: wait_loop_def leader_available_def)
      then show ?thesis using a l0 by (simp add: become_leader_def set_client_leader_thread_def)
    next
      case False
      then have "?s = wait_exit u ev left result ?p" by (auto simp: wait_loop_def)
      then have "lf_stack ?s u = fs" using st by (simp add: wait_exit_def Let_def)
      then show ?thesis using frames_less [OF T uT o st] by blast
    qed
    then show ?thesis using s uT by (intro exI [of _ "Resume u False"]) (simp add: wakes_def)
  qed (use u st in \<open>simp_all add: responsible_def follows_def\<close>)
qed

lemma someone_leads:
  assumes T: "finite T"
  shows "lf_inv T s \<Longrightarrow> sound s \<Longrightarrow> \<exists>ls s'. wakes_run ls s \<and> lf_run ls s = Some s'
    \<and> (lf_leaders s' \<noteq> 0 \<or> lf_loop_waiting s' = 0 \<and> (\<forall>t ev. follows s' t ev \<longrightarrow> \<not> lf_waits ev s'))"
proof (induction "frames T s" arbitrary: s rule: less_induct)
  case less
  show ?case
  proof (cases "lf_leaders s = 0 \<and> (\<exists>u. responsible s u)")
    case True
    then obtain u where u: "lf_leaders s = 0" "responsible s u" by blast
    obtain l s1 where l: "wakes l s" "actor l = Some u" "u \<in> T" "lf_step l s = Some s1" "lf_leaders s1 \<noteq> 0 \<or> frames T s1 < frames T s"
      using responsible_acts [OF T less.prems u] by blast
    have s1: "lf_inv T s1" "sound s1"
      using lf_inv_step [OF T less.prems(1) l(4)] step_sound [OF T _ less.prems wakes_obeys [OF l(1)] l(4)] l(2,3) by simp_all
    show ?thesis
    proof (cases "lf_leaders s1 = 0")
      case True
      then obtain ls s' where "wakes_run ls s1" "lf_run ls s1 = Some s'"
        "lf_leaders s' \<noteq> 0 \<or> lf_loop_waiting s' = 0 \<and> (\<forall>t ev. follows s' t ev \<longrightarrow> \<not> lf_waits ev s')"
        using less.hyps [OF _ s1] l(5) by blast
      then show ?thesis using l(1,4) by (intro exI [of _ "l # ls"] exI [of _ s']) simp
    next
      case False
      then show ?thesis using l(1,4) by (intro exI [of _ "[l]"] exI [of _ s1]) simp
    qed
  next
    case False
    have "lf_loop_waiting s = 0 \<and> (\<forall>t ev. follows s t ev \<longrightarrow> \<not> lf_waits ev s)" if l0: "lf_leaders s = 0"
    proof -
      have n: "\<not> responsible s u" for u using False l0 by blast
      then have nl: "\<not> needs_leader s" using less.prems(2) l0 by (auto simp: sound_def cared_for_def)
      have "\<not> lf_waits ev s" if f: "follows s t ev" for t ev
      proof
        assume "lf_waits ev s"
        moreover have "lf_signalled s t"
          using followersD(4) [OF _ f] less.prems(2) nl by (auto simp: sound_def needs_leader_def)
        ultimately have "responsible s t" using f by (auto simp: responsible_def)
        then show False using n by blast
      qed
      then show ?thesis using nl by (simp add: needs_leader_def)
    qed
    then show ?thesis by (intro exI [of _ "[]"] exI [of _ s]) auto
  qed
qed

section \<open>Properties\<close>

text \<open>
  (C7) However threads wait, run the event loop, are called back and nest all this: the number of leaders
  is the number of threads that lead, the number of client leaders the sum of the levels at which
  threads lead as clients, and the numbers of clients and of waiting event loop threads are those of the
  calls that are active. No count is lost and none is left behind.
\<close>
theorem leader_counts:
  assumes "finite T" and "actors ls \<subseteq> T" and "lf_run ls lf_new = Some s"
  shows "lf_leaders s = int (card {t \<in> T. leads s t}) \<and> lf_client_leaders s = (\<Sum>t\<in>T. lf_cl s t)
    \<and> lf_clients s = (\<Sum>t\<in>T. client_frames (lf_stack s t)) \<and> lf_loop_waiting s = int (card {t \<in> T. loop_waits (lf_stack s t)})
    \<and> (\<forall>t. lf_stack s t = [] \<longrightarrow> lf_el s t = 0 \<and> lf_cl s t = 0)"
proof -
  have "\<forall>l\<in>set ls. set_option (actor l) \<subseteq> T" using assms(2) by (auto simp: actors_def)
  then have i: "lf_inv T s" using lf_inv_run [OF assms(1) lf_inv_new assms(3)] by blast
  have c: "(\<Sum>t\<in>T. of_bool (P t)) = int (card {t \<in> T. P t})" for P
    using assms(1) by (simp add: sum_of_bool_eq Int_def)
  have "lf_el s t = 0 \<and> lf_cl s t = 0" if "lf_stack s t = []" for t
    using i that roles_nil by (metis counts_ok_def lf_inv_def)
  then show ?thesis using i unfolding lf_inv_def counts_ok_def c by blast
qed

text \<open>
  (C6) No follower is left without a leader: when an event that a follower sleeps on is changed only
  while some thread leads, and no thread waits inside a handler that it runs as a client leader, then
  in every state either a thread leads, or the threads that were signalled make one of them lead, or
  nobody waits for an unfinished event.
\<close>
theorem no_follower_left_alone:
  assumes "finite T" and "actors ls \<subseteq> T" and "lf_run ls lf_new = Some s" and "obeys_run ls lf_new"
  shows "\<exists>ls' s'. wakes_run ls' s \<and> lf_run ls' s = Some s'
    \<and> (lf_leaders s' \<noteq> 0 \<or> lf_loop_waiting s' = 0 \<and> (\<forall>t ev. follows s' t ev \<longrightarrow> \<not> lf_waits ev s'))"
  using someone_leads [OF assms(1)] run_sound [OF assms(1) lf_inv_new sound_new assms(3,2,4)] by blast

lemma event_result_success:
  assumes "\<not> (lf_waits ev s \<and> \<not> (result = 0 \<and> left = Some 0) \<and> result \<noteq> -1)" and "0 \<le> event_result ev left result s'"
    and "lf_ev_state s' = lf_ev_state s"
  shows "invocation_successful_i (lf_ev_state s' ev)"
  using assms by (auto simp: event_result_def lf_waits_def keep_waiting_i_def split: if_splits)

text \<open>What a step adds to the log.\<close>

definition log_ok :: "lf_state \<Rightarrow> lf_state \<Rightarrow> bool" where
  "log_ok s s' \<longleftrightarrow> lf_log s' = lf_log s
     \<or> (\<exists>t ev r. lf_log s' = lf_log s @ [(t, ev, r)] \<and> (0 \<le> r \<longrightarrow> invocation_successful_i (lf_ev_state s' ev)))"

lemma log_same [simp]:
  "lf_log (push_frame t f s) = lf_log s" "lf_log (pop_frame t s) = lf_log s" "lf_log (add_follower t s) = lf_log s"
  "lf_log (remove_follower t s) = lf_log s" "lf_log (bind_event ev t s) = lf_log s" "lf_log (unbind_event ev s) = lf_log s"
  "lf_log (elect_new_leader s) = lf_log s" "lf_log (reset_client_thread t s) = lf_log s" "lf_log (set_client_thread t s) = lf_log s"
  "lf_log (set_client_leader_thread t s) = lf_log s" "lf_log (reset_client_leader_thread t s) = lf_log s" "lf_log (resume_events s) = lf_log s"
  "lf_log (defer_event h s) = lf_log s" "lf_log (event_changed ev new s) = lf_log s" "lf_log (reset_event_loop_thread_i t s) = lf_log s"
  "lf_log (reset_event_loop_thread t s) = lf_log s" "lf_log (join_leaders t s) = lf_log s"
  "lf_log (lf_return t ev r s) = lf_log s @ [(t, ev, r)]" "lf_ev_state (lf_return t ev r s) = lf_ev_state s"
  "lf_ev_state (elect_new_leader s) = lf_ev_state s" "lf_ev_state (reset_client_thread t s) = lf_ev_state s"
  by (simp_all add: push_frame_def pop_frame_def add_follower_def remove_follower_def bind_event_def unbind_event_def elect_new_leader_def
      elect_new_leader_i_def broadcast_loop_threads_def follower_signal_def reset_client_thread_def set_client_thread_def set_client_leader_thread_def
      lf_return_def reset_client_leader_thread_def resume_events_def defer_event_def event_changed_def reset_event_loop_thread_def
      reset_event_loop_thread_i_def join_leaders_def Let_def split: option.split)

lemma wait_loop_log: "lf_log s = lf_log s0 \<Longrightarrow> log_ok s0 (wait_loop t ev left result gen s)"
  using event_result_success [of ev s result left "elect_new_leader (reset_client_thread t s)"]
  by (auto simp: log_ok_def wait_loop_def wait_exit_def become_leader_def Let_def)

lemma step_log:
  assumes "lf_step l s = Some s'"
  shows "log_ok s s'"
proof (cases l)
  case (Enter_wait t ev left gen)
  then show ?thesis using assms wait_loop_log [of "set_client_thread t s" s] by (auto simp: wait_enter_def split: if_splits)
next
  case (Follower_wake t left gen)
  have "log_ok s (follower_wake t ev left result gen s)" for ev result
    by (simp add: log_ok_def follower_wake_def become_leader_def Let_def)
  then show ?thesis using assms Follower_wake by (auto split: list.splits frame.splits if_splits)
next
  case (Follower_timeout t)
  have "log_ok s (follower_timeout t ev s)" for ev by (simp add: log_ok_def follower_timeout_def Let_def)
  then show ?thesis using assms Follower_timeout by (auto split: list.splits frame.splits option.splits)
next
  case (Lead t r left)
  have "log_ok s (lead t ev left0 result r left s)" for ev left0 result by (simp add: log_ok_def lead_def Let_def)
  then show ?thesis using assms Lead by (auto split: list.splits frame.splits if_splits)
next
  case (Leave t gen)
  have "log_ok s (leave t ev left result gen s)" for ev left result
    using wait_loop_log [of "resume_events (reset_client_leader_thread t (pop_frame t s))" s] by (simp add: leave_def Let_def log_ok_def)
  then show ?thesis using assms Leave by (auto split: list.splits frame.splits)
next
  case (Resume t gen)
  then show ?thesis using assms wait_loop_log [of "pop_frame t s" s] by (auto split: list.splits frame.splits)
next
  case (Loop_done t)
  have "log_ok s (loop_helper_done b t s)" for b by (simp add: log_ok_def loop_helper_done_def)
  then show ?thesis using assms Loop_done by (auto split: list.splits frame.splits)
qed (use assms in \<open>auto simp: log_ok_def set_event_loop_thread_def loop_wake_def loop_timeout_def set_upcall_thread_def Let_def
  split: list.splits frame.splits if_splits\<close>)

text \<open>
  (C40) \<open>wait_for_event\<close> reports success only for an event that was successful: whenever a step ends a
  call with a result that is not negative, the event is in the state \<open>LFS_SUCCESS\<close>.
\<close>
theorem wait_succeeds_with_event:
  assumes "lf_step l s = Some s'" and "lf_log s' = lf_log s @ [(t, ev, r)]" and "0 \<le> r"
  shows "invocation_successful_i (lf_ev_state s' ev)"
  using step_log [OF assms(1)] assms(2,3) by (auto simp: log_ok_def)

text \<open>Every thread sleeps and none was signalled, while \<open>t\<close> waits for an event that is not complete.\<close>

definition deserted :: "lf_state \<Rightarrow> thread \<Rightarrow> bool" where
  "deserted s t \<longleftrightarrow> lf_leaders s = 0 \<and> (\<exists>ev. follows s t ev \<and> lf_waits ev s)
     \<and> (\<forall>u. lf_stack s u = [] \<or> sleeps (lf_stack s u) \<and> \<not> lf_signalled s u)"

text \<open>No thread can make a step of its own accord.\<close>

definition nobody_wakes :: "lf_state \<Rightarrow> bool" where
  "nobody_wakes s \<longleftrightarrow> (\<forall>l. wakes l s \<longrightarrow> lf_step l s = None)"

lemma deserted_step: "deserted s t \<Longrightarrow> wakes l s \<Longrightarrow> lf_step l s = None"
  by (cases l) (auto simp: deserted_def wakes_def split: list.splits frame.splits dest!: spec [of _ "the (actor l)"])

lemma deserted_sleeps: "deserted s t \<Longrightarrow> nobody_wakes s"
  by (simp add: nobody_wakes_def deserted_step)

text \<open>
  (C14) A follower that was elected gives the election away when its event completes before it wakes up,
  as when another thread sends the message it waits for: \<open>wait_for_event\<close> returns on that path without
  electing again. Here thread 0 leads, threads 1 and 2 follow, 0 is done and elects 1, the
  event of 1 is completed, 1 returns: 2 sleeps and no thread leads.
\<close>
theorem elected_follower_drops_election:
  "\<exists>s. lf_run [Enter_wait 0 0 None False, Enter_wait 1 1 None False, Enter_wait 2 2 None False, Event_changed 0 LFS_SUCCESS,
      Lead 0 1 None, Leave 0 False, Event_changed 1 LFS_SUCCESS, Follower_wake 1 None False] lf_new = Some s
    \<and> lf_log s = [(0, 0, 1), (1, 1, 0)] \<and> deserted s 2 \<and> nobody_wakes s"
proof -
  let ?ls = "[Enter_wait 0 0 None False, Enter_wait 1 1 None False, Enter_wait 2 2 None False, Event_changed 0 LFS_SUCCESS,
      Lead 0 1 None, Leave 0 False, Event_changed 1 LFS_SUCCESS, Follower_wake 1 None False]"
  have "case lf_run ?ls lf_new of None \<Rightarrow> False | Some s \<Rightarrow> lf_log s = [(0, 0, 1), (1, 1, 0)] \<and> lf_leaders s = 0 \<and> lf_stack s 0 = []
      \<and> lf_stack s 1 = [] \<and> lf_stack s 2 = [Following 2 None 1] \<and> lf_waits 2 s \<and> \<not> lf_signalled s 2"
    by code_simp
  then obtain s where s: "lf_run ?ls lf_new = Some s" "lf_log s = [(0, 0, 1), (1, 1, 0)]" "lf_leaders s = 0" "lf_stack s 0 = []"
      "lf_stack s 1 = []" "lf_stack s 2 = [Following 2 None 1]" "lf_waits 2 s" "\<not> lf_signalled s 2"
    by (auto split: option.splits)
  have "lf_inv {0, 1, 2} s" by (rule lf_inv_run [OF _ lf_inv_new s(1)]) simp_all
  then have o: "lf_stack s u = []" if "u \<notin> {0, 1, 2}" for u using that by (simp only: lf_inv_def) blast
  have "lf_stack s u = [] \<or> sleeps (lf_stack s u) \<and> \<not> lf_signalled s u" for u
  proof -
    consider "u \<notin> {0, 1, 2}" | "u = 0" | "u = 1" | "u = 2" by auto
    then show ?thesis by cases (use o s(4-6,8) in simp_all)
  qed
  moreover have "\<exists>ev. follows s 2 ev \<and> lf_waits ev s" using s(6,7) follows_here by blast
  ultimately have "deserted s 2" using s(3) by (simp add: deserted_def)
  then show ?thesis using s(1,2) deserted_sleeps by blast
qed

text \<open>
  (C13) A client leader that waits again inside a handler blocks the event loop threads for as long
  as it waits, while the election prefers them: here thread 0 leads and waits again inside a handler, 1 runs the
  event loop, 0 yields to it, 2 comes in and leads, 0 follows, 2 is done and elects 1,
  which finds a client leader and sleeps again: no thread leads, and 0 waits forever.
\<close>
theorem nested_client_leader_blocks:
  "\<exists>s. lf_run [Enter_wait 0 0 None False, Enter_wait 0 1 None False, Enter_loop 1, Lead 0 1 None, Leave 0 False,
      Enter_wait 2 2 None False, Resume 0 False, Event_changed 2 LFS_SUCCESS, Lead 2 1 None, Leave 2 False, Resume 2 False, Loop_wake 1]
      lf_new = Some s
    \<and> lf_log s = [(2, 2, 1)] \<and> deserted s 0 \<and> loop_waits (lf_stack s 1) \<and> nobody_wakes s"
proof -
  let ?ls = "[Enter_wait 0 0 None False, Enter_wait 0 1 None False, Enter_loop 1, Lead 0 1 None, Leave 0 False,
      Enter_wait 2 2 None False, Resume 0 False, Event_changed 2 LFS_SUCCESS, Lead 2 1 None, Leave 2 False, Resume 2 False, Loop_wake 1]"
  have "case lf_run ?ls lf_new of None \<Rightarrow> False | Some s \<Rightarrow> lf_log s = [(2, 2, 1)] \<and> lf_leaders s = 0
      \<and> lf_stack s 0 = [Following 1 None 1, Leading 0 None 1] \<and> lf_stack s 1 = [Loop_waiting] \<and> lf_stack s 2 = [] \<and> lf_waits 1 s
      \<and> \<not> lf_signalled s 0 \<and> \<not> lf_signalled s 1"
    by code_simp
  then obtain s where s: "lf_run ?ls lf_new = Some s" "lf_log s = [(2, 2, 1)]" "lf_leaders s = 0"
      "lf_stack s 0 = [Following 1 None 1, Leading 0 None 1]" "lf_stack s 1 = [Loop_waiting]" "lf_stack s 2 = []" "lf_waits 1 s"
      "\<not> lf_signalled s 0" "\<not> lf_signalled s 1"
    by (auto split: option.splits)
  have "lf_inv {0, 1, 2} s" by (rule lf_inv_run [OF _ lf_inv_new s(1)]) simp_all
  then have o: "lf_stack s u = []" if "u \<notin> {0, 1, 2}" for u using that by (simp only: lf_inv_def) blast
  have "lf_stack s u = [] \<or> sleeps (lf_stack s u) \<and> \<not> lf_signalled s u" for u
  proof -
    consider "u \<notin> {0, 1, 2}" | "u = 0" | "u = 1" | "u = 2" by auto
    then show ?thesis by cases (use o s(4-6,8,9) in simp_all)
  qed
  moreover have "\<exists>ev. follows s 0 ev \<and> lf_waits ev s" using s(4,7) follows_here by blast
  ultimately have d: "deserted s 0" using s(3) by (simp add: deserted_def)
  have "loop_waits (lf_stack s 1)" using s(5) by simp
  then show ?thesis using s(1,2) d deserted_sleeps by blast
qed

section \<open>Witnesses\<close>

definition hand_over :: "lf_label list" where
  "hand_over = [Enter_wait 0 0 None False, Enter_wait 1 1 None False, Event_changed 0 LFS_SUCCESS, Lead 0 1 None, Leave 0 False]"

lemma lf_run_append: "lf_run (xs @ ys) s = (case lf_run xs s of Some s' \<Rightarrow> lf_run ys s' | None \<Rightarrow> None)"
  by (induction xs arbitrary: s) (simp_all split: option.split)

lemma hand_over_run: "\<exists>s. lf_run hand_over lf_new = Some s \<and> lf_leaders s = 0 \<and> lf_stack s 1 = [Following 1 None 1]"
proof -
  have "case lf_run hand_over lf_new of None \<Rightarrow> False | Some s \<Rightarrow> lf_leaders s = 0 \<and> lf_stack s 1 = [Following 1 None 1]"
    by code_simp
  then show ?thesis by (auto split: option.splits)
qed

lemma hand_over_actors: "actors hand_over \<subseteq> {0, 1}"
  by (simp add: actors_def hand_over_def)

lemma hand_over_obeys: "obeys_run hand_over lf_new"
  by (simp add: hand_over_def obeys_def lf_new_def fresh_event_def wait_enter_def wait_loop_def set_client_thread_def Let_def lf_waits_def
      keep_waiting_iff leader_available_def become_leader_def set_client_leader_thread_def push_frame_def add_follower_def bind_event_def
      event_changed_def lead_def split: option.split)

theorem leader_counts_witness:
  "\<exists>s. lf_run hand_over lf_new = Some s \<and> lf_leaders s = int (card {t \<in> {0, 1}. leads s t}) \<and> lf_clients s = 1"
proof -
  obtain s where s: "lf_run hand_over lf_new = Some s" "lf_stack s 1 = [Following 1 None 1]" using hand_over_run by blast
  have c: "case lf_run hand_over lf_new of None \<Rightarrow> False | Some s \<Rightarrow> lf_stack s 0 = []" by code_simp
  have "finite {0, 1 :: thread}" by simp
  from leader_counts [OF this hand_over_actors s(1)] show ?thesis using s c by (simp add: client_frames_def)
qed

theorem no_follower_left_alone_witness:
  "\<exists>s ls' s'. lf_run hand_over lf_new = Some s \<and> wakes_run ls' s \<and> lf_run ls' s = Some s'
    \<and> (lf_leaders s' \<noteq> 0 \<or> lf_loop_waiting s' = 0 \<and> (\<forall>t ev. follows s' t ev \<longrightarrow> \<not> lf_waits ev s'))"
proof -
  obtain s where s: "lf_run hand_over lf_new = Some s" using hand_over_run by blast
  have "finite {0, 1 :: thread}" by simp
  from no_follower_left_alone [OF this hand_over_actors s hand_over_obeys] show ?thesis using s by blast
qed

theorem wait_succeeds_with_event_witness:
  "\<exists>s. lf_run hand_over lf_new = Some s \<and> lf_log s = [(0, 0, 1)] \<and> invocation_successful_i (lf_ev_state s 0)"
proof -
  let ?ls = "[Enter_wait 0 0 None False, Enter_wait 1 1 None False, Event_changed 0 LFS_SUCCESS, Lead 0 1 None]"
  have "case lf_run ?ls lf_new of None \<Rightarrow> False | Some s \<Rightarrow> lf_log s = []
      \<and> (case lf_step (Leave 0 False) s of None \<Rightarrow> False | Some s' \<Rightarrow> lf_log s' = [(0, 0, 1)] \<and> lf_run hand_over lf_new \<noteq> None)"
    by code_simp
  then obtain s s' where s: "lf_run ?ls lf_new = Some s" "lf_step (Leave 0 False) s = Some s'" "lf_log s' = lf_log s @ [(0, 0, 1)]" "lf_log s = []"
    by (auto split: option.splits)
  have h: "hand_over = ?ls @ [Leave 0 False]" by (simp add: hand_over_def)
  have "lf_run hand_over lf_new = Some s'" unfolding h lf_run_append s(1) by (simp only: option.case lf_run.simps s(2))
  then show ?thesis using wait_succeeds_with_event [OF s(2,3)] s(3,4) by simp
qed

end
